(* ===== verification/Prelude.thy ===== *)
theory Prelude
  imports Main "HOL-Library.Word"
begin

text \<open>
  Shared vocabulary of the development: the C integer types of an AArch64 build, the
  result codes of \<^verbatim>\<open>lib/libutee/include/tee_api_defines.h\<close>, the outcome of a function that
  may panic, and the generic lemmas on words and lists that the component theories use.
\<close>

section \<open>C integer types\<close>

type_synonym u8 = "8 word"
type_synonym u16 = "16 word"
type_synonym u32 = "32 word"
type_synonym u64 = "64 word"
type_synonym size_t = "64 word"
type_synonym paddr_t = "64 word"

text \<open>A C \<^verbatim>\<open>int\<close>: its 32 bits, read as a number with \<open>sint\<close>.\<close>

type_synonym cint = "32 word"

text \<open>Addresses handed out by an allocator; only their identity matters.\<close>

type_synonym addr = nat

section \<open>Outcomes\<close>

text \<open>A call either returns or ends in \<^verbatim>\<open>panic()\<close> (a failing \<^verbatim>\<open>assert\<close> panics as well).\<close>

datatype 'a outcome = Ret 'a | Panic

primrec bind_outcome :: "'a outcome \<Rightarrow> ('a \<Rightarrow> 'b outcome) \<Rightarrow> 'b outcome" where
  "bind_outcome (Ret x) f = f x"
| "bind_outcome Panic f = Panic"

lemma bind_outcome_Ret_iff [simp]:
  "bind_outcome m f = Ret y \<longleftrightarrow> (\<exists>x. m = Ret x \<and> f x = Ret y)"
  by (cases m) auto

text \<open>A call may also wait for something that never happens.\<close>

datatype 'a call = Returns 'a | Panics | Hangs

fun bind_call :: "'a call \<Rightarrow> ('a \<Rightarrow> 'b call) \<Rightarrow> 'b call" where
  "bind_call (Returns x) f = f x"
| "bind_call Panics f = Panics"
| "bind_call Hangs f = Hangs"

fun of_outcome :: "'a outcome \<Rightarrow> 'a call" where
  "of_outcome (Ret x) = Returns x"
| "of_outcome Panic = Panics"

datatype tee_result =
    TEE_SUCCESS
  | TEE_ERROR_CORRUPT_OBJECT
  | TEE_ERROR_GENERIC
  | TEE_ERROR_ACCESS_DENIED
  | TEE_ERROR_CANCEL
  | TEE_ERROR_ACCESS_CONFLICT
  | TEE_ERROR_EXCESS_DATA
  | TEE_ERROR_BAD_FORMAT
  | TEE_ERROR_BAD_PARAMETERS
  | TEE_ERROR_BAD_STATE
  | TEE_ERROR_ITEM_NOT_FOUND
  | TEE_ERROR_NOT_IMPLEMENTED
  | TEE_ERROR_NOT_SUPPORTED
  | TEE_ERROR_NO_DATA
  | TEE_ERROR_OUT_OF_MEMORY
  | TEE_ERROR_BUSY
  | TEE_ERROR_COMMUNICATION
  | TEE_ERROR_SECURITY
  | TEE_ERROR_SHORT_BUFFER
  | TEE_ERROR_OVERFLOW
  | TEE_ERROR_TARGET_DEAD
  | TEE_ERROR_STORAGE_NO_SPACE
  | TEE_ERROR_MAC_INVALID
  | TEE_ERROR_SIGNATURE_INVALID

section \<open>Words\<close>

named_theorems unat_simps \<open>rules that move word expressions to natural numbers\<close>

lemma unat_lt2p: "unat w < 2 ^ LENGTH('a)" for w :: "'a::len word"
  by (rule unsigned_less)

lemma unat_add_no_wrap [unat_simps]:
  fixes a b :: "'a::len word"
  assumes "unat a + unat b < 2 ^ LENGTH('a)"
  shows "unat (a + b) = unat a + unat b"
  using assms by (simp add: unat_word_ariths)

lemma unat_sub_no_wrap [unat_simps]:
  fixes a b :: "'a::len word"
  assumes "unat b \<le> unat a"
  shows "unat (a - b) = unat a - unat b"
  using assms by (simp add: unat_sub word_le_nat_alt)

lemma unat_push_bit_no_wrap [unat_simps]:
  fixes a :: "'a::len word"
  assumes "unat a * 2 ^ n < 2 ^ LENGTH('a)"
  shows "unat (push_bit n a) = unat a * 2 ^ n"
proof -
  have "unat (push_bit n a) = take_bit LENGTH('a) (push_bit n (unat a))"
    by (rule unsigned_push_bit_eq)
  also have "\<dots> = (unat a * 2 ^ n) mod 2 ^ LENGTH('a)"
    by (simp add: take_bit_eq_mod push_bit_eq_mult)
  finally show ?thesis using assms by simp
qed

lemma unat_drop_bit_div [unat_simps]: "unat (drop_bit n a) = unat a div 2 ^ n"
  by (rule trans [OF unat_drop_bit_eq drop_bit_eq_div])

lemma unat_ucast_mod: "unat (ucast a :: 'b::len word) = unat a mod 2 ^ LENGTH('b)"
  by (simp add: unsigned_ucast_eq take_bit_eq_mod)

lemma unat_ucast_no_trunc [unat_simps]:
  fixes a :: "'a::len word"
  assumes "unat a < 2 ^ LENGTH('b::len)"
  shows "unat (ucast a :: 'b word) = unat a"
  using assms by (simp only: unat_ucast_mod mod_less)

lemma bit_last_iff_unat:
  "bit h (LENGTH('a) - Suc 0) \<longleftrightarrow> 2 ^ (LENGTH('a) - Suc 0) \<le> unat h" for h :: "'a::len word"
proof -
  have "unat h < 2 * 2 ^ (LENGTH('a) - Suc 0)"
    using unsigned_less [of h, where ?'a = nat] by (simp flip: power_Suc)
  then have "unat h div 2 ^ (LENGTH('a) - Suc 0) < 2"
    by (simp add: less_mult_imp_div_less)
  then have "odd (unat h div 2 ^ (LENGTH('a) - Suc 0)) \<longleftrightarrow> 0 < unat h div 2 ^ (LENGTH('a) - Suc 0)"
    by (metis One_nat_def dvd_0_right less_2_cases neq0_conv odd_one zero_less_one)
  moreover have "bit h (LENGTH('a) - Suc 0) \<longleftrightarrow> bit (unat h) (LENGTH('a) - Suc 0)"
    by (simp add: bit_unsigned_iff)
  ultimately show ?thesis
    by (simp only: div_greater_zero_iff bit_iff_odd) simp
qed

lemma sint_nonneg_iff: "0 \<le> sint h \<longleftrightarrow> unat h < 2 ^ (LENGTH('a) - Suc 0)" for h :: "'a::len word"
  using bit_last_iff_unat [of h] bit_last_iff [of h] by linarith

lemma sint_nonneg_eq: "0 \<le> sint h \<Longrightarrow> sint h = uint h" for h :: "'a::len word"
proof -
  assume "0 \<le> sint h"
  then have b: "\<not> bit h (LENGTH('a) - Suc 0)" "unat h < 2 ^ (LENGTH('a) - Suc 0)"
    using sint_nonneg_iff [of h] bit_last_iff [of h] by auto
  then have "uint h < 2 ^ (LENGTH('a) - Suc 0)"
    by (metis of_nat_less_iff of_nat_numeral of_nat_power of_nat_unat)
  then show ?thesis using b(1)
    by (simp add: sint_uint signed_take_bit_eq_if_positive bit_uint_iff take_bit_int_eq_self)
qed

text \<open>Sign extension of a non-negative value keeps it.\<close>

lemma unat_scast_nonneg:
  fixes h :: "'a::len word"
  assumes "0 \<le> sint h" and "LENGTH('a) \<le> LENGTH('b::len)"
  shows "unat (scast h :: 'b word) = unat h"
proof -
  have "(scast h :: 'b word) = ucast h"
    using sint_nonneg_eq [OF assms(1)] by (simp only: scast_eq ucast_eq)
  moreover have "unat h < 2 ^ LENGTH('b)"
    by (rule order.strict_trans2 [OF unsigned_less]) (simp add: assms(2))
  ultimately show ?thesis by (simp only: unat_ucast_no_trunc)
qed

text \<open>\<^verbatim>\<open>ADD_OVERFLOW\<close> and \<^verbatim>\<open>MUL_OVERFLOW\<close> on \<^verbatim>\<open>size_t\<close>: whether the result wraps, and the result.\<close>

definition add_overflow :: "size_t \<Rightarrow> size_t \<Rightarrow> bool \<times> size_t" where
  "add_overflow a b = (2 ^ 64 \<le> unat a + unat b, a + b)"

definition mul_overflow :: "size_t \<Rightarrow> size_t \<Rightarrow> bool \<times> size_t" where
  "mul_overflow a b = (2 ^ 64 \<le> unat a * unat b, a * b)"

section \<open>Lists\<close>

text \<open>Insertion behind position \<open>i\<close>, the effect of linking a node after the \<open>i\<close>-th one.\<close>

definition insert_after :: "nat \<Rightarrow> 'a \<Rightarrow> 'a list \<Rightarrow> 'a list" where
  "insert_after i x xs = take (Suc i) xs @ x # drop (Suc i) xs"

lemma insert_after_0 [simp]: "insert_after 0 x (y # ys) = y # x # ys"
  by (simp add: insert_after_def)

lemma insert_after_Suc [simp]: "insert_after (Suc i) x (y # ys) = y # insert_after i x ys"
  by (simp add: insert_after_def)

lemma set_insert_after [simp]: "set (insert_after i x xs) = insert x (set xs)"
  by (simp add: insert_after_def set_append [symmetric] del: set_append)
    (metis Un_insert_right append_take_drop_id list.simps(15) set_append)

lemma length_insert_after [simp]: "length (insert_after i x xs) = Suc (length xs)"
  by (simp add: insert_after_def)

lemma insert_after_neq_Nil [simp]: "insert_after i x xs \<noteq> []"
  by (simp add: insert_after_def)

lemma hd_insert_after [simp]: "xs \<noteq> [] \<Longrightarrow> hd (insert_after i x xs) = hd xs"
  by (cases xs) (simp_all add: insert_after_def)

lemma distinct_insert_after:
  "distinct (map f (insert_after i x xs)) \<longleftrightarrow> f x \<notin> f ` set xs \<and> distinct (map f xs)"
proof -
  obtain ys zs where "xs = ys @ zs" and "insert_after i x xs = ys @ x # zs"
    by (metis append_take_drop_id insert_after_def)
  then show ?thesis by auto
qed

lemma filter_insert_after:
  "\<not> P x \<Longrightarrow> (\<And>y. y \<in> set xs \<Longrightarrow> P y) \<Longrightarrow> filter P (insert_after i x xs) = xs"
  by (simp add: insert_after_def filter_id_conv)
    (metis append_take_drop_id filter_True in_set_takeD in_set_dropD)

end
