(* ===== verification/Pkcs11_Args.thy ===== *)
theory Pkcs11_Args
  imports Prelude
begin

text \<open>
  The argument layer of the PKCS\#11 trusted application: return codes and parameter types
  (\<^verbatim>\<open>ta/pkcs11/include/pkcs11_ta.h\<close>, \<^verbatim>\<open>lib/libutee/include/tee_api_defines.h\<close>), little-endian
  values in the client's shared memory, and the argument reader of
  \<^verbatim>\<open>ta/pkcs11/src/serializer.c\<close>. Pointers are words of any width \<open>'w\<close>, since the application is
  built for both 32-bit and 64-bit user mode.
\<close>

unbundle bit_operations_syntax

section \<open>Return codes\<close>

datatype pkcs11_rc =
    PKCS11_CKR_OK
  | PKCS11_CKR_CANCEL
  | PKCS11_CKR_SLOT_ID_INVALID
  | PKCS11_CKR_GENERAL_ERROR
  | PKCS11_CKR_FUNCTION_FAILED
  | PKCS11_CKR_ARGUMENTS_BAD
  | PKCS11_CKR_ATTRIBUTE_READ_ONLY
  | PKCS11_CKR_ATTRIBUTE_SENSITIVE
  | PKCS11_CKR_ATTRIBUTE_TYPE_INVALID
  | PKCS11_CKR_ATTRIBUTE_VALUE_INVALID
  | PKCS11_CKR_ACTION_PROHIBITED
  | PKCS11_CKR_DATA_INVALID
  | PKCS11_CKR_DATA_LEN_RANGE
  | PKCS11_CKR_DEVICE_ERROR
  | PKCS11_CKR_DEVICE_MEMORY
  | PKCS11_CKR_DEVICE_REMOVED
  | PKCS11_CKR_ENCRYPTED_DATA_INVALID
  | PKCS11_CKR_ENCRYPTED_DATA_LEN_RANGE
  | PKCS11_CKR_KEY_HANDLE_INVALID
  | PKCS11_CKR_KEY_SIZE_RANGE
  | PKCS11_CKR_KEY_TYPE_INCONSISTENT
  | PKCS11_CKR_KEY_FUNCTION_NOT_PERMITTED
  | PKCS11_CKR_KEY_NOT_WRAPPABLE
  | PKCS11_CKR_KEY_UNEXTRACTABLE
  | PKCS11_CKR_MECHANISM_INVALID
  | PKCS11_CKR_MECHANISM_PARAM_INVALID
  | PKCS11_CKR_OBJECT_HANDLE_INVALID
  | PKCS11_CKR_OPERATION_ACTIVE
  | PKCS11_CKR_OPERATION_NOT_INITIALIZED
  | PKCS11_CKR_PIN_INCORRECT
  | PKCS11_CKR_PIN_INVALID
  | PKCS11_CKR_PIN_LEN_RANGE
  | PKCS11_CKR_PIN_EXPIRED
  | PKCS11_CKR_PIN_LOCKED
  | PKCS11_CKR_SESSION_CLOSED
  | PKCS11_CKR_SESSION_COUNT
  | PKCS11_CKR_SESSION_HANDLE_INVALID
  | PKCS11_CKR_SESSION_READ_ONLY
  | PKCS11_CKR_SESSION_EXISTS
  | PKCS11_CKR_SESSION_READ_ONLY_EXISTS
  | PKCS11_CKR_SESSION_READ_WRITE_SO_EXISTS
  | PKCS11_CKR_SIGNATURE_INVALID
  | PKCS11_CKR_SIGNATURE_LEN_RANGE
  | PKCS11_CKR_TEMPLATE_INCOMPLETE
  | PKCS11_CKR_TEMPLATE_INCONSISTENT
  | PKCS11_CKR_TOKEN_NOT_PRESENT
  | PKCS11_CKR_TOKEN_NOT_RECOGNIZED
  | PKCS11_CKR_TOKEN_WRITE_PROTECTED
  | PKCS11_CKR_USER_ALREADY_LOGGED_IN
  | PKCS11_CKR_USER_NOT_LOGGED_IN
  | PKCS11_CKR_USER_PIN_NOT_INITIALIZED
  | PKCS11_CKR_USER_TYPE_INVALID
  | PKCS11_CKR_USER_ANOTHER_ALREADY_LOGGED_IN
  | PKCS11_CKR_USER_TOO_MANY_TYPES
  | PKCS11_CKR_DOMAIN_PARAMS_INVALID
  | PKCS11_CKR_CURVE_NOT_SUPPORTED
  | PKCS11_CKR_BUFFER_TOO_SMALL
  | PKCS11_CKR_SAVED_STATE_INVALID
  | PKCS11_CKR_INFORMATION_SENSITIVE
  | PKCS11_CKR_STATE_UNSAVEABLE
  | PKCS11_CKR_PIN_TOO_WEAK
  | PKCS11_CKR_PUBLIC_KEY_INVALID
  | PKCS11_CKR_FUNCTION_REJECTED
  | PKCS11_RV_NOT_FOUND
  | PKCS11_RV_NOT_IMPLEMENTED

primrec rc_code :: "pkcs11_rc \<Rightarrow> u32" where
  "rc_code PKCS11_CKR_OK = 0"
| "rc_code PKCS11_CKR_CANCEL = 0x0001"
| "rc_code PKCS11_CKR_SLOT_ID_INVALID = 0x0003"
| "rc_code PKCS11_CKR_GENERAL_ERROR = 0x0005"
| "rc_code PKCS11_CKR_FUNCTION_FAILED = 0x0006"
| "rc_code PKCS11_CKR_ARGUMENTS_BAD = 0x0007"
| "rc_code PKCS11_CKR_ATTRIBUTE_READ_ONLY = 0x0010"
| "rc_code PKCS11_CKR_ATTRIBUTE_SENSITIVE = 0x0011"
| "rc_code PKCS11_CKR_ATTRIBUTE_TYPE_INVALID = 0x0012"
| "rc_code PKCS11_CKR_ATTRIBUTE_VALUE_INVALID = 0x0013"
| "rc_code PKCS11_CKR_ACTION_PROHIBITED = 0x001b"
| "rc_code PKCS11_CKR_DATA_INVALID = 0x0020"
| "rc_code PKCS11_CKR_DATA_LEN_RANGE = 0x0021"
| "rc_code PKCS11_CKR_DEVICE_ERROR = 0x0030"
| "rc_code PKCS11_CKR_DEVICE_MEMORY = 0x0031"
| "rc_code PKCS11_CKR_DEVICE_REMOVED = 0x0032"
| "rc_code PKCS11_CKR_ENCRYPTED_DATA_INVALID = 0x0040"
| "rc_code PKCS11_CKR_ENCRYPTED_DATA_LEN_RANGE = 0x0041"
| "rc_code PKCS11_CKR_KEY_HANDLE_INVALID = 0x0060"
| "rc_code PKCS11_CKR_KEY_SIZE_RANGE = 0x0062"
| "rc_code PKCS11_CKR_KEY_TYPE_INCONSISTENT = 0x0063"
| "rc_code PKCS11_CKR_KEY_FUNCTION_NOT_PERMITTED = 0x0068"
| "rc_code PKCS11_CKR_KEY_NOT_WRAPPABLE = 0x0069"
| "rc_code PKCS11_CKR_KEY_UNEXTRACTABLE = 0x006a"
| "rc_code PKCS11_CKR_MECHANISM_INVALID = 0x0070"
| "rc_code PKCS11_CKR_MECHANISM_PARAM_INVALID = 0x0071"
| "rc_code PKCS11_CKR_OBJECT_HANDLE_INVALID = 0x0082"
| "rc_code PKCS11_CKR_OPERATION_ACTIVE = 0x0090"
| "rc_code PKCS11_CKR_OPERATION_NOT_INITIALIZED = 0x0091"
| "rc_code PKCS11_CKR_PIN_INCORRECT = 0x00a0"
| "rc_code PKCS11_CKR_PIN_INVALID = 0x00a1"
| "rc_code PKCS11_CKR_PIN_LEN_RANGE = 0x00a2"
| "rc_code PKCS11_CKR_PIN_EXPIRED = 0x00a3"
| "rc_code PKCS11_CKR_PIN_LOCKED = 0x00a4"
| "rc_code PKCS11_CKR_SESSION_CLOSED = 0x00b0"
| "rc_code PKCS11_CKR_SESSION_COUNT = 0x00b1"
| "rc_code PKCS11_CKR_SESSION_HANDLE_INVALID = 0x00b3"
| "rc_code PKCS11_CKR_SESSION_READ_ONLY = 0x00b5"
| "rc_code PKCS11_CKR_SESSION_EXISTS = 0x00b6"
| "rc_code PKCS11_CKR_SESSION_READ_ONLY_EXISTS = 0x00b7"
| "rc_code PKCS11_CKR_SESSION_READ_WRITE_SO_EXISTS = 0x00b8"
| "rc_code PKCS11_CKR_SIGNATURE_INVALID = 0x00c0"
| "rc_code PKCS11_CKR_SIGNATURE_LEN_RANGE = 0x00c1"
| "rc_code PKCS11_CKR_TEMPLATE_INCOMPLETE = 0x00d0"
| "rc_code PKCS11_CKR_TEMPLATE_INCONSISTENT = 0x00d1"
| "rc_code PKCS11_CKR_TOKEN_NOT_PRESENT = 0x00e0"
| "rc_code PKCS11_CKR_TOKEN_NOT_RECOGNIZED = 0x00e1"
| "rc_code PKCS11_CKR_TOKEN_WRITE_PROTECTED = 0x00e2"
| "rc_code PKCS11_CKR_USER_ALREADY_LOGGED_IN = 0x0100"
| "rc_code PKCS11_CKR_USER_NOT_LOGGED_IN = 0x0101"
| "rc_code PKCS11_CKR_USER_PIN_NOT_INITIALIZED = 0x0102"
| "rc_code PKCS11_CKR_USER_TYPE_INVALID = 0x0103"
| "rc_code PKCS11_CKR_USER_ANOTHER_ALREADY_LOGGED_IN = 0x0104"
| "rc_code PKCS11_CKR_USER_TOO_MANY_TYPES = 0x0105"
| "rc_code PKCS11_CKR_DOMAIN_PARAMS_INVALID = 0x0130"
| "rc_code PKCS11_CKR_CURVE_NOT_SUPPORTED = 0x0140"
| "rc_code PKCS11_CKR_BUFFER_TOO_SMALL = 0x0150"
| "rc_code PKCS11_CKR_SAVED_STATE_INVALID = 0x0160"
| "rc_code PKCS11_CKR_INFORMATION_SENSITIVE = 0x0170"
| "rc_code PKCS11_CKR_STATE_UNSAVEABLE = 0x0180"
| "rc_code PKCS11_CKR_PIN_TOO_WEAK = 0x01b8"
| "rc_code PKCS11_CKR_PUBLIC_KEY_INVALID = 0x01b9"
| "rc_code PKCS11_CKR_FUNCTION_REJECTED = 0x0200"
| "rc_code PKCS11_RV_NOT_FOUND = 0x80000000"
| "rc_code PKCS11_RV_NOT_IMPLEMENTED = 0x80000001"

definition tee2pkcs_error :: "tee_result \<Rightarrow> pkcs11_rc" where
  "tee2pkcs_error res =
     (case res of
        TEE_SUCCESS \<Rightarrow> PKCS11_CKR_OK
      | TEE_ERROR_BAD_PARAMETERS \<Rightarrow> PKCS11_CKR_ARGUMENTS_BAD
      | TEE_ERROR_OUT_OF_MEMORY \<Rightarrow> PKCS11_CKR_DEVICE_MEMORY
      | TEE_ERROR_SHORT_BUFFER \<Rightarrow> PKCS11_CKR_BUFFER_TOO_SMALL
      | TEE_ERROR_MAC_INVALID \<Rightarrow> PKCS11_CKR_SIGNATURE_INVALID
      | TEE_ERROR_SIGNATURE_INVALID \<Rightarrow> PKCS11_CKR_SIGNATURE_INVALID
      | _ \<Rightarrow> PKCS11_CKR_GENERAL_ERROR)"

section \<open>Invocation parameters\<close>

definition TEE_PARAM_TYPE_NONE :: u32 where "TEE_PARAM_TYPE_NONE = 0"
definition TEE_PARAM_TYPE_MEMREF_INPUT :: u32 where "TEE_PARAM_TYPE_MEMREF_INPUT = 5"
definition TEE_PARAM_TYPE_MEMREF_OUTPUT :: u32 where "TEE_PARAM_TYPE_MEMREF_OUTPUT = 6"
definition TEE_PARAM_TYPE_MEMREF_INOUT :: u32 where "TEE_PARAM_TYPE_MEMREF_INOUT = 7"

definition TEE_PARAM_TYPES :: "u32 \<Rightarrow> u32 \<Rightarrow> u32 \<Rightarrow> u32 \<Rightarrow> u32" where
  "TEE_PARAM_TYPES t0 t1 t2 t3 = t0 OR push_bit 4 t1 OR push_bit 8 t2 OR push_bit 12 t3"

definition TEE_PARAM_TYPE_GET :: "u32 \<Rightarrow> nat \<Rightarrow> u32" where
  "TEE_PARAM_TYPE_GET t i = drop_bit (i * 4) t AND 0xF"

text \<open>
  A memory reference parameter. \<open>mr_buffer\<close> is the address in the application's address space,
  0 for a NULL buffer.
\<close>

record memref =
  mr_buffer :: u64
  mr_size :: u32

section \<open>Values in memory\<close>

type_synonym 'w mem = "'w word \<Rightarrow> u8"

definition bytes_at :: "('w::len) mem \<Rightarrow> 'w word \<Rightarrow> nat \<Rightarrow> u8 list" where
  "bytes_at m a n = map (\<lambda>i. m (a + of_nat i)) [0..<n]"

fun mem_write :: "('w::len) mem \<Rightarrow> 'w word \<Rightarrow> u8 list \<Rightarrow> 'w mem" where
  "mem_write m a [] = m"
| "mem_write m a (b # bs) = mem_write (m(a := b)) (a + 1) bs"

definition le32 :: "u8 list \<Rightarrow> u32" where
  "le32 bs = ucast (bs ! 0) OR push_bit 8 (ucast (bs ! 1)) OR push_bit 16 (ucast (bs ! 2)) OR
     push_bit 24 (ucast (bs ! 3))"

definition le32_bytes :: "u32 \<Rightarrow> u8 list" where
  "le32_bytes w = [ucast w, ucast (drop_bit 8 w), ucast (drop_bit 16 w), ucast (drop_bit 24 w)]"

lemma length_le32_bytes [simp]: "length (le32_bytes w) = 4"
  by (simp add: le32_bytes_def)

lemma length_bytes_at [simp]: "length (bytes_at m a n) = n"
  by (simp add: bytes_at_def)

lemma le32_le32_bytes [simp]: "le32 (le32_bytes w) = w"
proof (rule bit_word_eqI)
  fix n assume "n < LENGTH(32)"
  then have "n < 8 \<or> (8 \<le> n \<and> n < 16) \<or> (16 \<le> n \<and> n < 24) \<or> (24 \<le> n \<and> n < 32)" by auto
  then show "bit (le32 (le32_bytes w)) n \<longleftrightarrow> bit w n"
    by (elim disjE)
      (auto simp: le32_def le32_bytes_def bit_or_iff bit_push_bit_iff bit_ucast_iff bit_drop_bit_eq
        dest: bit_imp_le_length)
qed

section \<open>The argument reader\<close>

record (overloaded) ('w::len) serialargs =
  sa_start :: "'w word"
  sa_next :: "'w word"
  sa_size :: "'w word"

definition serialargs_init :: "('w::len) word \<Rightarrow> 'w word \<Rightarrow> 'w serialargs" where
  "serialargs_init inp sz = \<lparr>sa_start = inp, sa_next = inp, sa_size = sz\<rparr>"

definition serialargs_get ::
    "('w::len) mem \<Rightarrow> 'w serialargs \<Rightarrow> 'w word \<Rightarrow> pkcs11_rc + ('w serialargs \<times> u8 list)" where
  "serialargs_get m args sz =
     (if sa_next args + sz > sa_start args + sa_size args then Inl PKCS11_CKR_ARGUMENTS_BAD
      else Inr (args\<lparr>sa_next := sa_next args + sz\<rparr>, bytes_at m (sa_next args) (unat sz)))"

text \<open>
  \<open>malloc_ok\<close> says whether \<^verbatim>\<open>TEE_Malloc\<close> succeeds; the copy it receives is returned, \<open>None\<close> for
  the NULL pointer of an empty argument.
\<close>

definition serialargs_alloc_and_get ::
    "bool \<Rightarrow> ('w::len) mem \<Rightarrow> 'w serialargs \<Rightarrow> 'w word \<Rightarrow>
      pkcs11_rc + ('w serialargs \<times> u8 list option)" where
  "serialargs_alloc_and_get malloc_ok m args sz =
     (if sz = 0 then Inr (args, None)
      else if sa_next args + sz > sa_start args + sa_size args then Inl PKCS11_CKR_ARGUMENTS_BAD
      else if \<not> malloc_ok then Inl PKCS11_CKR_DEVICE_MEMORY
      else Inr (args\<lparr>sa_next := sa_next args + sz\<rparr>, Some (bytes_at m (sa_next args) (unat sz))))"

definition serialargs_get_ptr ::
    "('w::len) serialargs \<Rightarrow> 'w word \<Rightarrow> pkcs11_rc + ('w serialargs \<times> 'w word)" where
  "serialargs_get_ptr args sz =
     (if sz = 0 then Inr (args, 0)
      else if sa_next args + sz > sa_start args + sa_size args then Inl PKCS11_CKR_ARGUMENTS_BAD
      else Inr (args\<lparr>sa_next := sa_next args + sz\<rparr>, sa_next args))"

definition serialargs_remaining_bytes :: "('w::len) serialargs \<Rightarrow> bool" where
  "serialargs_remaining_bytes args \<longleftrightarrow> sa_next args < sa_start args + sa_size args"

text \<open>
  The reader stays inside its buffer, and the buffer inside the address space.
\<close>

definition serialargs_ok :: "('w::len) serialargs \<Rightarrow> bool" where
  "serialargs_ok args \<longleftrightarrow> unat (sa_start args) + unat (sa_size args) < 2 ^ LENGTH('w) \<and>
     unat (sa_start args) \<le> unat (sa_next args) \<and>
     unat (sa_next args) \<le> unat (sa_start args) + unat (sa_size args)"

text \<open>The bytes not yet consumed.\<close>

definition sa_remaining :: "('w::len) serialargs \<Rightarrow> nat" where
  "sa_remaining args = unat (sa_start args) + unat (sa_size args) - unat (sa_next args)"

lemma serialargs_init_ok:
  "unat a + unat sz < 2 ^ LENGTH('w) \<Longrightarrow> serialargs_ok (serialargs_init a sz)"
  for a sz :: "('w::len) word"
  by (simp add: serialargs_ok_def serialargs_init_def)

lemma sa_remaining_init [simp]: "sa_remaining (serialargs_init a sz) = unat sz"
  by (simp add: sa_remaining_def serialargs_init_def)

lemma serialargs_fits:
  fixes args :: "('w::len) serialargs"
  assumes "serialargs_ok args" and "unat (sa_next args) + unat sz < 2 ^ LENGTH('w)"
  shows "sa_next args + sz > sa_start args + sa_size args \<longleftrightarrow> sa_remaining args < unat sz"
    and "sa_remaining args \<ge> unat sz \<Longrightarrow> serialargs_ok (args\<lparr>sa_next := sa_next args + sz\<rparr>)"
    and "sa_remaining (args\<lparr>sa_next := sa_next args + sz\<rparr>) = sa_remaining args - unat sz"
  using assms by (auto simp: serialargs_ok_def sa_remaining_def word_less_nat_alt unat_simps)

lemma serialargs_remaining_bytes_iff:
  "serialargs_ok args \<Longrightarrow> serialargs_remaining_bytes args \<longleftrightarrow> 0 < sa_remaining args"
  by (auto simp: serialargs_ok_def serialargs_remaining_bytes_def sa_remaining_def
      word_less_nat_alt unat_simps)

section \<open>Properties\<close>

text \<open>
  As long as the requested size cannot carry the read position past the end of the address
  space, \<^verbatim>\<open>serialargs_get\<close> and \<^verbatim>\<open>serialargs_get_ptr\<close> succeed exactly when that many bytes are
  left, return those bytes or the address of the first of them, advance by exactly the requested
  size and stay inside the buffer; \<^verbatim>\<open>serialargs_remaining_bytes\<close> then tells whether bytes are left.
\<close>

theorem serialargs_get_correct:
  fixes args :: "('w::len) serialargs"
  assumes ok: "serialargs_ok args" and nowrap: "unat (sa_next args) + unat sz < 2 ^ LENGTH('w)"
  shows "(case serialargs_get m args sz of
        Inl rc \<Rightarrow> rc = PKCS11_CKR_ARGUMENTS_BAD \<and> sa_remaining args < unat sz
      | Inr (args', bs) \<Rightarrow> unat sz \<le> sa_remaining args \<and> serialargs_ok args' \<and>
          sa_remaining args' = sa_remaining args - unat sz \<and>
          serialargs_remaining_bytes args' = (unat sz < sa_remaining args) \<and>
          bs = map (\<lambda>i. m (word_of_nat (unat (sa_next args) + i))) [0..<unat sz]) \<and>
    (case serialargs_get_ptr args sz of
        Inl rc \<Rightarrow> rc = PKCS11_CKR_ARGUMENTS_BAD \<and> sa_remaining args < unat sz
      | Inr (args', ptr) \<Rightarrow> unat sz \<le> sa_remaining args \<and> serialargs_ok args' \<and>
          sa_remaining args' = sa_remaining args - unat sz \<and>
          ptr = (if sz = 0 then 0 else sa_next args))"
proof -
  have "serialargs_remaining_bytes (args\<lparr>sa_next := sa_next args + sz\<rparr>) = (unat sz < sa_remaining args)"
    if "unat sz \<le> sa_remaining args"
    using that serialargs_remaining_bytes_iff [OF serialargs_fits(2) [OF assms that]]
    by (simp add: serialargs_fits(3) [OF assms])
  then show ?thesis
    using serialargs_fits [OF assms] ok
    by (auto simp: serialargs_get_def serialargs_get_ptr_def bytes_at_def)
qed

theorem serialargs_get_correct_witness:
  "serialargs_get (\<lambda>a. ucast a) (serialargs_init (0x1000 :: 32 word) 4) 2 =
     Inr (\<lparr>sa_start = 0x1000, sa_next = 0x1002, sa_size = 4\<rparr>, [0, 1]) \<and>
   sa_remaining \<lparr>sa_start = 0x1000, sa_next = 0x1002 :: 32 word, sa_size = 4\<rparr> = 2"
proof -
  let ?a = "serialargs_init (0x1000 :: 32 word) 4"
  have "serialargs_ok ?a" by (rule serialargs_init_ok) simp
  moreover have get: "serialargs_get (\<lambda>a. ucast a) ?a 2 =
      Inr (\<lparr>sa_start = 0x1000, sa_next = 0x1002, sa_size = 4\<rparr>, [0, 1])"
    by (simp add: serialargs_get_def serialargs_init_def bytes_at_def upt_rec [of 0 2] upt_rec [of "Suc 0" 2])
  ultimately show ?thesis
    using serialargs_get_correct [of ?a 2 "\<lambda>a. ucast a"]
    by (simp add: serialargs_init_def sa_remaining_def)
qed

text \<open>
  The bound check of the reader adds the client's size to the read position, which wraps in a
  32-bit build: from the start of a 32 byte buffer at \<^verbatim>\<open>0x40001000\<close>, behind a 12 byte header,
  \<^verbatim>\<open>serialargs_get_ptr\<close> accepts an old PIN of 4294967292 bytes, far beyond the buffer, moves the
  read position back into the header, and after a new PIN of 24 bytes reports that no byte is left,
  so that the command carries on with both PINs.
\<close>

theorem serialargs_get_ptr_wraps:
  "\<exists>a1 a2. serialargs_get_ptr
      \<lparr>sa_start = 0x40001000, sa_next = 0x4000100C, sa_size = 32 :: 32 word\<rparr> 4294967292 =
        Inr (a1, 0x4000100C) \<and>
      serialargs_get_ptr a1 24 = Inr (a2, 0x40001008) \<and> \<not> serialargs_remaining_bytes a2"
  by (simp add: serialargs_get_ptr_def serialargs_remaining_bytes_def)

end
