(* ===== verification/Pkcs11_Pin.thy ===== *)
theory Pkcs11_Pin
  imports Pkcs11_Args
begin

text \<open>
  The tokens of the PKCS\#11 trusted application and their PINs: the persistent state of
  \<^verbatim>\<open>ta/pkcs11/src/persistent_token.c\<close> and the functions of \<^verbatim>\<open>ta/pkcs11/src/pkcs11_token.c\<close>
  that set and check the PINs of one token. The secure storage, the digest operation and the random
  number generator of the TEE Internal Core API are the fields of an environment that is
  passed to every function that calls them.
\<close>

unbundle bit_operations_syntax

section \<open>Data\<close>

text \<open>Token flags, \<^verbatim>\<open>PKCS11_CKFT_*\<close>.\<close>

definition PKCS11_CKFT_RNG :: u32 where "PKCS11_CKFT_RNG = push_bit 0 1"
definition PKCS11_CKFT_WRITE_PROTECTED :: u32 where "PKCS11_CKFT_WRITE_PROTECTED = push_bit 1 1"
definition PKCS11_CKFT_LOGIN_REQUIRED :: u32 where "PKCS11_CKFT_LOGIN_REQUIRED = push_bit 2 1"
definition PKCS11_CKFT_USER_PIN_INITIALIZED :: u32 where
  "PKCS11_CKFT_USER_PIN_INITIALIZED = push_bit 3 1"
definition PKCS11_CKFT_DUAL_CRYPTO_OPERATIONS :: u32 where
  "PKCS11_CKFT_DUAL_CRYPTO_OPERATIONS = push_bit 9 1"
definition PKCS11_CKFT_TOKEN_INITIALIZED :: u32 where
  "PKCS11_CKFT_TOKEN_INITIALIZED = push_bit 10 1"
definition PKCS11_CKFT_USER_PIN_COUNT_LOW :: u32 where
  "PKCS11_CKFT_USER_PIN_COUNT_LOW = push_bit 16 1"
definition PKCS11_CKFT_USER_PIN_FINAL_TRY :: u32 where
  "PKCS11_CKFT_USER_PIN_FINAL_TRY = push_bit 17 1"
definition PKCS11_CKFT_USER_PIN_LOCKED :: u32 where
  "PKCS11_CKFT_USER_PIN_LOCKED = push_bit 18 1"
definition PKCS11_CKFT_USER_PIN_TO_BE_CHANGED :: u32 where
  "PKCS11_CKFT_USER_PIN_TO_BE_CHANGED = push_bit 19 1"
definition PKCS11_CKFT_SO_PIN_COUNT_LOW :: u32 where
  "PKCS11_CKFT_SO_PIN_COUNT_LOW = push_bit 20 1"
definition PKCS11_CKFT_SO_PIN_FINAL_TRY :: u32 where
  "PKCS11_CKFT_SO_PIN_FINAL_TRY = push_bit 21 1"
definition PKCS11_CKFT_SO_PIN_LOCKED :: u32 where "PKCS11_CKFT_SO_PIN_LOCKED = push_bit 22 1"
definition PKCS11_CKFT_SO_PIN_TO_BE_CHANGED :: u32 where
  "PKCS11_CKFT_SO_PIN_TO_BE_CHANGED = push_bit 23 1"

lemmas ckft_defs = PKCS11_CKFT_RNG_def PKCS11_CKFT_WRITE_PROTECTED_def PKCS11_CKFT_LOGIN_REQUIRED_def
  PKCS11_CKFT_USER_PIN_INITIALIZED_def PKCS11_CKFT_DUAL_CRYPTO_OPERATIONS_def
  PKCS11_CKFT_TOKEN_INITIALIZED_def PKCS11_CKFT_USER_PIN_COUNT_LOW_def
  PKCS11_CKFT_USER_PIN_FINAL_TRY_def PKCS11_CKFT_USER_PIN_LOCKED_def
  PKCS11_CKFT_USER_PIN_TO_BE_CHANGED_def PKCS11_CKFT_SO_PIN_COUNT_LOW_def
  PKCS11_CKFT_SO_PIN_FINAL_TRY_def PKCS11_CKFT_SO_PIN_LOCKED_def
  PKCS11_CKFT_SO_PIN_TO_BE_CHANGED_def

definition PKCS11_TOKEN_LABEL_SIZE :: nat where "PKCS11_TOKEN_LABEL_SIZE = 32"
definition PKCS11_TOKEN_PIN_SIZE_MAX :: nat where "PKCS11_TOKEN_PIN_SIZE_MAX = 128"
definition PKCS11_TOKEN_PIN_SIZE_MIN :: nat where "PKCS11_TOKEN_PIN_SIZE_MIN = 10"
definition PKCS11_TOKEN_SO_PIN_COUNT_MAX :: u32 where "PKCS11_TOKEN_SO_PIN_COUNT_MAX = 7"
definition PKCS11_TOKEN_USER_PIN_COUNT_MAX :: u32 where "PKCS11_TOKEN_USER_PIN_COUNT_MAX = 7"
definition TEE_MAX_HASH_SIZE :: nat where "TEE_MAX_HASH_SIZE = 64"

lemmas pin_consts = PKCS11_TOKEN_SO_PIN_COUNT_MAX_def PKCS11_TOKEN_USER_PIN_COUNT_MAX_def

datatype pkcs11_user_type = PKCS11_CKU_SO | PKCS11_CKU_USER | PKCS11_CKU_CONTEXT_SPECIFIC

primrec user_code :: "pkcs11_user_type \<Rightarrow> u32" where
  "user_code PKCS11_CKU_SO = 0"
| "user_code PKCS11_CKU_USER = 1"
| "user_code PKCS11_CKU_CONTEXT_SPECIFIC = 2"

datatype pkcs11_token_state = PKCS11_TOKEN_RESET | PKCS11_TOKEN_READ_WRITE | PKCS11_TOKEN_READ_ONLY

record token_persistent_main =
  db_version :: u32
  db_label :: "u8 list"
  db_flags :: u32
  db_so_pin_count :: u32
  db_so_pin_salt :: u32
  db_so_pin_hash :: "u8 list"
  db_user_pin_count :: u32
  db_user_pin_salt :: u32
  db_user_pin_hash :: "u8 list"

text \<open>
  A token with, in \<open>tk_object\<close>, the contents of the persistent object \<^verbatim>\<open>token.db.<id>\<close> that belongs
  to it, \<open>None\<close> when secure storage holds no such object. The object name depends on the token
  only, so every token has its own object.
\<close>

record ck_token =
  tk_state :: pkcs11_token_state
  tk_session_count :: u32
  tk_rw_session_count :: u32
  tk_db_main :: token_persistent_main
  tk_object :: "token_persistent_main option"

text \<open>
  What the environment answers during one command: the address \<^verbatim>\<open>TEE_Malloc\<close> returns
  (\<open>None\<close> for NULL), the largest number of bytes a \<^verbatim>\<open>realloc\<close> of the handle table
  gets, the results of opening and of reading, writing or creating a
  persistent object, of \<^verbatim>\<open>TEE_AllocateOperation\<close> and \<^verbatim>\<open>TEE_DigestDoFinal\<close>, the four random bytes,
  the digest function, and the device UUID in its printed form if the property is readable.
\<close>

record tee_env =
  env_malloc :: "addr option"
  env_avail :: u32
  env_open :: tee_result
  env_io :: tee_result
  env_alloc_op :: tee_result
  env_digest :: tee_result
  env_random :: u32
  env_sha256 :: "u8 list \<Rightarrow> u8 list"
  env_uuid :: "u8 list option"

section \<open>The persistent database\<close>

definition open_db_file :: "tee_env \<Rightarrow> ck_token \<Rightarrow> tee_result" where
  "open_db_file e tk = (case tk_object tk of None \<Rightarrow> TEE_ERROR_ITEM_NOT_FOUND | Some _ \<Rightarrow> env_open e)"

definition update_persistent_db :: "tee_env \<Rightarrow> ck_token \<Rightarrow> ck_token outcome" where
  "update_persistent_db e tk =
     (if open_db_file e tk \<noteq> TEE_SUCCESS then Panic
      else if env_io e \<noteq> TEE_SUCCESS then Panic
      else Ret (tk\<lparr>tk_object := Some (tk_db_main tk)\<rparr>))"

definition do_hash :: "tee_env \<Rightarrow> pkcs11_user_type \<Rightarrow> u8 list \<Rightarrow> u32 \<Rightarrow> pkcs11_rc + u8 list" where
  "do_hash e user pin salt =
     (if env_alloc_op e \<noteq> TEE_SUCCESS then Inl (tee2pkcs_error (env_alloc_op e))
      else if env_digest e \<noteq> TEE_SUCCESS then Inl PKCS11_CKR_GENERAL_ERROR
      else let h = env_sha256 e (le32_bytes (user_code user) @ le32_bytes salt @ pin)
           in Inr (h @ replicate (TEE_MAX_HASH_SIZE - length h) 0))"

text \<open>On success the new salt and hash.\<close>

definition hash_pin :: "tee_env \<Rightarrow> pkcs11_user_type \<Rightarrow> u8 list \<Rightarrow> pkcs11_rc + (u32 \<times> u8 list)" where
  "hash_pin e user pin =
     (let s = env_random e; s = (if s = 0 then s + 1 else s)
      in case do_hash e user pin s of Inl rc \<Rightarrow> Inl rc | Inr h \<Rightarrow> Inr (s, h))"

definition verify_pin ::
    "tee_env \<Rightarrow> pkcs11_user_type \<Rightarrow> u8 list \<Rightarrow> u32 \<Rightarrow> u8 list \<Rightarrow> pkcs11_rc" where
  "verify_pin e user pin salt hash =
     (case do_hash e user pin salt of
        Inl rc \<Rightarrow> rc
      | Inr tmp \<Rightarrow> if tmp \<noteq> hash then PKCS11_CKR_PIN_INCORRECT else PKCS11_CKR_OK)"

definition zero_db :: token_persistent_main where
  "zero_db = \<lparr>db_version = 0, db_label = replicate PKCS11_TOKEN_LABEL_SIZE 0, db_flags = 0,
     db_so_pin_count = 0, db_so_pin_salt = 0, db_so_pin_hash = replicate TEE_MAX_HASH_SIZE 0,
     db_user_pin_count = 0, db_user_pin_salt = 0, db_user_pin_hash = replicate TEE_MAX_HASH_SIZE 0\<rparr>"

text \<open>The database of a token that has no persistent object yet; 42 is the character \<^verbatim>\<open>*\<close>.\<close>

definition default_db :: token_persistent_main where
  "default_db = zero_db\<lparr>db_label := replicate PKCS11_TOKEN_LABEL_SIZE 42,
     db_flags := PKCS11_CKFT_SO_PIN_TO_BE_CHANGED OR PKCS11_CKFT_USER_PIN_TO_BE_CHANGED OR
       PKCS11_CKFT_RNG OR PKCS11_CKFT_DUAL_CRYPTO_OPERATIONS OR PKCS11_CKFT_LOGIN_REQUIRED\<rparr>"

text \<open>\<open>Ret None\<close> is the NULL return.\<close>

definition init_persistent_db :: "tee_env \<Rightarrow> ck_token \<Rightarrow> ck_token option outcome" where
  "init_persistent_db e tk =
     (if env_malloc e = None then Ret None
      else case open_db_file e tk of
        TEE_SUCCESS \<Rightarrow>
          if env_io e \<noteq> TEE_SUCCESS then Panic
          else Ret (Some (tk\<lparr>tk_db_main := the (tk_object tk)\<rparr>))
      | TEE_ERROR_ITEM_NOT_FOUND \<Rightarrow>
          if env_io e \<noteq> TEE_SUCCESS then Ret None
          else Ret (Some (tk\<lparr>tk_db_main := default_db, tk_object := Some default_db\<rparr>))
      | _ \<Rightarrow> Ret None)"

definition pkcs11_token_init :: "tee_env \<Rightarrow> ck_token \<Rightarrow> (tee_result \<times> ck_token) outcome" where
  "pkcs11_token_init e tk =
     bind_outcome (init_persistent_db e tk) (\<lambda>r.
       case r of
         None \<Rightarrow> Ret (TEE_ERROR_SECURITY, tk)
       | Some tk \<Rightarrow> Ret (TEE_SUCCESS,
           if tk_state tk = PKCS11_TOKEN_RESET
           then tk\<lparr>tk_state := PKCS11_TOKEN_READ_WRITE, tk_session_count := 0,
                   tk_rw_session_count := 0\<rparr>
           else tk))"

section \<open>Setting a PIN\<close>

text \<open>
  \<open>rw\<close> is \<^verbatim>\<open>pkcs11_session_is_read_write\<close> of the session whose token is \<open>tk\<close>.
\<close>

definition set_pin ::
    "tee_env \<Rightarrow> bool \<Rightarrow> ck_token \<Rightarrow> u8 list \<Rightarrow> pkcs11_user_type \<Rightarrow> (pkcs11_rc \<times> ck_token) outcome" where
  "set_pin e rw tk new_pin user_type =
     (let db = tk_db_main tk in
      if db_flags db AND PKCS11_CKFT_WRITE_PROTECTED \<noteq> 0 then Ret (PKCS11_CKR_TOKEN_WRITE_PROTECTED, tk)
      else if \<not> rw then Ret (PKCS11_CKR_SESSION_READ_ONLY, tk)
      else if length new_pin < PKCS11_TOKEN_PIN_SIZE_MIN \<or> length new_pin > PKCS11_TOKEN_PIN_SIZE_MAX
      then Ret (PKCS11_CKR_PIN_LEN_RANGE, tk)
      else case user_type of
        PKCS11_CKU_SO \<Rightarrow>
          (case hash_pin e user_type new_pin of
             Inl rc \<Rightarrow> Ret (rc, tk)
           | Inr (salt, hash) \<Rightarrow>
               let flags_clear = PKCS11_CKFT_SO_PIN_COUNT_LOW OR PKCS11_CKFT_SO_PIN_FINAL_TRY OR
                     PKCS11_CKFT_SO_PIN_LOCKED OR PKCS11_CKFT_SO_PIN_TO_BE_CHANGED;
                   tk = tk\<lparr>tk_db_main := db\<lparr>db_so_pin_salt := salt, db_so_pin_hash := hash,
                     db_so_pin_count := 0, db_flags := (db_flags db AND NOT flags_clear) OR 0\<rparr>\<rparr>
               in bind_outcome (update_persistent_db e tk) (\<lambda>tk. Ret (PKCS11_CKR_OK, tk)))
      | PKCS11_CKU_USER \<Rightarrow>
          (case hash_pin e user_type new_pin of
             Inl rc \<Rightarrow> Ret (rc, tk)
           | Inr (salt, hash) \<Rightarrow>
               let flags_clear = PKCS11_CKFT_USER_PIN_COUNT_LOW OR PKCS11_CKFT_USER_PIN_FINAL_TRY OR
                     PKCS11_CKFT_USER_PIN_LOCKED OR PKCS11_CKFT_USER_PIN_TO_BE_CHANGED;
                   flags_set = PKCS11_CKFT_USER_PIN_INITIALIZED;
                   tk = tk\<lparr>tk_db_main := db\<lparr>db_user_pin_salt := salt, db_user_pin_hash := hash,
                     db_user_pin_count := 0,
                     db_flags := (db_flags db AND NOT flags_clear) OR flags_set\<rparr>\<rparr>
               in bind_outcome (update_persistent_db e tk) (\<lambda>tk. Ret (PKCS11_CKR_OK, tk)))
      | _ \<Rightarrow> Ret (PKCS11_CKR_FUNCTION_FAILED, tk))"

section \<open>Checking a PIN\<close>

text \<open>The bookkeeping after a wrong PIN, common text of three places of the source.\<close>

definition so_pin_failed :: "token_persistent_main \<Rightarrow> token_persistent_main" where
  "so_pin_failed db =
     (let db = db\<lparr>db_flags := db_flags db OR PKCS11_CKFT_SO_PIN_COUNT_LOW,
                  db_so_pin_count := db_so_pin_count db + 1\<rparr>;
          pin_count = db_so_pin_count db;
          db = (if pin_count = PKCS11_TOKEN_SO_PIN_COUNT_MAX - 1
                then db\<lparr>db_flags := db_flags db OR PKCS11_CKFT_SO_PIN_FINAL_TRY\<rparr> else db);
          db = (if pin_count = PKCS11_TOKEN_SO_PIN_COUNT_MAX
                then db\<lparr>db_flags := db_flags db OR PKCS11_CKFT_SO_PIN_LOCKED\<rparr> else db)
      in db)"

definition user_pin_failed :: "token_persistent_main \<Rightarrow> token_persistent_main" where
  "user_pin_failed db =
     (let db = db\<lparr>db_flags := db_flags db OR PKCS11_CKFT_USER_PIN_COUNT_LOW,
                  db_user_pin_count := db_user_pin_count db + 1\<rparr>;
          pin_count = db_user_pin_count db;
          db = (if pin_count = PKCS11_TOKEN_USER_PIN_COUNT_MAX - 1
                then db\<lparr>db_flags := db_flags db OR PKCS11_CKFT_USER_PIN_FINAL_TRY\<rparr> else db);
          db = (if pin_count = PKCS11_TOKEN_USER_PIN_COUNT_MAX
                then db\<lparr>db_flags := db_flags db OR PKCS11_CKFT_USER_PIN_LOCKED\<rparr> else db)
      in db)"

definition check_so_pin ::
    "tee_env \<Rightarrow> ck_token \<Rightarrow> u8 list \<Rightarrow> (pkcs11_rc \<times> ck_token) outcome" where
  "check_so_pin e tk pin =
     (let db = tk_db_main tk in
      if db_flags db AND PKCS11_CKFT_TOKEN_INITIALIZED = 0 then Panic
      else if db_flags db AND PKCS11_CKFT_SO_PIN_LOCKED \<noteq> 0 then Ret (PKCS11_CKR_PIN_LOCKED, tk)
      else
        let rc = verify_pin e PKCS11_CKU_SO pin (db_so_pin_salt db) (db_so_pin_hash db) in
        if rc \<noteq> PKCS11_CKR_OK then
          if rc \<noteq> PKCS11_CKR_PIN_INCORRECT then Ret (rc, tk)
          else bind_outcome (update_persistent_db e (tk\<lparr>tk_db_main := so_pin_failed db\<rparr>)) (\<lambda>tk.
            Ret (if db_flags (tk_db_main tk) AND PKCS11_CKFT_SO_PIN_LOCKED \<noteq> 0
                 then PKCS11_CKR_PIN_LOCKED else PKCS11_CKR_PIN_INCORRECT, tk))
        else
          bind_outcome
            (if db_so_pin_count db \<noteq> 0
             then update_persistent_db e (tk\<lparr>tk_db_main := db\<lparr>db_so_pin_count := 0\<rparr>\<rparr>)
             else Ret tk) (\<lambda>tk.
          let db = tk_db_main tk;
              low = PKCS11_CKFT_SO_PIN_COUNT_LOW OR PKCS11_CKFT_SO_PIN_FINAL_TRY in
          bind_outcome
            (if db_flags db AND low \<noteq> 0
             then update_persistent_db e
                    (tk\<lparr>tk_db_main := db\<lparr>db_flags := db_flags db AND NOT low\<rparr>\<rparr>)
             else Ret tk) (\<lambda>tk. Ret (PKCS11_CKR_OK, tk))))"

definition check_user_pin ::
    "tee_env \<Rightarrow> ck_token \<Rightarrow> u8 list \<Rightarrow> (pkcs11_rc \<times> ck_token) outcome" where
  "check_user_pin e tk pin =
     (let db = tk_db_main tk in
      if db_user_pin_salt db = 0 then Ret (PKCS11_CKR_USER_PIN_NOT_INITIALIZED, tk)
      else if db_flags db AND PKCS11_CKFT_USER_PIN_LOCKED \<noteq> 0 then Ret (PKCS11_CKR_PIN_LOCKED, tk)
      else
        let rc = verify_pin e PKCS11_CKU_USER pin (db_user_pin_salt db) (db_user_pin_hash db) in
        if rc \<noteq> PKCS11_CKR_OK then
          if rc \<noteq> PKCS11_CKR_PIN_INCORRECT then Ret (rc, tk)
          else bind_outcome (update_persistent_db e (tk\<lparr>tk_db_main := user_pin_failed db\<rparr>)) (\<lambda>tk.
            Ret (if db_flags (tk_db_main tk) AND PKCS11_CKFT_USER_PIN_LOCKED \<noteq> 0
                 then PKCS11_CKR_PIN_LOCKED else PKCS11_CKR_PIN_INCORRECT, tk))
        else
          bind_outcome
            (if db_user_pin_count db \<noteq> 0
             then update_persistent_db e (tk\<lparr>tk_db_main := db\<lparr>db_user_pin_count := 0\<rparr>\<rparr>)
             else Ret tk) (\<lambda>tk.
          let db = tk_db_main tk;
              low = PKCS11_CKFT_USER_PIN_COUNT_LOW OR PKCS11_CKFT_USER_PIN_FINAL_TRY in
          bind_outcome
            (if db_flags db AND low \<noteq> 0
             then update_persistent_db e
                    (tk\<lparr>tk_db_main := db\<lparr>db_flags := db_flags db AND NOT low\<rparr>\<rparr>)
             else Ret tk) (\<lambda>tk. Ret (PKCS11_CKR_OK, tk))))"

text \<open>
  The part of \<^verbatim>\<open>entry_ck_token_initialize\<close> behind the check for open sessions: the first
  initialization sets the SO PIN, a later one verifies it; then the user PIN is reset.
\<close>

definition token_inited :: "tee_env \<Rightarrow> ck_token \<Rightarrow> u8 list \<Rightarrow> (pkcs11_rc \<times> ck_token) outcome" where
  "token_inited e tk label =
     (let db = tk_db_main tk; flags = db_flags db OR PKCS11_CKFT_TOKEN_INITIALIZED;
          clear = PKCS11_CKFT_USER_PIN_INITIALIZED OR PKCS11_CKFT_USER_PIN_COUNT_LOW OR
            PKCS11_CKFT_USER_PIN_FINAL_TRY OR PKCS11_CKFT_USER_PIN_LOCKED OR
            PKCS11_CKFT_USER_PIN_TO_BE_CHANGED
      in bind_outcome (update_persistent_db e (tk\<lparr>tk_db_main :=
           db\<lparr>db_label := label, db_user_pin_salt := 0, db_flags := flags AND NOT clear\<rparr>\<rparr>))
         (\<lambda>tk. Ret (PKCS11_CKR_OK, tk)))"

definition token_initialize ::
    "tee_env \<Rightarrow> ck_token \<Rightarrow> u8 list \<Rightarrow> u8 list \<Rightarrow> (pkcs11_rc \<times> ck_token) outcome" where
  "token_initialize e tk label pin =
     (let db = tk_db_main tk in
      if db_so_pin_salt db = 0 then
        if length pin < PKCS11_TOKEN_PIN_SIZE_MIN \<or> length pin > PKCS11_TOKEN_PIN_SIZE_MAX
        then Ret (PKCS11_CKR_ARGUMENTS_BAD, tk)
        else case hash_pin e PKCS11_CKU_SO pin of
          Inl rc \<Rightarrow> Ret (rc, tk)
        | Inr (salt, hash) \<Rightarrow>
            bind_outcome (update_persistent_db e
                (tk\<lparr>tk_db_main := db\<lparr>db_so_pin_salt := salt, db_so_pin_hash := hash\<rparr>\<rparr>))
              (\<lambda>tk. token_inited e tk label)
      else
        let rc = verify_pin e PKCS11_CKU_SO pin (db_so_pin_salt db) (db_so_pin_hash db) in
        if rc \<noteq> PKCS11_CKR_OK then
          if rc \<noteq> PKCS11_CKR_PIN_INCORRECT then Ret (rc, tk)
          else bind_outcome (update_persistent_db e (tk\<lparr>tk_db_main := so_pin_failed db\<rparr>))
            (\<lambda>tk. Ret (PKCS11_CKR_PIN_INCORRECT, tk))
        else token_inited e (tk\<lparr>tk_db_main := db\<lparr>db_so_pin_count := 0, db_flags := db_flags db AND
            NOT (PKCS11_CKFT_SO_PIN_COUNT_LOW OR PKCS11_CKFT_SO_PIN_FINAL_TRY)\<rparr>\<rparr>) label)"

section \<open>Flags\<close>

named_theorems flag_simps \<open>tests and updates of token flags, in terms of their bits\<close>

lemma bit_push_bit_1: "k < 32 \<Longrightarrow> bit (push_bit k (1::u32)) n \<longleftrightarrow> n = k"
  by (subst bit_push_bit_iff) (auto simp: bit_1_iff)

lemma and_push_bit_1: "w AND push_bit k (1::u32) = 0 \<longleftrightarrow> \<not> bit w k"
  using bit_iff_and_push_bit_not_eq_0 [of w k] by simp

lemma ckft_bit [flag_simps]:
  "bit PKCS11_CKFT_RNG n \<longleftrightarrow> n = 0"
  "bit PKCS11_CKFT_WRITE_PROTECTED n \<longleftrightarrow> n = 1"
  "bit PKCS11_CKFT_LOGIN_REQUIRED n \<longleftrightarrow> n = 2"
  "bit PKCS11_CKFT_USER_PIN_INITIALIZED n \<longleftrightarrow> n = 3"
  "bit PKCS11_CKFT_DUAL_CRYPTO_OPERATIONS n \<longleftrightarrow> n = 9"
  "bit PKCS11_CKFT_TOKEN_INITIALIZED n \<longleftrightarrow> n = 10"
  "bit PKCS11_CKFT_USER_PIN_COUNT_LOW n \<longleftrightarrow> n = 16"
  "bit PKCS11_CKFT_USER_PIN_FINAL_TRY n \<longleftrightarrow> n = 17"
  "bit PKCS11_CKFT_USER_PIN_LOCKED n \<longleftrightarrow> n = 18"
  "bit PKCS11_CKFT_USER_PIN_TO_BE_CHANGED n \<longleftrightarrow> n = 19"
  "bit PKCS11_CKFT_SO_PIN_COUNT_LOW n \<longleftrightarrow> n = 20"
  "bit PKCS11_CKFT_SO_PIN_FINAL_TRY n \<longleftrightarrow> n = 21"
  "bit PKCS11_CKFT_SO_PIN_LOCKED n \<longleftrightarrow> n = 22"
  "bit PKCS11_CKFT_SO_PIN_TO_BE_CHANGED n \<longleftrightarrow> n = 23"
  unfolding ckft_defs by (rule bit_push_bit_1; simp)+

lemma ckft_and [flag_simps]:
  "w AND PKCS11_CKFT_RNG = 0 \<longleftrightarrow> \<not> bit w 0"
  "w AND PKCS11_CKFT_WRITE_PROTECTED = 0 \<longleftrightarrow> \<not> bit w 1"
  "w AND PKCS11_CKFT_LOGIN_REQUIRED = 0 \<longleftrightarrow> \<not> bit w 2"
  "w AND PKCS11_CKFT_USER_PIN_INITIALIZED = 0 \<longleftrightarrow> \<not> bit w 3"
  "w AND PKCS11_CKFT_DUAL_CRYPTO_OPERATIONS = 0 \<longleftrightarrow> \<not> bit w 9"
  "w AND PKCS11_CKFT_TOKEN_INITIALIZED = 0 \<longleftrightarrow> \<not> bit w 10"
  "w AND PKCS11_CKFT_USER_PIN_COUNT_LOW = 0 \<longleftrightarrow> \<not> bit w 16"
  "w AND PKCS11_CKFT_USER_PIN_FINAL_TRY = 0 \<longleftrightarrow> \<not> bit w 17"
  "w AND PKCS11_CKFT_USER_PIN_LOCKED = 0 \<longleftrightarrow> \<not> bit w 18"
  "w AND PKCS11_CKFT_USER_PIN_TO_BE_CHANGED = 0 \<longleftrightarrow> \<not> bit w 19"
  "w AND PKCS11_CKFT_SO_PIN_COUNT_LOW = 0 \<longleftrightarrow> \<not> bit w 20"
  "w AND PKCS11_CKFT_SO_PIN_FINAL_TRY = 0 \<longleftrightarrow> \<not> bit w 21"
  "w AND PKCS11_CKFT_SO_PIN_LOCKED = 0 \<longleftrightarrow> \<not> bit w 22"
  "w AND PKCS11_CKFT_SO_PIN_TO_BE_CHANGED = 0 \<longleftrightarrow> \<not> bit w 23"
  unfolding ckft_defs by (rule and_push_bit_1)+

lemma bit_not_lt [flag_simps]: "k < 32 \<Longrightarrow> bit (NOT w) k \<longleftrightarrow> \<not> bit w k" for w :: u32
  by (simp add: bit_not_iff)

lemmas [flag_simps] = bit_or_iff bit_and_iff bit.conj_disj_distrib or_eq_0_iff

section \<open>The invariant of a token\<close>

text \<open>
  An initialized token has an SO PIN; the failure counters stop at their maximum, and exactly there
  the PIN is locked.
\<close>

definition db_ok :: "token_persistent_main \<Rightarrow> bool" where
  "db_ok db \<longleftrightarrow>
     (db_flags db AND PKCS11_CKFT_TOKEN_INITIALIZED = 0 \<or> db_so_pin_salt db \<noteq> 0) \<and>
     db_so_pin_count db \<le> PKCS11_TOKEN_SO_PIN_COUNT_MAX \<and>
     (db_flags db AND PKCS11_CKFT_SO_PIN_LOCKED \<noteq> 0 \<longleftrightarrow>
        db_so_pin_count db = PKCS11_TOKEN_SO_PIN_COUNT_MAX) \<and>
     (db_user_pin_salt db = 0 \<or>
        db_user_pin_count db \<le> PKCS11_TOKEN_USER_PIN_COUNT_MAX \<and>
        (db_flags db AND PKCS11_CKFT_USER_PIN_LOCKED \<noteq> 0 \<longleftrightarrow>
          db_user_pin_count db = PKCS11_TOKEN_USER_PIN_COUNT_MAX))"

text \<open>The copy in memory agrees with the persistent object.\<close>

definition token_ok :: "ck_token \<Rightarrow> bool" where
  "token_ok tk \<longleftrightarrow> tk_object tk = Some (tk_db_main tk) \<and> db_ok (tk_db_main tk)"

text \<open>The token after a database has become current both in memory and in storage.\<close>

definition commit :: "ck_token \<Rightarrow> token_persistent_main \<Rightarrow> ck_token" where
  "commit tk db = tk\<lparr>tk_db_main := db, tk_object := Some db\<rparr>"

lemma commit_simps [simp]:
  "tk_db_main (commit tk db) = db" "tk_object (commit tk db) = Some db"
  "tk_session_count (commit tk db) = tk_session_count tk"
  "tk_rw_session_count (commit tk db) = tk_rw_session_count tk"
  "tk_state (commit tk db) = tk_state tk"
  "commit (commit tk db) db' = commit tk db'"
  by (simp_all add: commit_def)

lemma token_ok_commit [simp]: "token_ok (commit tk db) \<longleftrightarrow> db_ok db"
  by (simp add: token_ok_def)

lemma commit_same: "token_ok tk \<Longrightarrow> commit tk (tk_db_main tk) = tk"
  by (simp add: commit_def token_ok_def)

definition storage_ok :: "tee_env \<Rightarrow> bool" where
  "storage_ok e \<longleftrightarrow> env_open e = TEE_SUCCESS \<and> env_io e = TEE_SUCCESS"

lemma update_persistent_db_commit:
  "tk_object tk \<noteq> None \<Longrightarrow> update_persistent_db e (tk\<lparr>tk_db_main := db\<rparr>) =
     (if storage_ok e then Ret (commit tk db) else Panic)"
  by (auto simp: update_persistent_db_def open_db_file_def storage_ok_def commit_def)

lemma update_persistent_db_commit':
  "tk_object tk \<noteq> None \<Longrightarrow> update_persistent_db e (commit tk' db'\<lparr>tk_db_main := db\<rparr>) =
     (if storage_ok e then Ret (commit tk' db) else Panic)"
  using update_persistent_db_commit [of "commit tk' db'" e db] by simp

text \<open>The digest of a PIN can be computed, and it is the stored one.\<close>

definition pin_matches :: "tee_env \<Rightarrow> pkcs11_user_type \<Rightarrow> u8 list \<Rightarrow> u32 \<Rightarrow> u8 list \<Rightarrow> bool" where
  "pin_matches e user pin salt hash \<longleftrightarrow> do_hash e user pin salt = Inr hash"

definition digest_ok :: "tee_env \<Rightarrow> bool" where
  "digest_ok e \<longleftrightarrow> env_alloc_op e = TEE_SUCCESS \<and> env_digest e = TEE_SUCCESS"

lemma tee2pkcs_error_neq:
  "res \<noteq> TEE_SUCCESS \<Longrightarrow> tee2pkcs_error res \<noteq> PKCS11_CKR_OK"
  "tee2pkcs_error res \<noteq> PKCS11_CKR_PIN_INCORRECT"
  "tee2pkcs_error res \<noteq> PKCS11_CKR_PIN_LOCKED"
  by (cases res; simp add: tee2pkcs_error_def)+

lemma do_hash_cases:
  "(\<exists>h. do_hash e user pin salt = Inr h) = digest_ok e"
  "do_hash e user pin salt = Inl rc \<Longrightarrow>
     \<not> digest_ok e \<and> rc \<notin> {PKCS11_CKR_OK, PKCS11_CKR_PIN_INCORRECT, PKCS11_CKR_PIN_LOCKED}"
  by (auto simp: do_hash_def digest_ok_def Let_def tee2pkcs_error_neq split: if_splits)

lemma verify_pin_cases:
  "verify_pin e user pin salt hash = PKCS11_CKR_OK \<longleftrightarrow> pin_matches e user pin salt hash"
  "verify_pin e user pin salt hash = PKCS11_CKR_PIN_INCORRECT \<longleftrightarrow>
     digest_ok e \<and> \<not> pin_matches e user pin salt hash"
  using do_hash_cases [of e user pin salt]
  by (auto simp: verify_pin_def pin_matches_def split: sum.splits)

lemma verify_pin_error:
  "\<not> digest_ok e \<Longrightarrow> verify_pin e user pin salt hash \<notin>
     {PKCS11_CKR_OK, PKCS11_CKR_PIN_INCORRECT, PKCS11_CKR_PIN_LOCKED}"
  using do_hash_cases [of e user pin salt] by (auto simp: verify_pin_def split: sum.splits)

lemma pin_matches_digest_ok: "pin_matches e user pin salt hash \<Longrightarrow> digest_ok e"
  using do_hash_cases [of e user pin salt] by (auto simp: pin_matches_def)

lemma hash_pin_Inr:
  "hash_pin e user pin = Inr (salt, hash) \<Longrightarrow> salt \<noteq> 0 \<and> pin_matches e user pin salt hash"
  by (auto simp: hash_pin_def pin_matches_def Let_def split: sum.splits if_splits)

lemma hash_pin_Inl: "hash_pin e user pin = Inl rc \<Longrightarrow> rc \<noteq> PKCS11_CKR_OK"
  using do_hash_cases(2) by (fastforce simp: hash_pin_def Let_def split: sum.splits)

section \<open>What the PIN checks do\<close>

lemma and_not_disjoint: "w AND f = 0 \<Longrightarrow> w AND NOT f = w" for w f :: u32
proof (rule bit_word_eqI)
  fix n assume 0: "w AND f = 0" and "n < LENGTH(32)"
  moreover have "\<not> (bit w n \<and> bit f n)" unfolding bit_and_iff [symmetric] 0 by simp
  ultimately show "bit (w AND NOT f) n \<longleftrightarrow> bit w n" by (auto simp: bit_and_iff bit_not_iff)
qed

lemma and_not_eq_iff: "w AND NOT f = w \<longleftrightarrow> w AND f = 0" for w f :: u32
proof
  assume "w AND NOT f = w"
  moreover have "(w AND NOT f) AND f = 0" by (simp add: and.assoc)
  ultimately show "w AND f = 0" by simp
qed (rule and_not_disjoint)

text \<open>The database after a correct PIN.\<close>

definition user_pin_good :: "token_persistent_main \<Rightarrow> token_persistent_main" where
  "user_pin_good db = db\<lparr>db_user_pin_count := 0, db_flags := db_flags db AND
     NOT (PKCS11_CKFT_USER_PIN_COUNT_LOW OR PKCS11_CKFT_USER_PIN_FINAL_TRY)\<rparr>"

definition so_pin_good :: "token_persistent_main \<Rightarrow> token_persistent_main" where
  "so_pin_good db = db\<lparr>db_so_pin_count := 0, db_flags := db_flags db AND
     NOT (PKCS11_CKFT_SO_PIN_COUNT_LOW OR PKCS11_CKFT_SO_PIN_FINAL_TRY)\<rparr>"

lemma count_lt_max:
  assumes "c \<le> (7::u32)" and "c \<noteq> 7"
  shows "unat (c + 1) = unat c + 1 \<and> unat c < 7"
proof -
  from assms have "c < 7" by simp
  then have "unat c < 7" by (simp add: word_less_nat_alt)
  then show ?thesis by (simp add: unat_add_no_wrap)
qed

lemma user_pin_failed_simps [simp]:
  "db_user_pin_count (user_pin_failed db) = db_user_pin_count db + 1"
  "db_user_pin_salt (user_pin_failed db) = db_user_pin_salt db"
  "db_user_pin_hash (user_pin_failed db) = db_user_pin_hash db"
  "db_so_pin_count (user_pin_failed db) = db_so_pin_count db"
  "db_so_pin_salt (user_pin_failed db) = db_so_pin_salt db"
  by (simp_all add: user_pin_failed_def Let_def)

lemma so_pin_failed_simps [simp]:
  "db_so_pin_count (so_pin_failed db) = db_so_pin_count db + 1"
  "db_so_pin_salt (so_pin_failed db) = db_so_pin_salt db"
  "db_so_pin_hash (so_pin_failed db) = db_so_pin_hash db"
  "db_user_pin_count (so_pin_failed db) = db_user_pin_count db"
  "db_user_pin_salt (so_pin_failed db) = db_user_pin_salt db"
  by (simp_all add: so_pin_failed_def Let_def)

lemma user_pin_failed_bits:
  "bit (db_flags (user_pin_failed db)) 18 \<longleftrightarrow> bit (db_flags db) 18 \<or> db_user_pin_count db + 1 = 7"
  "bit (db_flags (user_pin_failed db)) 22 \<longleftrightarrow> bit (db_flags db) 22"
  "bit (db_flags (user_pin_failed db)) 10 \<longleftrightarrow> bit (db_flags db) 10"
  by (auto simp: user_pin_failed_def Let_def flag_simps pin_consts)

lemma so_pin_failed_bits:
  "bit (db_flags (so_pin_failed db)) 22 \<longleftrightarrow> bit (db_flags db) 22 \<or> db_so_pin_count db + 1 = 7"
  "bit (db_flags (so_pin_failed db)) 18 \<longleftrightarrow> bit (db_flags db) 18"
  "bit (db_flags (so_pin_failed db)) 10 \<longleftrightarrow> bit (db_flags db) 10"
  by (auto simp: so_pin_failed_def Let_def flag_simps pin_consts)

lemma pin_good_bits:
  "bit (db_flags (user_pin_good db)) 10 \<longleftrightarrow> bit (db_flags db) 10"
  "bit (db_flags (user_pin_good db)) 18 \<longleftrightarrow> bit (db_flags db) 18"
  "bit (db_flags (user_pin_good db)) 22 \<longleftrightarrow> bit (db_flags db) 22"
  "bit (db_flags (so_pin_good db)) 10 \<longleftrightarrow> bit (db_flags db) 10"
  "bit (db_flags (so_pin_good db)) 18 \<longleftrightarrow> bit (db_flags db) 18"
  "bit (db_flags (so_pin_good db)) 22 \<longleftrightarrow> bit (db_flags db) 22"
  by (simp_all add: user_pin_good_def so_pin_good_def flag_simps)

lemma user_pin_good_same:
  "user_pin_good db = db \<longleftrightarrow> db_user_pin_count db = 0 \<and>
     db_flags db AND (PKCS11_CKFT_USER_PIN_COUNT_LOW OR PKCS11_CKFT_USER_PIN_FINAL_TRY) = 0"
  unfolding user_pin_good_def and_not_eq_iff [symmetric] by (cases db) auto

lemma so_pin_good_same:
  "so_pin_good db = db \<longleftrightarrow> db_so_pin_count db = 0 \<and>
     db_flags db AND (PKCS11_CKFT_SO_PIN_COUNT_LOW OR PKCS11_CKFT_SO_PIN_FINAL_TRY) = 0"
  unfolding so_pin_good_def and_not_eq_iff [symmetric] by (cases db) auto

lemma db_ok_bits:
  "db_ok db \<longleftrightarrow> (bit (db_flags db) 10 \<longrightarrow> db_so_pin_salt db \<noteq> 0) \<and> db_so_pin_count db \<le> 7 \<and>
     (bit (db_flags db) 22 \<longleftrightarrow> db_so_pin_count db = 7) \<and>
     (db_user_pin_salt db \<noteq> 0 \<longrightarrow> db_user_pin_count db \<le> 7 \<and>
       (bit (db_flags db) 18 \<longleftrightarrow> db_user_pin_count db = 7))"
  by (auto simp: db_ok_def flag_simps pin_consts)

lemma count_inc_le: "c \<le> (7::u32) \<Longrightarrow> c \<noteq> 7 \<Longrightarrow> c + 1 \<le> 7"
  using count_lt_max [of c] by (simp add: word_le_nat_alt)

lemma db_ok_user_pin_failed:
  "db_ok db \<Longrightarrow> \<not> bit (db_flags db) 18 \<Longrightarrow> db_ok (user_pin_failed db)"
  by (auto simp: db_ok_bits user_pin_failed_bits count_inc_le)

lemma db_ok_so_pin_failed:
  "db_ok db \<Longrightarrow> \<not> bit (db_flags db) 22 \<Longrightarrow> db_ok (so_pin_failed db)"
  by (auto simp: db_ok_bits so_pin_failed_bits count_inc_le)

lemma db_ok_user_pin_good:
  "db_ok db \<Longrightarrow> \<not> bit (db_flags db) 18 \<Longrightarrow> db_ok (user_pin_good db)"
  unfolding db_ok_bits pin_good_bits by (auto simp: user_pin_good_def)

lemma db_ok_so_pin_good:
  "db_ok db \<Longrightarrow> \<not> bit (db_flags db) 22 \<Longrightarrow> db_ok (so_pin_good db)"
  unfolding db_ok_bits pin_good_bits by (auto simp: so_pin_good_def)

lemma token_ok_object: "token_ok tk \<Longrightarrow> tk_object tk \<noteq> None"
  by (simp add: token_ok_def)

lemma verify_ok_iff: "verify_pin e user pin salt hash \<noteq> PKCS11_CKR_OK \<longleftrightarrow>
    \<not> pin_matches e user pin salt hash"
  by (simp add: verify_pin_cases)

text \<open>The clean-up after a correct PIN is one commit, whichever of its two writes are needed.\<close>

lemma user_pin_good_writes:
  assumes "token_ok tk"
  shows "bind_outcome
      (if db_user_pin_count (tk_db_main tk) \<noteq> 0
       then update_persistent_db e (tk\<lparr>tk_db_main := (tk_db_main tk)\<lparr>db_user_pin_count := 0\<rparr>\<rparr>)
       else Ret tk) (\<lambda>tk.
      bind_outcome
        (if db_flags (tk_db_main tk) AND
              (PKCS11_CKFT_USER_PIN_COUNT_LOW OR PKCS11_CKFT_USER_PIN_FINAL_TRY) \<noteq> 0
         then update_persistent_db e (tk\<lparr>tk_db_main := (tk_db_main tk)\<lparr>db_flags :=
             db_flags (tk_db_main tk) AND
               NOT (PKCS11_CKFT_USER_PIN_COUNT_LOW OR PKCS11_CKFT_USER_PIN_FINAL_TRY)\<rparr>\<rparr>)
         else Ret tk) (\<lambda>tk. Ret (PKCS11_CKR_OK, tk))) =
    (if storage_ok e \<or> user_pin_good (tk_db_main tk) = tk_db_main tk
     then Ret (PKCS11_CKR_OK, commit tk (user_pin_good (tk_db_main tk))) else Panic)"
proof -
  let ?db = "tk_db_main tk" and ?low = "PKCS11_CKFT_USER_PIN_COUNT_LOW OR PKCS11_CKFT_USER_PIN_FINAL_TRY"
  have nolow: "db_flags ?db AND ?low = 0 \<Longrightarrow>
      user_pin_good ?db = ?db\<lparr>db_user_pin_count := 0\<rparr>"
    using and_not_disjoint [of "db_flags ?db" ?low] by (simp add: user_pin_good_def)
  show ?thesis
  proof (cases "user_pin_good ?db = ?db")
    case True
    then show ?thesis using user_pin_good_same [of ?db] by (simp add: commit_same [OF assms])
  next
    case False
    then show ?thesis using user_pin_good_same [of ?db] nolow
      by (auto simp: update_persistent_db_commit token_ok_object [OF assms] user_pin_good_def)
  qed
qed

lemma so_pin_good_writes:
  assumes "token_ok tk"
  shows "bind_outcome
      (if db_so_pin_count (tk_db_main tk) \<noteq> 0
       then update_persistent_db e (tk\<lparr>tk_db_main := (tk_db_main tk)\<lparr>db_so_pin_count := 0\<rparr>\<rparr>)
       else Ret tk) (\<lambda>tk.
      bind_outcome
        (if db_flags (tk_db_main tk) AND
              (PKCS11_CKFT_SO_PIN_COUNT_LOW OR PKCS11_CKFT_SO_PIN_FINAL_TRY) \<noteq> 0
         then update_persistent_db e (tk\<lparr>tk_db_main := (tk_db_main tk)\<lparr>db_flags :=
             db_flags (tk_db_main tk) AND
               NOT (PKCS11_CKFT_SO_PIN_COUNT_LOW OR PKCS11_CKFT_SO_PIN_FINAL_TRY)\<rparr>\<rparr>)
         else Ret tk) (\<lambda>tk. Ret (PKCS11_CKR_OK, tk))) =
    (if storage_ok e \<or> so_pin_good (tk_db_main tk) = tk_db_main tk
     then Ret (PKCS11_CKR_OK, commit tk (so_pin_good (tk_db_main tk))) else Panic)"
proof -
  let ?db = "tk_db_main tk" and ?low = "PKCS11_CKFT_SO_PIN_COUNT_LOW OR PKCS11_CKFT_SO_PIN_FINAL_TRY"
  have nolow: "db_flags ?db AND ?low = 0 \<Longrightarrow> so_pin_good ?db = ?db\<lparr>db_so_pin_count := 0\<rparr>"
    using and_not_disjoint [of "db_flags ?db" ?low] by (simp add: so_pin_good_def)
  show ?thesis
  proof (cases "so_pin_good ?db = ?db")
    case True
    then show ?thesis using so_pin_good_same [of ?db] by (simp add: commit_same [OF assms])
  next
    case False
    then show ?thesis using so_pin_good_same [of ?db] nolow
      by (auto simp: update_persistent_db_commit token_ok_object [OF assms] so_pin_good_def)
  qed
qed

text \<open>\<^verbatim>\<open>check_user_pin\<close> and \<^verbatim>\<open>check_so_pin\<close>, case by case.\<close>

lemma check_user_pin_eq:
  assumes "token_ok tk" and "db = tk_db_main tk"
  shows "check_user_pin e tk pin =
     (if db_user_pin_salt db = 0 then Ret (PKCS11_CKR_USER_PIN_NOT_INITIALIZED, tk)
      else if bit (db_flags db) 18 then Ret (PKCS11_CKR_PIN_LOCKED, tk)
      else if \<not> digest_ok e
      then Ret (verify_pin e PKCS11_CKU_USER pin (db_user_pin_salt db) (db_user_pin_hash db), tk)
      else if pin_matches e PKCS11_CKU_USER pin (db_user_pin_salt db) (db_user_pin_hash db)
      then if storage_ok e \<or> user_pin_good db = db
           then Ret (PKCS11_CKR_OK, commit tk (user_pin_good db)) else Panic
      else if storage_ok e
      then Ret (if db_user_pin_count db + 1 = PKCS11_TOKEN_USER_PIN_COUNT_MAX
                then PKCS11_CKR_PIN_LOCKED else PKCS11_CKR_PIN_INCORRECT, commit tk (user_pin_failed db))
      else Panic)"
proof -
  let ?v = "verify_pin e PKCS11_CKU_USER pin (db_user_pin_salt db) (db_user_pin_hash db)"
  note simps = check_user_pin_def Let_def flag_simps assms(2)
  have "\<not> digest_ok e \<Longrightarrow> ?v \<notin> {PKCS11_CKR_OK, PKCS11_CKR_PIN_INCORRECT}"
    using verify_pin_error by blast
  moreover have "?v = PKCS11_CKR_OK \<longleftrightarrow>
      pin_matches e PKCS11_CKU_USER pin (db_user_pin_salt db) (db_user_pin_hash db)"
    "digest_ok e \<Longrightarrow> ?v \<noteq> PKCS11_CKR_OK \<Longrightarrow> ?v = PKCS11_CKR_PIN_INCORRECT"
    by (simp_all add: verify_pin_cases)
  ultimately show ?thesis
    using user_pin_good_writes [OF assms(1), of e]
    by (auto simp: check_user_pin_def Let_def assms(2) update_persistent_db_commit
        token_ok_object [OF assms(1)] user_pin_failed_bits ckft_and pin_consts)
qed

lemma check_so_pin_eq:
  assumes "token_ok tk" and "db = tk_db_main tk"
  shows "check_so_pin e tk pin =
     (if \<not> bit (db_flags db) 10 then Panic
      else if bit (db_flags db) 22 then Ret (PKCS11_CKR_PIN_LOCKED, tk)
      else if \<not> digest_ok e
      then Ret (verify_pin e PKCS11_CKU_SO pin (db_so_pin_salt db) (db_so_pin_hash db), tk)
      else if pin_matches e PKCS11_CKU_SO pin (db_so_pin_salt db) (db_so_pin_hash db)
      then if storage_ok e \<or> so_pin_good db = db
           then Ret (PKCS11_CKR_OK, commit tk (so_pin_good db)) else Panic
      else if storage_ok e
      then Ret (if db_so_pin_count db + 1 = PKCS11_TOKEN_SO_PIN_COUNT_MAX
                then PKCS11_CKR_PIN_LOCKED else PKCS11_CKR_PIN_INCORRECT, commit tk (so_pin_failed db))
      else Panic)"
proof -
  let ?v = "verify_pin e PKCS11_CKU_SO pin (db_so_pin_salt db) (db_so_pin_hash db)"
  have "\<not> digest_ok e \<Longrightarrow> ?v \<notin> {PKCS11_CKR_OK, PKCS11_CKR_PIN_INCORRECT}"
    using verify_pin_error by blast
  moreover have "?v = PKCS11_CKR_OK \<longleftrightarrow>
      pin_matches e PKCS11_CKU_SO pin (db_so_pin_salt db) (db_so_pin_hash db)"
    "digest_ok e \<Longrightarrow> ?v \<noteq> PKCS11_CKR_OK \<Longrightarrow> ?v = PKCS11_CKR_PIN_INCORRECT"
    by (simp_all add: verify_pin_cases)
  ultimately show ?thesis
    using so_pin_good_writes [OF assms(1), of e]
    by (auto simp: check_so_pin_def Let_def assms(2) update_persistent_db_commit
        token_ok_object [OF assms(1)] so_pin_failed_bits ckft_and pin_consts)
qed

section \<open>Every operation keeps the invariant\<close>

lemma check_user_pin_ok:
  assumes "token_ok tk" and "check_user_pin e tk pin = Ret (rc, tk')"
  shows "token_ok tk' \<and> (\<exists>db. tk' = commit tk db \<and>
    bit (db_flags db) 10 = bit (db_flags (tk_db_main tk)) 10)"
  using assms commit_same [OF assms(1)]
    db_ok_user_pin_failed [of "tk_db_main tk"] db_ok_user_pin_good [of "tk_db_main tk"]
  by (auto simp: check_user_pin_eq token_ok_def user_pin_failed_bits pin_good_bits
      intro: exI [of _ "tk_db_main tk"] exI [of _ "user_pin_good (tk_db_main tk)"]
      exI [of _ "user_pin_failed (tk_db_main tk)"] split: if_splits)

lemma check_so_pin_ok:
  assumes "token_ok tk" and "check_so_pin e tk pin = Ret (rc, tk')"
  shows "token_ok tk' \<and> (\<exists>db. tk' = commit tk db \<and>
    bit (db_flags db) 10 = bit (db_flags (tk_db_main tk)) 10)"
  using assms commit_same [OF assms(1)]
    db_ok_so_pin_failed [of "tk_db_main tk"] db_ok_so_pin_good [of "tk_db_main tk"]
  by (auto simp: check_so_pin_eq token_ok_def so_pin_failed_bits pin_good_bits
      intro: exI [of _ "tk_db_main tk"] exI [of _ "so_pin_good (tk_db_main tk)"]
      exI [of _ "so_pin_failed (tk_db_main tk)"] split: if_splits)

text \<open>A successful \<^verbatim>\<open>set_pin\<close> stores the digest of the new PIN and unlocks it.\<close>

definition so_pin_set :: "token_persistent_main \<Rightarrow> u32 \<Rightarrow> u8 list \<Rightarrow> token_persistent_main" where
  "so_pin_set db salt hash = db\<lparr>db_so_pin_salt := salt, db_so_pin_hash := hash, db_so_pin_count := 0,
     db_flags := db_flags db AND NOT (PKCS11_CKFT_SO_PIN_COUNT_LOW OR PKCS11_CKFT_SO_PIN_FINAL_TRY OR
       PKCS11_CKFT_SO_PIN_LOCKED OR PKCS11_CKFT_SO_PIN_TO_BE_CHANGED)\<rparr>"

definition user_pin_set :: "token_persistent_main \<Rightarrow> u32 \<Rightarrow> u8 list \<Rightarrow> token_persistent_main" where
  "user_pin_set db salt hash = db\<lparr>db_user_pin_salt := salt, db_user_pin_hash := hash,
     db_user_pin_count := 0, db_flags := (db_flags db AND NOT (PKCS11_CKFT_USER_PIN_COUNT_LOW OR
       PKCS11_CKFT_USER_PIN_FINAL_TRY OR PKCS11_CKFT_USER_PIN_LOCKED OR
       PKCS11_CKFT_USER_PIN_TO_BE_CHANGED)) OR PKCS11_CKFT_USER_PIN_INITIALIZED\<rparr>"

lemma pin_set_bits:
  "bit (db_flags (so_pin_set db salt hash)) 10 \<longleftrightarrow> bit (db_flags db) 10"
  "bit (db_flags (so_pin_set db salt hash)) 18 \<longleftrightarrow> bit (db_flags db) 18"
  "bit (db_flags (so_pin_set db salt hash)) 22 \<longleftrightarrow> False"
  "bit (db_flags (user_pin_set db salt hash)) 10 \<longleftrightarrow> bit (db_flags db) 10"
  "bit (db_flags (user_pin_set db salt hash)) 18 \<longleftrightarrow> False"
  "bit (db_flags (user_pin_set db salt hash)) 22 \<longleftrightarrow> bit (db_flags db) 22"
  by (simp_all add: so_pin_set_def user_pin_set_def flag_simps)

lemma db_ok_pin_set:
  "db_ok db \<Longrightarrow> salt \<noteq> 0 \<Longrightarrow> db_ok (so_pin_set db salt hash)"
  "db_ok db \<Longrightarrow> db_ok (user_pin_set db salt hash)"
  unfolding db_ok_bits pin_set_bits by (auto simp: so_pin_set_def user_pin_set_def)

lemma set_pin_eq:
  assumes "token_ok tk" and "db = tk_db_main tk"
  shows "set_pin e rw tk pin user =
    (if bit (db_flags db) 1 then Ret (PKCS11_CKR_TOKEN_WRITE_PROTECTED, tk)
     else if \<not> rw then Ret (PKCS11_CKR_SESSION_READ_ONLY, tk)
     else if length pin < PKCS11_TOKEN_PIN_SIZE_MIN \<or> length pin > PKCS11_TOKEN_PIN_SIZE_MAX
     then Ret (PKCS11_CKR_PIN_LEN_RANGE, tk)
     else if user = PKCS11_CKU_CONTEXT_SPECIFIC then Ret (PKCS11_CKR_FUNCTION_FAILED, tk)
     else case hash_pin e user pin of
       Inl rc \<Rightarrow> Ret (rc, tk)
     | Inr (salt, hash) \<Rightarrow>
         if storage_ok e
         then Ret (PKCS11_CKR_OK, commit tk (if user = PKCS11_CKU_SO then so_pin_set db salt hash
                                             else user_pin_set db salt hash))
         else Panic)"
  using assms
  by (cases user) (auto simp: set_pin_def Let_def ckft_and update_persistent_db_commit token_ok_object
      so_pin_set_def user_pin_set_def split: sum.splits)

lemma set_pin_ok:
  assumes "token_ok tk" and "set_pin e rw tk pin user = Ret (rc, tk')"
  shows "token_ok tk' \<and> (\<exists>db. tk' = commit tk db \<and>
    bit (db_flags db) 10 = bit (db_flags (tk_db_main tk)) 10)"
proof -
  let ?db = "tk_db_main tk"
  have same: "token_ok tk \<and> tk = commit tk ?db" using assms(1) by (simp add: commit_same)
  have db: "db_ok ?db" using assms(1) by (simp add: token_ok_def)
  from assms(2) consider "tk' = tk"
    | salt hash where "hash_pin e user pin = Inr (salt, hash)"
        "tk' = commit tk (if user = PKCS11_CKU_SO then so_pin_set ?db salt hash
                                             else user_pin_set ?db salt hash)"
    unfolding set_pin_eq [OF assms(1) refl] by (auto split: if_splits sum.splits prod.splits)
  then show ?thesis
  proof cases
    case 1
    with same show ?thesis by metis
  next
    case (2 salt hash)
    then have "salt \<noteq> 0" using hash_pin_Inr by blast
    with 2 db show ?thesis by (simp add: db_ok_pin_set) (metis pin_set_bits(1,4))
  qed
qed

definition token_reset :: "token_persistent_main \<Rightarrow> u8 list \<Rightarrow> token_persistent_main" where
  "token_reset db label = db\<lparr>db_label := label, db_user_pin_salt := 0,
     db_flags := (db_flags db OR PKCS11_CKFT_TOKEN_INITIALIZED) AND
       NOT (PKCS11_CKFT_USER_PIN_INITIALIZED OR PKCS11_CKFT_USER_PIN_COUNT_LOW OR
            PKCS11_CKFT_USER_PIN_FINAL_TRY OR PKCS11_CKFT_USER_PIN_LOCKED OR
            PKCS11_CKFT_USER_PIN_TO_BE_CHANGED)\<rparr>"

lemma token_reset_bits:
  "bit (db_flags (token_reset db label)) 10 \<longleftrightarrow> True"
  "bit (db_flags (token_reset db label)) 22 \<longleftrightarrow> bit (db_flags db) 22"
  by (simp_all add: token_reset_def flag_simps)

lemma db_ok_token_reset: "db_ok db \<Longrightarrow> db_so_pin_salt db \<noteq> 0 \<Longrightarrow> db_ok (token_reset db label)"
  unfolding db_ok_bits token_reset_bits by (auto simp: token_reset_def)

lemma token_inited_eq:
  "tk_object tk \<noteq> None \<Longrightarrow> token_inited e (tk\<lparr>tk_db_main := d\<rparr>) label =
     (if storage_ok e then Ret (PKCS11_CKR_OK, commit tk (token_reset d label)) else Panic)"
  "token_inited e (commit tk d) label =
     (if storage_ok e then Ret (PKCS11_CKR_OK, commit tk (token_reset d label)) else Panic)"
  using update_persistent_db_commit [of tk e] update_persistent_db_commit [of "commit tk d" e]
  by (simp_all add: token_inited_def Let_def token_reset_def)

lemma token_initialize_eq:
  assumes "token_ok tk" and "db = tk_db_main tk"
  shows "token_initialize e tk label pin =
    (if db_so_pin_salt db = 0 then
       if length pin < PKCS11_TOKEN_PIN_SIZE_MIN \<or> length pin > PKCS11_TOKEN_PIN_SIZE_MAX
       then Ret (PKCS11_CKR_ARGUMENTS_BAD, tk)
       else case hash_pin e PKCS11_CKU_SO pin of
         Inl rc \<Rightarrow> Ret (rc, tk)
       | Inr (salt, hash) \<Rightarrow>
           if storage_ok e
           then Ret (PKCS11_CKR_OK,
             commit tk (token_reset (db\<lparr>db_so_pin_salt := salt, db_so_pin_hash := hash\<rparr>) label))
           else Panic
     else if \<not> digest_ok e
     then Ret (verify_pin e PKCS11_CKU_SO pin (db_so_pin_salt db) (db_so_pin_hash db), tk)
     else if pin_matches e PKCS11_CKU_SO pin (db_so_pin_salt db) (db_so_pin_hash db)
     then if storage_ok e then Ret (PKCS11_CKR_OK, commit tk (token_reset (so_pin_good db) label))
          else Panic
     else if storage_ok e then Ret (PKCS11_CKR_PIN_INCORRECT, commit tk (so_pin_failed db)) else Panic)"
proof -
  let ?v = "verify_pin e PKCS11_CKU_SO pin (db_so_pin_salt db) (db_so_pin_hash db)"
  have "\<not> digest_ok e \<Longrightarrow> ?v \<notin> {PKCS11_CKR_OK, PKCS11_CKR_PIN_INCORRECT}"
    using verify_pin_error by blast
  moreover have "?v = PKCS11_CKR_OK \<longleftrightarrow>
      pin_matches e PKCS11_CKU_SO pin (db_so_pin_salt db) (db_so_pin_hash db)"
    "digest_ok e \<Longrightarrow> ?v \<noteq> PKCS11_CKR_OK \<Longrightarrow> ?v = PKCS11_CKR_PIN_INCORRECT"
    by (simp_all add: verify_pin_cases)
  ultimately show ?thesis
    using token_ok_object [OF assms(1)]
    by (auto simp: token_initialize_def Let_def assms(2) update_persistent_db_commit so_pin_good_def
        token_inited_eq split: sum.splits)
qed

lemma token_initialize_ok:
  assumes "token_ok tk" and "\<not> bit (db_flags (tk_db_main tk)) 22"
    and "token_initialize e tk label pin = Ret (rc, tk')"
  shows "token_ok tk' \<and> (\<exists>db. tk' = commit tk db \<and>
    (bit (db_flags (tk_db_main tk)) 10 \<longrightarrow> bit (db_flags db) 10))"
proof -
  let ?db = "tk_db_main tk"
  have same: "token_ok tk \<and> tk = commit tk ?db" using assms(1) by (simp add: commit_same)
  have db: "db_ok ?db" using assms(1) by (simp add: token_ok_def)
  from assms(3) consider "tk' = tk"
    | salt hash where "hash_pin e PKCS11_CKU_SO pin = Inr (salt, hash)" "db_so_pin_salt ?db = 0"
        "tk' = commit tk (token_reset (?db\<lparr>db_so_pin_salt := salt, db_so_pin_hash := hash\<rparr>) label)"
    | "db_so_pin_salt ?db \<noteq> 0" "tk' = commit tk (token_reset (so_pin_good ?db) label)"
    | "tk' = commit tk (so_pin_failed ?db)"
    unfolding token_initialize_eq [OF assms(1) refl]
    by (auto split: if_splits sum.splits prod.splits)
  then show ?thesis
  proof cases
    case 1
    with same show ?thesis by metis
  next
    case (2 salt hash)
    then have "salt \<noteq> 0" using hash_pin_Inr by blast
    with db have "db_ok (?db\<lparr>db_so_pin_salt := salt, db_so_pin_hash := hash\<rparr>)" by (simp add: db_ok_def)
    with 2 \<open>salt \<noteq> 0\<close> show ?thesis by (simp add: db_ok_token_reset) (metis token_reset_bits(1))
  next
    case 3
    have "db_ok (so_pin_good ?db)" "db_so_pin_salt (so_pin_good ?db) = db_so_pin_salt ?db"
      using db_ok_so_pin_good [OF db assms(2)] by (simp_all add: so_pin_good_def)
    with 3 show ?thesis by (simp add: db_ok_token_reset) (metis token_reset_bits(1))
  next
    case 4
    with db_ok_so_pin_failed [OF db assms(2)] show ?thesis by simp (metis so_pin_failed_bits(3))
  qed
qed

section \<open>Restarting the application\<close>

text \<open>
  A new instance of the application starts from zeroed static data; only the persistent object is left.
\<close>

definition restart_token :: "ck_token \<Rightarrow> ck_token" where
  "restart_token tk = \<lparr>tk_state = PKCS11_TOKEN_RESET, tk_session_count = 0, tk_rw_session_count = 0,
     tk_db_main = zero_db, tk_object = tk_object tk\<rparr>"

lemma db_ok_default: "db_ok default_db"
  by (simp add: db_ok_bits default_db_def zero_db_def flag_simps)

text \<open>Secure storage never reports an existing object as missing.\<close>

definition honest_storage :: "tee_env \<Rightarrow> bool" where
  "honest_storage e \<longleftrightarrow> env_open e \<noteq> TEE_ERROR_ITEM_NOT_FOUND"

lemma pkcs11_token_init_restart:
  assumes "tk_object tk = None \<or> token_ok tk" and honest: "honest_storage e"
    and "pkcs11_token_init e (restart_token tk) = Ret (res, tk')"
  shows "(res = TEE_SUCCESS \<and> token_ok tk' \<and> tk_state tk' = PKCS11_TOKEN_READ_WRITE \<and>
      tk_session_count tk' = 0 \<and> tk_rw_session_count tk' = 0 \<and>
      tk_db_main tk' = (case tk_object tk of None \<Rightarrow> default_db | Some db \<Rightarrow> db)) \<or>
    (res = TEE_ERROR_SECURITY \<and> tk' = restart_token tk)"
proof (cases "tk_object tk")
  case None
  with assms(3) db_ok_default show ?thesis
    by (auto simp: pkcs11_token_init_def init_persistent_db_def restart_token_def open_db_file_def
        token_ok_def split: if_splits)
next
  case (Some db)
  with assms(1) have "db_ok db" by (simp add: token_ok_def)
  with assms(3) Some honest show ?thesis
    by (cases "env_open e") (auto simp: honest_storage_def pkcs11_token_init_def init_persistent_db_def
        restart_token_def open_db_file_def token_ok_def split: if_splits)
qed

section \<open>Retry counters\<close>

text \<open>
  The contract of a PIN check with a retry counter: \<open>secret\<close> is what a PIN is compared with,
  \<open>tries\<close> the number of failures counted. A failed comparison costs one try, at
  \<open>limit\<close> tries every PIN is refused, and a restart changes neither, as long as storage keeps the object.
\<close>

locale retry_lock =
  fixes check :: "tee_env \<Rightarrow> ck_token \<Rightarrow> u8 list \<Rightarrow> (pkcs11_rc \<times> ck_token) outcome"
    and armed :: "ck_token \<Rightarrow> bool"
    and secret :: "ck_token \<Rightarrow> 's"
    and matches :: "tee_env \<Rightarrow> u8 list \<Rightarrow> 's \<Rightarrow> bool"
    and tries :: "ck_token \<Rightarrow> nat"
    and limit :: nat
  assumes tries_le: "armed tk \<Longrightarrow> tries tk \<le> limit"
    and check_locked: "armed tk \<Longrightarrow> tries tk = limit \<Longrightarrow> check e tk pin = Ret (PKCS11_CKR_PIN_LOCKED, tk)"
    and check_wrong: "armed tk \<Longrightarrow> tries tk < limit \<Longrightarrow> \<not> matches e pin (secret tk) \<Longrightarrow>
      check e tk pin = Ret (rc, tk') \<Longrightarrow>
      rc \<noteq> PKCS11_CKR_OK \<and> armed tk' \<and> secret tk' = secret tk \<and>
      tries tk' = (if digest_ok e then Suc (tries tk) else tries tk)"
    and restart: "armed tk \<Longrightarrow> honest_storage e \<Longrightarrow>
      pkcs11_token_init e (restart_token tk) = Ret (TEE_SUCCESS, tk') \<Longrightarrow>
      armed tk' \<and> secret tk' = secret tk \<and> tries tk' = tries tk"

datatype pin_event = Try tee_env "u8 list" | Restart tee_env

text \<open>
  A sequence of PIN checks and restarts of the application, with the result of each check; a restart
  that fails leaves no instance to go on with.
\<close>

fun pin_run ::
    "(tee_env \<Rightarrow> ck_token \<Rightarrow> u8 list \<Rightarrow> (pkcs11_rc \<times> ck_token) outcome) \<Rightarrow> ck_token \<Rightarrow>
      pin_event list \<Rightarrow> (pkcs11_rc list \<times> ck_token) outcome" where
  "pin_run check tk [] = Ret ([], tk)"
| "pin_run check tk (Try e pin # es) =
     bind_outcome (check e tk pin) (\<lambda>(rc, tk).
       bind_outcome (pin_run check tk es) (\<lambda>(rcs, tk). Ret (rc # rcs, tk)))"
| "pin_run check tk (Restart e # es) =
     bind_outcome (pkcs11_token_init e (restart_token tk)) (\<lambda>(res, tk).
       if res = TEE_SUCCESS then pin_run check tk es else Panic)"

text \<open>The attempts whose digest could be computed.\<close>

fun attempts :: "pin_event list \<Rightarrow> nat" where
  "attempts [] = 0"
| "attempts (Try e pin # es) = (if digest_ok e then 1 else 0) + attempts es"
| "attempts (Restart e # es) = attempts es"

context retry_lock
begin

definition all_wrong :: "'s \<Rightarrow> pin_event list \<Rightarrow> bool" where
  "all_wrong x es \<longleftrightarrow> (\<forall>e pin. Try e pin \<in> set es \<longrightarrow> \<not> matches e pin x) \<and>
     (\<forall>e. Restart e \<in> set es \<longrightarrow> honest_storage e)"

lemma pin_run_wrong:
  assumes "armed tk" and "all_wrong (secret tk) es" and "pin_run check tk es = Ret (rcs, tk')"
  shows "armed tk' \<and> secret tk' = secret tk \<and> tries tk' = min limit (tries tk + attempts es) \<and>
    PKCS11_CKR_OK \<notin> set rcs"
  using assms
proof (induction es arbitrary: tk rcs)
  case Nil
  then show ?case using tries_le by simp
next
  case (Cons ev es)
  show ?case
  proof (cases ev)
    case (Try e pin)
    from Cons.prems(3) Try obtain rc tk1 rcs1
      where 1: "check e tk pin = Ret (rc, tk1)" and 2: "pin_run check tk1 es = Ret (rcs1, tk')"
        and rcs: "rcs = rc # rcs1" by auto
    have wrong: "\<not> matches e pin (secret tk)" "all_wrong (secret tk) es"
      using Cons.prems(2) Try by (auto simp: all_wrong_def)
    have tk1: "rc \<noteq> PKCS11_CKR_OK \<and> armed tk1 \<and> secret tk1 = secret tk \<and>
        tries tk1 = (if digest_ok e then min limit (Suc (tries tk)) else tries tk)"
    proof (cases "tries tk < limit")
      case True
      with check_wrong [OF Cons.prems(1) True wrong(1) 1] show ?thesis by auto
    next
      case False
      with tries_le [OF Cons.prems(1)] have "tries tk = limit" by simp
      with check_locked [OF Cons.prems(1) this, of e pin] 1 Cons.prems(1) show ?thesis by auto
    qed
    from Cons.IH [OF _ _ 2] tk1 wrong(2) show ?thesis by (auto simp: rcs Try)
  next
    case (Restart e)
    from Cons.prems(3) Restart obtain tk1
      where 1: "pkcs11_token_init e (restart_token tk) = Ret (TEE_SUCCESS, tk1)"
        and 2: "pin_run check tk1 es = Ret (rcs, tk')" by (auto split: if_splits)
    have "honest_storage e" using Cons.prems(2) Restart by (simp add: all_wrong_def)
    from Cons.IH [OF _ _ 2] restart [OF Cons.prems(1) this 1] Cons.prems(2) Restart show ?thesis
      by (auto simp: all_wrong_def)
  qed
qed

lemma guess_limit:
  assumes "armed tk" and "all_wrong (secret tk) es" and "pin_run check tk es = Ret (rcs, tk')"
    and "limit \<le> tries tk + attempts es"
  shows "PKCS11_CKR_OK \<notin> set rcs \<and> check e tk' pin = Ret (PKCS11_CKR_PIN_LOCKED, tk')"
  using pin_run_wrong [OF assms(1-3)] assms(4) check_locked [of tk' e pin] by (simp add: min_def)

end

text \<open>The user PIN and the SO PIN of a token satisfy the contract.\<close>

definition user_armed :: "ck_token \<Rightarrow> bool" where
  "user_armed tk \<longleftrightarrow> token_ok tk \<and> db_user_pin_salt (tk_db_main tk) \<noteq> 0"

definition so_armed :: "ck_token \<Rightarrow> bool" where
  "so_armed tk \<longleftrightarrow> token_ok tk \<and> db_flags (tk_db_main tk) AND PKCS11_CKFT_TOKEN_INITIALIZED \<noteq> 0"

definition user_secret :: "ck_token \<Rightarrow> u32 \<times> u8 list" where
  "user_secret tk = (db_user_pin_salt (tk_db_main tk), db_user_pin_hash (tk_db_main tk))"

definition so_secret :: "ck_token \<Rightarrow> u32 \<times> u8 list" where
  "so_secret tk = (db_so_pin_salt (tk_db_main tk), db_so_pin_hash (tk_db_main tk))"

definition secret_matches :: "pkcs11_user_type \<Rightarrow> tee_env \<Rightarrow> u8 list \<Rightarrow> u32 \<times> u8 list \<Rightarrow> bool" where
  "secret_matches user e pin x = pin_matches e user pin (fst x) (snd x)"

lemma restart_same_db:
  assumes "token_ok tk" and "honest_storage e"
    and "pkcs11_token_init e (restart_token tk) = Ret (TEE_SUCCESS, tk')"
  shows "token_ok tk' \<and> tk_db_main tk' = tk_db_main tk"
  using pkcs11_token_init_restart [of tk e TEE_SUCCESS tk'] assms by (auto simp: token_ok_def)

lemma user_locked:
  assumes "user_armed tk"
  shows "bit (db_flags (tk_db_main tk)) 18 \<longleftrightarrow> unat (db_user_pin_count (tk_db_main tk)) = 7"
    and "unat (db_user_pin_count (tk_db_main tk)) \<le> 7"
proof -
  from assms have "bit (db_flags (tk_db_main tk)) 18 \<longleftrightarrow> db_user_pin_count (tk_db_main tk) = 7"
    and "db_user_pin_count (tk_db_main tk) \<le> 7"
    by (simp_all add: user_armed_def token_ok_def db_ok_bits)
  then show "bit (db_flags (tk_db_main tk)) 18 \<longleftrightarrow> unat (db_user_pin_count (tk_db_main tk)) = 7"
    and "unat (db_user_pin_count (tk_db_main tk)) \<le> 7"
    by (simp_all add: word_unat_eq_iff word_le_nat_alt)
qed

lemma check_user_pin_wrong:
  assumes armed: "user_armed tk" and lt: "unat (db_user_pin_count (tk_db_main tk)) < 7"
    and wrong: "\<not> secret_matches PKCS11_CKU_USER e pin (user_secret tk)"
    and check: "check_user_pin e tk pin = Ret (rc, tk')"
  shows "rc \<noteq> PKCS11_CKR_OK \<and> user_armed tk' \<and> user_secret tk' = user_secret tk \<and>
      unat (db_user_pin_count (tk_db_main tk')) = (if digest_ok e then
        Suc (unat (db_user_pin_count (tk_db_main tk))) else unat (db_user_pin_count (tk_db_main tk)))"
proof -
  let ?db = "tk_db_main tk"
  from armed have ok: "token_ok tk" by (simp add: user_armed_def)
  have nl: "\<not> bit (db_flags ?db) 18" using user_locked(1) [OF armed] lt by simp
  have db: "db_ok (user_pin_failed ?db)"
    using ok nl db_ok_user_pin_failed by (simp add: token_ok_def)
  show ?thesis
  proof (cases "digest_ok e")
    case True
    with check armed nl wrong have "tk' = commit tk (user_pin_failed ?db) \<and> rc \<noteq> PKCS11_CKR_OK"
      by (auto simp: check_user_pin_eq [OF ok refl] user_armed_def user_secret_def secret_matches_def
          flag_simps split: if_splits)
    moreover have "user_armed (commit tk (user_pin_failed ?db))"
      using armed db by (simp add: user_armed_def ckft_and user_pin_failed_bits)
    moreover have "unat (db_user_pin_count ?db + 1) = Suc (unat (db_user_pin_count ?db))"
      using lt by (simp add: unat_add_no_wrap)
    ultimately show ?thesis using True by (simp add: user_secret_def)
  next
    case False
    from check have "tk' = tk \<and> rc \<noteq> PKCS11_CKR_OK"
      using armed nl False verify_pin_error [OF False]
      by (auto simp: check_user_pin_eq [OF ok refl] user_armed_def flag_simps split: if_splits)
    with False armed show ?thesis by simp
  qed
qed

lemma so_locked:
  assumes "so_armed tk"
  shows "bit (db_flags (tk_db_main tk)) 22 \<longleftrightarrow> unat (db_so_pin_count (tk_db_main tk)) = 7"
    and "unat (db_so_pin_count (tk_db_main tk)) \<le> 7"
proof -
  from assms have "bit (db_flags (tk_db_main tk)) 22 \<longleftrightarrow> db_so_pin_count (tk_db_main tk) = 7"
    and "db_so_pin_count (tk_db_main tk) \<le> 7"
    by (simp_all add: so_armed_def token_ok_def db_ok_bits)
  then show "bit (db_flags (tk_db_main tk)) 22 \<longleftrightarrow> unat (db_so_pin_count (tk_db_main tk)) = 7"
    and "unat (db_so_pin_count (tk_db_main tk)) \<le> 7"
    by (simp_all add: word_unat_eq_iff word_le_nat_alt)
qed

lemma check_so_pin_wrong:
  assumes armed: "so_armed tk" and lt: "unat (db_so_pin_count (tk_db_main tk)) < 7"
    and wrong: "\<not> secret_matches PKCS11_CKU_SO e pin (so_secret tk)"
    and check: "check_so_pin e tk pin = Ret (rc, tk')"
  shows "rc \<noteq> PKCS11_CKR_OK \<and> so_armed tk' \<and> so_secret tk' = so_secret tk \<and>
      unat (db_so_pin_count (tk_db_main tk')) = (if digest_ok e then
        Suc (unat (db_so_pin_count (tk_db_main tk))) else unat (db_so_pin_count (tk_db_main tk)))"
proof -
  let ?db = "tk_db_main tk"
  from armed have ok: "token_ok tk" by (simp add: so_armed_def)
  have nl: "\<not> bit (db_flags ?db) 22" using so_locked(1) [OF armed] lt by simp
  have db: "db_ok (so_pin_failed ?db)"
    using ok nl db_ok_so_pin_failed by (simp add: token_ok_def)
  show ?thesis
  proof (cases "digest_ok e")
    case True
    with check armed nl wrong have "tk' = commit tk (so_pin_failed ?db) \<and> rc \<noteq> PKCS11_CKR_OK"
      by (auto simp: check_so_pin_eq [OF ok refl] so_armed_def so_secret_def secret_matches_def
          flag_simps split: if_splits)
    moreover have "so_armed (commit tk (so_pin_failed ?db))"
      using armed db by (simp add: so_armed_def ckft_and so_pin_failed_bits)
    moreover have "unat (db_so_pin_count ?db + 1) = Suc (unat (db_so_pin_count ?db))"
      using lt by (simp add: unat_add_no_wrap)
    ultimately show ?thesis using True by (simp add: so_secret_def)
  next
    case False
    from check have "tk' = tk \<and> rc \<noteq> PKCS11_CKR_OK"
      using armed nl False verify_pin_error [OF False]
      by (auto simp: check_so_pin_eq [OF ok refl] so_armed_def flag_simps split: if_splits)
    with False armed show ?thesis by simp
  qed
qed

interpretation user_lock: retry_lock check_user_pin user_armed user_secret
  "secret_matches PKCS11_CKU_USER" "\<lambda>tk. unat (db_user_pin_count (tk_db_main tk))" 7
proof
  fix tk e pin assume "user_armed tk" and "unat (db_user_pin_count (tk_db_main tk)) = 7"
  with user_locked(1) show "check_user_pin e tk pin = Ret (PKCS11_CKR_PIN_LOCKED, tk)"
    by (simp add: user_armed_def check_user_pin_eq flag_simps)
next
  fix tk e tk'
  assume "user_armed tk" "honest_storage e" "pkcs11_token_init e (restart_token tk) = Ret (TEE_SUCCESS, tk')"
  then show "user_armed tk' \<and> user_secret tk' = user_secret tk \<and>
      unat (db_user_pin_count (tk_db_main tk')) = unat (db_user_pin_count (tk_db_main tk))"
    using restart_same_db [of tk e tk'] by (simp add: user_armed_def user_secret_def)
qed (fact user_locked(2) check_user_pin_wrong)+

interpretation so_lock: retry_lock check_so_pin so_armed so_secret
  "secret_matches PKCS11_CKU_SO" "\<lambda>tk. unat (db_so_pin_count (tk_db_main tk))" 7
proof
  fix tk e pin assume "so_armed tk" and "unat (db_so_pin_count (tk_db_main tk)) = 7"
  with so_locked(1) show "check_so_pin e tk pin = Ret (PKCS11_CKR_PIN_LOCKED, tk)"
    by (simp add: so_armed_def check_so_pin_eq flag_simps)
next
  fix tk e tk'
  assume "so_armed tk" "honest_storage e" "pkcs11_token_init e (restart_token tk) = Ret (TEE_SUCCESS, tk')"
  then show "so_armed tk' \<and> so_secret tk' = so_secret tk \<and>
      unat (db_so_pin_count (tk_db_main tk')) = unat (db_so_pin_count (tk_db_main tk))"
    using restart_same_db [of tk e tk'] by (simp add: so_armed_def so_secret_def)
qed (fact so_locked(2) check_so_pin_wrong)+

section \<open>Properties\<close>


text \<open>An environment where every call succeeds, with a digest that copies its input.\<close>

definition ex_env :: tee_env where
  "ex_env = \<lparr>env_malloc = Some 1, env_avail = 1024, env_open = TEE_SUCCESS, env_io = TEE_SUCCESS,
     env_alloc_op = TEE_SUCCESS, env_digest = TEE_SUCCESS, env_random = 5, env_sha256 = (\<lambda>bs. bs),
     env_uuid = None\<rparr>"

definition ex_db :: token_persistent_main where
  "ex_db = default_db\<lparr>db_user_pin_salt := 5, db_user_pin_count := 6,
     db_user_pin_hash := le32_bytes 1 @ le32_bytes 5 @ [1, 2] @ replicate 54 0\<rparr>"

definition ex_token :: ck_token where
  "ex_token = \<lparr>tk_state = PKCS11_TOKEN_READ_WRITE, tk_session_count = 0, tk_rw_session_count = 0,
     tk_db_main = ex_db, tk_object = Some ex_db\<rparr>"

lemma ex_env_ok: "storage_ok ex_env" "digest_ok ex_env" "honest_storage ex_env"
  by (simp_all add: ex_env_def storage_ok_def digest_ok_def honest_storage_def)

lemma ex_token_armed: "user_armed ex_token"
  by (simp add: user_armed_def token_ok_def db_ok_bits ex_token_def ex_db_def default_db_def
      zero_db_def flag_simps)

lemma ex_pin_matches:
  "pin_matches ex_env PKCS11_CKU_USER pin (db_user_pin_salt ex_db) (db_user_pin_hash ex_db) \<longleftrightarrow>
     pin @ replicate (56 - length pin) 0 = [1, 2] @ replicate 54 0"
  by (simp add: pin_matches_def do_hash_def ex_env_def ex_db_def TEE_MAX_HASH_SIZE_def)


text \<open>
  Setting a PIN and then checking it: after \<^verbatim>\<open>set_pin\<close> has succeeded, the retry counter is back at 0
  and a check succeeds for the PIN just set, without changing the token; any other PIN is accepted only if its padded digest is the
  same. A PIN shorter than 10 or longer than 128 bytes is never set.
\<close>

theorem set_pin_check_roundtrip:
  assumes "token_ok tk" and "set_pin e rw tk pin PKCS11_CKU_USER = Ret (PKCS11_CKR_OK, tk')"
    and "digest_ok e'" and "env_sha256 e' = env_sha256 e"
  shows "check_user_pin e' tk' pin = Ret (PKCS11_CKR_OK, tk') \<and>
    (\<forall>pin' tk''. check_user_pin e' tk' pin' = Ret (PKCS11_CKR_OK, tk'') \<longrightarrow>
      do_hash e' PKCS11_CKU_USER pin' (db_user_pin_salt (tk_db_main tk')) =
      do_hash e' PKCS11_CKU_USER pin (db_user_pin_salt (tk_db_main tk'))) \<and>
    db_user_pin_count (tk_db_main tk') = 0 \<and> rw \<and> length pin \<in> {10..128}"
proof -
  let ?db = "tk_db_main tk"
  from assms(2) obtain salt hash where hash: "hash_pin e PKCS11_CKU_USER pin = Inr (salt, hash)"
    and tk': "tk' = commit tk (user_pin_set ?db salt hash)" and len: "rw \<and> length pin \<in> {10..128}"
    by (auto simp: set_pin_eq [OF assms(1) refl] PKCS11_TOKEN_PIN_SIZE_MIN_def
        PKCS11_TOKEN_PIN_SIZE_MAX_def split: if_splits sum.splits dest: hash_pin_Inl)
  have ok: "token_ok tk'" using set_pin_ok [OF assms(1,2)] by simp
  have m: "salt \<noteq> 0" "pin_matches e PKCS11_CKU_USER pin salt hash" using hash_pin_Inr [OF hash] by auto
  then have m': "pin_matches e' PKCS11_CKU_USER pin salt hash"
    using assms(3,4) pin_matches_digest_ok [OF m(2)]
    by (simp add: pin_matches_def do_hash_def digest_ok_def)
  have db: "db_user_pin_salt (tk_db_main tk') = salt" "db_user_pin_hash (tk_db_main tk') = hash"
    "db_user_pin_count (tk_db_main tk') = 0" by (simp_all add: tk' user_pin_set_def)
  have good: "user_pin_good (tk_db_main tk') = tk_db_main tk'"
    unfolding user_pin_good_same using db(3) by (simp add: tk' user_pin_set_def flag_simps)
  have nl: "\<not> bit (db_flags (tk_db_main tk')) 18" by (simp add: tk' pin_set_bits)
  have "check_user_pin e' tk' pin = Ret (PKCS11_CKR_OK, tk')"
    using m m' nl good assms(3) commit_same [OF ok] by (simp add: check_user_pin_eq [OF ok refl] db)
  moreover have "do_hash e' PKCS11_CKU_USER pin' salt = do_hash e' PKCS11_CKU_USER pin salt"
    if "check_user_pin e' tk' pin' = Ret (PKCS11_CKR_OK, tk'')" for pin' tk''
    using that m m' nl assms(3)
    by (auto simp: check_user_pin_eq [OF ok refl] db pin_matches_def split: if_splits)
  ultimately show ?thesis using db len by blast
qed

theorem set_pin_check_roundtrip_witness:
  "\<exists>tk. set_pin ex_env True ex_token (replicate 10 3) PKCS11_CKU_USER = Ret (PKCS11_CKR_OK, tk) \<and>
     check_user_pin ex_env tk (replicate 10 3) = Ret (PKCS11_CKR_OK, tk)"
proof -
  have ok: "token_ok ex_token" using ex_token_armed by (simp add: user_armed_def)
  have wp: "\<not> bit (db_flags (tk_db_main ex_token)) 1"
    by (simp add: ex_token_def ex_db_def default_db_def flag_simps)
  obtain salt hash where "hash_pin ex_env PKCS11_CKU_USER (replicate 10 3) = Inr (salt, hash)"
    by (auto simp: hash_pin_def do_hash_def ex_env_def Let_def)
  then obtain tk where "set_pin ex_env True ex_token (replicate 10 3) PKCS11_CKU_USER = Ret (PKCS11_CKR_OK, tk)"
    using wp by (auto simp: set_pin_eq [OF ok refl] PKCS11_TOKEN_PIN_SIZE_MIN_def
        PKCS11_TOKEN_PIN_SIZE_MAX_def ex_env_ok)
  with set_pin_check_roundtrip [OF ok this ex_env_ok(2) refl] show ?thesis by blast
qed

end
