(* ===== verification/Handle_Db.thy ===== *)
theory Handle_Db
  imports Prelude
begin

text \<open>
  The handle databases of the core (\<^verbatim>\<open>core/kernel/handle.c\<close>) and of the PKCS\#11 trusted
  application (\<^verbatim>\<open>ta/pkcs11/src/handle.c\<close>): growing arrays of pointers whose index is the
  handle given to the client. The contract both promise is the locale \<open>handle_table\<close>, which
  says that the database is a finite map; each implementation is an interpretation of it.
\<close>

section \<open>The contract of a handle table\<close>

datatype ('h, 'p) handle_op = Get 'p u32 | Put 'h | Lookup 'h

text \<open>
  Running client operations on a table with operations \<open>lookup\<close>, \<open>get\<close> and \<open>put\<close>, with what
  each of them answered.
\<close>

fun handle_run :: "('db \<Rightarrow> 'h \<Rightarrow> 'p option) \<Rightarrow> ('db \<Rightarrow> 'p \<Rightarrow> u32 \<Rightarrow> 'db \<times> 'h option) \<Rightarrow>
    ('db \<Rightarrow> 'h \<Rightarrow> 'db \<times> 'p option) \<Rightarrow> 'db \<Rightarrow> ('h, 'p) handle_op list \<Rightarrow>
    'db \<times> ('h + 'p) option list" where
  "handle_run lookup get put db [] = (db, [])"
| "handle_run lookup get put db (Get p avail # ops) =
     (case get db p avail of (db', h) \<Rightarrow>
        (case handle_run lookup get put db' ops of (db'', rs) \<Rightarrow> (db'', map_option Inl h # rs)))"
| "handle_run lookup get put db (Put h # ops) =
     (case put db h of (db', r) \<Rightarrow>
        (case handle_run lookup get put db' ops of (db'', rs) \<Rightarrow> (db'', map_option Inr r # rs)))"
| "handle_run lookup get put db (Lookup h # ops) =
     (case handle_run lookup get put db ops of
        (db'', rs) \<Rightarrow> (db'', map_option Inr (lookup db h) # rs))"

text \<open>The abstract table: a map, in which \<open>Get\<close> chooses any free handle or fails.\<close>

fun handle_spec :: "('h \<rightharpoonup> 'p) \<Rightarrow> ('h, 'p) handle_op list \<Rightarrow> ('h + 'p) option list \<Rightarrow>
    ('h \<rightharpoonup> 'p) \<Rightarrow> bool" where
  "handle_spec m [] rs m' \<longleftrightarrow> rs = [] \<and> m' = m"
| "handle_spec m (Get p avail # ops) rs m' \<longleftrightarrow>
     (\<exists>rs'. rs = None # rs' \<and> handle_spec m ops rs' m') \<or>
     (\<exists>h rs'. rs = Some (Inl h) # rs' \<and> m h = None \<and> handle_spec (m(h \<mapsto> p)) ops rs' m')"
| "handle_spec m (Put h # ops) rs m' \<longleftrightarrow>
     (\<exists>rs'. rs = map_option Inr (m h) # rs' \<and> handle_spec (m(h := None)) ops rs' m')"
| "handle_spec m (Lookup h # ops) rs m' \<longleftrightarrow>
     (\<exists>rs'. rs = map_option Inr (m h) # rs' \<and> handle_spec m ops rs' m')"

text \<open>
  \<open>get db p avail\<close> allocates a handle for \<open>p\<close> (the heap can supply blocks of up to \<open>avail\<close>
  bytes), \<open>put\<close> releases one, \<open>lookup\<close> reads one.
\<close>

locale handle_table =
  fixes inv :: "'db \<Rightarrow> bool"
    and lookup :: "'db \<Rightarrow> 'h \<Rightarrow> 'p option"
    and get :: "'db \<Rightarrow> 'p \<Rightarrow> u32 \<Rightarrow> 'db \<times> 'h option"
    and put :: "'db \<Rightarrow> 'h \<Rightarrow> 'db \<times> 'p option"
  assumes get_Some: "inv db \<Longrightarrow> get db p avail = (db', Some h) \<Longrightarrow>
      inv db' \<and> lookup db h = None \<and> lookup db' = (lookup db)(h := Some p)"
    and get_None: "inv db \<Longrightarrow> get db p avail = (db', None) \<Longrightarrow> db' = db"
    and put_law: "inv db \<Longrightarrow> put db h = (db', r) \<Longrightarrow>
      inv db' \<and> r = lookup db h \<and> lookup db' = (lookup db)(h := None)"
begin

lemma run_refines: "inv db \<Longrightarrow> handle_run lookup get put db ops = (db', rs) \<Longrightarrow> inv db' \<and> handle_spec (lookup db) ops rs (lookup db')"
proof (induction ops arbitrary: db rs)
  case Nil
  then show ?case by simp
next
  case (Cons op ops)
  show ?case
  proof (cases op)
    case (Get p avail)
    obtain d h where g: "get db p avail = (d, h)" by fastforce
    obtain d' rs' where r: "handle_run lookup get put d ops = (d', rs')" by fastforce
    from Cons.prems Get g r have eqs: "db' = d'" "rs = map_option Inl h # rs'" by auto
    show ?thesis
    proof (cases h)
      case None
      with Cons.IH [of db rs'] Cons.prems(1) g get_None r Get eqs show ?thesis by auto
    next
      case (Some h')
      with get_Some [OF Cons.prems(1)] g
      have law: "inv d" "lookup db h' = None" "lookup d = (lookup db)(h' := Some p)" by auto
      from Cons.IH [OF law(1)] r eqs have "inv d' \<and> handle_spec (lookup d) ops rs' (lookup d')"
        by blast
      with Some Get eqs law show ?thesis by auto
    qed
  next
    case (Put h)
    obtain d r where p: "put db h = (d, r)" by fastforce
    obtain d' rs' where r': "handle_run lookup get put d ops = (d', rs')" by fastforce
    from put_law [OF Cons.prems(1) p]
    have law: "inv d" "r = lookup db h" "lookup d = (lookup db)(h := None)" by auto
    from Cons.prems(2) Put p r' have eqs: "db' = d'" "rs = map_option Inr r # rs'" by auto
    from Cons.IH [OF law(1)] r' eqs have "inv d' \<and> handle_spec (lookup d) ops rs' (lookup d')"
      by blast
    with Put law eqs show ?thesis by simp
  next
    case (Lookup h)
    with Cons show ?thesis by (auto split: prod.splits)
  qed
qed

lemma get_put_restores:
  assumes "inv db" and "get db p avail = (db', Some h)" and "put db' h = (db'', r)"
  shows "r = Some p \<and> lookup db'' = lookup db"
  using get_Some [OF assms(1,2)] put_law [OF _ assms(3)] by auto

end

section \<open>The database of the core\<close>

text \<open>
  \<^verbatim>\<open>struct handle_db\<close>: the array (a NULL slot is \<open>None\<close>) and its capacity. A pointer
  argument that may be NULL is an \<open>option\<close>.
\<close>

record 'p handle_db =
  ptrs :: "'p option list"
  max_ptrs :: size_t

definition HANDLE_DB_INITIAL_MAX_PTRS :: size_t where
  "HANDLE_DB_INITIAL_MAX_PTRS = 4"

definition HANDLE_DB_INITIALIZER :: "'p handle_db" where
  "HANDLE_DB_INITIALIZER = \<lparr>ptrs = [], max_ptrs = 0\<rparr>"

text \<open>The scan for an empty location from index \<open>n\<close>: the first NULL slot or the capacity.\<close>

function find_empty :: "'p option list \<Rightarrow> nat \<Rightarrow> nat \<Rightarrow> nat" where
  "find_empty ps mx n =
     (if n < mx then (if ps ! n = None then n else find_empty ps mx (Suc n)) else n)"
  by pat_completeness auto
termination
  by (relation "measure (\<lambda>(ps, mx, n). mx - n)") auto

declare find_empty.simps [simp del]

text \<open>\<^verbatim>\<open>realloc\<close> to \<open>bytes\<close> succeeds when the heap can supply the block.\<close>

definition realloc_ok :: "u32 \<Rightarrow> size_t \<Rightarrow> bool" where
  "realloc_ok avail bytes \<longleftrightarrow> bytes \<le> ucast avail"

definition handle_db_destroy ::
    "'p handle_db option \<Rightarrow> bool \<Rightarrow> 'p handle_db option \<times> 'p list" where
  "handle_db_destroy db destructor =
     (case db of
        None \<Rightarrow> (None, [])
      | Some d \<Rightarrow>
          (Some \<lparr>ptrs = [], max_ptrs = 0\<rparr>,
           if destructor
           then map the (filter (\<lambda>p. p \<noteq> None) (take (unat (max_ptrs d)) (ptrs d))) else []))"

text \<open>The index is returned as a C \<^verbatim>\<open>int\<close>: truncated to 32 bits and read signed.\<close>

definition handle_get ::
    "u32 \<Rightarrow> 'p handle_db option \<Rightarrow> 'p option \<Rightarrow> 'p handle_db option \<times> cint" where
  "handle_get avail db ptr =
     (case (db, ptr) of
        (Some d, Some p) \<Rightarrow>
          let n = find_empty (ptrs d) (unat (max_ptrs d)) 0;
              r = ucast (of_nat n :: size_t)
          in if n < unat (max_ptrs d) then (Some (d\<lparr>ptrs := (ptrs d)[n := Some p]\<rparr>), r)
             else
               let new_max_ptrs = (if max_ptrs d \<noteq> 0 then max_ptrs d * 2
                                   else HANDLE_DB_INITIAL_MAX_PTRS)
               in if \<not> realloc_ok avail (new_max_ptrs * 8) then (db, -1)
                  else
                    let ps = take (unat (max_ptrs d)) (ptrs d) @
                          replicate (unat (new_max_ptrs - max_ptrs d)) None
                    in (Some \<lparr>ptrs = ps[n := Some p], max_ptrs = new_max_ptrs\<rparr>, r)
      | _ \<Rightarrow> (db, -1))"

text \<open>The check \<^verbatim>\<open>handle < 0 || (size_t)handle >= db->max_ptrs\<close>.\<close>

definition handle_invalid :: "'p handle_db \<Rightarrow> cint \<Rightarrow> bool" where
  "handle_invalid d handle \<longleftrightarrow> sint handle < 0 \<or> (scast handle :: size_t) \<ge> max_ptrs d"

definition handle_put :: "'p handle_db option \<Rightarrow> cint \<Rightarrow> 'p handle_db option \<times> 'p option" where
  "handle_put db handle =
     (case db of
        None \<Rightarrow> (None, None)
      | Some d \<Rightarrow>
          if handle_invalid d handle then (db, None)
          else (Some (d\<lparr>ptrs := (ptrs d)[nat (sint handle) := None]\<rparr>),
                ptrs d ! nat (sint handle)))"

definition handle_lookup :: "'p handle_db option \<Rightarrow> cint \<Rightarrow> 'p option" where
  "handle_lookup db handle =
     (case db of
        None \<Rightarrow> None
      | Some d \<Rightarrow> if handle_invalid d handle then None else ptrs d ! nat (sint handle))"

subsection \<open>Invariant and lemmas\<close>

text \<open>The array has the recorded capacity, which stays far below the range of \<^verbatim>\<open>int\<close>.\<close>

definition handle_db_inv :: "'p handle_db \<Rightarrow> bool" where
  "handle_db_inv d \<longleftrightarrow> length (ptrs d) = unat (max_ptrs d) \<and> unat (max_ptrs d) < 2 ^ 29"

lemma find_empty_bounds: "n \<le> mx \<Longrightarrow> n \<le> find_empty ps mx n \<and> find_empty ps mx n \<le> mx"
  by (induction ps mx n rule: find_empty.induct) (subst (1 2) find_empty.simps, auto)

lemma find_empty_None: "find_empty ps mx n < mx \<Longrightarrow> ps ! find_empty ps mx n = None"
  by (induction ps mx n rule: find_empty.induct) (metis find_empty.simps)

lemma find_empty_full: "find_empty ps mx n = mx \<Longrightarrow> n \<le> i \<Longrightarrow> i < mx \<Longrightarrow> ps ! i \<noteq> None"
proof (induction ps mx n rule: find_empty.induct)
  case (1 ps mx n)
  then show ?case by (metis find_empty.simps le_less_trans not_less_eq_eq le_antisym nat_less_le)
qed

lemma unat_index_cint: "n < 2 ^ 32 \<Longrightarrow> unat (ucast (of_nat n :: size_t) :: cint) = n"
  by (simp add: unat_ucast_mod unat_of_nat)

lemma handle_invalid_iff: "handle_invalid d h \<longleftrightarrow> \<not> (unat h < 2 ^ 31 \<and> unat h < unat (max_ptrs d))"
proof (cases "0 \<le> sint h")
  case True
  then have "unat (scast h :: size_t) = unat h"
    by (rule unat_scast_nonneg) simp
  with True sint_nonneg_iff [of h] show ?thesis
    by (auto simp: handle_invalid_def word_le_nat_alt)
next
  case False
  with sint_nonneg_iff [of h] show ?thesis
    by (simp add: handle_invalid_def)
qed

lemma handle_index: "\<not> handle_invalid d h \<Longrightarrow> nat (sint h) = unat h"
  using sint_nonneg_eq [of h] unfolding handle_invalid_def by simp

text \<open>Reading the array at a handle; beyond the end there is nothing.\<close>

definition slot :: "'p option list \<Rightarrow> nat \<Rightarrow> 'p option" where
  "slot xs i = (if i < length xs then xs ! i else None)"

lemma slot_update [simp]:
  "slot (xs[n := v]) i = (if i = n \<and> n < length xs then v else slot xs i)"
  by (auto simp: slot_def)

lemma slot_grow [simp]: "slot (xs @ replicate k None) i = slot xs i"
  by (auto simp: slot_def nth_append)

lemma slot_find_empty: "slot xs (find_empty xs (length xs) n) = None"
  using find_empty_None [of xs "length xs" n] by (auto simp: slot_def)

lemma slot_upd_fun:
  fixes h :: "'a::len word"
  assumes "n < length xs" and "unat h = n"
  shows "(\<lambda>x. slot (xs[n := v]) (unat x)) = (\<lambda>x. slot xs (unat x))(h := v)"
  using assms by (auto simp: fun_eq_iff word_unat_eq_iff)

lemma handle_lookup_slot:
  "handle_db_inv d \<Longrightarrow> handle_lookup (Some d) = (\<lambda>h. slot (ptrs d) (unat h))"
  using handle_invalid_iff [of d] handle_index [of d]
  by (auto simp: fun_eq_iff handle_lookup_def handle_db_inv_def slot_def)

lemma realloc_ok_bound: "realloc_ok avail bytes \<Longrightarrow> unat bytes \<le> unat avail"
  using unsigned_less [of avail, where ?'a = nat]
  by (simp add: realloc_ok_def word_le_nat_alt unat_ucast_no_trunc)

lemma handle_new_max:
  assumes "handle_db_inv d" and "new = (if max_ptrs d \<noteq> 0 then max_ptrs d * 2
      else HANDLE_DB_INITIAL_MAX_PTRS)" and "realloc_ok avail (new * 8)"
  shows "unat (max_ptrs d) < unat new \<and> unat new < 2 ^ 29"
proof -
  have b: "unat (max_ptrs d) < 2 ^ 29" using assms(1) by (simp add: handle_db_inv_def)
  have new: "unat new = (if max_ptrs d \<noteq> 0 then unat (max_ptrs d) * 2 else 4)"
    using b by (simp add: assms(2) HANDLE_DB_INITIAL_MAX_PTRS_def unat_word_ariths)
  have "unat (new * 8) = unat new * 8"
    using b new by (simp add: unat_word_ariths)
  moreover have "unat (new * 8) \<le> unat avail"
    using assms(3) by (rule realloc_ok_bound)
  moreover have "unat avail < 2 ^ 32" using unsigned_less [of avail] by simp
  moreover have "max_ptrs d \<noteq> 0 \<Longrightarrow> 0 < unat (max_ptrs d)"
    by (simp add: unat_gt_0)
  ultimately show ?thesis using new b by (auto split: if_splits)
qed

text \<open>A successful allocation fills an empty slot of the array, which may have grown before.\<close>

lemma handle_get_cases [consumes 2, case_names ok full]:
  assumes inv: "handle_db_inv d" and get: "handle_get avail (Some d) (Some p) = (d', h)"
  obtains (ok) n k where "slot (ptrs d) n = None" and "n < length (ptrs d) + k" and "unat h = n"
      and "d' = Some \<lparr>ptrs = (ptrs d @ replicate k None)[n := Some p], max_ptrs = of_nat (length (ptrs d) + k)\<rparr>"
      and "length (ptrs d) + k < 2 ^ 29"
  | (full) "d' = Some d" and "h = -1"
proof -
  define n where "n = find_empty (ptrs d) (unat (max_ptrs d)) 0"
  define new where "new = (if max_ptrs d \<noteq> 0 then max_ptrs d * 2 else HANDLE_DB_INITIAL_MAX_PTRS)"
  have len: "length (ptrs d) = unat (max_ptrs d)" "unat (max_ptrs d) < 2 ^ 29"
    using inv by (simp_all add: handle_db_inv_def)
  have empty: "slot (ptrs d) n = None" by (simp add: n_def slot_find_empty flip: len(1))
  have n: "n \<le> unat (max_ptrs d)" using find_empty_bounds [of 0] by (simp add: n_def)
  then have un: "unat (ucast (of_nat n :: size_t) :: cint) = n"
    using len by (intro unat_index_cint) simp
  consider (fits) "n < unat (max_ptrs d)"
    | (grow) "\<not> n < unat (max_ptrs d)" "realloc_ok avail (new * 8)"
    | (oom) "\<not> n < unat (max_ptrs d)" "\<not> realloc_ok avail (new * 8)" by blast
  then show ?thesis
  proof cases
    case fits
    with get have "d' = Some (d\<lparr>ptrs := (ptrs d)[n := Some p]\<rparr>)" "h = ucast (of_nat n :: size_t)"
      by (simp_all add: handle_get_def n_def Let_def)
    then show ?thesis by (intro ok [of n 0]) (use fits empty un len in auto)
  next
    case grow
    from handle_new_max [OF inv new_def grow(2)]
    have new: "unat (max_ptrs d) < unat new" "unat new < 2 ^ 29" by auto
    from grow get
    have "d' = Some \<lparr>ptrs = (ptrs d @ replicate (unat (new - max_ptrs d)) None)[n := Some p],
        max_ptrs = new\<rparr>" "h = ucast (of_nat n :: size_t)"
      using len(1) by (simp_all add: handle_get_def Let_def flip: n_def new_def)
    then show ?thesis
      by (intro ok [of n "unat (new - max_ptrs d)"])
        (use new n un empty len in \<open>simp_all add: unat_sub_no_wrap\<close>)
  next
    case oom
    with get have "d' = Some d" "h = -1"
      by (simp_all add: handle_get_def Let_def flip: n_def new_def)
    then show ?thesis by (rule full)
  qed
qed

lemma handle_put_inv:
  assumes "handle_db_inv d" and "handle_put (Some d) h = (d', r)"
  shows "\<exists>d''. d' = Some d'' \<and> handle_db_inv d'' \<and> r = handle_lookup (Some d) h \<and>
    handle_lookup d' = (handle_lookup (Some d))(h := None)"
proof (cases "handle_invalid d h")
  case True
  with assms(2) have "d' = Some d" "r = None" by (simp_all add: handle_put_def)
  moreover from True have "handle_lookup (Some d) h = None" by (simp add: handle_lookup_def)
  ultimately show ?thesis using assms(1) by (auto simp: fun_eq_iff)
next
  case False
  with assms(2) have d': "d' = Some (d\<lparr>ptrs := (ptrs d)[unat h := None]\<rparr>)" and r: "r = ptrs d ! unat h"
    by (simp_all add: handle_put_def handle_index)
  from False have u: "unat h < length (ptrs d)"
    using assms(1) by (simp add: handle_invalid_iff handle_db_inv_def)
  have inv': "handle_db_inv (d\<lparr>ptrs := (ptrs d)[unat h := None]\<rparr>)"
    using assms(1) by (simp add: handle_db_inv_def)
  show ?thesis
    using inv' u slot_upd_fun [OF u refl, of None]
    by (simp add: d' r handle_lookup_slot [OF assms(1)] handle_lookup_slot [OF inv']) (simp add: slot_def)
qed

subsection \<open>The core's database is a handle table\<close>

definition core_get :: "'p handle_db \<Rightarrow> 'p \<Rightarrow> u32 \<Rightarrow> 'p handle_db \<times> cint option" where
  "core_get d p avail =
     (case handle_get avail (Some d) (Some p) of
        (d', h) \<Rightarrow> (the d', if sint h < 0 then None else Some h))"

definition core_put :: "'p handle_db \<Rightarrow> cint \<Rightarrow> 'p handle_db \<times> 'p option" where
  "core_put d h = (case handle_put (Some d) h of (d', r) \<Rightarrow> (the d', r))"

abbreviation core_lookup :: "'p handle_db \<Rightarrow> cint \<Rightarrow> 'p option" where
  "core_lookup d \<equiv> handle_lookup (Some d)"

interpretation core_db: handle_table handle_db_inv core_lookup core_get core_put
proof
  fix d :: "'p handle_db" and p avail d' h
  assume inv: "handle_db_inv d" and get: "core_get d p avail = (d', Some h)"
  obtain e where e: "handle_get avail (Some d) (Some p) = (e, h)" "d' = the e" "0 \<le> sint h"
    using get by (auto simp: core_get_def split: prod.splits if_splits)
  show "handle_db_inv d' \<and> handle_lookup (Some d) h = None \<and>
      handle_lookup (Some d') = (handle_lookup (Some d))(h := Some p)"
    using inv e(1)
  proof (cases rule: handle_get_cases)
    case (ok n k)
    from ok e(2) have inv': "handle_db_inv d'" 
      by (simp add: handle_db_inv_def unat_of_nat del: of_nat_add)
    from ok e(2) have ptrs': "ptrs d' = (ptrs d @ replicate k None)[n := Some p]" by simp
    have "(\<lambda>x. slot (ptrs d') (unat x)) = (\<lambda>x. slot (ptrs d) (unat x))(h := Some p)"
      unfolding ptrs' using slot_upd_fun [of n "ptrs d @ replicate k None" h "Some p"] ok(2,3) by simp
    then show ?thesis
      using ok(1,3) inv' by (simp only: handle_lookup_slot [OF inv] handle_lookup_slot [OF inv'])
  next
    case full
    with e(3) show ?thesis by simp
  qed
next
  fix d :: "'p handle_db" and p avail d'
  assume inv: "handle_db_inv d" and get: "core_get d p avail = (d', None)"
  obtain e h where e: "handle_get avail (Some d) (Some p) = (e, h)" "d' = the e" "sint h < 0"
    using get by (auto simp: core_get_def split: prod.splits if_splits)
  show "d' = d"
    using inv e(1)
  proof (cases rule: handle_get_cases)
    case (ok n k)
    then have "unat h < 2 ^ 31" by simp
    with e(3) sint_nonneg_iff [of h] show ?thesis by simp
  next
    case full
    with e(2) show ?thesis by simp
  qed
next
  fix d :: "'p handle_db" and h d' r
  assume "handle_db_inv d" and "core_put d h = (d', r)"
  then show "handle_db_inv d' \<and> r = handle_lookup (Some d) h \<and>
      handle_lookup (Some d') = (handle_lookup (Some d))(h := None)"
    using handle_put_inv [of d h] by (fastforce simp: core_put_def split: prod.splits)
qed

lemma handle_db_inv_init: "handle_db_inv HANDLE_DB_INITIALIZER"
  by (simp add: handle_db_inv_def HANDLE_DB_INITIALIZER_def)

section \<open>Properties of the core's database\<close>

text \<open>
  C26. Any sequence of \<^verbatim>\<open>handle_get\<close>, \<^verbatim>\<open>handle_put\<close> and \<^verbatim>\<open>handle_lookup\<close> calls, whatever
  the heap can supply, answers as an abstract map does, starting from any database that
  satisfies the invariant (the initial one does): a granted handle was free, later lookups
  return the registered pointer until the handle is put, and no other handle is affected.
\<close>

theorem handle_db_refines_map:
  assumes "handle_db_inv d" and "handle_run core_lookup core_get core_put d ops = (d', rs)"
  shows "handle_db_inv d' \<and> handle_spec (handle_lookup (Some d)) ops rs (handle_lookup (Some d'))"
  using assms by (rule core_db.run_refines)

theorem handle_db_refines_map_witness:
  "\<exists>d'. handle_run core_lookup core_get core_put (HANDLE_DB_INITIALIZER :: nat handle_db)
      [Get 7 64, Lookup 0, Put 0, Lookup 0] =
      (d', [Some (Inl 0), Some (Inr 7), Some (Inr 7), None]) \<and> handle_db_inv d'"
proof -
  let ?ops = "[Get 7 64, Lookup 0, Put 0, Lookup (0 :: cint)]"
  obtain d' rs where run: "handle_run core_lookup core_get core_put
      (HANDLE_DB_INITIALIZER :: nat handle_db) ?ops = (d', rs)" by fastforce
  from handle_db_refines_map [OF handle_db_inv_init run] have "handle_db_inv d'" by blast
  moreover from run have "rs = [Some (Inl 0), Some (Inr 7), Some (Inr 7), None]"
    by (simp add: HANDLE_DB_INITIALIZER_def core_get_def core_put_def handle_get_def handle_put_def
        handle_lookup_def handle_invalid_def find_empty.simps realloc_ok_def
        HANDLE_DB_INITIAL_MAX_PTRS_def)
  ultimately show ?thesis using run by blast
qed

text \<open>
  \<^verbatim>\<open>handle_db_destroy\<close> with a destructor calls it once for every registered pointer, in
  index order, and leaves an empty database in which no handle is valid.
\<close>

theorem handle_db_destroy_all:
  assumes "handle_db_inv d" and "handle_db_destroy (Some d) True = (d', freed)"
  shows "map Some freed = filter (\<lambda>p. p \<noteq> None) (map (slot (ptrs d)) [0..<length (ptrs d)]) \<and>
         d' = Some HANDLE_DB_INITIALIZER \<and> (\<forall>h. handle_lookup d' h = None)"
proof -
  have "map (slot (ptrs d)) [0..<length (ptrs d)] = ptrs d"
    by (rule nth_equalityI) (simp_all add: slot_def)
  moreover have "map Some (map the (filter (\<lambda>p. p \<noteq> None) (ptrs d))) = filter (\<lambda>p. p \<noteq> None) (ptrs d)"
    by (induction "ptrs d") (auto intro: map_idI)
  ultimately show ?thesis
    using assms handle_db_inv_init
    by (auto simp: handle_db_destroy_def handle_db_inv_def HANDLE_DB_INITIALIZER_def
        handle_lookup_slot slot_def)
qed

theorem handle_db_destroy_all_witness:
  "handle_lookup (fst (handle_db_destroy
     (Some \<lparr>ptrs = [Some (3::nat), None], max_ptrs = 2\<rparr>) True)) 0 = None"
proof -
  have "handle_db_inv \<lparr>ptrs = [Some (3::nat), None], max_ptrs = 2\<rparr>"
    by (simp add: handle_db_inv_def)
  from handle_db_destroy_all [OF this surjective_pairing] show ?thesis by blast
qed

section \<open>The database of the PKCS\#11 trusted application\<close>

text \<open>
  Index 0 is reserved as the invalid handle, the capacity is a \<^verbatim>\<open>uint32_t\<close>, and there is a
  reverse lookup.
\<close>

record 'p pkcs11_handle_db =
  pk_ptrs :: "'p option list"
  pk_max_ptrs :: u32

definition pkcs11_handle_db_init :: "'p pkcs11_handle_db" where
  "pkcs11_handle_db_init = \<lparr>pk_ptrs = [], pk_max_ptrs = 0\<rparr>"

definition pkcs11_handle_db_destroy :: "'p pkcs11_handle_db option \<Rightarrow> 'p pkcs11_handle_db option"
where
  "pkcs11_handle_db_destroy db = map_option (\<lambda>_. \<lparr>pk_ptrs = [], pk_max_ptrs = 0\<rparr>) db"

definition pkcs11_handle_get ::
    "u32 \<Rightarrow> 'p pkcs11_handle_db option \<Rightarrow> 'p option \<Rightarrow> 'p pkcs11_handle_db option \<times> u32" where
  "pkcs11_handle_get avail db ptr =
     (case (db, ptr) of
        (Some d, Some p) \<Rightarrow>
          let n = find_empty (pk_ptrs d) (unat (pk_max_ptrs d)) 1 in
          if n < unat (pk_max_ptrs d)
          then (Some (d\<lparr>pk_ptrs := (pk_ptrs d)[n := Some p]\<rparr>), of_nat n)
          else
            let new_max_ptrs = (if pk_max_ptrs d \<noteq> 0 then pk_max_ptrs d * 2 else 4)
            in if \<not> realloc_ok avail (ucast new_max_ptrs * 8) then (db, 0)
               else
                 let ps = take (unat (pk_max_ptrs d)) (pk_ptrs d) @
                       replicate (unat (new_max_ptrs - pk_max_ptrs d)) None
                 in (Some \<lparr>pk_ptrs = ps[n := Some p], pk_max_ptrs = new_max_ptrs\<rparr>, of_nat n)
      | _ \<Rightarrow> (db, 0))"

definition pkcs11_handle_put ::
    "'p pkcs11_handle_db option \<Rightarrow> u32 \<Rightarrow> 'p pkcs11_handle_db option \<times> 'p option" where
  "pkcs11_handle_put db handle =
     (case db of
        None \<Rightarrow> (None, None)
      | Some d \<Rightarrow>
          if handle = 0 \<or> handle \<ge> pk_max_ptrs d then (db, None)
          else (Some (d\<lparr>pk_ptrs := (pk_ptrs d)[unat handle := None]\<rparr>), pk_ptrs d ! unat handle))"

definition pkcs11_handle_lookup :: "'p pkcs11_handle_db option \<Rightarrow> u32 \<Rightarrow> 'p option" where
  "pkcs11_handle_lookup db handle =
     (case db of
        None \<Rightarrow> None
      | Some d \<Rightarrow>
          if handle = 0 \<or> handle \<ge> pk_max_ptrs d then None else pk_ptrs d ! unat handle)"

text \<open>The scan of \<^verbatim>\<open>handle_lookup_handle\<close>: the first index from \<open>n\<close> that holds \<open>ptr\<close>, else 0.\<close>

function find_ptr :: "'p option list \<Rightarrow> nat \<Rightarrow> 'p \<Rightarrow> nat \<Rightarrow> nat" where
  "find_ptr ps mx ptr n =
     (if n < mx then (if ps ! n = Some ptr then n else find_ptr ps mx ptr (Suc n)) else 0)"
  by pat_completeness auto
termination
  by (relation "measure (\<lambda>(ps, mx, ptr, n). mx - n)") auto

declare find_ptr.simps [simp del]

definition pkcs11_handle_lookup_handle :: "'p pkcs11_handle_db \<Rightarrow> 'p option \<Rightarrow> u32" where
  "pkcs11_handle_lookup_handle d ptr =
     (case ptr of
        None \<Rightarrow> 0
      | Some p \<Rightarrow> of_nat (find_ptr (pk_ptrs d) (unat (pk_max_ptrs d)) p 1))"

subsection \<open>Invariant and lemmas\<close>

definition pkcs11_db_inv :: "'p pkcs11_handle_db \<Rightarrow> bool" where
  "pkcs11_db_inv d \<longleftrightarrow> length (pk_ptrs d) = unat (pk_max_ptrs d) \<and> unat (pk_max_ptrs d) < 2 ^ 29 \<and>
     unat (pk_max_ptrs d) \<noteq> 1 \<and> slot (pk_ptrs d) 0 = None"

lemma pkcs11_lookup_slot:
  "pkcs11_db_inv d \<Longrightarrow> pkcs11_handle_lookup (Some d) = (\<lambda>h. slot (pk_ptrs d) (unat h))"
  by (auto simp: fun_eq_iff pkcs11_handle_lookup_def pkcs11_db_inv_def slot_def word_le_nat_alt
      split: if_splits)

lemma pkcs11_new_max:
  assumes "pkcs11_db_inv d" and "new = (if pk_max_ptrs d \<noteq> 0 then pk_max_ptrs d * 2 else 4)"
    and "realloc_ok avail (ucast new * 8)"
  shows "unat (pk_max_ptrs d) < unat new \<and> unat new < 2 ^ 29 \<and> 4 \<le> unat new"
proof -
  have b: "unat (pk_max_ptrs d) < 2 ^ 29" "unat (pk_max_ptrs d) \<noteq> 1"
    using assms(1) by (simp_all add: pkcs11_db_inv_def)
  have new: "unat new = (if pk_max_ptrs d \<noteq> 0 then unat (pk_max_ptrs d) * 2 else 4)"
    using b by (simp add: assms(2) unat_word_ariths)
  have "unat (ucast new :: size_t) = unat new" by (rule unat_ucast_no_trunc) (use b new in auto)
  then have "unat (ucast new * 8 :: size_t) = unat new * 8"
    using b new by (simp add: unat_word_ariths)
  moreover have "unat (ucast new * 8 :: size_t) \<le> unat avail"
    using assms(3) by (rule realloc_ok_bound)
  moreover have "unat avail < 2 ^ 32" using unsigned_less [of avail] by simp
  moreover have "pk_max_ptrs d \<noteq> 0 \<Longrightarrow> 0 < unat (pk_max_ptrs d)" by (simp add: unat_gt_0)
  ultimately show ?thesis using new b by (auto split: if_splits)
qed

lemma find_empty_from1: "length xs \<noteq> 1 \<Longrightarrow> find_empty xs (length xs) 1 < length xs \<or>
    find_empty xs (length xs) 1 = max 1 (length xs)"
  using find_empty_bounds [of 1 "length xs" xs] find_empty.simps [of "[]" 0 1] by (cases xs) auto

lemma pkcs11_get_cases [consumes 2, case_names ok full]:
  assumes inv: "pkcs11_db_inv d" and get: "pkcs11_handle_get avail (Some d) (Some p) = (d', h)"
  obtains (ok) n k where "slot (pk_ptrs d) n = None" and "n < length (pk_ptrs d) + k" and "unat h = n"
      and "d' = Some \<lparr>pk_ptrs = (pk_ptrs d @ replicate k None)[n := Some p],
             pk_max_ptrs = of_nat (length (pk_ptrs d) + k)\<rparr>"
      and "length (pk_ptrs d) + k < 2 ^ 29" and "0 < n" and "length (pk_ptrs d) + k \<noteq> 1"
  | (full) "d' = Some d" and "h = 0"
proof -
  define n where "n = find_empty (pk_ptrs d) (unat (pk_max_ptrs d)) (Suc 0)"
  define new where "new = (if pk_max_ptrs d \<noteq> 0 then pk_max_ptrs d * 2 else 4)"
  have len: "length (pk_ptrs d) = unat (pk_max_ptrs d)" "unat (pk_max_ptrs d) < 2 ^ 29"
      "length (pk_ptrs d) \<noteq> 1"
    using inv by (simp_all add: pkcs11_db_inv_def)
  have empty: "slot (pk_ptrs d) n = None" by (simp add: n_def slot_find_empty flip: len(1))
  have n: "n < unat (pk_max_ptrs d) \<or> n = max 1 (unat (pk_max_ptrs d))"
    using find_empty_from1 [OF len(3)] len(1) by (simp add: n_def)
  have pos: "0 < n" using find_empty_bounds [of 1 "unat (pk_max_ptrs d)" "pk_ptrs d"] n
    by (auto simp: n_def)
  have un: "unat (of_nat n :: u32) = n" using n len(2) by (auto simp: unat_of_nat)
  consider (fits) "n < unat (pk_max_ptrs d)"
    | (grow) "\<not> n < unat (pk_max_ptrs d)" "realloc_ok avail (ucast new * 8)"
    | (oom) "\<not> n < unat (pk_max_ptrs d)" "\<not> realloc_ok avail (ucast new * 8)" by blast
  then show ?thesis
  proof cases
    case fits
    with get have "d' = Some (d\<lparr>pk_ptrs := (pk_ptrs d)[n := Some p]\<rparr>)" "h = of_nat n"
      by (simp_all add: pkcs11_handle_get_def n_def Let_def)
    then show ?thesis by (intro ok [of n 0]) (use fits empty un len pos in auto)
  next
    case grow
    from pkcs11_new_max [OF inv new_def grow(2)]
    have new: "unat (pk_max_ptrs d) < unat new" "unat new < 2 ^ 29" "4 \<le> unat new" by auto
    from grow get
    have "d' = Some \<lparr>pk_ptrs = (pk_ptrs d @ replicate (unat (new - pk_max_ptrs d)) None)[n := Some p],
        pk_max_ptrs = new\<rparr>" "h = of_nat n"
      using len(1) by (simp_all add: pkcs11_handle_get_def Let_def flip: n_def new_def)
    then show ?thesis
      by (intro ok [of n "unat (new - pk_max_ptrs d)"])
        (use new n un empty len pos in \<open>auto simp: unat_sub_no_wrap\<close>)
  next
    case oom
    with get have "d' = Some d" "h = 0"
      by (simp_all add: pkcs11_handle_get_def Let_def flip: n_def new_def)
    then show ?thesis by (rule full)
  qed
qed

lemma pkcs11_put_inv:
  assumes inv: "pkcs11_db_inv d" and "pkcs11_handle_put (Some d) h = (d', r)"
  shows "\<exists>d''. d' = Some d'' \<and> pkcs11_db_inv d'' \<and> r = pkcs11_handle_lookup (Some d) h \<and>
    pkcs11_handle_lookup d' = (pkcs11_handle_lookup (Some d))(h := None)"
proof (cases "h = 0 \<or> h \<ge> pk_max_ptrs d")
  case True
  with assms(2) have "d' = Some d" "r = None" by (auto simp: pkcs11_handle_put_def)
  moreover from True have "pkcs11_handle_lookup (Some d) h = None"
    by (auto simp: pkcs11_handle_lookup_def)
  ultimately show ?thesis using inv by (auto simp: fun_eq_iff)
next
  case False
  define e where "e = d\<lparr>pk_ptrs := (pk_ptrs d)[unat h := None]\<rparr>"
  from False assms(2) have d': "d' = Some e" and r: "r = pk_ptrs d ! unat h"
    by (auto simp: pkcs11_handle_put_def e_def)
  from False inv have u: "unat h < length (pk_ptrs d)"
    by (simp add: pkcs11_db_inv_def word_le_nat_alt)
  have inv': "pkcs11_db_inv e" using inv by (simp add: pkcs11_db_inv_def e_def)
  have "(\<lambda>x. slot (pk_ptrs e) (unat x)) = (\<lambda>x. slot (pk_ptrs d) (unat x))(h := None)"
    unfolding e_def using slot_upd_fun [OF u refl, of None] by simp
  moreover have "r = slot (pk_ptrs d) (unat h)" using u r by (simp add: slot_def)
  ultimately show ?thesis
    using inv' d' by (simp add: pkcs11_lookup_slot [OF inv] pkcs11_lookup_slot [OF inv'])
qed

definition pkcs11_get :: "'p pkcs11_handle_db \<Rightarrow> 'p \<Rightarrow> u32 \<Rightarrow> 'p pkcs11_handle_db \<times> u32 option" where
  "pkcs11_get d p avail =
     (case pkcs11_handle_get avail (Some d) (Some p) of
        (d', h) \<Rightarrow> (the d', if h = 0 then None else Some h))"

definition pkcs11_put :: "'p pkcs11_handle_db \<Rightarrow> u32 \<Rightarrow> 'p pkcs11_handle_db \<times> 'p option" where
  "pkcs11_put d h = (case pkcs11_handle_put (Some d) h of (d', r) \<Rightarrow> (the d', r))"

abbreviation pkcs11_lookup :: "'p pkcs11_handle_db \<Rightarrow> u32 \<Rightarrow> 'p option" where
  "pkcs11_lookup d \<equiv> pkcs11_handle_lookup (Some d)"

interpretation pkcs11_db: handle_table pkcs11_db_inv pkcs11_lookup pkcs11_get pkcs11_put
proof
  fix d :: "'p pkcs11_handle_db" and p avail d' h
  assume inv: "pkcs11_db_inv d" and get: "pkcs11_get d p avail = (d', Some h)"
  obtain e where e: "pkcs11_handle_get avail (Some d) (Some p) = (e, h)" "d' = the e" "h \<noteq> 0"
    using get by (auto simp: pkcs11_get_def split: prod.splits if_splits)
  show "pkcs11_db_inv d' \<and> pkcs11_handle_lookup (Some d) h = None \<and>
      pkcs11_handle_lookup (Some d') = (pkcs11_handle_lookup (Some d))(h := Some p)"
    using inv e(1)
  proof (cases rule: pkcs11_get_cases)
    case (ok n k)
    from ok e(2) inv have inv': "pkcs11_db_inv d'"
      by (simp add: pkcs11_db_inv_def unat_of_nat del: of_nat_add)
    from ok e(2) have ptrs': "pk_ptrs d' = (pk_ptrs d @ replicate k None)[n := Some p]" by simp
    have "(\<lambda>x. slot (pk_ptrs d') (unat x)) = (\<lambda>x. slot (pk_ptrs d) (unat x))(h := Some p)"
      unfolding ptrs' using slot_upd_fun [of n "pk_ptrs d @ replicate k None" h "Some p"] ok(2,3)
      by simp
    then show ?thesis
      using ok(1,3) inv' by (simp only: pkcs11_lookup_slot [OF inv] pkcs11_lookup_slot [OF inv'])
  next
    case full
    with e(3) show ?thesis by simp
  qed
next
  fix d :: "'p pkcs11_handle_db" and p avail d'
  assume inv: "pkcs11_db_inv d" and get: "pkcs11_get d p avail = (d', None)"
  obtain e where e: "pkcs11_handle_get avail (Some d) (Some p) = (e, 0)" "d' = the e"
    using get by (auto simp: pkcs11_get_def split: prod.splits if_splits)
  show "d' = d"
    using inv e(1) by (cases rule: pkcs11_get_cases) (use e(2) in auto)
next
  fix d :: "'p pkcs11_handle_db" and h d' r
  assume "pkcs11_db_inv d" and "pkcs11_put d h = (d', r)"
  then show "pkcs11_db_inv d' \<and> r = pkcs11_handle_lookup (Some d) h \<and>
      pkcs11_handle_lookup (Some d') = (pkcs11_handle_lookup (Some d))(h := None)"
    using pkcs11_put_inv [of d h] by (fastforce simp: pkcs11_put_def split: prod.splits)
qed

lemma pkcs11_db_inv_init: "pkcs11_db_inv pkcs11_handle_db_init"
  by (simp add: pkcs11_db_inv_def pkcs11_handle_db_init_def slot_def)

lemma find_ptr_correct:
  "find_ptr ps mx ptr n = r \<Longrightarrow>
     (r = 0 \<and> (\<forall>i. n \<le> i \<and> i < mx \<longrightarrow> ps ! i \<noteq> Some ptr)) \<or>
     (n \<le> r \<and> r < mx \<and> ps ! r = Some ptr)"
proof (induction ps mx ptr n rule: find_ptr.induct)
  case (1 ps mx ptr n)
  consider "\<not> n < mx" | "n < mx" "ps ! n = Some ptr" | "n < mx" "ps ! n \<noteq> Some ptr" by blast
  then show ?case
  proof cases
    case 3
    with "1.prems" have "find_ptr ps mx ptr (Suc n) = r" by (simp add: find_ptr.simps [of ps mx ptr n])
    from "1.IH" [OF 3 this] 3 show ?thesis by (metis Suc_leD Suc_leI le_neq_implies_less)
  qed (use "1.prems" in \<open>auto simp: find_ptr.simps [of ps mx ptr n]\<close>)
qed

section \<open>Properties of the PKCS\#11 database\<close>

text \<open>
  The PKCS\#11 handle database answers any sequence of \<^verbatim>\<open>handle_get\<close>, \<^verbatim>\<open>handle_put\<close> and
  \<^verbatim>\<open>handle_lookup\<close> calls as an abstract map does, and keeps its invariant, by which handle
  0 is never valid.
\<close>

theorem pkcs11_handle_db_refines_map:
  assumes "pkcs11_db_inv d"
    and "handle_run pkcs11_lookup pkcs11_get pkcs11_put d ops = (d', rs)"
  shows "pkcs11_db_inv d' \<and> pkcs11_handle_lookup (Some d') 0 = None \<and>
    handle_spec (pkcs11_handle_lookup (Some d)) ops rs (pkcs11_handle_lookup (Some d'))"
  using pkcs11_db.run_refines [OF assms] by (auto simp: pkcs11_handle_lookup_def)

theorem pkcs11_handle_db_refines_map_witness:
  "\<exists>d'. handle_run pkcs11_lookup pkcs11_get pkcs11_put (pkcs11_handle_db_init :: nat pkcs11_handle_db)
      [Get 7 64, Lookup 1, Put 1, Lookup 0] =
      (d', [Some (Inl 1), Some (Inr 7), Some (Inr 7), None]) \<and> pkcs11_db_inv d'"
proof -
  let ?ops = "[Get 7 64, Lookup 1, Put 1, Lookup (0 :: u32)]"
  obtain d' rs where run: "handle_run pkcs11_lookup pkcs11_get pkcs11_put
      (pkcs11_handle_db_init :: nat pkcs11_handle_db) ?ops = (d', rs)" by fastforce
  from pkcs11_handle_db_refines_map [OF pkcs11_db_inv_init run] have "pkcs11_db_inv d'" by blast
  moreover from run have "rs = [Some (Inl 1), Some (Inr 7), Some (Inr 7), None]"
    by (simp add: pkcs11_handle_db_init_def pkcs11_get_def pkcs11_put_def pkcs11_handle_get_def
        pkcs11_handle_put_def pkcs11_handle_lookup_def find_empty.simps realloc_ok_def
        word_le_nat_alt)
  ultimately show ?thesis using run by blast
qed

text \<open>
  \<^verbatim>\<open>handle_lookup_handle\<close> inverts lookup: for a registered pointer it returns a handle
  that looks up to that pointer, and it returns 0 exactly when no handle does.
\<close>

theorem pkcs11_lookup_handle_inverse:
  assumes inv: "pkcs11_db_inv d" and r_def: "r = pkcs11_handle_lookup_handle d (Some p)"
  shows "(r \<noteq> 0 \<longrightarrow> pkcs11_handle_lookup (Some d) r = Some p) \<and>
         (r = 0 \<longleftrightarrow> (\<forall>h. pkcs11_handle_lookup (Some d) h \<noteq> Some p))"
proof -
  define i where "i = find_ptr (pk_ptrs d) (unat (pk_max_ptrs d)) p 1"
  have len: "length (pk_ptrs d) = unat (pk_max_ptrs d)" "unat (pk_max_ptrs d) < 2 ^ 29"
      "slot (pk_ptrs d) 0 = None" using inv by (simp_all add: pkcs11_db_inv_def)
  have r: "r = of_nat i" by (simp add: r_def pkcs11_handle_lookup_handle_def i_def)
  from find_ptr_correct [OF i_def [symmetric]] consider
      (none) "i = 0" "\<forall>j. 1 \<le> j \<and> j < length (pk_ptrs d) \<longrightarrow> pk_ptrs d ! j \<noteq> Some p"
    | (found) "1 \<le> i" "i < length (pk_ptrs d)" "pk_ptrs d ! i = Some p"
    unfolding len(1) by blast
  then show ?thesis
  proof cases
    case none
    have "slot (pk_ptrs d) j \<noteq> Some p" for j
      using none(2) len(3) by (cases "j = 0") (auto simp: slot_def)
    with none r show ?thesis by (simp add: pkcs11_lookup_slot [OF inv])
  next
    case found
    then have "unat r = i" using r len by (simp add: unat_of_nat)
    with found show ?thesis
      by (auto simp: pkcs11_lookup_slot [OF inv] slot_def intro: exI [of _ r])
  qed
qed

theorem pkcs11_lookup_handle_inverse_witness:
  "pkcs11_handle_lookup_handle \<lparr>pk_ptrs = [None, Some (4::nat)], pk_max_ptrs = 2\<rparr> (Some 4) = 1 \<and>
   pkcs11_handle_lookup (Some \<lparr>pk_ptrs = [None, Some (4::nat)], pk_max_ptrs = 2\<rparr>) 1 = Some 4"
proof -
  let ?d = "\<lparr>pk_ptrs = [None, Some (4::nat)], pk_max_ptrs = 2\<rparr> :: nat pkcs11_handle_db"
  have "pkcs11_db_inv ?d" by (simp add: pkcs11_db_inv_def slot_def)
  moreover have "pkcs11_handle_lookup_handle ?d (Some 4) = 1"
    by (simp add: pkcs11_handle_lookup_handle_def find_ptr.simps)
  ultimately show ?thesis using pkcs11_lookup_handle_inverse [of ?d 1 4] by simp
qed

end
