(* ===== verification/Pkcs11_Ta.thy ===== *)
theory Pkcs11_Ta
  imports Pkcs11_Pin Handle_Db
begin

text \<open>
  The PKCS\#11 trusted application: clients, sessions and the commands of
  \<^verbatim>\<open>ta/pkcs11/src/pkcs11_token.c\<close>, \<^verbatim>\<open>serializer.c\<close>, \<^verbatim>\<open>token_capabilities.c\<close> and
  \<^verbatim>\<open>entry.c\<close>. Clients and sessions are heap objects, reached through addresses; an access to an
  address that holds no object is a crash and is modelled as \<open>Panic\<close>, as are \<^verbatim>\<open>TEE_Panic\<close> and a
  failing \<^verbatim>\<open>assert\<close>. The application is single-threaded: each command runs to its end.
\<close>

unbundle bit_operations_syntax

section \<open>Data\<close>

definition TOKEN_COUNT :: nat where "TOKEN_COUNT = 3"

datatype pkcs11_session_state =
    PKCS11_CKS_RO_PUBLIC_SESSION
  | PKCS11_CKS_RO_USER_FUNCTIONS
  | PKCS11_CKS_RW_PUBLIC_SESSION
  | PKCS11_CKS_RW_USER_FUNCTIONS
  | PKCS11_CKS_RW_SO_FUNCTIONS

primrec session_state_code :: "pkcs11_session_state \<Rightarrow> u32" where
  "session_state_code PKCS11_CKS_RO_PUBLIC_SESSION = 0"
| "session_state_code PKCS11_CKS_RO_USER_FUNCTIONS = 1"
| "session_state_code PKCS11_CKS_RW_PUBLIC_SESSION = 2"
| "session_state_code PKCS11_CKS_RW_USER_FUNCTIONS = 3"
| "session_state_code PKCS11_CKS_RW_SO_FUNCTIONS = 4"

text \<open>A session; \<open>ss_token\<close> is the index of its token in the array \<^verbatim>\<open>ck_token\<close>.\<close>

record pkcs11_session =
  ss_client :: addr
  ss_token :: nat
  ss_handle :: u32
  ss_state :: pkcs11_session_state

record pkcs11_client =
  cl_session_list :: "addr list"
  cl_session_handle_db :: "addr pkcs11_handle_db"

record pkcs11_ta =
  ta_token :: "ck_token list"
  ta_client_list :: "addr list"
  ta_client :: "addr \<Rightarrow> pkcs11_client option"
  ta_session :: "addr \<Rightarrow> pkcs11_session option"
  ta_mem :: "64 mem"

text \<open>Parameters 0 and 2 of an invocation; no command uses the other two.\<close>

record tee_params =
  pr0 :: memref
  pr2 :: memref

type_synonym cmd_result = "(pkcs11_rc \<times> pkcs11_ta \<times> tee_params) outcome"

definition PKCS11_CKFSS_RW_SESSION :: u32 where "PKCS11_CKFSS_RW_SESSION = push_bit 1 1"
definition PKCS11_CKFSS_SERIAL_SESSION :: u32 where "PKCS11_CKFSS_SERIAL_SESSION = push_bit 2 1"

definition pkcs11_session_is_read_write :: "pkcs11_session \<Rightarrow> bool" where
  "pkcs11_session_is_read_write x \<longleftrightarrow> ss_state x = PKCS11_CKS_RW_PUBLIC_SESSION \<or>
     ss_state x = PKCS11_CKS_RW_USER_FUNCTIONS \<or> ss_state x = PKCS11_CKS_RW_SO_FUNCTIONS"

definition pkcs11_session_is_public :: "pkcs11_session \<Rightarrow> bool" where
  "pkcs11_session_is_public x \<longleftrightarrow> ss_state x = PKCS11_CKS_RO_PUBLIC_SESSION \<or>
     ss_state x = PKCS11_CKS_RW_PUBLIC_SESSION"

definition pkcs11_session_is_user :: "pkcs11_session \<Rightarrow> bool" where
  "pkcs11_session_is_user x \<longleftrightarrow> ss_state x = PKCS11_CKS_RO_USER_FUNCTIONS \<or>
     ss_state x = PKCS11_CKS_RW_USER_FUNCTIONS"

definition pkcs11_session_is_so :: "pkcs11_session \<Rightarrow> bool" where
  "pkcs11_session_is_so x \<longleftrightarrow> ss_state x = PKCS11_CKS_RW_SO_FUNCTIONS"

section \<open>Access to objects\<close>

definition get_session :: "pkcs11_ta \<Rightarrow> addr \<Rightarrow> pkcs11_session outcome" where
  "get_session s a = (case ta_session s a of None \<Rightarrow> Panic | Some x \<Rightarrow> Ret x)"

definition get_client :: "pkcs11_ta \<Rightarrow> addr \<Rightarrow> pkcs11_client outcome" where
  "get_client s c = (case ta_client s c of None \<Rightarrow> Panic | Some x \<Rightarrow> Ret x)"

text \<open>\<^verbatim>\<open>get_token\<close>: the index of the token with a given identifier.\<close>

definition get_token :: "u32 \<Rightarrow> nat option" where
  "get_token token_id = (if unat token_id < TOKEN_COUNT then Some (unat token_id) else None)"

definition get_token_id :: "nat \<Rightarrow> u32 outcome" where
  "get_token_id t = (if t < TOKEN_COUNT then Ret (of_nat t) else Panic)"

definition token_at :: "pkcs11_ta \<Rightarrow> nat \<Rightarrow> ck_token" where
  "token_at s t = ta_token s ! t"

definition set_token :: "pkcs11_ta \<Rightarrow> nat \<Rightarrow> ck_token \<Rightarrow> pkcs11_ta" where
  "set_token s t tk = s\<lparr>ta_token := (ta_token s)[t := tk]\<rparr>"

definition tee_session2client :: "pkcs11_ta \<Rightarrow> addr \<Rightarrow> addr option" where
  "tee_session2client s tee_session = (if tee_session \<in> set (ta_client_list s) then Some tee_session else None)"

definition pkcs11_handle2session :: "u32 \<Rightarrow> pkcs11_client \<Rightarrow> addr option" where
  "pkcs11_handle2session handle client = pkcs11_handle_lookup (Some (cl_session_handle_db client)) handle"

section \<open>Argument decoding\<close>

definition serialargs_get_u32 ::
    "64 mem \<Rightarrow> 64 serialargs \<Rightarrow> pkcs11_rc + (64 serialargs \<times> u32)" where
  "serialargs_get_u32 m args =
     (case serialargs_get m args 4 of Inl rc \<Rightarrow> Inl rc | Inr (args, bs) \<Rightarrow> Inr (args, le32 bs))"

definition serialargs_get_session_from_handle ::
    "64 mem \<Rightarrow> 64 serialargs \<Rightarrow> pkcs11_client \<Rightarrow> pkcs11_rc + (64 serialargs \<times> addr)" where
  "serialargs_get_session_from_handle m args client =
     (case serialargs_get_u32 m args of
        Inl rc \<Rightarrow> Inl rc
      | Inr (args, session_handle) \<Rightarrow>
          (case pkcs11_handle2session session_handle client of
             None \<Rightarrow> Inl PKCS11_CKR_SESSION_HANDLE_INVALID
           | Some a \<Rightarrow> Inr (args, a)))"

text \<open>\<^verbatim>\<open>if (rc) return rc;\<close> with the state and parameters as they are.\<close>

fun or_return :: "pkcs11_ta \<Rightarrow> tee_params \<Rightarrow> pkcs11_rc + 'a \<Rightarrow> ('a \<Rightarrow> cmd_result) \<Rightarrow> cmd_result" where
  "or_return s p (Inl rc) k = Ret (rc, s, p)"
| "or_return s p (Inr x) k = k x"

definition exp_pt_in :: u32 where
  "exp_pt_in = TEE_PARAM_TYPES TEE_PARAM_TYPE_MEMREF_INOUT TEE_PARAM_TYPE_NONE
     TEE_PARAM_TYPE_NONE TEE_PARAM_TYPE_NONE"

definition exp_pt_out :: u32 where
  "exp_pt_out = TEE_PARAM_TYPES TEE_PARAM_TYPE_MEMREF_INOUT TEE_PARAM_TYPE_NONE
     TEE_PARAM_TYPE_MEMREF_OUTPUT TEE_PARAM_TYPE_NONE"

definition ctrl_args :: "tee_params \<Rightarrow> 64 serialargs" where
  "ctrl_args p = serialargs_init (mr_buffer (pr0 p)) (ucast (mr_size (pr0 p)))"

definition write_out :: "pkcs11_ta \<Rightarrow> memref \<Rightarrow> u8 list \<Rightarrow> pkcs11_ta" where
  "write_out s r bs = s\<lparr>ta_mem := mem_write (ta_mem s) (mr_buffer r) bs\<rparr>"

text \<open>A PIN argument: \<open>pin_size\<close> bytes at \<open>pin\<close>.\<close>

definition pin_bytes :: "pkcs11_ta \<Rightarrow> u64 \<Rightarrow> u32 \<Rightarrow> u8 list" where
  "pin_bytes s pin pin_size = bytes_at (ta_mem s) pin (unat pin_size)"

section \<open>Clients\<close>

definition register_client :: "tee_env \<Rightarrow> pkcs11_ta \<Rightarrow> addr option \<times> pkcs11_ta" where
  "register_client e s =
     (case env_malloc e of
        None \<Rightarrow> (None, s)
      | Some c \<Rightarrow>
          (Some c, s\<lparr>ta_client_list := c # ta_client_list s,
             ta_client := (ta_client s)(c \<mapsto> \<lparr>cl_session_list = [],
               cl_session_handle_db = pkcs11_handle_db_init\<rparr>)\<rparr>))"

definition close_ck_session :: "pkcs11_ta \<Rightarrow> addr \<Rightarrow> pkcs11_ta outcome" where
  "close_ck_session s a =
     bind_outcome (get_session s a) (\<lambda>x.
     bind_outcome (get_client s (ss_client x)) (\<lambda>cl.
       if a \<notin> set (cl_session_list cl) then Panic
       else
         let cl = cl\<lparr>cl_session_list := remove1 a (cl_session_list cl),
                     cl_session_handle_db :=
                       the (fst (pkcs11_handle_put (Some (cl_session_handle_db cl)) (ss_handle x)))\<rparr>;
             tk = token_at s (ss_token x);
             tk = tk\<lparr>tk_session_count := tk_session_count tk - 1\<rparr>;
             tk = (if pkcs11_session_is_read_write x
                   then tk\<lparr>tk_rw_session_count := tk_rw_session_count tk - 1\<rparr> else tk);
             s = set_token s (ss_token x) tk
         in Ret (s\<lparr>ta_client := (ta_client s)(ss_client x \<mapsto> cl),
                   ta_session := (ta_session s)(a := None)\<rparr>)))"

text \<open>\<^verbatim>\<open>TAILQ_FOREACH_SAFE\<close> over the sessions, closing those that \<open>sel\<close> selects.\<close>

fun close_sessions :: "(pkcs11_session \<Rightarrow> bool) \<Rightarrow> pkcs11_ta \<Rightarrow> addr list \<Rightarrow> pkcs11_ta outcome" where
  "close_sessions sel s [] = Ret s"
| "close_sessions sel s (a # as) =
     bind_outcome (get_session s a) (\<lambda>x.
       if sel x then bind_outcome (close_ck_session s a) (\<lambda>s. close_sessions sel s as)
       else close_sessions sel s as)"

definition unregister_client :: "addr option \<Rightarrow> pkcs11_ta \<Rightarrow> pkcs11_ta outcome" where
  "unregister_client client s =
     (case client of
        None \<Rightarrow> Ret s
      | Some c \<Rightarrow>
          bind_outcome (get_client s c) (\<lambda>cl.
          bind_outcome (close_sessions (\<lambda>x. True) s (cl_session_list cl)) (\<lambda>s.
            if c \<notin> set (ta_client_list s) then Panic
            else Ret (s\<lparr>ta_client_list := remove1 c (ta_client_list s),
                        ta_client := (ta_client s)(c := None)\<rparr>))))"

fun init_tokens :: "(nat \<Rightarrow> tee_env) \<Rightarrow> nat \<Rightarrow> ck_token list \<Rightarrow> (tee_result \<times> ck_token list) outcome" where
  "init_tokens e n [] = Ret (TEE_SUCCESS, [])"
| "init_tokens e n (tk # tks) =
     bind_outcome (pkcs11_token_init (e n) tk) (\<lambda>(res, tk).
       if res \<noteq> TEE_SUCCESS then Ret (res, tk # tks)
       else bind_outcome (init_tokens e (Suc n) tks) (\<lambda>(res, tks). Ret (res, tk # tks)))"

text \<open>\<open>e n\<close> is the environment of the \<open>n\<close>-th iteration.\<close>

definition pkcs11_init :: "(nat \<Rightarrow> tee_env) \<Rightarrow> pkcs11_ta \<Rightarrow> (tee_result \<times> pkcs11_ta) outcome" where
  "pkcs11_init e s =
     bind_outcome (init_tokens e 0 (ta_token s)) (\<lambda>(res, tks). Ret (res, s\<lparr>ta_token := tks\<rparr>))"

section \<open>Slot and token information\<close>

definition str_bytes :: "string \<Rightarrow> u8 list" where
  "str_bytes cs = map (\<lambda>c. of_nat (of_char c)) cs"

text \<open>Padding with blanks behind the first \<^verbatim>\<open>\0\<close>.\<close>

definition pad_str :: "u8 list \<Rightarrow> nat \<Rightarrow> u8 list" where
  "pad_str str sz = (let p = takeWhile (\<lambda>b. b \<noteq> 0) (take sz str) in p @ replicate (sz - length p) 32)"

definition PKCS11_SLOT_DESCRIPTION :: "u8 list" where
  "PKCS11_SLOT_DESCRIPTION = str_bytes ''OP-TEE PKCS11 TA''"
definition PKCS11_SLOT_MANUFACTURER :: "u8 list" where
  "PKCS11_SLOT_MANUFACTURER = str_bytes ''Linaro''"
definition PKCS11_TOKEN_MODEL :: "u8 list" where "PKCS11_TOKEN_MODEL = str_bytes ''OP-TEE TA''"

text \<open>
  \<^verbatim>\<open>set_token_description\<close>: the 64 bytes of the description. \<open>env_uuid\<close> is the device UUID as
  \<^verbatim>\<open>%pUl\<close> prints it.
\<close>

definition set_token_description :: "tee_env \<Rightarrow> u8 list outcome" where
  "set_token_description e =
     (let desc = (case env_uuid e of
            Some uuid \<Rightarrow> PKCS11_SLOT_DESCRIPTION @ str_bytes '' - TEE UUID '' @ uuid
          | None \<Rightarrow> PKCS11_SLOT_DESCRIPTION @ str_bytes '' - No TEE UUID'')
      in if length desc \<ge> 65 then Panic
         else Ret (pad_str (desc @ replicate (64 - length desc) 0) 64))"

definition entry_ck_slot_list :: "u32 \<Rightarrow> tee_params \<Rightarrow> pkcs11_ta \<Rightarrow> cmd_result" where
  "entry_ck_slot_list ptypes p s =
     (let out_size = 4 * of_nat TOKEN_COUNT in
      if ptypes \<noteq> exp_pt_out \<or> mr_size (pr0 p) \<noteq> 4 then Ret (PKCS11_CKR_ARGUMENTS_BAD, s, p)
      else
        let p' = p\<lparr>pr2 := (pr2 p)\<lparr>mr_size := out_size\<rparr>\<rparr> in
        if mr_size (pr2 p) < out_size
        then Ret (if mr_buffer (pr2 p) \<noteq> 0 then PKCS11_CKR_BUFFER_TOO_SMALL else PKCS11_CKR_OK, s, p')
        else Ret (PKCS11_CKR_OK,
          write_out s (pr2 p) (concat (map (\<lambda>t. le32_bytes (of_nat t)) [0..<TOKEN_COUNT])), p'))"

definition entry_ck_slot_info :: "tee_env \<Rightarrow> u32 \<Rightarrow> tee_params \<Rightarrow> pkcs11_ta \<Rightarrow> cmd_result" where
  "entry_ck_slot_info e ptypes p s =
     (if ptypes \<noteq> exp_pt_out \<or> mr_size (pr2 p) \<noteq> 104 then Ret (PKCS11_CKR_ARGUMENTS_BAD, s, p)
      else or_return s p (serialargs_get_u32 (ta_mem s) (ctrl_args p)) (\<lambda>(args, token_id).
        if serialargs_remaining_bytes args then Ret (PKCS11_CKR_ARGUMENTS_BAD, s, p)
        else if get_token token_id = None then Ret (PKCS11_CKR_SLOT_ID_INVALID, s, p)
        else bind_outcome (set_token_description e) (\<lambda>desc.
          Ret (PKCS11_CKR_OK,
            write_out s (pr2 p) (desc @ pad_str (PKCS11_SLOT_MANUFACTURER @ replicate 26 0) 32 @
              le32_bytes 1 @ [0, 0] @ [0, 1]),
            p\<lparr>pr2 := (pr2 p)\<lparr>mr_size := 104\<rparr>\<rparr>))))"

text \<open>Decimal digits of a number, as \<^verbatim>\<open>snprintf\<close> prints them with \<^verbatim>\<open>%0*\<close> and a width.\<close>

fun dec_digits :: "nat \<Rightarrow> u8 list" where
  "dec_digits n = (if n < 10 then [of_nat (48 + n)] else dec_digits (n div 10) @ [of_nat (48 + n mod 10)])"

declare dec_digits.simps [simp del]

definition zero_padded :: "nat \<Rightarrow> nat \<Rightarrow> u8 list" where
  "zero_padded w n = (let ds = dec_digits n in replicate (w - length ds) 48 @ ds)"

definition token_info_bytes :: "ck_token \<Rightarrow> u8 list \<Rightarrow> u8 list" where
  "token_info_bytes tk sn =
     db_label (tk_db_main tk) @
     pad_str (PKCS11_SLOT_MANUFACTURER @ replicate 26 0) 32 @
     pad_str (PKCS11_TOKEN_MODEL @ replicate 7 0) 16 @ pad_str sn 16 @
     concat (map le32_bytes
       [db_flags (tk_db_main tk), - 1, tk_session_count tk, - 1, tk_rw_session_count tk,
        of_nat PKCS11_TOKEN_PIN_SIZE_MAX, of_nat PKCS11_TOKEN_PIN_SIZE_MIN, - 1, - 1, - 1, - 1]) @
     [0, 0] @ [0, 1] @ replicate 16 0"

definition entry_ck_token_info :: "u32 \<Rightarrow> tee_params \<Rightarrow> pkcs11_ta \<Rightarrow> cmd_result" where
  "entry_ck_token_info ptypes p s =
     (if ptypes \<noteq> exp_pt_out \<or> mr_size (pr2 p) \<noteq> 160 then Ret (PKCS11_CKR_ARGUMENTS_BAD, s, p)
      else or_return s p (serialargs_get_u32 (ta_mem s) (ctrl_args p)) (\<lambda>(args, token_id).
        if serialargs_remaining_bytes args then Ret (PKCS11_CKR_ARGUMENTS_BAD, s, p)
        else case get_token token_id of
          None \<Rightarrow> Ret (PKCS11_CKR_SLOT_ID_INVALID, s, p)
        | Some t \<Rightarrow>
            let sn = zero_padded 16 (unat token_id) in
            if length sn \<noteq> 16 then Panic
            else Ret (PKCS11_CKR_OK, write_out s (pr2 p) (token_info_bytes (token_at s t) sn), p)))"

section \<open>Mechanisms\<close>

record pkcs11_mechanism_modes =
  mm_id :: u32
  mm_flags :: u32
  mm_one_shot :: bool

definition PKCS11_CKM_AES_ECB :: u32 where "PKCS11_CKM_AES_ECB = 0x1081"

definition PKCS11_CKFM_ENCRYPT :: u32 where "PKCS11_CKFM_ENCRYPT = push_bit 8 1"
definition PKCS11_CKFM_DECRYPT :: u32 where "PKCS11_CKFM_DECRYPT = push_bit 9 1"
definition PKCS11_CKFM_WRAP :: u32 where "PKCS11_CKFM_WRAP = push_bit 17 1"
definition PKCS11_CKFM_UNWRAP :: u32 where "PKCS11_CKFM_UNWRAP = push_bit 18 1"

text \<open>The bits 8 to 19: encrypt up to derive.\<close>

definition ALLOWED_PKCS11_CKFM :: u32 where "ALLOWED_PKCS11_CKFM = 0xFFF00"

definition pkcs11_modes :: "pkcs11_mechanism_modes list" where
  "pkcs11_modes = [\<lparr>mm_id = PKCS11_CKM_AES_ECB,
     mm_flags = PKCS11_CKFM_ENCRYPT OR PKCS11_CKFM_DECRYPT OR PKCS11_CKFM_WRAP OR PKCS11_CKFM_UNWRAP,
     mm_one_shot = False\<rparr>]"

definition token_mechanism :: "pkcs11_mechanism_modes list" where
  "token_mechanism = [\<lparr>mm_id = PKCS11_CKM_AES_ECB, mm_flags = 0, mm_one_shot = False\<rparr>]"

definition mechanism_is_valid :: "u32 \<Rightarrow> bool" where
  "mechanism_is_valid i = list_ex (\<lambda>m. i = mm_id m) pkcs11_modes"

definition mechanism_flags_complies_pkcs11 :: "u32 \<Rightarrow> u32 \<Rightarrow> bool outcome" where
  "mechanism_flags_complies_pkcs11 mechanism_type flags =
     (if flags AND NOT ALLOWED_PKCS11_CKFM \<noteq> 0 then Panic
      else case find (\<lambda>m. mm_id m = mechanism_type) pkcs11_modes of
        Some m \<Rightarrow> Ret (flags AND NOT (mm_flags m) = 0)
      | None \<Rightarrow> Ret False)"

text \<open>\<open>n\<close> is the number of cells of the client; the array and the number of identifiers are returned.\<close>

definition tee_malloc_mechanism_list :: "tee_env \<Rightarrow> nat \<Rightarrow> u32 list option \<times> nat" where
  "tee_malloc_mechanism_list e n =
     (let ms = filter (\<lambda>m. mm_flags m \<noteq> 0) token_mechanism; count = length ms
      in (if n \<ge> count \<and> env_malloc e \<noteq> None then Some (rev (map mm_id ms)) else None, count))"

definition mechanism_supported_flags :: "u32 \<Rightarrow> u32 outcome" where
  "mechanism_supported_flags i =
     (case find (\<lambda>m. i = mm_id m) token_mechanism of
        Some m \<Rightarrow> bind_outcome (mechanism_flags_complies_pkcs11 i (mm_flags m))
          (\<lambda>ok. if ok then Ret (mm_flags m) else Panic)
      | None \<Rightarrow> Ret 0)"

definition entry_ck_token_mecha_ids :: "tee_env \<Rightarrow> u32 \<Rightarrow> tee_params \<Rightarrow> pkcs11_ta \<Rightarrow> cmd_result" where
  "entry_ck_token_mecha_ids e ptypes p s =
     (if ptypes \<noteq> exp_pt_out then Ret (PKCS11_CKR_ARGUMENTS_BAD, s, p)
      else or_return s p (serialargs_get_u32 (ta_mem s) (ctrl_args p)) (\<lambda>(args, token_id).
        if serialargs_remaining_bytes args then Ret (PKCS11_CKR_ARGUMENTS_BAD, s, p)
        else if get_token token_id = None then Ret (PKCS11_CKR_SLOT_ID_INVALID, s, p)
        else case tee_malloc_mechanism_list e (unat (mr_size (pr2 p)) div 4) of
          (array, count) \<Rightarrow>
            let p' = p\<lparr>pr2 := (pr2 p)\<lparr>mr_size := of_nat (count * 4)\<rparr>\<rparr> in
            if unat (mr_size (pr2 p)) < count * 4 then
              if array \<noteq> None then Panic
              else Ret (if mr_buffer (pr2 p) \<noteq> 0 then PKCS11_CKR_BUFFER_TOO_SMALL
                        else PKCS11_CKR_OK, s, p')
            else case array of
              None \<Rightarrow> Ret (PKCS11_CKR_DEVICE_MEMORY, s, p)
            | Some ids \<Rightarrow> Ret (PKCS11_CKR_OK, write_out s (pr2 p) (concat (map le32_bytes ids)), p')))"

text \<open>\<^verbatim>\<open>supported_mechanism_key_size\<close>: minimum and maximum are 0 for every mechanism.\<close>

definition supported_mechanism_key_size :: "u32 \<Rightarrow> u32 \<times> u32" where
  "supported_mechanism_key_size proc_id = (0, 0)"

definition entry_ck_token_mecha_info :: "u32 \<Rightarrow> tee_params \<Rightarrow> pkcs11_ta \<Rightarrow> cmd_result" where
  "entry_ck_token_mecha_info ptypes p s =
     (if ptypes \<noteq> exp_pt_out \<or> mr_size (pr2 p) \<noteq> 12 then Ret (PKCS11_CKR_ARGUMENTS_BAD, s, p)
      else or_return s p (serialargs_get_u32 (ta_mem s) (ctrl_args p)) (\<lambda>(args, token_id).
        or_return s p (serialargs_get_u32 (ta_mem s) args) (\<lambda>(args, type).
        if serialargs_remaining_bytes args then Ret (PKCS11_CKR_ARGUMENTS_BAD, s, p)
        else if get_token token_id = None then Ret (PKCS11_CKR_SLOT_ID_INVALID, s, p)
        else if \<not> mechanism_is_valid type then Ret (PKCS11_CKR_MECHANISM_INVALID, s, p)
        else bind_outcome (mechanism_supported_flags type) (\<lambda>flags.
          case supported_mechanism_key_size type of (kmin, kmax) \<Rightarrow>
          Ret (PKCS11_CKR_OK,
            write_out s (pr2 p) (le32_bytes kmin @ le32_bytes kmax @ le32_bytes flags), p)))))"

section \<open>Sessions\<close>

text \<open>
  The loop of \<^verbatim>\<open>set_session_state\<close>: the first session of the client on the same token gives the login
  state; \<open>new\<close> is the session that is being opened.
\<close>

fun set_session_state_loop ::
    "pkcs11_ta \<Rightarrow> addr \<Rightarrow> nat \<Rightarrow> bool \<Rightarrow> addr list \<Rightarrow> pkcs11_session_state outcome" where
  "set_session_state_loop s new t readonly [] =
     Ret (if readonly then PKCS11_CKS_RO_PUBLIC_SESSION else PKCS11_CKS_RW_PUBLIC_SESSION)"
| "set_session_state_loop s new t readonly (a # as) =
     (if a = new then Panic
      else bind_outcome (get_session s a) (\<lambda>x.
        if ss_token x = t then
          case ss_state x of
            PKCS11_CKS_RW_PUBLIC_SESSION \<Rightarrow>
              Ret (if readonly then PKCS11_CKS_RO_PUBLIC_SESSION else PKCS11_CKS_RW_PUBLIC_SESSION)
          | PKCS11_CKS_RO_PUBLIC_SESSION \<Rightarrow>
              Ret (if readonly then PKCS11_CKS_RO_PUBLIC_SESSION else PKCS11_CKS_RW_PUBLIC_SESSION)
          | PKCS11_CKS_RO_USER_FUNCTIONS \<Rightarrow>
              Ret (if readonly then PKCS11_CKS_RO_USER_FUNCTIONS else PKCS11_CKS_RW_USER_FUNCTIONS)
          | PKCS11_CKS_RW_USER_FUNCTIONS \<Rightarrow>
              Ret (if readonly then PKCS11_CKS_RO_USER_FUNCTIONS else PKCS11_CKS_RW_USER_FUNCTIONS)
          | PKCS11_CKS_RW_SO_FUNCTIONS \<Rightarrow>
              if readonly then Panic else Ret PKCS11_CKS_RW_SO_FUNCTIONS
        else set_session_state_loop s new t readonly as))"

definition set_session_state ::
    "pkcs11_ta \<Rightarrow> pkcs11_client \<Rightarrow> addr \<Rightarrow> nat \<Rightarrow> bool \<Rightarrow> pkcs11_session_state outcome" where
  "set_session_state s cl new t readonly = set_session_state_loop s new t readonly (cl_session_list cl)"

text \<open>Some session of the list satisfies \<open>q\<close>.\<close>

fun any_session :: "(pkcs11_session \<Rightarrow> bool) \<Rightarrow> pkcs11_ta \<Rightarrow> addr list \<Rightarrow> bool outcome" where
  "any_session q s [] = Ret False"
| "any_session q s (a # as) =
     bind_outcome (get_session s a) (\<lambda>x. if q x then Ret True else any_session q s as)"

text \<open>
  The body of \<^verbatim>\<open>entry_ck_open_session\<close> behind the argument checks. A failing \<^verbatim>\<open>TEE_Malloc\<close> or
  \<^verbatim>\<open>handle_get\<close> leaves the state unchanged.
\<close>

definition open_session ::
    "tee_env \<Rightarrow> addr \<Rightarrow> pkcs11_client \<Rightarrow> nat \<Rightarrow> bool \<Rightarrow> tee_params \<Rightarrow> pkcs11_ta \<Rightarrow> cmd_result" where
  "open_session e c cl t readonly p s =
     (case env_malloc e of
        None \<Rightarrow> Ret (PKCS11_CKR_DEVICE_MEMORY, s, p)
      | Some a \<Rightarrow>
          case pkcs11_handle_get (env_avail e) (Some (cl_session_handle_db cl)) (Some a) of (db, handle) \<Rightarrow>
          if handle = 0 then Ret (PKCS11_CKR_DEVICE_MEMORY, s, p)
          else bind_outcome (set_session_state s cl a t readonly) (\<lambda>state.
            let x = \<lparr>ss_client = c, ss_token = t, ss_handle = handle, ss_state = state\<rparr>;
                cl = cl\<lparr>cl_session_list := a # cl_session_list cl, cl_session_handle_db := the db\<rparr>;
                tk = token_at s t;
                tk = tk\<lparr>tk_session_count := tk_session_count tk + 1\<rparr>;
                tk = (if \<not> readonly then tk\<lparr>tk_rw_session_count := tk_rw_session_count tk + 1\<rparr> else tk);
                s = set_token s t tk;
                s = s\<lparr>ta_client := (ta_client s)(c \<mapsto> cl), ta_session := (ta_session s)(a \<mapsto> x)\<rparr>
            in Ret (PKCS11_CKR_OK, write_out s (pr2 p) (le32_bytes handle), p)))"

definition entry_ck_open_session ::
    "tee_env \<Rightarrow> addr option \<Rightarrow> u32 \<Rightarrow> tee_params \<Rightarrow> pkcs11_ta \<Rightarrow> cmd_result" where
  "entry_ck_open_session e client ptypes p s =
     (case client of None \<Rightarrow> Ret (PKCS11_CKR_ARGUMENTS_BAD, s, p) | Some c \<Rightarrow>
      if ptypes \<noteq> exp_pt_out \<or> mr_size (pr2 p) \<noteq> 4 then Ret (PKCS11_CKR_ARGUMENTS_BAD, s, p)
      else or_return s p (serialargs_get_u32 (ta_mem s) (ctrl_args p)) (\<lambda>(args, token_id).
        or_return s p (serialargs_get_u32 (ta_mem s) args) (\<lambda>(args, flags).
        if serialargs_remaining_bytes args then Ret (PKCS11_CKR_ARGUMENTS_BAD, s, p)
        else case get_token token_id of
          None \<Rightarrow> Ret (PKCS11_CKR_SLOT_ID_INVALID, s, p)
        | Some t \<Rightarrow>
            if flags AND PKCS11_CKFSS_SERIAL_SESSION = 0 \<or>
               flags AND NOT (PKCS11_CKFSS_RW_SESSION OR PKCS11_CKFSS_SERIAL_SESSION) \<noteq> 0
            then Ret (PKCS11_CKR_ARGUMENTS_BAD, s, p)
            else
              let readonly = (flags AND PKCS11_CKFSS_RW_SESSION = 0) in
              if \<not> readonly \<and> tk_state (token_at s t) = PKCS11_TOKEN_READ_ONLY
              then Ret (PKCS11_CKR_TOKEN_WRITE_PROTECTED, s, p)
              else bind_outcome (get_client s c) (\<lambda>cl.
                bind_outcome (if readonly then any_session pkcs11_session_is_so s (cl_session_list cl)
                              else Ret False) (\<lambda>so.
                if so then Ret (PKCS11_CKR_SESSION_READ_WRITE_SO_EXISTS, s, p)
                else open_session e c cl t readonly p s)))))"

definition entry_ck_close_session ::
    "addr option \<Rightarrow> u32 \<Rightarrow> tee_params \<Rightarrow> pkcs11_ta \<Rightarrow> cmd_result" where
  "entry_ck_close_session client ptypes p s =
     (case client of None \<Rightarrow> Ret (PKCS11_CKR_ARGUMENTS_BAD, s, p) | Some c \<Rightarrow>
      if ptypes \<noteq> exp_pt_in then Ret (PKCS11_CKR_ARGUMENTS_BAD, s, p)
      else bind_outcome (get_client s c) (\<lambda>cl.
        or_return s p (serialargs_get_session_from_handle (ta_mem s) (ctrl_args p) cl) (\<lambda>(args, a).
        if serialargs_remaining_bytes args then Ret (PKCS11_CKR_ARGUMENTS_BAD, s, p)
        else bind_outcome (close_ck_session s a) (\<lambda>s. Ret (PKCS11_CKR_OK, s, p)))))"

definition entry_ck_close_all_sessions ::
    "addr option \<Rightarrow> u32 \<Rightarrow> tee_params \<Rightarrow> pkcs11_ta \<Rightarrow> cmd_result" where
  "entry_ck_close_all_sessions client ptypes p s =
     (case client of None \<Rightarrow> Ret (PKCS11_CKR_ARGUMENTS_BAD, s, p) | Some c \<Rightarrow>
      if ptypes \<noteq> exp_pt_in then Ret (PKCS11_CKR_ARGUMENTS_BAD, s, p)
      else or_return s p (serialargs_get_u32 (ta_mem s) (ctrl_args p)) (\<lambda>(args, token_id).
        if serialargs_remaining_bytes args then Ret (PKCS11_CKR_ARGUMENTS_BAD, s, p)
        else case get_token token_id of
          None \<Rightarrow> Ret (PKCS11_CKR_SLOT_ID_INVALID, s, p)
        | Some t \<Rightarrow>
            bind_outcome (get_client s c) (\<lambda>cl.
            bind_outcome (close_sessions (\<lambda>x. ss_token x = t) s (cl_session_list cl)) (\<lambda>s.
              Ret (PKCS11_CKR_OK, s, p)))))"

definition entry_ck_session_info ::
    "addr option \<Rightarrow> u32 \<Rightarrow> tee_params \<Rightarrow> pkcs11_ta \<Rightarrow> cmd_result" where
  "entry_ck_session_info client ptypes p s =
     (case client of None \<Rightarrow> Ret (PKCS11_CKR_ARGUMENTS_BAD, s, p) | Some c \<Rightarrow>
      if ptypes \<noteq> exp_pt_out \<or> mr_size (pr2 p) \<noteq> 16 then Ret (PKCS11_CKR_ARGUMENTS_BAD, s, p)
      else bind_outcome (get_client s c) (\<lambda>cl.
        or_return s p (serialargs_get_session_from_handle (ta_mem s) (ctrl_args p) cl) (\<lambda>(args, a).
        if serialargs_remaining_bytes args then Ret (PKCS11_CKR_ARGUMENTS_BAD, s, p)
        else bind_outcome (get_session s a) (\<lambda>x.
          bind_outcome (get_token_id (ss_token x)) (\<lambda>slot_id.
            let flags = (if pkcs11_session_is_read_write x
                         then PKCS11_CKFSS_SERIAL_SESSION OR PKCS11_CKFSS_RW_SESSION
                         else PKCS11_CKFSS_SERIAL_SESSION)
            in Ret (PKCS11_CKR_OK, write_out s (pr2 p)
                 (le32_bytes slot_id @ le32_bytes (session_state_code (ss_state x)) @
                  le32_bytes flags @ le32_bytes 0), p))))))"

section \<open>Token initialization and PINs\<close>

text \<open>Some client has a session on the token.\<close>

fun token_in_use :: "nat \<Rightarrow> pkcs11_ta \<Rightarrow> addr list \<Rightarrow> bool outcome" where
  "token_in_use t s [] = Ret False"
| "token_in_use t s (c # cs) =
     bind_outcome (get_client s c) (\<lambda>cl.
     bind_outcome (any_session (\<lambda>x. ss_token x = t) s (cl_session_list cl)) (\<lambda>used.
       if used then Ret True else token_in_use t s cs))"

text \<open>A function on a token, run on the token with index \<open>t\<close>.\<close>

definition on_token ::
    "nat \<Rightarrow> (ck_token \<Rightarrow> (pkcs11_rc \<times> ck_token) outcome) \<Rightarrow> pkcs11_ta \<Rightarrow>
      (pkcs11_rc \<times> pkcs11_ta) outcome" where
  "on_token t f s = bind_outcome (f (token_at s t)) (\<lambda>(rc, tk). Ret (rc, set_token s t tk))"

definition entry_ck_token_initialize :: "tee_env \<Rightarrow> u32 \<Rightarrow> tee_params \<Rightarrow> pkcs11_ta \<Rightarrow> cmd_result" where
  "entry_ck_token_initialize e ptypes p s =
     (if ptypes \<noteq> exp_pt_in then Ret (PKCS11_CKR_ARGUMENTS_BAD, s, p)
      else or_return s p (serialargs_get_u32 (ta_mem s) (ctrl_args p)) (\<lambda>(args, token_id).
        or_return s p (serialargs_get_u32 (ta_mem s) args) (\<lambda>(args, pin_size).
        or_return s p (serialargs_get (ta_mem s) args (of_nat PKCS11_TOKEN_LABEL_SIZE)) (\<lambda>(args, label).
        or_return s p (serialargs_get_ptr args (ucast pin_size)) (\<lambda>(args, pin).
        if serialargs_remaining_bytes args then Ret (PKCS11_CKR_ARGUMENTS_BAD, s, p)
        else case get_token token_id of
          None \<Rightarrow> Ret (PKCS11_CKR_SLOT_ID_INVALID, s, p)
        | Some t \<Rightarrow>
            if db_flags (tk_db_main (token_at s t)) AND PKCS11_CKFT_SO_PIN_LOCKED \<noteq> 0
            then Ret (PKCS11_CKR_PIN_LOCKED, s, p)
            else bind_outcome (token_in_use t s (ta_client_list s)) (\<lambda>used.
              if used then Ret (PKCS11_CKR_SESSION_EXISTS, s, p)
              else bind_outcome
                (on_token t (\<lambda>tk. token_initialize e tk label (pin_bytes s pin pin_size)) s)
                (\<lambda>(rc, s). Ret (rc, s, p))))))))"

definition entry_ck_init_pin ::
    "tee_env \<Rightarrow> addr option \<Rightarrow> u32 \<Rightarrow> tee_params \<Rightarrow> pkcs11_ta \<Rightarrow> cmd_result" where
  "entry_ck_init_pin e client ptypes p s =
     (case client of None \<Rightarrow> Ret (PKCS11_CKR_ARGUMENTS_BAD, s, p) | Some c \<Rightarrow>
      if ptypes \<noteq> exp_pt_in then Ret (PKCS11_CKR_ARGUMENTS_BAD, s, p)
      else bind_outcome (get_client s c) (\<lambda>cl.
        or_return s p (serialargs_get_session_from_handle (ta_mem s) (ctrl_args p) cl) (\<lambda>(args, a).
        or_return s p (serialargs_get_u32 (ta_mem s) args) (\<lambda>(args, pin_size).
        or_return s p (serialargs_get_ptr args (ucast pin_size)) (\<lambda>(args, pin).
        if serialargs_remaining_bytes args then Ret (PKCS11_CKR_ARGUMENTS_BAD, s, p)
        else bind_outcome (get_session s a) (\<lambda>x.
          if \<not> pkcs11_session_is_so x then Ret (PKCS11_CKR_USER_NOT_LOGGED_IN, s, p)
          else if db_flags (tk_db_main (token_at s (ss_token x))) AND PKCS11_CKFT_TOKEN_INITIALIZED = 0
          then Panic
          else bind_outcome
            (on_token (ss_token x) (\<lambda>tk. set_pin e (pkcs11_session_is_read_write x) tk
               (pin_bytes s pin pin_size) PKCS11_CKU_USER) s)
            (\<lambda>(rc, s). Ret (rc, s, p))))))))"

text \<open>The body of \<^verbatim>\<open>entry_ck_set_pin\<close> behind the argument checks, for a session \<open>x\<close>.\<close>

definition change_pin ::
    "tee_env \<Rightarrow> pkcs11_session \<Rightarrow> u8 list \<Rightarrow> u8 list \<Rightarrow> tee_params \<Rightarrow> pkcs11_ta \<Rightarrow> cmd_result" where
  "change_pin e x old_pin pin p s =
     (let t = ss_token x; rw = pkcs11_session_is_read_write x;
          flags = db_flags (tk_db_main (token_at s t)) in
      if \<not> rw then Ret (PKCS11_CKR_SESSION_READ_ONLY, s, p)
      else if pkcs11_session_is_so x then
        if flags AND PKCS11_CKFT_TOKEN_INITIALIZED = 0 then Ret (PKCS11_CKR_GENERAL_ERROR, s, p)
        else bind_outcome (on_token t (\<lambda>tk. check_so_pin e tk old_pin) s) (\<lambda>(rc, s).
          if rc \<noteq> PKCS11_CKR_OK then Ret (rc, s, p)
          else bind_outcome (on_token t (\<lambda>tk. set_pin e rw tk pin PKCS11_CKU_SO) s)
            (\<lambda>(rc, s). Ret (rc, s, p)))
      else if flags AND PKCS11_CKFT_USER_PIN_INITIALIZED = 0 then Ret (PKCS11_CKR_GENERAL_ERROR, s, p)
      else bind_outcome (on_token t (\<lambda>tk. check_user_pin e tk old_pin) s) (\<lambda>(rc, s).
        if rc \<noteq> PKCS11_CKR_OK then Ret (rc, s, p)
        else bind_outcome (on_token t (\<lambda>tk. set_pin e rw tk pin PKCS11_CKU_USER) s)
          (\<lambda>(rc, s). Ret (rc, s, p))))"

definition entry_ck_set_pin ::
    "tee_env \<Rightarrow> addr option \<Rightarrow> u32 \<Rightarrow> tee_params \<Rightarrow> pkcs11_ta \<Rightarrow> cmd_result" where
  "entry_ck_set_pin e client ptypes p s =
     (case client of None \<Rightarrow> Ret (PKCS11_CKR_ARGUMENTS_BAD, s, p) | Some c \<Rightarrow>
      if ptypes \<noteq> exp_pt_in then Ret (PKCS11_CKR_ARGUMENTS_BAD, s, p)
      else bind_outcome (get_client s c) (\<lambda>cl.
        or_return s p (serialargs_get_session_from_handle (ta_mem s) (ctrl_args p) cl) (\<lambda>(args, a).
        or_return s p (serialargs_get_u32 (ta_mem s) args) (\<lambda>(args, old_pin_size).
        or_return s p (serialargs_get_u32 (ta_mem s) args) (\<lambda>(args, pin_size).
        or_return s p (serialargs_get_ptr args (ucast old_pin_size)) (\<lambda>(args, old_pin).
        or_return s p (serialargs_get_ptr args (ucast pin_size)) (\<lambda>(args, pin).
        if serialargs_remaining_bytes args then Ret (PKCS11_CKR_ARGUMENTS_BAD, s, p)
        else bind_outcome (get_session s a) (\<lambda>x.
          change_pin e x (pin_bytes s old_pin old_pin_size) (pin_bytes s pin pin_size) p s))))))))"

section \<open>Login and logout\<close>

text \<open>
  The loop over the sessions of a client that are on token \<open>t\<close>, with \<open>f\<close> giving the new state of
  each, \<open>None\<close> where the source calls \<^verbatim>\<open>TEE_Panic\<close>.
\<close>

fun update_states ::
    "nat \<Rightarrow> (pkcs11_session \<Rightarrow> pkcs11_session_state option) \<Rightarrow> pkcs11_ta \<Rightarrow> addr list \<Rightarrow> pkcs11_ta outcome" where
  "update_states t f s [] = Ret s"
| "update_states t f s (a # as) =
     bind_outcome (get_session s a) (\<lambda>x.
       if ss_token x \<noteq> t then update_states t f s as
       else case f x of
         None \<Rightarrow> Panic
       | Some st \<Rightarrow>
           update_states t f (s\<lparr>ta_session := (ta_session s)(a \<mapsto> x\<lparr>ss_state := st\<rparr>)\<rparr>) as)"

definition session_login_user :: "pkcs11_session \<Rightarrow> pkcs11_ta \<Rightarrow> pkcs11_ta outcome" where
  "session_login_user x s =
     bind_outcome (get_client s (ss_client x)) (\<lambda>cl.
       update_states (ss_token x) (\<lambda>y. Some (if pkcs11_session_is_read_write y
         then PKCS11_CKS_RW_USER_FUNCTIONS else PKCS11_CKS_RO_USER_FUNCTIONS)) s (cl_session_list cl))"

definition session_login_so :: "pkcs11_session \<Rightarrow> pkcs11_ta \<Rightarrow> pkcs11_ta outcome" where
  "session_login_so x s =
     bind_outcome (get_client s (ss_client x)) (\<lambda>cl.
       update_states (ss_token x) (\<lambda>y. if pkcs11_session_is_read_write y
         then Some PKCS11_CKS_RW_SO_FUNCTIONS else None) s (cl_session_list cl))"

definition session_logout :: "pkcs11_session \<Rightarrow> pkcs11_ta \<Rightarrow> pkcs11_ta outcome" where
  "session_logout x s =
     bind_outcome (get_client s (ss_client x)) (\<lambda>cl.
       update_states (ss_token x) (\<lambda>y. Some (if pkcs11_session_is_read_write y
         then PKCS11_CKS_RW_PUBLIC_SESSION else PKCS11_CKS_RO_PUBLIC_SESSION)) s (cl_session_list cl))"

text \<open>The \<^verbatim>\<open>switch (user_type)\<close> of \<^verbatim>\<open>entry_ck_login\<close>.\<close>

definition login ::
    "tee_env \<Rightarrow> pkcs11_client \<Rightarrow> pkcs11_session \<Rightarrow> u32 \<Rightarrow> u8 list \<Rightarrow> tee_params \<Rightarrow> pkcs11_ta \<Rightarrow> cmd_result" where
  "login e cl x user_type pin p s =
     (if user_type = user_code PKCS11_CKU_SO then
        if pkcs11_session_is_so x then Ret (PKCS11_CKR_USER_ALREADY_LOGGED_IN, s, p)
        else if pkcs11_session_is_user x then Ret (PKCS11_CKR_USER_ANOTHER_ALREADY_LOGGED_IN, s, p)
        else bind_outcome (any_session (\<lambda>y. ss_token y = ss_token x \<and> \<not> pkcs11_session_is_read_write y)
            s (cl_session_list cl)) (\<lambda>ro.
          if ro then Ret (PKCS11_CKR_SESSION_READ_ONLY_EXISTS, s, p)
          else bind_outcome (on_token (ss_token x) (\<lambda>tk. check_so_pin e tk pin) s) (\<lambda>(rc, s).
            if rc = PKCS11_CKR_OK
            then bind_outcome (session_login_so x s) (\<lambda>s. Ret (rc, s, p))
            else Ret (rc, s, p)))
      else if user_type = user_code PKCS11_CKU_USER then
        if pkcs11_session_is_so x then Ret (PKCS11_CKR_USER_ANOTHER_ALREADY_LOGGED_IN, s, p)
        else if pkcs11_session_is_user x then Ret (PKCS11_CKR_USER_ALREADY_LOGGED_IN, s, p)
        else bind_outcome (on_token (ss_token x) (\<lambda>tk. check_user_pin e tk pin) s) (\<lambda>(rc, s).
          if rc = PKCS11_CKR_OK
          then bind_outcome (session_login_user x s) (\<lambda>s. Ret (rc, s, p))
          else Ret (rc, s, p))
      else if user_type = user_code PKCS11_CKU_CONTEXT_SPECIFIC
      then Ret (PKCS11_CKR_OPERATION_NOT_INITIALIZED, s, p)
      else Ret (PKCS11_CKR_USER_TYPE_INVALID, s, p))"

definition entry_ck_login ::
    "tee_env \<Rightarrow> addr option \<Rightarrow> u32 \<Rightarrow> tee_params \<Rightarrow> pkcs11_ta \<Rightarrow> cmd_result" where
  "entry_ck_login e client ptypes p s =
     (case client of None \<Rightarrow> Ret (PKCS11_CKR_ARGUMENTS_BAD, s, p) | Some c \<Rightarrow>
      if ptypes \<noteq> exp_pt_in then Ret (PKCS11_CKR_ARGUMENTS_BAD, s, p)
      else bind_outcome (get_client s c) (\<lambda>cl.
        or_return s p (serialargs_get_session_from_handle (ta_mem s) (ctrl_args p) cl) (\<lambda>(args, a).
        or_return s p (serialargs_get_u32 (ta_mem s) args) (\<lambda>(args, user_type).
        or_return s p (serialargs_get_u32 (ta_mem s) args) (\<lambda>(args, pin_size).
        or_return s p (serialargs_get_ptr args (ucast pin_size)) (\<lambda>(args, pin).
        if serialargs_remaining_bytes args then Ret (PKCS11_CKR_ARGUMENTS_BAD, s, p)
        else bind_outcome (get_session s a) (\<lambda>x.
          login e cl x user_type (pin_bytes s pin pin_size) p s)))))))"

definition entry_ck_logout :: "addr option \<Rightarrow> u32 \<Rightarrow> tee_params \<Rightarrow> pkcs11_ta \<Rightarrow> cmd_result" where
  "entry_ck_logout client ptypes p s =
     (case client of None \<Rightarrow> Ret (PKCS11_CKR_ARGUMENTS_BAD, s, p) | Some c \<Rightarrow>
      if ptypes \<noteq> exp_pt_in then Ret (PKCS11_CKR_ARGUMENTS_BAD, s, p)
      else bind_outcome (get_client s c) (\<lambda>cl.
        or_return s p (serialargs_get_session_from_handle (ta_mem s) (ctrl_args p) cl) (\<lambda>(args, a).
        if serialargs_remaining_bytes args then Ret (PKCS11_CKR_ARGUMENTS_BAD, s, p)
        else bind_outcome (get_session s a) (\<lambda>x.
          if pkcs11_session_is_public x then Ret (PKCS11_CKR_USER_NOT_LOGGED_IN, s, p)
          else bind_outcome (session_logout x s) (\<lambda>s. Ret (PKCS11_CKR_OK, s, p))))))"

section \<open>Entry points\<close>

definition entry_ping :: "u32 \<Rightarrow> tee_params \<Rightarrow> pkcs11_ta \<Rightarrow> cmd_result" where
  "entry_ping ptypes p s =
     (if ptypes \<noteq> exp_pt_out \<or> mr_size (pr0 p) \<noteq> 4 \<or> mr_size (pr2 p) \<noteq> 12
      then Ret (PKCS11_CKR_ARGUMENTS_BAD, s, p)
      else Ret (PKCS11_CKR_OK, write_out s (pr2 p) (le32_bytes 0 @ le32_bytes 1 @ le32_bytes 0), p))"

text \<open>The command switch; \<open>None\<close> for a command that is not supported.\<close>

definition ta_command ::
    "tee_env \<Rightarrow> addr \<Rightarrow> u32 \<Rightarrow> u32 \<Rightarrow> tee_params \<Rightarrow> pkcs11_ta \<Rightarrow> cmd_result option" where
  "ta_command e c cmd ptypes p s =
     (if cmd = 0 then Some (entry_ping ptypes p s)
      else if cmd = 1 then Some (entry_ck_slot_list ptypes p s)
      else if cmd = 2 then Some (entry_ck_slot_info e ptypes p s)
      else if cmd = 3 then Some (entry_ck_token_info ptypes p s)
      else if cmd = 4 then Some (entry_ck_token_mecha_ids e ptypes p s)
      else if cmd = 5 then Some (entry_ck_token_mecha_info ptypes p s)
      else if cmd = 6 then Some (entry_ck_open_session e (Some c) ptypes p s)
      else if cmd = 7 then Some (entry_ck_close_session (Some c) ptypes p s)
      else if cmd = 8 then Some (entry_ck_close_all_sessions (Some c) ptypes p s)
      else if cmd = 9 then Some (entry_ck_session_info (Some c) ptypes p s)
      else if cmd = 10 then Some (entry_ck_token_initialize e ptypes p s)
      else if cmd = 11 then Some (entry_ck_init_pin e (Some c) ptypes p s)
      else if cmd = 12 then Some (entry_ck_set_pin e (Some c) ptypes p s)
      else if cmd = 13 then Some (entry_ck_login e (Some c) ptypes p s)
      else if cmd = 14 then Some (entry_ck_logout (Some c) ptypes p s)
      else None)"

definition TA_InvokeCommandEntryPoint ::
    "tee_env \<Rightarrow> addr \<Rightarrow> u32 \<Rightarrow> u32 \<Rightarrow> tee_params \<Rightarrow> pkcs11_ta \<Rightarrow>
      (tee_result \<times> pkcs11_ta \<times> tee_params) outcome" where
  "TA_InvokeCommandEntryPoint e tee_session cmd ptypes p s =
     (case tee_session2client s tee_session of
        None \<Rightarrow> Ret (TEE_ERROR_SECURITY, s, p)
      | Some c \<Rightarrow>
          let t0 = TEE_PARAM_TYPE_GET ptypes 0 in
          if t0 = TEE_PARAM_TYPE_MEMREF_OUTPUT \<or> t0 = TEE_PARAM_TYPE_MEMREF_INOUT then
            if mr_size (pr0 p) < 4 then Ret (TEE_ERROR_BAD_PARAMETERS, s, p)
            else case ta_command e c cmd ptypes p s of
              None \<Rightarrow> Ret (TEE_ERROR_NOT_SUPPORTED, s, p)
            | Some r \<Rightarrow>
                bind_outcome r (\<lambda>(rc, s, p).
                  Ret (if rc = PKCS11_CKR_BUFFER_TOO_SMALL then TEE_ERROR_SHORT_BUFFER else TEE_SUCCESS,
                    write_out s (pr0 p) (le32_bytes (rc_code rc)), p\<lparr>pr0 := (pr0 p)\<lparr>mr_size := 4\<rparr>\<rparr>))
          else Ret (TEE_ERROR_BAD_PARAMETERS, s, p))"

definition TA_OpenSessionEntryPoint :: "tee_env \<Rightarrow> pkcs11_ta \<Rightarrow> (tee_result \<times> addr option) \<times> pkcs11_ta" where
  "TA_OpenSessionEntryPoint e s =
     (case register_client e s of
        (None, s) \<Rightarrow> ((TEE_ERROR_OUT_OF_MEMORY, None), s)
      | (Some c, s) \<Rightarrow> ((TEE_SUCCESS, Some c), s))"

definition TA_CloseSessionEntryPoint :: "addr \<Rightarrow> pkcs11_ta \<Rightarrow> pkcs11_ta outcome" where
  "TA_CloseSessionEntryPoint tee_session s = unregister_client (tee_session2client s tee_session) s"

end
