(* ===== verification/Pkcs11_Inv.thy ===== *)
theory Pkcs11_Inv
  imports Pkcs11_Ta
begin

text \<open>
  The invariant of the PKCS\#11 trusted application and its preservation by the operations on
  sessions, clients and tokens. The handle databases enter only through their contract, the
  interpretation \<open>pkcs11_db\<close> of the locale \<open>handle_table\<close>.
\<close>

unbundle bit_operations_syntax

section \<open>The invariant\<close>

text \<open>Who is logged in, as far as a session state tells.\<close>

datatype login_kind = Public | User | SO

primrec login_of :: "pkcs11_session_state \<Rightarrow> login_kind" where
  "login_of PKCS11_CKS_RO_PUBLIC_SESSION = Public"
| "login_of PKCS11_CKS_RO_USER_FUNCTIONS = User"
| "login_of PKCS11_CKS_RW_PUBLIC_SESSION = Public"
| "login_of PKCS11_CKS_RW_USER_FUNCTIONS = User"
| "login_of PKCS11_CKS_RW_SO_FUNCTIONS = SO"

text \<open>Every session is on the list and in the handle database of its client.\<close>

definition sessions_ok :: "pkcs11_ta \<Rightarrow> bool" where
  "sessions_ok s \<longleftrightarrow> (\<forall>a x. ta_session s a = Some x \<longrightarrow> ss_token x < TOKEN_COUNT \<and>
     (\<exists>cl. ta_client s (ss_client x) = Some cl \<and> a \<in> set (cl_session_list cl) \<and>
        pkcs11_lookup (cl_session_handle_db cl) (ss_handle x) = Some a))"

text \<open>Lists and handle databases of the registered clients hold live sessions of that client only.\<close>

definition client_ok :: "pkcs11_ta \<Rightarrow> addr \<Rightarrow> pkcs11_client \<Rightarrow> bool" where
  "client_ok s c cl \<longleftrightarrow> distinct (cl_session_list cl) \<and> pkcs11_db_inv (cl_session_handle_db cl) \<and>
     (\<forall>a \<in> set (cl_session_list cl). \<exists>x. ta_session s a = Some x \<and> ss_client x = c) \<and>
     (\<forall>h a. pkcs11_lookup (cl_session_handle_db cl) h = Some a \<longrightarrow>
        (\<exists>x. ta_session s a = Some x \<and> ss_client x = c \<and> ss_handle x = h))"

definition clients_ok :: "pkcs11_ta \<Rightarrow> bool" where
  "clients_ok s \<longleftrightarrow> distinct (ta_client_list s) \<and> set (ta_client_list s) = dom (ta_client s) \<and>
     (\<forall>c cl. ta_client s c = Some cl \<longrightarrow> client_ok s c cl)"

definition sessions_on :: "pkcs11_ta \<Rightarrow> nat \<Rightarrow> addr set" where
  "sessions_on s t = {a. \<exists>x. ta_session s a = Some x \<and> ss_token x = t}"

definition rw_sessions_on :: "pkcs11_ta \<Rightarrow> nat \<Rightarrow> addr set" where
  "rw_sessions_on s t =
     {a. \<exists>x. ta_session s a = Some x \<and> ss_token x = t \<and> pkcs11_session_is_read_write x}"

text \<open>The session counters of the tokens are the numbers of their sessions.\<close>

definition counts_ok :: "pkcs11_ta \<Rightarrow> bool" where
  "counts_ok s \<longleftrightarrow> finite (dom (ta_session s)) \<and>
     (\<forall>t < TOKEN_COUNT. tk_session_count (token_at s t) = of_nat (card (sessions_on s t)) \<and>
        tk_rw_session_count (token_at s t) = of_nat (card (rw_sessions_on s t)))"

text \<open>The sessions of one client on one token agree on who is logged in.\<close>

definition logins_ok :: "pkcs11_ta \<Rightarrow> bool" where
  "logins_ok s \<longleftrightarrow> (\<forall>a b x y. ta_session s a = Some x \<longrightarrow> ta_session s b = Some y \<longrightarrow>
     ss_client x = ss_client y \<longrightarrow> ss_token x = ss_token y \<longrightarrow>
     login_of (ss_state x) = login_of (ss_state y))"

text \<open>Tokens are well-formed, and the security officer is logged in to initialized tokens only.\<close>

definition tokens_ok :: "pkcs11_ta \<Rightarrow> bool" where
  "tokens_ok s \<longleftrightarrow> length (ta_token s) = TOKEN_COUNT \<and>
     (\<forall>t < TOKEN_COUNT. token_ok (token_at s t)) \<and>
     (\<forall>a x. ta_session s a = Some x \<longrightarrow> ss_state x = PKCS11_CKS_RW_SO_FUNCTIONS \<longrightarrow>
        bit (db_flags (tk_db_main (token_at s (ss_token x)))) 10)"

definition ta_inv :: "pkcs11_ta \<Rightarrow> bool" where
  "ta_inv s \<longleftrightarrow> sessions_ok s \<and> clients_ok s \<and> counts_ok s \<and> logins_ok s \<and> tokens_ok s"

lemmas ta_inv_defs = ta_inv_def sessions_ok_def clients_ok_def client_ok_def counts_ok_def
  logins_ok_def tokens_ok_def

lemma ta_invD:
  assumes "ta_inv s"
  shows "sessions_ok s" and "clients_ok s" and "counts_ok s" and "logins_ok s" and "tokens_ok s"
  using assms by (simp_all add: ta_inv_def)

section \<open>Basic facts\<close>

lemma write_out_simps [simp]:
  "ta_token (write_out s r bs) = ta_token s" "ta_client_list (write_out s r bs) = ta_client_list s"
  "ta_client (write_out s r bs) = ta_client s" "ta_session (write_out s r bs) = ta_session s"
  "token_at (write_out s r bs) t = token_at s t"
  by (simp_all add: write_out_def token_at_def)

lemma set_token_simps [simp]:
  "ta_client_list (set_token s t tk) = ta_client_list s" "ta_client (set_token s t tk) = ta_client s"
  "ta_session (set_token s t tk) = ta_session s" "ta_mem (set_token s t tk) = ta_mem s"
  "length (ta_token (set_token s t tk)) = length (ta_token s)"
  by (simp_all add: set_token_def)

lemma token_at_set_token [simp]:
  "t < length (ta_token s) \<Longrightarrow> token_at (set_token s t tk) t' = (if t' = t then tk else token_at s t')"
  by (auto simp: token_at_def set_token_def)

lemma token_at_update [simp]:
  "token_at (s\<lparr>ta_session := f\<rparr>) t = token_at s t" "token_at (s\<lparr>ta_client := g\<rparr>) t = token_at s t"
  "token_at (s\<lparr>ta_client_list := l\<rparr>) t = token_at s t"
  by (simp_all add: token_at_def)

text \<open>The invariant depends on the tokens, clients and sessions only.\<close>

lemma ta_inv_cong:
  "ta_token s' = ta_token s \<Longrightarrow> ta_client_list s' = ta_client_list s \<Longrightarrow> ta_client s' = ta_client s \<Longrightarrow>
   ta_session s' = ta_session s \<Longrightarrow> ta_inv s' = ta_inv s"
  by (simp add: ta_inv_defs sessions_on_def rw_sessions_on_def token_at_def)

lemma logins_ok_cong: "ta_session s' = ta_session s \<Longrightarrow> logins_ok s' = logins_ok s"
  by (simp only: logins_ok_def)

lemma ta_inv_write_out [simp]: "ta_inv (write_out s r bs) \<longleftrightarrow> ta_inv s"
  by (rule ta_inv_cong) simp_all

lemma sessions_on_cong [simp]:
  "sessions_on (s\<lparr>ta_client := g\<rparr>) t = sessions_on s t" "sessions_on (set_token s i tk) t = sessions_on s t"
  "sessions_on (s\<lparr>ta_client_list := l\<rparr>) t = sessions_on s t"
  "rw_sessions_on (s\<lparr>ta_client := g\<rparr>) t = rw_sessions_on s t"
  "rw_sessions_on (set_token s i tk) t = rw_sessions_on s t"
  "rw_sessions_on (s\<lparr>ta_client_list := l\<rparr>) t = rw_sessions_on s t"
  by (simp_all add: sessions_on_def rw_sessions_on_def)

lemma finite_sessions_on: "finite (dom (ta_session s)) \<Longrightarrow> finite (sessions_on s t) \<and> finite (rw_sessions_on s t)"
  by (auto simp: sessions_on_def rw_sessions_on_def dom_def elim!: rev_finite_subset)

lemma ta_inv_session:
  assumes "ta_inv s" and "ta_session s a = Some x"
  obtains cl where "ta_client s (ss_client x) = Some cl" and "a \<in> set (cl_session_list cl)"
    and "pkcs11_lookup (cl_session_handle_db cl) (ss_handle x) = Some a" and "ss_token x < TOKEN_COUNT"
    and "client_ok s (ss_client x) cl"
  using assms unfolding ta_inv_def sessions_ok_def clients_ok_def by blast

lemma ta_inv_client: "ta_inv s \<Longrightarrow> ta_client s c = Some cl \<Longrightarrow> client_ok s c cl"
  by (simp add: ta_inv_def clients_ok_def)

lemma ta_inv_token: "ta_inv s \<Longrightarrow> t < TOKEN_COUNT \<Longrightarrow> token_ok (token_at s t)"
  by (simp add: ta_inv_def tokens_ok_def)

lemma ta_inv_length: "ta_inv s \<Longrightarrow> length (ta_token s) = TOKEN_COUNT"
  by (simp add: ta_inv_def tokens_ok_def)

text \<open>The sessions of a client are those on its list.\<close>

lemma client_sessions:
  assumes "ta_inv s" and "ta_client s c = Some cl"
  shows "set (cl_session_list cl) = {a. \<exists>x. ta_session s a = Some x \<and> ss_client x = c}"
    and "distinct (cl_session_list cl)"
proof -
  from ta_inv_client [OF assms] show "distinct (cl_session_list cl)" by (simp add: client_ok_def)
  show "set (cl_session_list cl) = {a. \<exists>x. ta_session s a = Some x \<and> ss_client x = c}"
  proof (intro set_eqI iffI)
    fix a assume "a \<in> set (cl_session_list cl)"
    with ta_inv_client [OF assms] show "a \<in> {a. \<exists>x. ta_session s a = Some x \<and> ss_client x = c}"
      by (auto simp: client_ok_def)
  next
    fix a assume "a \<in> {a. \<exists>x. ta_session s a = Some x \<and> ss_client x = c}"
    then obtain x where "ta_session s a = Some x" "ss_client x = c" by blast
    with ta_inv_session [OF assms(1) this(1)] assms(2) show "a \<in> set (cl_session_list cl)" by auto
  qed
qed

lemma handle2session_session:
  assumes "ta_inv s" and "ta_client s c = Some cl" and "pkcs11_handle2session h cl = Some a"
  shows "\<exists>x. ta_session s a = Some x \<and> ss_client x = c \<and> ss_handle x = h"
  using ta_inv_client [OF assms(1,2)] assms(3) by (auto simp: client_ok_def pkcs11_handle2session_def)

section \<open>Loops over sessions\<close>

lemma any_session_eq:
  "\<forall>a \<in> set as. ta_session s a \<noteq> None \<Longrightarrow>
     any_session q s as = Ret (\<exists>a \<in> set as. \<exists>x. ta_session s a = Some x \<and> q x)"
  by (induction as) (auto simp: get_session_def)

lemma any_client_session_eq:
  assumes "ta_inv s" and "ta_client s c = Some cl"
  shows "any_session q s (cl_session_list cl) =
    Ret (\<exists>a x. ta_session s a = Some x \<and> ss_client x = c \<and> q x)"
proof -
  have "\<forall>a \<in> set (cl_session_list cl). ta_session s a \<noteq> None"
    using client_sessions(1) [OF assms] by auto
  moreover have "(\<exists>a \<in> set (cl_session_list cl). \<exists>x. ta_session s a = Some x \<and> q x) \<longleftrightarrow>
      (\<exists>a x. ta_session s a = Some x \<and> ss_client x = c \<and> q x)"
    unfolding client_sessions(1) [OF assms] by fastforce
  ultimately show ?thesis by (simp only: any_session_eq)
qed

lemma token_in_use_eq:
  assumes "ta_inv s" and "set cs \<subseteq> dom (ta_client s)"
  shows "token_in_use t s cs = Ret (\<exists>a x. ta_session s a = Some x \<and> ss_token x = t \<and> ss_client x \<in> set cs)"
  using assms(2)
proof (induction cs)
  case (Cons c cs)
  then obtain cl where cl: "ta_client s c = Some cl" by auto
  have sub: "set cs \<subseteq> dom (ta_client s)" using Cons.prems by simp
  show ?case
    using any_client_session_eq [OF assms(1) cl, of "\<lambda>x. ss_token x = t"] Cons.IH [OF sub]
    by (auto simp: get_client_def cl)
qed simp

lemma update_states_eq:
  assumes "distinct as" and "\<forall>a \<in> set as. ta_session s a \<noteq> None"
    and "\<forall>a x. a \<in> set as \<longrightarrow> ta_session s a = Some x \<longrightarrow> ss_token x = t \<longrightarrow> f x \<noteq> None"
  shows "update_states t f s as = Ret (s\<lparr>ta_session := \<lambda>a. if a \<in> set as then
      map_option (\<lambda>x. if ss_token x = t then x\<lparr>ss_state := the (f x)\<rparr> else x) (ta_session s a)
    else ta_session s a\<rparr>)"
  using assms
proof (induction as arbitrary: s)
  case (Cons a as)
  then obtain x where x: "ta_session s a = Some x" by auto
  show ?case
  proof (cases "ss_token x = t")
    case True
    with Cons.prems(3) x obtain st where st: "f x = Some st" by fastforce
    let ?s = "s\<lparr>ta_session := (ta_session s)(a \<mapsto> x\<lparr>ss_state := st\<rparr>)\<rparr>"
    have "update_states t f s (a # as) = update_states t f ?s as"
      using x True st by (simp add: get_session_def)
    also have "\<dots> = Ret (?s\<lparr>ta_session := \<lambda>b. if b \<in> set as then
        map_option (\<lambda>x. if ss_token x = t then x\<lparr>ss_state := the (f x)\<rparr> else x) (ta_session ?s b)
        else ta_session ?s b\<rparr>)"
      using Cons.prems by (intro Cons.IH) auto
    also have "\<dots> = Ret (s\<lparr>ta_session := \<lambda>b. if b \<in> set (a # as) then
        map_option (\<lambda>x. if ss_token x = t then x\<lparr>ss_state := the (f x)\<rparr> else x) (ta_session s b)
        else ta_session s b\<rparr>)"
      using Cons.prems(1) x st True
      by (auto intro!: arg_cong [of _ _ "\<lambda>g. s\<lparr>ta_session := g\<rparr>"])
    finally show ?thesis .
  next
    case False
    have "update_states t f s as = Ret (s\<lparr>ta_session := \<lambda>b. if b \<in> set as then
        map_option (\<lambda>x. if ss_token x = t then x\<lparr>ss_state := the (f x)\<rparr> else x) (ta_session s b)
        else ta_session s b\<rparr>)"
      using Cons.prems by (intro Cons.IH) auto
    with False x Cons.prems(1) show ?thesis
      by (auto simp: get_session_def intro!: arg_cong [of _ _ "\<lambda>g. s\<lparr>ta_session := g\<rparr>"])
  qed
qed simp

section \<open>Login state changes\<close>

text \<open>All sessions of client \<open>c\<close> on token \<open>t\<close> get the state \<open>g\<close>, the others keep theirs.\<close>

definition relogin :: "addr \<Rightarrow> nat \<Rightarrow> (pkcs11_session \<Rightarrow> pkcs11_session_state) \<Rightarrow> pkcs11_ta \<Rightarrow> pkcs11_ta" where
  "relogin c t g s = s\<lparr>ta_session := \<lambda>a. map_option
     (\<lambda>x. if ss_client x = c \<and> ss_token x = t then x\<lparr>ss_state := g x\<rparr> else x) (ta_session s a)\<rparr>"

lemma relogin_simps [simp]:
  "ta_token (relogin c t g s) = ta_token s" "ta_client_list (relogin c t g s) = ta_client_list s"
  "ta_client (relogin c t g s) = ta_client s" "token_at (relogin c t g s) i = token_at s i"
  by (simp_all add: relogin_def)

lemma ta_session_relogin:
  "ta_session (relogin c t g s) a = map_option
     (\<lambda>x. if ss_client x = c \<and> ss_token x = t then x\<lparr>ss_state := g x\<rparr> else x) (ta_session s a)"
  by (simp add: relogin_def)

lemma dom_relogin: "dom (ta_session (relogin c t g s)) = dom (ta_session s)"
  by (auto simp: ta_session_relogin dom_def)

text \<open>Fields other than the state survive.\<close>

lemma relogin_session:
  "(\<exists>x. ta_session (relogin c t g s) a = Some x \<and> P (ss_client x) (ss_token x) (ss_handle x)) \<longleftrightarrow>
   (\<exists>x. ta_session s a = Some x \<and> P (ss_client x) (ss_token x) (ss_handle x))"
  by (cases "ta_session s a") (auto simp: ta_session_relogin)

lemma relogin_fields:
  assumes "ta_session s a = Some x" and "ta_session (relogin c t g s) a = Some x'"
  shows "ss_client x' = ss_client x \<and> ss_token x' = ss_token x \<and> ss_handle x' = ss_handle x"
  using assms by (auto simp: ta_session_relogin)

lemma ta_inv_relogin:
  assumes inv: "ta_inv s" and tok: "t < TOKEN_COUNT"
    and rw: "\<And>x a. ta_session s a = Some x \<Longrightarrow> ss_client x = c \<Longrightarrow> ss_token x = t \<Longrightarrow>
      pkcs11_session_is_read_write (x\<lparr>ss_state := g x\<rparr>) = pkcs11_session_is_read_write x \<and>
      login_of (g x) = l"
    and so: "l = SO \<Longrightarrow> bit (db_flags (tk_db_main (token_at s t))) 10"
  shows "ta_inv (relogin c t g s)"
  unfolding ta_inv_def
proof (intro conjI)
  let ?s = "relogin c t g s"
  note parts = inv [unfolded ta_inv_def]
  show "sessions_ok ?s"
    using parts by (auto simp: sessions_ok_def ta_session_relogin)
  have "client_ok ?s d cl" if "client_ok s d cl" for d cl
    using that relogin_session [of c t g s _ "\<lambda>x _ _. x = d"]
      relogin_session [of c t g s _ "\<lambda>x _ h. x = d \<and> h = y" for y]
    by (simp add: client_ok_def)
  with parts show "clients_ok ?s" by (simp add: clients_ok_def)
  have "sessions_on ?s i = sessions_on s i" for i
    using relogin_session [of c t g s _ "\<lambda>_ t' _. t' = i"] by (simp add: sessions_on_def)
  moreover have "a \<in> rw_sessions_on ?s i \<longleftrightarrow> a \<in> rw_sessions_on s i" for a i
    using rw [of a] by (cases "ta_session s a") (auto simp: rw_sessions_on_def ta_session_relogin)
  then have "rw_sessions_on ?s i = rw_sessions_on s i" for i by blast
  ultimately show "counts_ok ?s" using parts by (simp add: counts_ok_def dom_relogin)
  have new: "login_of (ss_state x') = (if ss_client x' = c \<and> ss_token x' = t then l else login_of (ss_state x))"
    if "ta_session s a = Some x" "ta_session ?s a = Some x'" for a x x'
    using that rw [OF that(1)] by (auto simp: ta_session_relogin)
  show "logins_ok ?s" unfolding logins_ok_def
  proof (intro allI impI)
    fix a b x' y' assume *: "ta_session ?s a = Some x'" "ta_session ?s b = Some y'"
      "ss_client x' = ss_client y'" "ss_token x' = ss_token y'"
    from *(1,2) obtain x y where xy: "ta_session s a = Some x" "ta_session s b = Some y"
      by (auto simp: ta_session_relogin)
    with relogin_fields [OF xy(1) *(1)] relogin_fields [OF xy(2) *(2)] *(3,4)
    have "ss_client x = ss_client y" "ss_token x = ss_token y" by simp_all
    moreover have "logins_ok s" using parts by blast
    ultimately have "login_of (ss_state x) = login_of (ss_state y)"
      using xy unfolding logins_ok_def by blast
    with new [OF xy(1) *(1)] new [OF xy(2) *(2)] *(3,4) show "login_of (ss_state x') = login_of (ss_state y')"
      by simp
  qed
  have "bit (db_flags (tk_db_main (token_at s (ss_token x')))) 10"
    if *: "ta_session ?s a = Some x'" "ss_state x' = PKCS11_CKS_RW_SO_FUNCTIONS" for a x'
  proof -
    from *(1) obtain x where x: "ta_session s a = Some x" by (auto simp: ta_session_relogin)
    show ?thesis
    proof (cases "ss_client x' = c \<and> ss_token x' = t")
      case True
      with new [OF x *(1)] *(2) so show ?thesis by simp
    next
      case False
      with * x have "x' = x" by (auto simp: ta_session_relogin split: if_splits)
      with parts x *(2) show ?thesis by (simp add: tokens_ok_def)
    qed
  qed
  with parts show "tokens_ok ?s" by (simp add: tokens_ok_def)
qed

lemma update_states_relogin:
  assumes inv: "ta_inv s" and cl: "ta_client s c = Some cl"
    and f: "\<And>a x. ta_session s a = Some x \<Longrightarrow> ss_client x = c \<Longrightarrow> ss_token x = t \<Longrightarrow> f x = Some (g x)"
  shows "update_states t f s (cl_session_list cl) = Ret (relogin c t g s)"
proof -
  note set = client_sessions [OF inv cl]
  have "update_states t f s (cl_session_list cl) = Ret (s\<lparr>ta_session := \<lambda>a. if a \<in> set (cl_session_list cl)
      then map_option (\<lambda>x. if ss_token x = t then x\<lparr>ss_state := the (f x)\<rparr> else x) (ta_session s a)
      else ta_session s a\<rparr>)"
    using set f by (intro update_states_eq) auto
  also have "(\<lambda>a. if a \<in> set (cl_session_list cl)
      then map_option (\<lambda>x. if ss_token x = t then x\<lparr>ss_state := the (f x)\<rparr> else x) (ta_session s a)
      else ta_session s a) = ta_session (relogin c t g s)"
  proof
    fix a
    show "(if a \<in> set (cl_session_list cl)
        then map_option (\<lambda>x. if ss_token x = t then x\<lparr>ss_state := the (f x)\<rparr> else x) (ta_session s a)
        else ta_session s a) = ta_session (relogin c t g s) a"
      unfolding set(1) ta_session_relogin using f by (cases "ta_session s a") auto
  qed
  finally show ?thesis by (simp add: relogin_def)
qed

text \<open>The state given to a new session is that of the client's login on the token.\<close>

lemma set_session_state_loop_eq:
  assumes "new \<notin> set as" and "\<forall>a \<in> set as. ta_session s a \<noteq> None"
    and "\<forall>a x. a \<in> set as \<longrightarrow> ta_session s a = Some x \<longrightarrow> ss_token x = t \<longrightarrow> login_of (ss_state x) = l"
    and "readonly \<Longrightarrow> l \<noteq> SO"
    and "(\<forall>a x. a \<in> set as \<longrightarrow> ta_session s a = Some x \<longrightarrow> ss_token x \<noteq> t) \<Longrightarrow> l = Public"
  shows "\<exists>st. set_session_state_loop s new t readonly as = Ret st \<and> login_of st = l \<and>
    (\<forall>x. ss_state x = st \<longrightarrow> pkcs11_session_is_read_write x = (\<not> readonly))"
  using assms
proof (induction as)
  case Nil
  then show ?case by (simp add: pkcs11_session_is_read_write_def)
next
  case (Cons a as)
  then obtain x where x: "ta_session s a = Some x" by auto
  show ?case
  proof (cases "ss_token x = t")
    case True
    with Cons.prems(3) x have "login_of (ss_state x) = l" by simp
    with True x Cons.prems(1,4) show ?thesis
      by (cases "ss_state x")
        (auto simp: get_session_def pkcs11_session_is_read_write_def)
  next
    case False
    with x Cons.prems have "\<exists>st. set_session_state_loop s new t readonly as = Ret st \<and> login_of st = l \<and>
        (\<forall>x. ss_state x = st \<longrightarrow> pkcs11_session_is_read_write x = (\<not> readonly))"
      by (intro Cons.IH) auto
    with False x Cons.prems(1) show ?thesis by (auto simp: get_session_def)
  qed
qed

section \<open>Tokens\<close>

lemma ta_inv_set_token:
  assumes inv: "ta_inv s" and t: "t < TOKEN_COUNT" and tk: "tk = commit (token_at s t) db" and db: "db_ok db"
    and init: "bit (db_flags (tk_db_main (token_at s t))) 10 \<Longrightarrow> bit (db_flags db) 10"
  shows "ta_inv (set_token s t tk)"
proof -
  have len: "t < length (ta_token s)" using inv t by (simp add: ta_inv_length)
  have "sessions_ok (set_token s t tk)"
    using ta_invD(1) [OF inv] by (simp add: sessions_ok_def)
  moreover have "logins_ok (set_token s t tk)"
    using ta_invD(4) [OF inv] unfolding logins_ok_def set_token_simps .
  moreover have "clients_ok (set_token s t tk)"
    using ta_invD(2) [OF inv] by (simp add: clients_ok_def client_ok_def)
  moreover have "counts_ok (set_token s t tk)"
    using ta_invD(3) [OF inv] len by (simp add: counts_ok_def tk)
  moreover have "tokens_ok (set_token s t tk)" unfolding tokens_ok_def
  proof (intro conjI allI impI)
    fix a x assume x: "ta_session (set_token s t tk) a = Some x"
      "ss_state x = PKCS11_CKS_RW_SO_FUNCTIONS"
    then have "bit (db_flags (tk_db_main (token_at s (ss_token x)))) 10"
      using ta_invD(5) [OF inv] by (simp add: tokens_ok_def)
    with len init show "bit (db_flags (tk_db_main (token_at (set_token s t tk) (ss_token x)))) 10"
      by (auto simp: tk)
  qed (use ta_invD(5) [OF inv] len db in \<open>auto simp: tokens_ok_def tk\<close>)
  ultimately show ?thesis by (simp add: ta_inv_def)
qed

text \<open>A PIN function that commits a well-formed database, run on a token.\<close>

lemma on_token_inv:
  assumes inv: "ta_inv s" and t: "t < TOKEN_COUNT" and run: "on_token t f s = Ret (rc, s')"
    and f: "\<And>rc tk'. f (token_at s t) = Ret (rc, tk') \<Longrightarrow>
      token_ok tk' \<and> (\<exists>db. tk' = commit (token_at s t) db \<and>
        (bit (db_flags (tk_db_main (token_at s t))) 10 \<longrightarrow> bit (db_flags db) 10))"
  shows "\<exists>tk'. f (token_at s t) = Ret (rc, tk') \<and> s' = set_token s t tk' \<and> ta_inv s' \<and>
    token_at s' t = tk' \<and> (bit (db_flags (tk_db_main (token_at s t))) 10 \<longrightarrow>
      bit (db_flags (tk_db_main tk')) 10)"
proof -
  from run obtain tk' where tk': "f (token_at s t) = Ret (rc, tk')" "s' = set_token s t tk'"
    by (auto simp: on_token_def)
  from f [OF tk'(1)] obtain db where db: "tk' = commit (token_at s t) db" "token_ok tk'"
    "bit (db_flags (tk_db_main (token_at s t))) 10 \<longrightarrow> bit (db_flags db) 10" by blast
  have "ta_inv s'" unfolding tk'(2) using db by (intro ta_inv_set_token [OF inv t db(1)]) auto
  then show ?thesis using tk' db t ta_inv_length [OF inv] by auto
qed

section \<open>Closing a session\<close>

lemma of_nat_card_remove:
  "finite A \<Longrightarrow> a \<in> A \<Longrightarrow> (of_nat (card (A - {a})) :: 'a::len word) = of_nat (card A) - 1"
  by (metis One_nat_def Suc_le_eq card_Diff_singleton card_gt_0_iff empty_iff of_nat_1 of_nat_diff)

definition remove_session :: "addr \<Rightarrow> pkcs11_session \<Rightarrow> pkcs11_client \<Rightarrow> pkcs11_ta \<Rightarrow> pkcs11_ta" where
  "remove_session a x cl s =
     (let tk = token_at s (ss_token x) in
      set_token s (ss_token x) (tk\<lparr>tk_session_count := tk_session_count tk - 1,
          tk_rw_session_count := tk_rw_session_count tk - (if pkcs11_session_is_read_write x then 1 else 0)\<rparr>)
        \<lparr>ta_client := (ta_client s)(ss_client x \<mapsto> cl\<lparr>cl_session_list := remove1 a (cl_session_list cl),
             cl_session_handle_db := fst (pkcs11_put (cl_session_handle_db cl) (ss_handle x))\<rparr>),
         ta_session := (ta_session s)(a := None)\<rparr>)"

lemma close_ck_session_eq:
  assumes "ta_inv s" and x: "ta_session s a = Some x" and cl: "ta_client s (ss_client x) = Some cl"
  shows "close_ck_session s a = Ret (remove_session a x cl s)"
proof -
  have "a \<in> set (cl_session_list cl)" using ta_inv_session [OF assms(1) x] cl by auto
  then show ?thesis
    by (simp add: close_ck_session_def get_session_def get_client_def x cl remove_session_def Let_def
        pkcs11_put_def set_token_def split: prod.splits)
qed

lemma client_ok_remove:
  assumes ok: "client_ok s c cl" and x: "ta_session s a = Some x"
    and lk: "ss_client x = c \<Longrightarrow> pkcs11_lookup (cl_session_handle_db cl) (ss_handle x) = Some a"
  shows "client_ok (s\<lparr>ta_session := (ta_session s)(a := None)\<rparr>) c
    (if ss_client x = c then cl\<lparr>cl_session_list := remove1 a (cl_session_list cl),
       cl_session_handle_db := fst (pkcs11_put (cl_session_handle_db cl) (ss_handle x))\<rparr> else cl)"
proof (cases "ss_client x = c")
  case True
  obtain db r where put: "pkcs11_put (cl_session_handle_db cl) (ss_handle x) = (db, r)" by fastforce
  from ok have "pkcs11_db_inv (cl_session_handle_db cl)" by (simp add: client_ok_def)
  from pkcs11_db.put_law [OF this put]
  have db: "pkcs11_db_inv db" "pkcs11_lookup db = (pkcs11_lookup (cl_session_handle_db cl))(ss_handle x := None)"
    by auto
  have "h = ss_handle x" if "pkcs11_lookup (cl_session_handle_db cl) h = Some a" for h
    using ok that x unfolding client_ok_def by fastforce
  with ok True put db show ?thesis by (auto simp: client_ok_def)
next
  case False
  then show ?thesis using ok x by (fastforce simp: client_ok_def)
qed

lemma remove_session_inv:
  assumes inv: "ta_inv s" and x: "ta_session s a = Some x" and cl: "ta_client s (ss_client x) = Some cl"
  shows "ta_inv (remove_session a x cl s)"
    and "ta_session (remove_session a x cl s) = (ta_session s)(a := None)"
    and "ta_client_list (remove_session a x cl s) = ta_client_list s"
    and "dom (ta_client (remove_session a x cl s)) = dom (ta_client s)"
    and "\<And>t. tk_db_main (token_at (remove_session a x cl s) t) = tk_db_main (token_at s t)"
proof -
  let ?s = "remove_session a x cl s"
  have t: "ss_token x < TOKEN_COUNT" and list: "a \<in> set (cl_session_list cl)"
    and lk: "pkcs11_lookup (cl_session_handle_db cl) (ss_handle x) = Some a"
    using ta_inv_session [OF inv x] cl by auto
  have len: "ss_token x < length (ta_token s)" using t inv by (simp add: ta_inv_length)
  show session: "ta_session ?s = (ta_session s)(a := None)" and "ta_client_list ?s = ta_client_list s"
    and "dom (ta_client ?s) = dom (ta_client s)"
    using cl by (auto simp: remove_session_def Let_def)
  show db: "tk_db_main (token_at ?s i) = tk_db_main (token_at s i)" for i
    using len by (simp add: remove_session_def Let_def)
  define cl' where "cl' = cl\<lparr>cl_session_list := remove1 a (cl_session_list cl),
       cl_session_handle_db := fst (pkcs11_put (cl_session_handle_db cl) (ss_handle x))\<rparr>"
  have client: "ta_client ?s = (ta_client s)(ss_client x \<mapsto> cl')"
    by (simp add: remove_session_def Let_def cl'_def)
  have ok: "client_ok ?s c d" if d: "ta_client ?s c = Some d" for c d
  proof (cases "ss_client x = c")
    case True
    with d have "d = cl'" by (simp add: client)
    with client_ok_remove [OF ta_inv_client [OF inv cl] x] lk True show ?thesis
      by (simp add: client_ok_def session cl'_def)
  next
    case False
    with d have "ta_client s c = Some d" by (simp add: client)
    with client_ok_remove [OF ta_inv_client [OF inv this] x] False show ?thesis
      by (simp add: client_ok_def session)
  qed
  have "clients_ok ?s"
    using ta_invD(2) [OF inv] ok cl
    by (simp add: clients_ok_def client insert_absorb domI) (simp add: remove_session_def Let_def)
  moreover have "sessions_ok ?s" unfolding sessions_ok_def session
  proof (intro allI impI)
    fix b y assume y: "((ta_session s)(a := None)) b = Some y"
    then have "b \<noteq> a" and y': "ta_session s b = Some y" by (auto split: if_splits)
    from ta_inv_session [OF inv y'] obtain d where d: "ta_client s (ss_client y) = Some d"
      "b \<in> set (cl_session_list d)" "pkcs11_lookup (cl_session_handle_db d) (ss_handle y) = Some b"
      "ss_token y < TOKEN_COUNT" "client_ok s (ss_client y) d" by blast
    show "ss_token y < TOKEN_COUNT \<and> (\<exists>cl. ta_client ?s (ss_client y) = Some cl \<and>
        b \<in> set (cl_session_list cl) \<and> pkcs11_lookup (cl_session_handle_db cl) (ss_handle y) = Some b)"
    proof (cases "ss_client y = ss_client x")
      case True
      with d cl have "d = cl" by simp
      obtain db r where put: "pkcs11_put (cl_session_handle_db cl) (ss_handle x) = (db, r)" by fastforce
      have "pkcs11_lookup db = (pkcs11_lookup (cl_session_handle_db cl))(ss_handle x := None)"
        using pkcs11_db.put_law [OF _ put] d(5) by (simp add: client_ok_def \<open>d = cl\<close>)
      moreover have "ss_handle y \<noteq> ss_handle x" using d(3) lk \<open>b \<noteq> a\<close> by (auto simp: \<open>d = cl\<close>)
      ultimately show ?thesis using d True \<open>b \<noteq> a\<close> by (simp add: client cl'_def put \<open>d = cl\<close>)
    next
      case False
      with d show ?thesis by (simp add: client)
    qed
  qed
  moreover have "counts_ok ?s"
  proof -
    have on: "sessions_on ?s i = sessions_on s i - {a}" "rw_sessions_on ?s i = rw_sessions_on s i - {a}" for i
      by (auto simp: sessions_on_def rw_sessions_on_def session)
    have "finite (dom (ta_session s))" using ta_invD(3) [OF inv] by (simp add: counts_ok_def)
    note fin = finite_sessions_on [OF this]
    have mem: "a \<in> sessions_on s i \<longleftrightarrow> i = ss_token x"
      "a \<in> rw_sessions_on s i \<longleftrightarrow> i = ss_token x \<and> pkcs11_session_is_read_write x" for i
      using x by (auto simp: sessions_on_def rw_sessions_on_def)
    have tok: "token_at ?s i = (if i = ss_token x then (token_at s i)
        \<lparr>tk_session_count := tk_session_count (token_at s i) - 1, tk_rw_session_count :=
          tk_rw_session_count (token_at s i) - (if pkcs11_session_is_read_write x then 1 else 0)\<rparr>
        else token_at s i)" for i
      using len by (simp add: remove_session_def Let_def)
    show ?thesis using ta_invD(3) [OF inv] fin mem
      by (auto simp: counts_ok_def on tok session of_nat_card_remove
          simp del: card_Diff_singleton card_Diff_insert)
  qed
  moreover have "logins_ok ?s" "tokens_ok ?s"
  proof -
    show "logins_ok ?s" using ta_invD(4) [OF inv] unfolding logins_ok_def session by (metis fun_upd_apply option.distinct(1))
    have "token_ok (token_at ?s i)" if "i < TOKEN_COUNT" for i
      using ta_inv_token [OF inv that] len by (auto simp: remove_session_def Let_def token_ok_def)
    moreover have "length (ta_token ?s) = length (ta_token s)" by (simp add: remove_session_def Let_def)
    ultimately show "tokens_ok ?s" using ta_invD(5) [OF inv] unfolding tokens_ok_def session db
      by (simp add: fun_upd_apply)
  qed
  ultimately show "ta_inv ?s" by (simp add: ta_inv_def)
qed

text \<open>Closing any of a client's sessions never fails and removes exactly the selected ones.\<close>

lemma close_sessions_inv:
  assumes "ta_inv s" and "distinct as" and "\<forall>a \<in> set as. ta_session s a \<noteq> None"
  shows "\<exists>s'. close_sessions sel s as = Ret s' \<and> ta_inv s' \<and>
    ta_session s' = (\<lambda>a. if a \<in> set as \<and> sel (the (ta_session s a)) then None else ta_session s a) \<and>
    ta_client_list s' = ta_client_list s \<and> dom (ta_client s') = dom (ta_client s) \<and>
    (\<forall>t. tk_db_main (token_at s' t) = tk_db_main (token_at s t))"
  using assms
proof (induction as arbitrary: s)
  case Nil
  then show ?case by simp
next
  case (Cons a as)
  then obtain x where x: "ta_session s a = Some x" by auto
  show ?case
  proof (cases "sel x")
    case True
    from ta_inv_session [OF Cons.prems(1) x] obtain cl where cl: "ta_client s (ss_client x) = Some cl" by blast
    let ?s = "remove_session a x cl s"
    note rem = remove_session_inv [OF Cons.prems(1) x cl]
    have "\<forall>b \<in> set as. ta_session ?s b \<noteq> None" using Cons.prems(2,3) by (auto simp: rem)
    from Cons.IH [OF rem(1) _ this] Cons.prems(2) obtain s' where s': "close_sessions sel ?s as = Ret s'"
      "ta_inv s'" "ta_session s' = (\<lambda>b. if b \<in> set as \<and> sel (the (ta_session ?s b)) then None else ta_session ?s b)"
      "ta_client_list s' = ta_client_list s" "dom (ta_client s') = dom (ta_client s)"
      "\<forall>t. tk_db_main (token_at s' t) = tk_db_main (token_at s t)"
      using rem by auto
    have "close_sessions sel s (a # as) = Ret s'"
      using True x s'(1) close_ck_session_eq [OF Cons.prems(1) x cl] by (simp add: get_session_def)
    moreover have "ta_session s' = (\<lambda>b. if b \<in> set (a # as) \<and> sel (the (ta_session s b)) then None else ta_session s b)"
      unfolding s'(3) using Cons.prems(2) True x rem(2) by (auto simp: fun_eq_iff)
    ultimately show ?thesis using s' by blast
  next
    case False
    from Cons.IH [OF Cons.prems(1)] Cons.prems(2,3) obtain s' where "close_sessions sel s as = Ret s'" "ta_inv s'"
      "ta_session s' = (\<lambda>b. if b \<in> set as \<and> sel (the (ta_session s b)) then None else ta_session s b)"
      "ta_client_list s' = ta_client_list s" "dom (ta_client s') = dom (ta_client s)"
      "\<forall>t. tk_db_main (token_at s' t) = tk_db_main (token_at s t)" by auto
    with False x show ?thesis by (auto simp: get_session_def fun_eq_iff)
  qed
qed

section \<open>Clients\<close>

text \<open>\<^verbatim>\<open>TEE_Malloc\<close> returns memory that holds no live object.\<close>

definition env_fresh :: "tee_env \<Rightarrow> pkcs11_ta \<Rightarrow> bool" where
  "env_fresh e s \<longleftrightarrow> (case env_malloc e of None \<Rightarrow> True
     | Some a \<Rightarrow> ta_client s a = None \<and> ta_session s a = None)"

lemma register_client_inv:
  assumes inv: "ta_inv s" and fresh: "env_fresh e s"
  shows "ta_inv (snd (register_client e s))"
proof (cases "env_malloc e")
  case None
  then show ?thesis using inv by (simp add: register_client_def)
next
  case (Some c)
  with fresh have c: "ta_client s c = None" by (simp add: env_fresh_def)
  have no: "ss_client x \<noteq> c" if "ta_session s a = Some x" for a x
    by (rule ta_inv_session [OF inv that]) (use c in auto)
  let ?s = "snd (register_client e s)"
  have eqs: "ta_session ?s = ta_session s" "ta_token ?s = ta_token s" "ta_client_list ?s = c # ta_client_list s"
    "ta_client ?s = (ta_client s)(c \<mapsto> \<lparr>cl_session_list = [], cl_session_handle_db = pkcs11_handle_db_init\<rparr>)"
    by (simp_all add: register_client_def Some)
  have "sessions_ok ?s" unfolding sessions_ok_def eqs
  proof (intro allI impI)
    fix a x assume x: "ta_session s a = Some x"
    with no [OF x] show "ss_token x < TOKEN_COUNT \<and> (\<exists>cl. ((ta_client s)(c \<mapsto> \<lparr>cl_session_list = [],
        cl_session_handle_db = pkcs11_handle_db_init\<rparr>)) (ss_client x) = Some cl \<and>
        a \<in> set (cl_session_list cl) \<and> pkcs11_lookup (cl_session_handle_db cl) (ss_handle x) = Some a)"
      by (rule_tac ta_inv_session [OF inv x]) simp
  qed
  moreover have "clients_ok ?s"
    using ta_invD(2) [OF inv] c
    by (auto simp: clients_ok_def eqs client_ok_def pkcs11_handle_lookup_def
        pkcs11_handle_db_init_def pkcs11_db_inv_def slot_def)
  moreover have "counts_ok ?s" using ta_invD(3) [OF inv]
    by (simp add: counts_ok_def sessions_on_def rw_sessions_on_def token_at_def eqs)
  moreover have "logins_ok ?s" using ta_invD(4) [OF inv] logins_ok_cong [OF eqs(1)] by blast
  moreover have "tokens_ok ?s" using ta_invD(5) [OF inv] by (simp add: tokens_ok_def token_at_def eqs)
  ultimately show ?thesis by (simp add: ta_inv_def)
qed

lemma unregister_client_inv:
  assumes inv: "ta_inv s" and c: "c \<in> set (ta_client_list s)"
  shows "\<exists>s'. unregister_client (Some c) s = Ret s' \<and> ta_inv s' \<and>
    ta_session s' = (\<lambda>a. if \<exists>x. ta_session s a = Some x \<and> ss_client x = c then None else ta_session s a) \<and>
    ta_client_list s' = remove1 c (ta_client_list s) \<and>
    (\<forall>t. tk_db_main (token_at s' t) = tk_db_main (token_at s t))"
proof -
  have dist: "distinct (ta_client_list s)" "set (ta_client_list s) = dom (ta_client s)"
    using ta_invD(2) [OF inv] by (simp_all add: clients_ok_def)
  then obtain cl where cl: "ta_client s c = Some cl" using c by auto
  note set = client_sessions [OF inv cl]
  have "\<forall>a \<in> set (cl_session_list cl). ta_session s a \<noteq> None" using set(1) by auto
  from close_sessions_inv [OF inv set(2) this, of "\<lambda>x. True"] obtain s1 where
    s1: "close_sessions (\<lambda>x. True) s (cl_session_list cl) = Ret s1" "ta_inv s1"
      "ta_session s1 = (\<lambda>a. if a \<in> set (cl_session_list cl) then None else ta_session s a)"
      "ta_client_list s1 = ta_client_list s" "dom (ta_client s1) = dom (ta_client s)"
      "\<forall>t. tk_db_main (token_at s1 t) = tk_db_main (token_at s t)" by auto
  let ?s = "s1\<lparr>ta_client_list := remove1 c (ta_client_list s1), ta_client := (ta_client s1)(c := None)\<rparr>"
  have "unregister_client (Some c) s = Ret ?s"
    using cl s1 c by (simp add: unregister_client_def get_client_def)
  moreover have no: "ss_client x \<noteq> c" if "ta_session s1 a = Some x" for a x
    using that set(1) by (auto simp: s1(3) split: if_splits)
  have "ta_inv ?s" unfolding ta_inv_def
  proof (intro conjI)
    show "sessions_ok ?s" using ta_invD(1) [OF s1(2)] no by (auto simp: sessions_ok_def)
    show "clients_ok ?s" using ta_invD(2) [OF s1(2)] by (auto simp: clients_ok_def client_ok_def)
    show "counts_ok ?s" using ta_invD(3) [OF s1(2)]
      by (simp add: counts_ok_def sessions_on_def rw_sessions_on_def token_at_def)
    show "logins_ok ?s" using ta_invD(4) [OF s1(2)] by (subst logins_ok_cong [of _ s1]) simp_all
    show "tokens_ok ?s" using ta_invD(5) [OF s1(2)] by (simp add: tokens_ok_def token_at_def)
  qed
  ultimately show ?thesis using s1 set(1) by (auto simp: fun_eq_iff token_at_def)
qed

section \<open>Opening a session\<close>

definition add_session :: "addr \<Rightarrow> pkcs11_session \<Rightarrow> pkcs11_client \<Rightarrow> addr pkcs11_handle_db \<Rightarrow> pkcs11_ta \<Rightarrow> pkcs11_ta" where
  "add_session a x cl db s =
     (let tk = token_at s (ss_token x) in
      set_token s (ss_token x) (tk\<lparr>tk_session_count := tk_session_count tk + 1,
          tk_rw_session_count := tk_rw_session_count tk + (if pkcs11_session_is_read_write x then 1 else 0)\<rparr>)
        \<lparr>ta_client := (ta_client s)(ss_client x \<mapsto> cl\<lparr>cl_session_list := a # cl_session_list cl,
             cl_session_handle_db := db\<rparr>),
         ta_session := (ta_session s)(a \<mapsto> x)\<rparr>)"

lemma client_ok_add:
  assumes ok: "client_ok s c cl" and a: "ta_session s a = None"
    and db: "ss_client x = c \<Longrightarrow> pkcs11_db_inv db \<and>
      pkcs11_lookup db = (pkcs11_lookup (cl_session_handle_db cl))(ss_handle x \<mapsto> a)"
  shows "client_ok (s\<lparr>ta_session := (ta_session s)(a \<mapsto> x)\<rparr>) c
    (if ss_client x = c then cl\<lparr>cl_session_list := a # cl_session_list cl, cl_session_handle_db := db\<rparr> else cl)"
proof -
  have "b \<noteq> a" if "pkcs11_lookup (cl_session_handle_db cl) h = Some b" for h b
    using ok that a unfolding client_ok_def by fastforce
  moreover have "a \<notin> set (cl_session_list cl)" using ok a by (auto simp: client_ok_def)
  ultimately show ?thesis using ok db by (auto simp: client_ok_def)
qed

lemma add_session_inv:
  assumes inv: "ta_inv s" and a: "ta_session s a = None" and cl: "ta_client s (ss_client x) = Some cl"
    and t: "ss_token x < TOKEN_COUNT" and db: "pkcs11_db_inv db"
    and h: "pkcs11_lookup (cl_session_handle_db cl) (ss_handle x) = None"
    and lk: "pkcs11_lookup db = (pkcs11_lookup (cl_session_handle_db cl))(ss_handle x \<mapsto> a)"
    and login: "\<And>b y. ta_session s b = Some y \<Longrightarrow> ss_client y = ss_client x \<Longrightarrow> ss_token y = ss_token x \<Longrightarrow>
      login_of (ss_state y) = login_of (ss_state x)"
    and so: "ss_state x = PKCS11_CKS_RW_SO_FUNCTIONS \<Longrightarrow> bit (db_flags (tk_db_main (token_at s (ss_token x)))) 10"
  shows "ta_inv (add_session a x cl db s)"
proof -
  let ?s = "add_session a x cl db s"
  have len: "ss_token x < length (ta_token s)" using t inv by (simp add: ta_inv_length)
  have session: "ta_session ?s = (ta_session s)(a \<mapsto> x)" and list: "ta_client_list ?s = ta_client_list s"
    and length: "length (ta_token ?s) = length (ta_token s)"
    by (simp_all add: add_session_def Let_def)
  define cl' where "cl' = cl\<lparr>cl_session_list := a # cl_session_list cl, cl_session_handle_db := db\<rparr>"
  have client: "ta_client ?s = (ta_client s)(ss_client x \<mapsto> cl')"
    by (simp add: add_session_def Let_def cl'_def)
  have tk_db: "tk_db_main (token_at ?s i) = tk_db_main (token_at s i)" for i
    using len by (simp add: add_session_def Let_def)
  have ok: "client_ok ?s c d" if d: "ta_client ?s c = Some d" for c d
  proof (cases "ss_client x = c")
    case True
    with d have "d = cl'" by (simp add: client)
    with client_ok_add [OF ta_inv_client [OF inv cl] a, of x db] lk db True show ?thesis
      by (simp add: client_ok_def session cl'_def)
  next
    case False
    with d have "ta_client s c = Some d" by (simp add: client)
    with client_ok_add [OF ta_inv_client [OF inv this] a, of x db] False show ?thesis
      by (simp add: client_ok_def session)
  qed
  have "clients_ok ?s"
    using ta_invD(2) [OF inv] ok cl by (simp add: clients_ok_def client insert_absorb domI list)
  moreover have "sessions_ok ?s" unfolding sessions_ok_def session
  proof (intro allI impI)
    fix b y assume y: "((ta_session s)(a \<mapsto> x)) b = Some y"
    show "ss_token y < TOKEN_COUNT \<and> (\<exists>cl. ta_client ?s (ss_client y) = Some cl \<and>
        b \<in> set (cl_session_list cl) \<and> pkcs11_lookup (cl_session_handle_db cl) (ss_handle y) = Some b)"
    proof (cases "b = a")
      case True
      with y have "y = x" by simp
      show ?thesis unfolding \<open>y = x\<close> client using t True by (simp add: cl'_def lk)
    next
      case False
      with y have y': "ta_session s b = Some y" by simp
      from ta_inv_session [OF inv y'] obtain d where d: "ta_client s (ss_client y) = Some d"
        "b \<in> set (cl_session_list d)" "pkcs11_lookup (cl_session_handle_db d) (ss_handle y) = Some b"
        "ss_token y < TOKEN_COUNT" by blast
      show ?thesis
      proof (cases "ss_client y = ss_client x")
        case True
        with d cl have "d = cl" by simp
        with d h True show ?thesis unfolding client by (auto simp: cl'_def lk)
      next
        case neq: False
        with d show ?thesis unfolding client by simp
      qed
    qed
  qed
  moreover have "counts_ok ?s"
  proof -
    have on: "sessions_on ?s i = (if i = ss_token x then insert a (sessions_on s i) else sessions_on s i)"
      "rw_sessions_on ?s i = (if i = ss_token x \<and> pkcs11_session_is_read_write x
         then insert a (rw_sessions_on s i) else rw_sessions_on s i)" for i
      using a by (auto simp: sessions_on_def rw_sessions_on_def session)
    have "finite (dom (ta_session s))" using ta_invD(3) [OF inv] by (simp add: counts_ok_def)
    note fin = finite_sessions_on [OF this]
    have mem: "a \<notin> sessions_on s i" "a \<notin> rw_sessions_on s i" for i
      using a by (auto simp: sessions_on_def rw_sessions_on_def)
    have tok: "token_at ?s i = (if i = ss_token x then (token_at s i)
        \<lparr>tk_session_count := tk_session_count (token_at s i) + 1, tk_rw_session_count :=
          tk_rw_session_count (token_at s i) + (if pkcs11_session_is_read_write x then 1 else 0)\<rparr>
        else token_at s i)" for i
      using len by (simp add: add_session_def Let_def)
    show ?thesis using ta_invD(3) [OF inv] fin mem
      by (auto simp: counts_ok_def on tok session)
  qed
  moreover have "logins_ok ?s" unfolding logins_ok_def session
  proof (intro allI impI)
    fix b d y z assume *: "((ta_session s)(a \<mapsto> x)) b = Some y" "((ta_session s)(a \<mapsto> x)) d = Some z"
      "ss_client y = ss_client z" "ss_token y = ss_token z"
    have "logins_ok s" by (rule ta_invD(4) [OF inv])
    then have old: "login_of (ss_state y) = login_of (ss_state z)"
      if "ta_session s b = Some y" "ta_session s d = Some z"
      using that *(3,4) unfolding logins_ok_def by blast
    consider "b = a" "d = a" | "b = a" "d \<noteq> a" | "b \<noteq> a" "d = a" | "b \<noteq> a" "d \<noteq> a" by blast
    then show "login_of (ss_state y) = login_of (ss_state z)"
    proof cases
      case 1
      then show ?thesis using *(1,2) by simp
    next
      case 2
      then have "y = x" "ta_session s d = Some z" using *(1,2) by simp_all
      with login [of d z] *(3,4) show ?thesis by simp
    next
      case 3
      then have "z = x" "ta_session s b = Some y" using *(1,2) by simp_all
      with login [of b y] *(3,4) show ?thesis by simp
    next
      case 4
      then show ?thesis using *(1,2) by (intro old) simp_all
    qed
  qed
  moreover have "tokens_ok ?s"
  proof -
    have "token_ok (token_at ?s i)" if "i < TOKEN_COUNT" for i
      using ta_inv_token [OF inv that] len by (auto simp: add_session_def Let_def token_ok_def)
    with ta_invD(5) [OF inv] so show ?thesis
      unfolding tokens_ok_def session tk_db length by (auto split: if_splits)
  qed
  ultimately show ?thesis by (simp add: ta_inv_def)
qed

lemma client_login:
  assumes inv: "ta_inv s"
  obtains l where
    "\<And>b y. ta_session s b = Some y \<Longrightarrow> ss_client y = c \<Longrightarrow> ss_token y = t \<Longrightarrow> login_of (ss_state y) = l"
    and "(\<forall>b y. ta_session s b = Some y \<longrightarrow> \<not> (ss_client y = c \<and> ss_token y = t)) \<Longrightarrow> l = Public"
proof (cases "\<exists>b y. ta_session s b = Some y \<and> ss_client y = c \<and> ss_token y = t")
  case True
  then obtain b y where y: "ta_session s b = Some y" "ss_client y = c" "ss_token y = t" by blast
  have same: "login_of (ss_state z) = login_of (ss_state y)"
    if "ta_session s d = Some z" "ss_client z = c" "ss_token z = t" for d z
  proof -
    have "ss_client z = ss_client y" "ss_token z = ss_token y" using that y by simp_all
    with that(1) y(1) ta_invD(4) [OF inv] show ?thesis unfolding logins_ok_def by blast
  qed
  show ?thesis by (rule that [of "login_of (ss_state y)"]) (use same y in blast)+
next
  case False
  then show ?thesis by (intro that [of Public]) auto
qed

lemma open_session_cases:
  assumes inv: "ta_inv s" and cl: "ta_client s c = Some cl" and t: "t < TOKEN_COUNT"
    and fresh: "env_fresh e s"
    and ro: "readonly \<Longrightarrow> \<forall>a x. ta_session s a = Some x \<longrightarrow> ss_client x = c \<longrightarrow> \<not> pkcs11_session_is_so x"
  obtains (fail) "open_session e c cl t readonly p s = Ret (PKCS11_CKR_DEVICE_MEMORY, s, p)"
  | (ok) a x db where "open_session e c cl t readonly p s =
        Ret (PKCS11_CKR_OK, write_out (add_session a x cl db s) (pr2 p) (le32_bytes (ss_handle x)), p)"
      and "ta_inv (add_session a x cl db s)" and "ta_session s a = None" and "ss_client x = c"
      and "ss_token x = t" and "pkcs11_session_is_read_write x = (\<not> readonly)"
      and "\<And>b y. ta_session s b = Some y \<Longrightarrow> ss_client y = c \<Longrightarrow> ss_token y = t \<Longrightarrow>
        login_of (ss_state y) = login_of (ss_state x)"
      and "(\<forall>b y. ta_session s b = Some y \<longrightarrow> \<not> (ss_client y = c \<and> ss_token y = t)) \<Longrightarrow>
        login_of (ss_state x) = Public"
      and "env_malloc e = Some a" and "ss_handle x \<noteq> 0"
proof (cases "env_malloc e")
  case None
  then show ?thesis by (intro fail) (simp add: open_session_def)
next
  case (Some a)
  with fresh have a: "ta_session s a = None" by (simp add: env_fresh_def)
  obtain db h where get: "pkcs11_get (cl_session_handle_db cl) a (env_avail e) = (db, h)" by fastforce
  have dbinv: "pkcs11_db_inv (cl_session_handle_db cl)"
    using ta_inv_client [OF inv cl] by (simp add: client_ok_def)
  obtain db0 h0 where get0: "pkcs11_handle_get (env_avail e) (Some (cl_session_handle_db cl)) (Some a) = (db0, h0)"
    by fastforce
  then have eqs: "db = the db0" "h = (if h0 = 0 then None else Some h0)"
    using get by (auto simp: pkcs11_get_def)
  show ?thesis
  proof (cases "h0 = 0")
    case True
    then show ?thesis by (intro fail) (simp add: open_session_def Some get0)
  next
    case False
    with eqs get have "pkcs11_get (cl_session_handle_db cl) a (env_avail e) = (db, Some h0)" by simp
    note law = pkcs11_db.get_Some [OF dbinv this]
    note set = client_sessions [OF inv cl]
    from client_login [OF inv, of c t] obtain l where
      l: "\<And>b y. ta_session s b = Some y \<Longrightarrow> ss_client y = c \<Longrightarrow> ss_token y = t \<Longrightarrow> login_of (ss_state y) = l"
      and none: "(\<forall>b y. ta_session s b = Some y \<longrightarrow> \<not> (ss_client y = c \<and> ss_token y = t)) \<Longrightarrow> l = Public"
      by blast
    have ro': "l \<noteq> SO" if "readonly"
    proof
      assume "l = SO"
      then obtain b y where y: "ta_session s b = Some y" "ss_client y = c" "ss_token y = t"
        using none by fastforce
      with l \<open>l = SO\<close> have "login_of (ss_state y) = SO" by simp
      then have "pkcs11_session_is_so y" by (cases "ss_state y") (simp_all add: pkcs11_session_is_so_def)
      with ro [OF that] y show False by blast
    qed
    have "\<exists>st. set_session_state_loop s a t readonly (cl_session_list cl) = Ret st \<and> login_of st = l \<and>
        (\<forall>x. ss_state x = st \<longrightarrow> pkcs11_session_is_read_write x = (\<not> readonly))"
      using a ro' none l unfolding set_session_state_def
      by (intro set_session_state_loop_eq) (auto simp: set(1))
    then obtain st where st: "set_session_state s cl a t readonly = Ret st" "login_of st = l"
      "\<And>x. ss_state x = st \<Longrightarrow> pkcs11_session_is_read_write x = (\<not> readonly)"
      by (auto simp: set_session_state_def)
    let ?x = "\<lparr>ss_client = c, ss_token = t, ss_handle = h0, ss_state = st\<rparr>"
    have rw: "pkcs11_session_is_read_write ?x = (\<not> readonly)" by (rule st(3)) simp
    show ?thesis
    proof (rule ok [of a ?x db])
      show "open_session e c cl t readonly p s = Ret (PKCS11_CKR_OK,
          write_out (add_session a ?x cl db s) (pr2 p) (le32_bytes (ss_handle ?x)), p)"
        using False st(1) rw
        by (simp add: open_session_def Some get0 eqs(1) add_session_def Let_def set_token_def)
      have so: "bit (db_flags (tk_db_main (token_at s t))) 10" if "st = PKCS11_CKS_RW_SO_FUNCTIONS"
      proof -
        from that st(2) have "l = SO" by simp
        then obtain b y where y: "ta_session s b = Some y" "ss_client y = c" "ss_token y = t"
          using none by fastforce
        from l [OF y] \<open>l = SO\<close> have "ss_state y = PKCS11_CKS_RW_SO_FUNCTIONS"
          by (cases "ss_state y") simp_all
        with ta_invD(5) [OF inv] y show ?thesis by (auto simp: tokens_ok_def)
      qed
      show "ta_inv (add_session a ?x cl db s)"
        by (rule add_session_inv) (use inv a cl t law l st(2) so in auto)
    qed (use a rw l none st(2) Some False in auto)
  qed
qed

end
