(* ===== verification/Pkcs11_Cmd.thy ===== *)
theory Pkcs11_Cmd
  imports Pkcs11_Inv
begin

text \<open>
  The commands of the PKCS\#11 trusted application keep its invariant, touch only the sessions of the
  calling client, log nobody in without the right PIN and do not panic. The proofs follow the
  commands with a weakest-precondition predicate for outcomes.
\<close>

unbundle bit_operations_syntax

section \<open>Weakest preconditions\<close>

text \<open>\<open>P\<close> says whether a panic is acceptable, \<open>Q\<close> is the postcondition of a return.\<close>

definition wp :: "bool \<Rightarrow> ('a \<Rightarrow> bool) \<Rightarrow> 'a outcome \<Rightarrow> bool" where
  "wp P Q m = (case m of Ret x \<Rightarrow> Q x | Panic \<Rightarrow> P)"

lemma wp_Ret [simp]: "wp P Q (Ret x) = Q x"
  and wp_Panic [simp]: "wp P Q Panic = P"
  by (simp_all add: wp_def)

lemma wp_bind [simp]: "wp P Q (bind_outcome m f) = wp P (\<lambda>x. wp P Q (f x)) m"
  by (cases m) simp_all

lemma wp_if: "wp P Q (if b then m else n) = (if b then wp P Q m else wp P Q n)"
  by simp

lemma wp_case_option:
  "wp P Q (case x of None \<Rightarrow> m | Some y \<Rightarrow> f y) = (case x of None \<Rightarrow> wp P Q m | Some y \<Rightarrow> wp P Q (f y))"
  by (simp split: option.splits)

lemma wp_or_return:
  "wp P Q (or_return s p r k) = (case r of Inl rc \<Rightarrow> Q (rc, s, p) | Inr x \<Rightarrow> wp P Q (k x))"
  by (cases r) simp_all

lemma wp_mono: "wp P Q m \<Longrightarrow> (\<And>x. Q x \<Longrightarrow> Q' x) \<Longrightarrow> wp P Q' m"
  by (cases m) auto

lemma wp_get_client: "ta_client s c = Some cl \<Longrightarrow> wp P Q (get_client s c) = Q cl"
  by (simp add: get_client_def)

lemma wp_get_session: "ta_session s a = Some x \<Longrightarrow> wp P Q (get_session s a) = Q x"
  by (simp add: get_session_def)

section \<open>Arguments\<close>

text \<open>
  The control buffer is not at the very top of the address space, as no user mapping is. Then the
  reader stays in the buffer: after \<open>k\<close> bytes it is at offset \<open>k\<close>.
\<close>

definition buffer_ok :: "tee_params \<Rightarrow> bool" where
  "buffer_ok p \<longleftrightarrow> unat (mr_buffer (pr0 p)) < 2 ^ 63"

definition args_at :: "tee_params \<Rightarrow> nat \<Rightarrow> 64 serialargs \<Rightarrow> bool" where
  "args_at p k args \<longleftrightarrow> args = \<lparr>sa_start = mr_buffer (pr0 p), sa_next = mr_buffer (pr0 p) + of_nat k,
     sa_size = ucast (mr_size (pr0 p))\<rparr> \<and> k \<le> unat (mr_size (pr0 p))"

lemma args_at_0: "args_at p 0 (ctrl_args p)"
  by (simp add: args_at_def ctrl_args_def serialargs_init_def)

lemma args_at_facts:
  assumes "buffer_ok p" and "args_at p k args"
  shows "serialargs_ok args" and "sa_remaining args = unat (mr_size (pr0 p)) - k"
    and "unat (sa_next args) = unat (mr_buffer (pr0 p)) + k"
    and "unat sz < 2 ^ 32 \<Longrightarrow> unat (sa_next args) + unat sz < 2 ^ 64"
proof -
  have k: "k \<le> unat (mr_size (pr0 p))" "unat (mr_size (pr0 p)) < 2 ^ 32"
    using assms(2) unsigned_less [of "mr_size (pr0 p)", where ?'a = nat] by (simp_all add: args_at_def)
  have b: "unat (mr_buffer (pr0 p)) < 2 ^ 63" using assms(1) by (simp add: buffer_ok_def)
  have next': "unat (mr_buffer (pr0 p) + of_nat k) = unat (mr_buffer (pr0 p)) + k"
    using k b by (simp add: unat_add_no_wrap unat_of_nat)
  have size': "unat (ucast (mr_size (pr0 p)) :: 64 word) = unat (mr_size (pr0 p))"
    using k by (simp add: unat_ucast_no_trunc)
  show "unat (sa_next args) = unat (mr_buffer (pr0 p)) + k"
    using assms(2) next' by (simp add: args_at_def)
  show "unat sz < 2 ^ 32 \<Longrightarrow> unat (sa_next args) + unat sz < 2 ^ 64"
    using assms(2) next' k b by (simp add: args_at_def)
  show "serialargs_ok args" "sa_remaining args = unat (mr_size (pr0 p)) - k"
    using assms(2) next' size' k b by (simp_all add: args_at_def serialargs_ok_def sa_remaining_def)
qed

lemma args_at_advance:
  assumes "buffer_ok p" and "args_at p k args" and "unat sz < 2 ^ 32"
    and "\<not> sa_next args + sz > sa_start args + sa_size args"
  shows "args_at p (k + unat sz) (args\<lparr>sa_next := sa_next args + sz\<rparr>)"
proof -
  note f = args_at_facts [OF assms(1,2)]
  have "unat sz \<le> unat (mr_size (pr0 p)) - k"
    using serialargs_fits(1) [OF f(1), of sz] f(4) [OF assms(3)] assms(4) f(2) by simp
  then show ?thesis using assms(2) by (auto simp: args_at_def ac_simps)
qed

lemma get_u32_at:
  assumes "buffer_ok p" and "args_at p k args" and "serialargs_get_u32 m args = Inr (args', v)"
  shows "args_at p (k + 4) args'" and "v = le32 (bytes_at m (mr_buffer (pr0 p) + of_nat k) 4)"
proof -
  from assms(3) have "\<not> sa_next args + 4 > sa_start args + sa_size args"
    and eqs: "args' = args\<lparr>sa_next := sa_next args + 4\<rparr>" "v = le32 (bytes_at m (sa_next args) 4)"
    by (auto simp: serialargs_get_u32_def serialargs_get_def split: sum.splits if_splits)
  from args_at_advance [OF assms(1,2) _ this(1)] show "args_at p (k + 4) args'" by (simp add: eqs)
  show "v = le32 (bytes_at m (mr_buffer (pr0 p) + of_nat k) 4)"
    using assms(2) by (simp add: eqs args_at_def)
qed

lemma get_ptr_at:
  assumes "buffer_ok p" and "args_at p k args"
    and "serialargs_get_ptr args (ucast (sz :: u32)) = Inr (args', ptr)"
  shows "args_at p (k + unat sz) args'" and "sz \<noteq> 0 \<Longrightarrow> ptr = mr_buffer (pr0 p) + of_nat k"
proof -
  have sz: "unat (ucast sz :: 64 word) = unat sz" "unat sz < 2 ^ 32"
    using unsigned_less [of sz, where ?'a = nat] by (simp_all add: unat_ucast_no_trunc)
  have zero: "(ucast sz :: 64 word) = 0 \<longleftrightarrow> sz = 0"
    by (metis sz(1) unat_eq_zero unsigned_0)
  show "args_at p (k + unat sz) args'"
  proof (cases "sz = 0")
    case True
    with assms(2,3) show ?thesis by (simp add: serialargs_get_ptr_def)
  next
    case False
    with assms(3) zero have "\<not> sa_next args + ucast sz > sa_start args + sa_size args"
      "args' = args\<lparr>sa_next := sa_next args + ucast sz\<rparr>"
      by (auto simp: serialargs_get_ptr_def split: if_splits)
    with args_at_advance [OF assms(1,2), of "ucast sz"] sz show ?thesis by simp
  qed
  show "ptr = mr_buffer (pr0 p) + of_nat k" if "sz \<noteq> 0"
    using assms(2,3) that zero by (auto simp: serialargs_get_ptr_def args_at_def split: if_splits)
qed

lemma remaining_at:
  assumes "buffer_ok p" and "args_at p k args"
  shows "serialargs_remaining_bytes args \<longleftrightarrow> k < unat (mr_size (pr0 p))"
  using args_at_facts [OF assms] serialargs_remaining_bytes_iff [of args] by simp

lemma get_session_at:
  assumes "buffer_ok p" and "args_at p k args"
    and "serialargs_get_session_from_handle m args cl = Inr (args', a)"
  shows "args_at p (k + 4) args'"
    and "pkcs11_handle2session (le32 (bytes_at m (mr_buffer (pr0 p) + of_nat k) 4)) cl = Some a"
  using assms(3) get_u32_at [OF assms(1,2)]
  by (auto simp: serialargs_get_session_from_handle_def split: sum.splits option.splits)

lemma get_session_Inr:
  assumes "ta_inv s" and "ta_client s c = Some cl"
    and "serialargs_get_session_from_handle m args cl = Inr (args', a)"
  shows "\<exists>x. ta_session s a = Some x \<and> ss_client x = c"
  using assms(3) handle2session_session [OF assms(1,2)]
  by (fastforce simp: serialargs_get_session_from_handle_def split: sum.splits option.splits)

lemma wp_or_returnI:
  "(\<And>rc. Q (rc, s, p)) \<Longrightarrow> (\<And>x. r = Inr x \<Longrightarrow> wp P Q (k x)) \<Longrightarrow> wp P Q (or_return s p r k)"
  by (cases r) simp_all

lemma wp_session_args:
  assumes "ta_inv s" and "ta_client s c = Some cl" and "\<And>rc. Q (rc, s, p)"
    and "\<And>args' a x. serialargs_get_session_from_handle m args cl = Inr (args', a) \<Longrightarrow>
      ta_session s a = Some x \<Longrightarrow> ss_client x = c \<Longrightarrow> wp P Q (k (args', a))"
  shows "wp P Q (or_return s p (serialargs_get_session_from_handle m args cl) k)"
  using get_session_Inr [OF assms(1,2), of m args] assms(3,4) by (intro wp_or_returnI) auto

section \<open>What a command may do\<close>

text \<open>The PIN is the right one for the login that session \<open>x\<close> shows, and that PIN is not locked.\<close>

definition granted :: "tee_env \<Rightarrow> u8 list \<Rightarrow> pkcs11_ta \<Rightarrow> pkcs11_session \<Rightarrow> bool" where
  "granted e pin s x \<longleftrightarrow>
     (let db = tk_db_main (token_at s (ss_token x)) in
      case login_of (ss_state x) of
        Public \<Rightarrow> True
      | User \<Rightarrow> db_user_pin_salt db \<noteq> 0 \<and> db_flags db AND PKCS11_CKFT_USER_PIN_LOCKED = 0 \<and>
          pin_matches e PKCS11_CKU_USER pin (db_user_pin_salt db) (db_user_pin_hash db)
      | SO \<Rightarrow> db_so_pin_salt db \<noteq> 0 \<and> db_flags db AND PKCS11_CKFT_SO_PIN_LOCKED = 0 \<and>
          pin_matches e PKCS11_CKU_SO pin (db_so_pin_salt db) (db_so_pin_hash db))"

text \<open>The client of session \<open>x\<close> was logged in to its token before, in the way \<open>x\<close> shows.\<close>

definition inherited :: "pkcs11_ta \<Rightarrow> pkcs11_session \<Rightarrow> bool" where
  "inherited s x \<longleftrightarrow> (\<exists>b y. ta_session s b = Some y \<and> ss_client y = ss_client x \<and>
     ss_token y = ss_token x \<and> login_of (ss_state y) = login_of (ss_state x))"

text \<open>
  A command of client \<open>c\<close>: the invariant is kept, the sessions of other clients are as before, and
  every session that shows a login had it granted by one of the PINs or inherited it.
\<close>

definition cmd_post :: "tee_env \<Rightarrow> addr \<Rightarrow> u8 list set \<Rightarrow> pkcs11_ta \<Rightarrow> pkcs11_ta \<Rightarrow> bool" where
  "cmd_post e c pins s s' \<longleftrightarrow> ta_inv s' \<and>
     (\<forall>a x. ta_session s a = Some x \<longrightarrow> ss_client x \<noteq> c \<longrightarrow> ta_session s' a = Some x) \<and>
     (\<forall>a x. ta_session s' a = Some x \<longrightarrow> ss_client x \<noteq> c \<longrightarrow> ta_session s a = Some x) \<and>
     (\<forall>a x. ta_session s' a = Some x \<longrightarrow>
        login_of (ss_state x) = Public \<or> inherited s x \<or> (\<exists>pin \<in> pins. granted e pin s x))"

lemma cmd_post_same: "ta_inv s' \<Longrightarrow> ta_session s' = ta_session s \<Longrightarrow> cmd_post e c pins s s'"
  unfolding cmd_post_def inherited_def by fastforce

lemma cmd_post_refl [simp]: "ta_inv s \<Longrightarrow> cmd_post e c pins s s"
  by (simp add: cmd_post_same)

lemma cmd_post_write_out [simp]: "cmd_post e c pins s (write_out s' r bs) \<longleftrightarrow> cmd_post e c pins s s'"
  by (simp add: cmd_post_def)

lemma cmd_post_remove:
  assumes "ta_inv s'" and "ta_session s' = (\<lambda>a. if q a then None else ta_session s a)"
    and "\<And>a x. q a \<Longrightarrow> ta_session s a = Some x \<Longrightarrow> ss_client x = c"
  shows "cmd_post e c pins s s'"
  using assms unfolding cmd_post_def inherited_def by (fastforce split: if_splits)

abbreviation post :: "tee_env \<Rightarrow> addr \<Rightarrow> u8 list set \<Rightarrow> pkcs11_ta \<Rightarrow>
    pkcs11_rc \<times> pkcs11_ta \<times> tee_params \<Rightarrow> bool" where
  "post e c pins s \<equiv> (\<lambda>(rc, s', p). cmd_post e c pins s s')"

section \<open>Commands without effect on tokens and sessions\<close>

lemma length_dec_digits: "n < 10 ^ k \<Longrightarrow> 0 < k \<Longrightarrow> length (dec_digits n) \<le> k"
proof (induction n arbitrary: k rule: dec_digits.induct)
  case (1 n)
  show ?case
  proof (cases "n < 10")
    case True
    with 1 show ?thesis by (simp add: dec_digits.simps)
  next
    case False
    with 1(2) obtain k' where k: "k = Suc k'" "0 < k'" by (cases k; cases "k - 1") auto
    with 1(2) have "n div 10 < 10 ^ k'" by (simp add: less_mult_imp_div_less)
    from 1(1) [OF False this k(2)] show ?thesis using False k by (simp add: dec_digits.simps [of n])
  qed
qed

lemma length_zero_padded: "n < 2 ^ 32 \<Longrightarrow> length (zero_padded 16 n) = 16"
  using length_dec_digits [of n 16] by (simp add: zero_padded_def Let_def)

lemma mechanism_supported_flags_Ret: "\<exists>f. mechanism_supported_flags i = Ret f"
  by (simp add: mechanism_supported_flags_def token_mechanism_def mechanism_flags_complies_pkcs11_def
      pkcs11_modes_def)

lemma wp_info_commands:
  assumes "ta_inv s"
  shows "wp P (post e c pins s) (entry_ping ptypes p s)"
    and "wp P (post e c pins s) (entry_ck_slot_list ptypes p s)"
    and "wp P (post e c pins s) (entry_ck_token_info ptypes p s)"
    and "wp P (post e c pins s) (entry_ck_token_mecha_info ptypes p s)"
    and "wp P (post e c pins s) (entry_ck_token_mecha_ids e ptypes p s)"
proof -
  show "wp P (post e c pins s) (entry_ping ptypes p s)"
    using assms by (simp add: entry_ping_def)
  show "wp P (post e c pins s) (entry_ck_slot_list ptypes p s)"
    using assms by (simp add: entry_ck_slot_list_def Let_def)
  have "length (zero_padded 16 (unat (i :: u32))) = 16" for i
    using unsigned_less [of i, where ?'a = nat] by (intro length_zero_padded) simp
  then show "wp P (post e c pins s) (entry_ck_token_info ptypes p s)"
    using assms by (simp add: entry_ck_token_info_def wp_or_return Let_def split: sum.splits option.splits)
  obtain f where "mechanism_supported_flags i = Ret (f i)" for i
    using mechanism_supported_flags_Ret by metis
  then show "wp P (post e c pins s) (entry_ck_token_mecha_info ptypes p s)"
    using assms by (simp add: entry_ck_token_mecha_info_def wp_or_return split: sum.splits prod.splits)
  show "wp P (post e c pins s) (entry_ck_token_mecha_ids e ptypes p s)"
    using assms by (simp add: entry_ck_token_mecha_ids_def wp_or_return tee_malloc_mechanism_list_def
        Let_def token_mechanism_def split: sum.splits option.splits)
qed

text \<open>The printed UUID has the 36 characters of \<^verbatim>\<open>%pUl\<close>, which just fit.\<close>

lemma wp_entry_ck_slot_info:
  assumes "ta_inv s" and "\<forall>u. env_uuid e = Some u \<longrightarrow> length u = 36 \<or> P"
  shows "wp P (post e c pins s) (entry_ck_slot_info e ptypes p s)"
proof -
  have "wp P (\<lambda>_. True) (set_token_description e)"
  proof (cases "env_uuid e")
    case None
    then show ?thesis
      by (simp add: set_token_description_def PKCS11_SLOT_DESCRIPTION_def str_bytes_def Let_def)
  next
    case (Some u)
    with assms(2) have "length u = 36 \<or> P" by blast
    with Some show ?thesis
      by (auto simp add: set_token_description_def PKCS11_SLOT_DESCRIPTION_def str_bytes_def Let_def)
  qed
  then show ?thesis
    using assms(1) by (auto simp: entry_ck_slot_info_def wp_or_return split: sum.splits
        elim!: wp_mono)
qed

lemma wp_entry_ck_session_info:
  assumes "ta_inv s" and cl: "ta_client s c = Some cl"
  shows "wp P (post e c pins s) (entry_ck_session_info (Some c) ptypes p s)"
proof -
  have "wp P (post e c pins s) (bind_outcome (get_session s a) (\<lambda>x.
      bind_outcome (get_token_id (ss_token x)) (\<lambda>slot_id. Ret (rc, write_out s r (bs x slot_id), p))))"
    if "ta_session s a = Some x" for a x rc r bs
    using ta_inv_session [OF assms(1) that] that assms(1) by (auto simp: get_session_def get_token_id_def)
  then show ?thesis
    using assms(1) unfolding entry_ck_session_info_def
    by (auto simp: get_client_def cl Let_def simp del: wp_bind
        intro!: wp_session_args [OF assms(1) cl])
qed

section \<open>Opening and closing sessions\<close>

lemma wp_entry_ck_close_session:
  assumes inv: "ta_inv s" and cl: "ta_client s c = Some cl"
  shows "wp P (post e c pins s) (entry_ck_close_session (Some c) ptypes p s)"
proof -
  have "wp P (\<lambda>s'. cmd_post e c pins s s') (close_ck_session s a)"
    if x: "ta_session s a = Some x" "ss_client x = c" for a x
  proof -
    from x(2) cl have cl': "ta_client s (ss_client x) = Some cl" by simp
    note rem = remove_session_inv [OF inv x(1) cl']
    have "cmd_post e c pins s (remove_session a x cl s)"
      using rem(1,2) x by (intro cmd_post_remove [where q = "\<lambda>b. b = a"]) auto
    then show ?thesis by (simp add: close_ck_session_eq [OF inv x(1) cl'])
  qed
  then show ?thesis
    using inv unfolding entry_ck_close_session_def
    by (auto simp: get_client_def cl intro!: wp_session_args [OF inv cl])
qed

lemma wp_entry_ck_close_all_sessions:
  assumes inv: "ta_inv s" and cl: "ta_client s c = Some cl"
  shows "wp P (post e c pins s) (entry_ck_close_all_sessions (Some c) ptypes p s)"
proof -
  note set = client_sessions [OF inv cl]
  have "\<forall>a \<in> set (cl_session_list cl). ta_session s a \<noteq> None" using set(1) by auto
  note close = close_sessions_inv [OF inv set(2) this]
  have "wp P (\<lambda>s'. cmd_post e c pins s s') (close_sessions (\<lambda>x. ss_token x = t) s (cl_session_list cl))" for t
  proof -
    from close [of "\<lambda>x. ss_token x = t"] obtain s' where
      s': "close_sessions (\<lambda>x. ss_token x = t) s (cl_session_list cl) = Ret s'" "ta_inv s'"
        "ta_session s' = (\<lambda>a. if a \<in> set (cl_session_list cl) \<and> ss_token (the (ta_session s a)) = t
          then None else ta_session s a)" by blast
    have "cmd_post e c pins s s'"
      by (rule cmd_post_remove [OF s'(2,3)]) (auto simp: set(1))
    with s'(1) show ?thesis by simp
  qed
  then show ?thesis
    using inv by (auto simp: entry_ck_close_all_sessions_def wp_or_return get_client_def cl
        split: sum.splits option.splits)
qed

lemma wp_entry_ck_open_session:
  assumes inv: "ta_inv s" and cl: "ta_client s c = Some cl" and fresh: "env_fresh e s"
  shows "wp P (post e c pins s) (entry_ck_open_session e (Some c) ptypes p s)"
proof -
  have main: "wp P (post e c pins s) (open_session e c cl t readonly p s)"
    if t: "t < TOKEN_COUNT"
      and ro: "readonly \<Longrightarrow> \<forall>a x. ta_session s a = Some x \<longrightarrow> ss_client x = c \<longrightarrow> \<not> pkcs11_session_is_so x"
    for t readonly
  proof (cases rule: open_session_cases [where readonly = readonly and p = p, OF inv cl t fresh,
        case_names ro fail ok])
    case ro
    then show ?case by (rule that(2))
  next
    case fail
    then show ?thesis using inv by simp
  next
    case (ok a x db)
    have session: "ta_session (add_session a x cl db s) = (ta_session s)(a \<mapsto> x)"
      by (simp add: add_session_def Let_def)
    have "login_of (ss_state x) = Public \<or> inherited s x"
    proof (cases "\<exists>b y. ta_session s b = Some y \<and> ss_client y = c \<and> ss_token y = t")
      case True
      then obtain b y where y: "ta_session s b = Some y" "ss_client y = c" "ss_token y = t" by blast
      from ok(7) [OF y] have "inherited s x" unfolding inherited_def using y ok(4,5) by auto
      then show ?thesis ..
    next
      case False
      then show ?thesis using ok(8) by blast
    qed
    moreover have "inherited s y" if "ta_session s b = Some y" for b y
      using that by (auto simp: inherited_def)
    ultimately have "cmd_post e c pins s (add_session a x cl db s)"
      using ok(2-4) unfolding cmd_post_def session by (auto split: if_splits)
    then show ?thesis by (simp add: ok(1))
  qed
  have any: "any_session pkcs11_session_is_so s (cl_session_list cl) =
      Ret (\<exists>a x. ta_session s a = Some x \<and> ss_client x = c \<and> pkcs11_session_is_so x)"
    by (rule any_client_session_eq [OF inv cl])
  have t: "t < TOKEN_COUNT" if "get_token i = Some t" for i t
    using that by (auto simp: get_token_def split: if_splits)
  show ?thesis
    unfolding entry_ck_open_session_def option.case(2) Let_def
    by (simp add: inv get_client_def cl any wp_or_return split: sum.splits option.splits)
      (auto simp: t intro!: main)
qed

section \<open>PINs\<close>

lemma wp_on_token:
  assumes inv: "ta_inv s" and t: "t < TOKEN_COUNT"
    and panic: "f (token_at s t) = Panic \<Longrightarrow> P"
    and f: "\<And>rc tk'. f (token_at s t) = Ret (rc, tk') \<Longrightarrow>
      token_ok tk' \<and> (\<exists>db. tk' = commit (token_at s t) db \<and>
        (bit (db_flags (tk_db_main (token_at s t))) 10 \<longrightarrow> bit (db_flags db) 10))"
    and post: "\<And>rc tk'. f (token_at s t) = Ret (rc, tk') \<Longrightarrow> ta_inv (set_token s t tk') \<Longrightarrow>
      (bit (db_flags (tk_db_main (token_at s t))) 10 \<longrightarrow> bit (db_flags (tk_db_main tk')) 10) \<Longrightarrow>
      Q (rc, set_token s t tk')"
  shows "wp P Q (on_token t f s)"
proof (cases "f (token_at s t)")
  case Panic
  then show ?thesis using panic by (simp add: on_token_def)
next
  case (Ret r)
  obtain rc tk' where r: "r = (rc, tk')" by fastforce
  with Ret have run: "on_token t f s = Ret (rc, set_token s t tk')" by (simp add: on_token_def)
  from on_token_inv [OF inv t run f] have "ta_inv (set_token s t tk') \<and>
      (bit (db_flags (tk_db_main (token_at s t))) 10 \<longrightarrow> bit (db_flags (tk_db_main tk')) 10)"
    using Ret r by auto
  with post [of rc tk'] Ret r show ?thesis by (simp add: run)
qed

lemma pin_panics:
  assumes "token_ok tk"
  shows "check_user_pin e tk pin = Panic \<Longrightarrow> \<not> storage_ok e"
    and "check_so_pin e tk pin = Panic \<Longrightarrow> \<not> storage_ok e \<or> \<not> bit (db_flags (tk_db_main tk)) 10"
    and "set_pin e rw tk pin user = Panic \<Longrightarrow> \<not> storage_ok e"
    and "token_initialize e tk label pin = Panic \<Longrightarrow> \<not> storage_ok e"
  unfolding check_user_pin_eq [OF assms refl] check_so_pin_eq [OF assms refl]
    set_pin_eq [OF assms refl] token_initialize_eq [OF assms refl]
  by (auto split: if_splits sum.splits prod.splits)

lemma wp_entry_ck_token_initialize:
  assumes inv: "ta_inv s" and panic: "storage_ok e \<or> P"
  shows "wp P (post e c pins s) (entry_ck_token_initialize e ptypes p s)"
proof -
  have use: "token_in_use t s (ta_client_list s) = Ret (\<exists>a x. ta_session s a = Some x \<and> ss_token x = t)" for t
  proof -
    have set: "set (ta_client_list s) = dom (ta_client s)"
      using ta_invD(2) [OF inv] by (simp add: clients_ok_def)
    have "ss_client x \<in> dom (ta_client s)" if "ta_session s a = Some x" for a x
      by (rule ta_inv_session [OF inv that]) auto
    then have "(\<exists>a x. ta_session s a = Some x \<and> ss_token x = t \<and> ss_client x \<in> dom (ta_client s)) \<longleftrightarrow>
        (\<exists>a x. ta_session s a = Some x \<and> ss_token x = t)" by blast
    with token_in_use_eq [OF inv, of "ta_client_list s" t] set show ?thesis by simp
  qed
  have main: "wp P (\<lambda>(rc, s'). cmd_post e c pins s s') (on_token t (\<lambda>tk. token_initialize e tk label pin) s)"
    if t: "t < TOKEN_COUNT" and nl: "\<not> bit (db_flags (tk_db_main (token_at s t))) 22" for t label pin
  proof (rule wp_on_token [OF inv t])
    note ok = ta_inv_token [OF inv t]
    show P if "token_initialize e (token_at s t) label pin = Panic"
      using pin_panics(4) [OF ok that] panic by blast
    show "token_ok tk' \<and> (\<exists>db. tk' = commit (token_at s t) db \<and>
        (bit (db_flags (tk_db_main (token_at s t))) 10 \<longrightarrow> bit (db_flags db) 10))"
      if "token_initialize e (token_at s t) label pin = Ret (rc, tk')" for rc tk'
      by (rule token_initialize_ok [OF ok nl that])
  qed (simp add: cmd_post_same)
  have t: "t < TOKEN_COUNT" if "get_token i = Some t" for i t
    using that by (auto simp: get_token_def split: if_splits)
  show ?thesis
    unfolding entry_ck_token_initialize_def
    by (simp add: inv use wp_or_return ckft_and split: sum.splits option.splits)
      (auto simp: t split_beta intro!: main [unfolded split_beta])
qed

lemma wp_set_pin:
  assumes inv: "ta_inv s" and t: "t < TOKEN_COUNT" and panic: "storage_ok e \<or> P"
    and same: "ta_session s = ta_session s0"
  shows "wp P (\<lambda>r. cmd_post e c pins s0 (snd r)) (on_token t (\<lambda>tk. set_pin e rw tk pin user) s)"
proof (rule wp_on_token [OF inv t])
  note ok = ta_inv_token [OF inv t]
  show P if "set_pin e rw (token_at s t) pin user = Panic"
    using pin_panics(3) [OF ok that] panic by blast
  show "token_ok tk' \<and> (\<exists>db. tk' = commit (token_at s t) db \<and>
      (bit (db_flags (tk_db_main (token_at s t))) 10 \<longrightarrow> bit (db_flags db) 10))"
    if "set_pin e rw (token_at s t) pin user = Ret (rc, tk')" for rc tk'
    using set_pin_ok [OF ok that] by blast
qed (simp add: cmd_post_same same)

lemma wp_check_pin:
  assumes inv: "ta_inv s" and t: "t < TOKEN_COUNT" and panic: "storage_ok e \<or> P"
    and check: "check = check_user_pin \<or>
      check = check_so_pin \<and> (bit (db_flags (tk_db_main (token_at s t))) 10 \<or> P)"
    and post: "\<And>rc tk'. check e (token_at s t) pin = Ret (rc, tk') \<Longrightarrow> ta_inv (set_token s t tk') \<Longrightarrow>
      (bit (db_flags (tk_db_main (token_at s t))) 10 \<longrightarrow> bit (db_flags (tk_db_main tk')) 10) \<Longrightarrow>
      Q (rc, set_token s t tk')"
  shows "wp P Q (on_token t (\<lambda>tk. check e tk pin) s)"
proof (rule wp_on_token [OF inv t])
  note ok = ta_inv_token [OF inv t]
  show P if "check e (token_at s t) pin = Panic"
    using pin_panics(1,2) [OF ok] panic check that by blast
  show "token_ok tk' \<and> (\<exists>db. tk' = commit (token_at s t) db \<and>
      (bit (db_flags (tk_db_main (token_at s t))) 10 \<longrightarrow> bit (db_flags db) 10))"
    if "check e (token_at s t) pin = Ret (rc, tk')" for rc tk'
    using check_user_pin_ok [OF ok] check_so_pin_ok [OF ok] check that by blast
qed (use post in auto)

lemma ss_token_lt: "ta_inv s \<Longrightarrow> ta_session s a = Some x \<Longrightarrow> ss_token x < TOKEN_COUNT"
  by (rule ta_inv_session)

lemma so_session_initialized:
  assumes "ta_inv s" and "ta_session s a = Some x" and "pkcs11_session_is_so x"
  shows "bit (db_flags (tk_db_main (token_at s (ss_token x)))) 10"
  using ta_invD(5) [OF assms(1)] assms(2,3) by (auto simp: tokens_ok_def pkcs11_session_is_so_def)

lemma wp_entry_ck_init_pin:
  assumes inv: "ta_inv s" and cl: "ta_client s c = Some cl" and panic: "storage_ok e \<or> P"
  shows "wp P (post e c pins s) (entry_ck_init_pin e (Some c) ptypes p s)"
proof -
  have "wp P (post e c pins s) (bind_outcome (get_session s a) (\<lambda>x.
      if \<not> pkcs11_session_is_so x then Ret (PKCS11_CKR_USER_NOT_LOGGED_IN, s, p)
      else if db_flags (tk_db_main (token_at s (ss_token x))) AND PKCS11_CKFT_TOKEN_INITIALIZED = 0
      then Panic
      else bind_outcome (on_token (ss_token x) (\<lambda>tk. set_pin e (pkcs11_session_is_read_write x) tk
               pin PKCS11_CKU_USER) s) (\<lambda>(rc, s). Ret (rc, s, p))))"
    if x: "ta_session s a = Some x" for a x pin
    using wp_set_pin [OF inv ss_token_lt [OF inv x] panic refl] so_session_initialized [OF inv x] inv
    by (simp add: get_session_def x ckft_and split_beta)
  note main = this
  show ?thesis
  proof (cases "ptypes = exp_pt_in")
    case True
    with main show ?thesis
      by (simp add: entry_ck_init_pin_def get_client_def cl del: wp_bind)
        (rule wp_session_args [OF inv cl]; auto simp del: wp_bind simp: inv intro!: wp_or_returnI)
  qed (simp add: entry_ck_init_pin_def inv)
qed

lemma wp_change_pin:
  assumes inv: "ta_inv s" and x: "ta_session s a = Some x" and panic: "storage_ok e \<or> P"
  shows "wp P (post e c pins s) (change_pin e x old_pin pin p s)"
proof -
  note t = ss_token_lt [OF inv x]
  have set: "wp P (\<lambda>y. wp P (post e c pins s) (case y of (rc, s) \<Rightarrow> Ret (rc, s, p)))
      (on_token (ss_token x) (\<lambda>tk. set_pin e rw tk pin user) (set_token s (ss_token x) tk'))"
    if "ta_inv (set_token s (ss_token x) tk')" for rw user tk'
    using wp_set_pin [OF that t panic, of s c pins rw pin user] by (simp add: split_beta)
  have user: "wp P (\<lambda>y. wp P (post e c pins s) (case y of (rc, s) \<Rightarrow>
        if rc \<noteq> PKCS11_CKR_OK then Ret (rc, s, p)
        else bind_outcome (on_token (ss_token x) (\<lambda>tk. set_pin e rw tk pin PKCS11_CKU_USER) s)
          (\<lambda>(rc, s). Ret (rc, s, p))))
      (on_token (ss_token x) (\<lambda>tk. check_user_pin e tk old_pin) s)" for rw
    by (rule wp_check_pin [OF inv t panic]) (auto simp: cmd_post_same set)
  have so: "wp P (\<lambda>y. wp P (post e c pins s) (case y of (rc, s) \<Rightarrow>
        if rc \<noteq> PKCS11_CKR_OK then Ret (rc, s, p)
        else bind_outcome (on_token (ss_token x) (\<lambda>tk. set_pin e rw tk pin PKCS11_CKU_SO) s)
          (\<lambda>(rc, s). Ret (rc, s, p))))
      (on_token (ss_token x) (\<lambda>tk. check_so_pin e tk old_pin) s)"
    if "bit (db_flags (tk_db_main (token_at s (ss_token x)))) 10" for rw
    by (rule wp_check_pin [OF inv t panic]) (auto simp: cmd_post_same set that)
  show ?thesis
    using inv user so by (simp add: change_pin_def Let_def ckft_and)
qed

lemma wp_entry_ck_set_pin:
  assumes inv: "ta_inv s" and cl: "ta_client s c = Some cl" and panic: "storage_ok e \<or> P"
  shows "wp P (post e c pins s) (entry_ck_set_pin e (Some c) ptypes p s)"
proof (cases "ptypes = exp_pt_in")
  case True
  have "wp P (post e c pins s) (bind_outcome (get_session s a) (\<lambda>x. change_pin e x old pin p s))"
    if "ta_session s a = Some x" for a x old pin
    using wp_change_pin [OF inv that panic] that by (simp add: get_session_def)
  with True show ?thesis
    by (simp add: entry_ck_set_pin_def get_client_def cl del: wp_bind)
      (rule wp_session_args [OF inv cl]; auto simp del: wp_bind simp: inv intro!: wp_or_returnI)
qed (simp add: entry_ck_set_pin_def inv)

section \<open>Login and logout\<close>

lemma session_login_eq:
  assumes inv: "ta_inv s" and x: "ta_session s a = Some x"
  shows "session_login_user x s = Ret (relogin (ss_client x) (ss_token x)
      (\<lambda>y. if pkcs11_session_is_read_write y then PKCS11_CKS_RW_USER_FUNCTIONS
           else PKCS11_CKS_RO_USER_FUNCTIONS) s)"
    and "session_logout x s = Ret (relogin (ss_client x) (ss_token x)
      (\<lambda>y. if pkcs11_session_is_read_write y then PKCS11_CKS_RW_PUBLIC_SESSION
           else PKCS11_CKS_RO_PUBLIC_SESSION) s)"
    and "(\<And>b y. ta_session s b = Some y \<Longrightarrow> ss_client y = ss_client x \<Longrightarrow> ss_token y = ss_token x \<Longrightarrow>
        pkcs11_session_is_read_write y) \<Longrightarrow>
      session_login_so x s = Ret (relogin (ss_client x) (ss_token x) (\<lambda>_. PKCS11_CKS_RW_SO_FUNCTIONS) s)"
proof -
  from ta_inv_session [OF inv x] obtain cl where cl: "ta_client s (ss_client x) = Some cl" by blast
  note upd = update_states_relogin [OF inv cl, of "ss_token x"]
  show "session_login_user x s = Ret (relogin (ss_client x) (ss_token x)
      (\<lambda>y. if pkcs11_session_is_read_write y then PKCS11_CKS_RW_USER_FUNCTIONS
           else PKCS11_CKS_RO_USER_FUNCTIONS) s)"
    by (simp add: session_login_user_def get_client_def cl upd)
  show "session_logout x s = Ret (relogin (ss_client x) (ss_token x)
      (\<lambda>y. if pkcs11_session_is_read_write y then PKCS11_CKS_RW_PUBLIC_SESSION
           else PKCS11_CKS_RO_PUBLIC_SESSION) s)"
    by (simp add: session_logout_def get_client_def cl upd)
  show "session_login_so x s = Ret (relogin (ss_client x) (ss_token x) (\<lambda>_. PKCS11_CKS_RW_SO_FUNCTIONS) s)"
    if "\<And>b y. ta_session s b = Some y \<Longrightarrow> ss_client y = ss_client x \<Longrightarrow> ss_token y = ss_token x \<Longrightarrow>
        pkcs11_session_is_read_write y"
    by (simp add: session_login_so_def get_client_def cl upd [of _ "\<lambda>_. PKCS11_CKS_RW_SO_FUNCTIONS"] that)
qed

text \<open>Changing the login of client \<open>c\<close> on a token from state \<open>s0\<close> on, where \<open>s\<close> has the same sessions.\<close>

lemma cmd_post_relogin:
  assumes inv: "ta_inv (relogin c t g s)" and same: "ta_session s = ta_session s0"
    and ok: "\<And>a x. ta_session s0 a = Some x \<Longrightarrow> ss_client x = c \<Longrightarrow> ss_token x = t \<Longrightarrow>
      login_of (g x) = Public \<or> (\<exists>pin \<in> pins. granted e pin s0 (x\<lparr>ss_state := g x\<rparr>))"
  shows "cmd_post e c pins s0 (relogin c t g s)"
  unfolding cmd_post_def
proof (intro conjI allI impI)
  fix a x assume "ta_session s0 a = Some x" "ss_client x \<noteq> c"
  then show "ta_session (relogin c t g s) a = Some x" by (simp add: ta_session_relogin same)
next
  fix a x assume *: "ta_session (relogin c t g s) a = Some x" "ss_client x \<noteq> c"
  then obtain y where y: "ta_session s a = Some y" by (auto simp: ta_session_relogin)
  from relogin_fields [OF y *(1)] *(2) have "ss_client y \<noteq> c" by simp
  with * y show "ta_session s0 a = Some x" by (simp add: ta_session_relogin same)
next
  fix a x assume *: "ta_session (relogin c t g s) a = Some x"
  then obtain y where y: "ta_session s0 a = Some y"
    and x: "x = (if ss_client y = c \<and> ss_token y = t then y\<lparr>ss_state := g y\<rparr> else y)"
    by (auto simp: ta_session_relogin same)
  show "login_of (ss_state x) = Public \<or> inherited s0 x \<or> (\<exists>pin\<in>pins. granted e pin s0 x)"
  proof (cases "ss_client y = c \<and> ss_token y = t")
    case True
    with ok [OF y] x show ?thesis by auto
  next
    case False
    with x y show ?thesis by (auto simp: inherited_def)
  qed
qed (rule inv)

lemma check_pin_granted:
  assumes ok: "token_ok (token_at s (ss_token x))"
  shows "check_user_pin e (token_at s (ss_token x)) pin = Ret (PKCS11_CKR_OK, tk') \<Longrightarrow>
      login_of (ss_state x) = User \<Longrightarrow> granted e pin s x"
    and "check_so_pin e (token_at s (ss_token x)) pin = Ret (PKCS11_CKR_OK, tk') \<Longrightarrow>
      login_of (ss_state x) = SO \<Longrightarrow>
      granted e pin s x \<and> bit (db_flags (tk_db_main (token_at s (ss_token x)))) 10"
proof -
  show "granted e pin s x" if "check_user_pin e (token_at s (ss_token x)) pin = Ret (PKCS11_CKR_OK, tk')"
    "login_of (ss_state x) = User"
    using that verify_pin_error [of e]
    by (auto simp: check_user_pin_eq [OF ok refl] granted_def ckft_and split: if_splits)
  have salt: "db_so_pin_salt (tk_db_main (token_at s (ss_token x))) \<noteq> 0"
    if "bit (db_flags (tk_db_main (token_at s (ss_token x)))) 10"
    using ok that by (auto simp: token_ok_def db_ok_bits)
  show "granted e pin s x \<and> bit (db_flags (tk_db_main (token_at s (ss_token x)))) 10"
    if "check_so_pin e (token_at s (ss_token x)) pin = Ret (PKCS11_CKR_OK, tk')"
    "login_of (ss_state x) = SO"
    using that salt verify_pin_error [of e]
    by (auto simp: check_so_pin_eq [OF ok refl] granted_def ckft_and split: if_splits)
qed

lemma wp_login_user:
  assumes inv: "ta_inv s" and x: "ta_session s a = Some x"
    and inv1: "ta_inv (set_token s (ss_token x) tk')"
    and check: "check_user_pin e (token_at s (ss_token x)) pin = Ret (PKCS11_CKR_OK, tk')"
  shows "wp P (\<lambda>s'. cmd_post e (ss_client x) {pin} s s') (session_login_user x (set_token s (ss_token x) tk'))"
proof -
  let ?s1 = "set_token s (ss_token x) tk'"
  let ?g = "\<lambda>y. if pkcs11_session_is_read_write y then PKCS11_CKS_RW_USER_FUNCTIONS
    else PKCS11_CKS_RO_USER_FUNCTIONS"
  note t = ss_token_lt [OF inv x]
  have x1: "ta_session ?s1 a = Some x" by (simp add: x)
  have "ta_inv (relogin (ss_client x) (ss_token x) ?g ?s1)"
    by (rule ta_inv_relogin [OF inv1 t, where l = User]) (auto simp: pkcs11_session_is_read_write_def)
  moreover have "granted e pin s (y\<lparr>ss_state := ?g y\<rparr>)" if "ss_token y = ss_token x" for y
    using check_pin_granted(1) [of s "y\<lparr>ss_state := ?g y\<rparr>" e pin tk'] check that ta_inv_token [OF inv t]
    by simp
  ultimately have "cmd_post e (ss_client x) {pin} s (relogin (ss_client x) (ss_token x) ?g ?s1)"
    by (intro cmd_post_relogin) auto
  then show ?thesis by (simp add: session_login_eq(1) [OF inv1 x1])
qed

lemma wp_login_so:
  assumes inv: "ta_inv s" and x: "ta_session s a = Some x"
    and inv1: "ta_inv (set_token s (ss_token x) tk')"
    and check: "check_so_pin e (token_at s (ss_token x)) pin = Ret (PKCS11_CKR_OK, tk')"
    and keep: "bit (db_flags (tk_db_main (token_at s (ss_token x)))) 10 \<longrightarrow>
      bit (db_flags (tk_db_main tk')) 10"
    and rw: "\<not> (\<exists>b y. ta_session s b = Some y \<and> ss_client y = ss_client x \<and>
      ss_token y = ss_token x \<and> \<not> pkcs11_session_is_read_write y)"
  shows "wp P (\<lambda>s'. cmd_post e (ss_client x) {pin} s s') (session_login_so x (set_token s (ss_token x) tk'))"
proof -
  let ?s1 = "set_token s (ss_token x) tk'" and ?g = "\<lambda>_. PKCS11_CKS_RW_SO_FUNCTIONS"
  note t = ss_token_lt [OF inv x]
  have x1: "ta_session ?s1 a = Some x" by (simp add: x)
  have rw1: "pkcs11_session_is_read_write y" if "ta_session ?s1 b = Some y" "ss_client y = ss_client x"
    "ss_token y = ss_token x" for b y
    using rw that by auto
  have g: "granted e pin s (y\<lparr>ss_state := ?g y\<rparr>) \<and> bit (db_flags (tk_db_main (token_at s (ss_token x)))) 10"
    if "ss_token y = ss_token x" for y
    using check_pin_granted(2) [of s "y\<lparr>ss_state := ?g y\<rparr>" e pin tk'] check that ta_inv_token [OF inv t]
    by simp
  have "ta_inv (relogin (ss_client x) (ss_token x) ?g ?s1)"
  proof (rule ta_inv_relogin [OF inv1 t, where l = SO])
    show "bit (db_flags (tk_db_main (token_at ?s1 (ss_token x)))) 10"
      using g [OF refl] keep t ta_inv_length [OF inv] by simp
  qed (use rw1 in \<open>auto simp: pkcs11_session_is_read_write_def\<close>)
  from this have "cmd_post e (ss_client x) {pin} s (relogin (ss_client x) (ss_token x) ?g ?s1)"
    using g by (intro cmd_post_relogin) auto
  moreover have "session_login_so x ?s1 = Ret (relogin (ss_client x) (ss_token x) ?g ?s1)"
    by (rule session_login_eq(3) [OF inv1 x1]) (rule rw1)
  ultimately show ?thesis by simp
qed

lemma wp_login:
  assumes inv: "ta_inv s" and cl: "ta_client s c = Some cl" and x: "ta_session s a = Some x" "ss_client x = c"
    and panic: "storage_ok e \<or> P" and init: "bit (db_flags (tk_db_main (token_at s (ss_token x)))) 10 \<or> P"
  shows "wp P (post e c {pin} s) (login e cl x user_type pin p s)"
proof -
  note t = ss_token_lt [OF inv x(1)]
  have "wp P (\<lambda>r. wp P (post e c {pin} s) (case r of (rc, s) \<Rightarrow>
        if rc = PKCS11_CKR_OK then bind_outcome (session_login_user x s) (\<lambda>s. Ret (rc, s, p))
        else Ret (rc, s, p)))
      (on_token (ss_token x) (\<lambda>tk. check_user_pin e tk pin) s)"
    by (rule wp_check_pin [OF inv t panic])
      (use wp_login_user [OF inv x(1)] x(2) in \<open>auto simp: cmd_post_same\<close>)
  moreover have "wp P (\<lambda>r. wp P (post e c {pin} s) (case r of (rc, s) \<Rightarrow>
        if rc = PKCS11_CKR_OK then bind_outcome (session_login_so x s) (\<lambda>s. Ret (rc, s, p))
        else Ret (rc, s, p)))
      (on_token (ss_token x) (\<lambda>tk. check_so_pin e tk pin) s)"
    if "\<not> (\<exists>b y. ta_session s b = Some y \<and> ss_client y = c \<and> ss_token y = ss_token x \<and>
      \<not> pkcs11_session_is_read_write y)"
    by (rule wp_check_pin [OF inv t panic])
      (use wp_login_so [OF inv x(1)] x(2) that init in \<open>auto simp: cmd_post_same\<close>)
  ultimately show ?thesis
    unfolding login_def using inv by (simp add: any_client_session_eq [OF inv cl])
qed

text \<open>
  The PIN of a login command is what follows the three words at the start of the control buffer.
\<close>

definition login_pin :: "tee_params \<Rightarrow> pkcs11_ta \<Rightarrow> u8 list" where
  "login_pin p s = bytes_at (ta_mem s) (mr_buffer (pr0 p) + 12) (unat (mr_size (pr0 p)) - 12)"

lemma wp_entry_ck_login:
  assumes inv: "ta_inv s" and cl: "ta_client s c = Some cl" and buf: "buffer_ok p"
    and panic: "storage_ok e \<or> P"
    and init: "(\<forall>t < TOKEN_COUNT. bit (db_flags (tk_db_main (token_at s t))) 10) \<or> P"
  shows "wp P (post e c {login_pin p s} s) (entry_ck_login e (Some c) ptypes p s)"
proof (cases "ptypes = exp_pt_in")
  case True
  have "wp P (post e c {login_pin p s} s) (bind_outcome (get_session s a) (\<lambda>x.
      login e cl x user_type (pin_bytes s pin pin_size) p s))"
    if 1: "serialargs_get_session_from_handle (ta_mem s) (ctrl_args p) cl = Inr (args1, a)"
      and x: "ta_session s a = Some x" "ss_client x = c"
      and 2: "serialargs_get_u32 (ta_mem s) args1 = Inr (args2, user_type)"
      and 3: "serialargs_get_u32 (ta_mem s) args2 = Inr (args3, pin_size)"
      and 4: "serialargs_get_ptr args3 (ucast pin_size) = Inr (args4, pin)"
      and 5: "\<not> serialargs_remaining_bytes args4"
    for args1 args2 args3 args4 a x user_type pin_size pin
  proof -
    have "args_at p (0 + 4) args1" by (rule get_session_at(1) [OF buf args_at_0 1])
    from get_u32_at(1) [OF buf this 2] have "args_at p (0 + 4 + 4) args2" .
    from get_u32_at(1) [OF buf this 3] have at3: "args_at p 12 args3" by simp
    have "args_at p (12 + unat pin_size) args4" and ptr: "pin_size \<noteq> 0 \<Longrightarrow> pin = mr_buffer (pr0 p) + of_nat 12"
      using get_ptr_at [OF buf at3 4] by auto
    with remaining_at [OF buf this(1)] 5 have "unat (mr_size (pr0 p)) = 12 + unat pin_size"
      by (simp add: args_at_def)
    then have "pin_bytes s pin pin_size = login_pin p s"
      using ptr by (cases "pin_size = 0") (simp_all add: pin_bytes_def login_pin_def bytes_at_def)
    with wp_login [OF inv cl x panic, of "login_pin p s" user_type p] init ss_token_lt [OF inv x(1)] x
    show ?thesis by (auto simp: get_session_def)
  qed
  with True show ?thesis
    by (simp add: entry_ck_login_def get_client_def cl del: wp_bind)
      (rule wp_session_args [OF inv cl]; auto simp del: wp_bind simp: inv intro!: wp_or_returnI)
qed (simp add: entry_ck_login_def inv)

lemma wp_entry_ck_logout:
  assumes inv: "ta_inv s" and cl: "ta_client s c = Some cl"
  shows "wp P (post e c pins s) (entry_ck_logout (Some c) ptypes p s)"
proof (cases "ptypes = exp_pt_in")
  case True
  have "wp P (post e c pins s) (bind_outcome (get_session s a) (\<lambda>x.
      if pkcs11_session_is_public x then Ret (PKCS11_CKR_USER_NOT_LOGGED_IN, s, p)
      else bind_outcome (session_logout x s) (\<lambda>s. Ret (PKCS11_CKR_OK, s, p))))"
    if x: "ta_session s a = Some x" "ss_client x = c" for a x
  proof -
    let ?g = "\<lambda>y. if pkcs11_session_is_read_write y then PKCS11_CKS_RW_PUBLIC_SESSION
      else PKCS11_CKS_RO_PUBLIC_SESSION"
    have "ta_inv (relogin (ss_client x) (ss_token x) ?g s)"
      by (rule ta_inv_relogin [OF inv ss_token_lt [OF inv x(1)], where l = Public])
        (auto simp: pkcs11_session_is_read_write_def)
    then have "cmd_post e c pins s (relogin (ss_client x) (ss_token x) ?g s)"
      unfolding x(2) by (intro cmd_post_relogin) auto
    then show ?thesis using x inv by (simp add: get_session_def session_login_eq(2) [OF inv x(1)])
  qed
  with True show ?thesis
    by (simp add: entry_ck_logout_def get_client_def cl del: wp_bind)
      (rule wp_session_args [OF inv cl]; auto simp del: wp_bind simp: inv)
qed (simp add: entry_ck_logout_def inv)

end
