(* ===== verification/Pkcs11_Safe.thy ===== *)
theory Pkcs11_Safe
  imports Pkcs11_Cmd
begin

text \<open>
  The PKCS\#11 trusted application as a state machine: the steps are its entry points, in any order and
  for any number of clients, changes of the shared memory by the clients between commands, and restarts
  from secure storage. The properties hold in every reachable state.
\<close>

unbundle bit_operations_syntax

section \<open>Commands\<close>

text \<open>The conditions of the environment under which no command panics.\<close>

definition env_good :: "tee_env \<Rightarrow> bool" where
  "env_good e \<longleftrightarrow> storage_ok e \<and> (case env_uuid e of None \<Rightarrow> True | Some u \<Rightarrow> length u = 36)"

definition tokens_initialized :: "pkcs11_ta \<Rightarrow> bool" where
  "tokens_initialized s \<longleftrightarrow>
     list_all (\<lambda>tk. db_flags (tk_db_main tk) AND PKCS11_CKFT_TOKEN_INITIALIZED \<noteq> 0) (ta_token s)"

lemma tokens_initialized_bits:
  "ta_inv s \<Longrightarrow> tokens_initialized s \<longleftrightarrow> (\<forall>t < TOKEN_COUNT. bit (db_flags (tk_db_main (token_at s t))) 10)"
  using ta_inv_length [of s] by (auto simp: tokens_initialized_def list_all_length token_at_def ckft_and)

lemma wp_ta_command:
  assumes inv: "ta_inv s" and cl: "ta_client s c = Some cl" and fresh: "env_fresh e s"
    and buf: "buffer_ok p" and cmd: "ta_command e c cmd ptypes p s = Some r"
  shows "wp (\<not> env_good e \<or> cmd = 13 \<and> \<not> tokens_initialized s)
    (post e c (if cmd = 13 then {login_pin p s} else {}) s) r"
proof -
  let ?P = "\<not> env_good e \<or> cmd = 13 \<and> \<not> tokens_initialized s"
  have panic: "storage_ok e \<or> ?P" by (simp add: env_good_def)
  have uuid: "\<forall>u. env_uuid e = Some u \<longrightarrow> length u = 36 \<or> ?P" by (simp add: env_good_def)
  have init: "cmd = 13 \<Longrightarrow> (\<forall>t < TOKEN_COUNT. bit (db_flags (tk_db_main (token_at s t))) 10) \<or> ?P"
    using tokens_initialized_bits [OF inv] by auto
  note wps = wp_info_commands [OF inv, of ?P e c "{}"] wp_entry_ck_slot_info [OF inv uuid, where c = c and pins = "{}"]
    wp_entry_ck_open_session [OF inv cl fresh, of ?P "{}"] wp_entry_ck_close_session [OF inv cl, of ?P e "{}"]
    wp_entry_ck_close_all_sessions [OF inv cl, of ?P e "{}"] wp_entry_ck_session_info [OF inv cl, of ?P e "{}"]
    wp_entry_ck_token_initialize [OF inv panic, of c "{}"] wp_entry_ck_init_pin [OF inv cl panic, of "{}"]
    wp_entry_ck_set_pin [OF inv cl panic, of "{}"] wp_entry_ck_logout [OF inv cl, of ?P e "{}"]
  show ?thesis
  proof (cases "cmd = 13")
    case True
    with cmd have "r = entry_ck_login e (Some c) ptypes p s" by (simp add: ta_command_def)
    with wp_entry_ck_login [OF inv cl buf panic init] True show ?thesis by simp
  next
    case False
    with cmd wps show ?thesis by (auto simp: ta_command_def split: if_splits)
  qed
qed

lemma wp_invoke:
  assumes inv: "ta_inv s" and fresh: "env_fresh e s" and buf: "buffer_ok p"
  shows "wp (\<not> env_good e \<or> cmd = 13 \<and> \<not> tokens_initialized s)
    (\<lambda>(res, s', p'). cmd_post e c (if cmd = 13 then {login_pin p s} else {}) s s')
    (TA_InvokeCommandEntryPoint e c cmd ptypes p s)"
proof (cases "c \<in> set (ta_client_list s)")
  case False
  then show ?thesis using inv by (simp add: TA_InvokeCommandEntryPoint_def tee_session2client_def)
next
  case True
  then obtain cl where cl: "ta_client s c = Some cl"
    using ta_invD(2) [OF inv] by (auto simp: clients_ok_def)
  define P where "P \<longleftrightarrow> \<not> env_good e \<or> cmd = 13 \<and> \<not> tokens_initialized s"
  define pins where "pins = (if cmd = 13 then {login_pin p s} else {})"
  have main: "wp P (post e c pins s) r" if "ta_command e c cmd ptypes p s = Some r" for r
    using wp_ta_command [OF inv cl fresh buf that] by (simp only: P_def pins_def)
  have "wp P (\<lambda>(res, s', p'). cmd_post e c pins s s') (TA_InvokeCommandEntryPoint e c cmd ptypes p s)"
  proof (cases "ta_command e c cmd ptypes p s")
    case None
    with True inv show ?thesis
      by (simp add: TA_InvokeCommandEntryPoint_def tee_session2client_def Let_def)
  next
    case (Some r)
    have "wp P (\<lambda>x. cmd_post e c pins s (fst (snd x))) r"
      by (rule wp_mono [OF main [OF Some]]) (simp add: split_beta)
    with True inv Some show ?thesis
      by (simp add: TA_InvokeCommandEntryPoint_def tee_session2client_def Let_def split_beta)
  qed
  then show ?thesis by (simp only: P_def pins_def)
qed

section \<open>Steps\<close>

definition blank_ta :: "64 mem \<Rightarrow> pkcs11_ta" where
  "blank_ta m = \<lparr>ta_token = replicate TOKEN_COUNT \<lparr>tk_state = PKCS11_TOKEN_RESET, tk_session_count = 0,
       tk_rw_session_count = 0, tk_db_main = zero_db, tk_object = None\<rparr>,
     ta_client_list = [], ta_client = Map.empty, ta_session = Map.empty, ta_mem = m\<rparr>"

definition restart_ta :: "pkcs11_ta \<Rightarrow> pkcs11_ta" where
  "restart_ta s = \<lparr>ta_token = map restart_token (ta_token s), ta_client_list = [],
     ta_client = Map.empty, ta_session = Map.empty, ta_mem = ta_mem s\<rparr>"

inductive ta_step :: "pkcs11_ta \<Rightarrow> pkcs11_ta \<Rightarrow> bool" where
  open_client: "env_fresh e s \<Longrightarrow> TA_OpenSessionEntryPoint e s = (r, s') \<Longrightarrow> ta_step s s'"
| close_client: "TA_CloseSessionEntryPoint c s = Ret s' \<Longrightarrow> ta_step s s'"
| invoke: "env_fresh e s \<Longrightarrow> buffer_ok p \<Longrightarrow>
    TA_InvokeCommandEntryPoint e c cmd ptypes p s = Ret (res, s', p') \<Longrightarrow> ta_step s s'"
| memory: "ta_step s (s\<lparr>ta_mem := m\<rparr>)"
| restart: "(\<And>n. honest_storage (e n)) \<Longrightarrow> pkcs11_init e (restart_ta s) = Ret (TEE_SUCCESS, s') \<Longrightarrow> ta_step s s'"

inductive ta_reachable :: "pkcs11_ta \<Rightarrow> bool" where
  start: "(\<And>n. honest_storage (e n)) \<Longrightarrow> pkcs11_init e (blank_ta m) = Ret (TEE_SUCCESS, s) \<Longrightarrow> ta_reachable s"
| step: "ta_reachable s \<Longrightarrow> ta_step s s' \<Longrightarrow> ta_reachable s'"

text \<open>Initialization of tokens whose objects are absent or well-formed.\<close>

lemma init_tokens_ok:
  assumes "init_tokens e n (map restart_token tks) = Ret (TEE_SUCCESS, tks')"
    and "\<forall>tk \<in> set tks. tk_object tk = None \<or> token_ok tk" and honest: "\<And>n. honest_storage (e n)"
  shows "length tks' = length tks \<and>
    (\<forall>tk \<in> set tks'. token_ok tk \<and> tk_session_count tk = 0 \<and> tk_rw_session_count tk = 0)"
  using assms(1,2)
proof (induction tks arbitrary: n tks')
  case (Cons tk tks)
  from Cons.prems(1) obtain tk1 tks1 where 1: "pkcs11_token_init (e n) (restart_token tk) = Ret (TEE_SUCCESS, tk1)"
    and 2: "init_tokens e (Suc n) (map restart_token tks) = Ret (TEE_SUCCESS, tks1)" "tks' = tk1 # tks1"
    by (auto split: if_splits)
  from pkcs11_token_init_restart [OF _ honest 1] Cons.prems(2)
  have "token_ok tk1 \<and> tk_session_count tk1 = 0 \<and> tk_rw_session_count tk1 = 0" by auto
  with Cons.IH [OF 2(1)] Cons.prems(2) 2(2) show ?case by simp
qed simp

lemma ta_inv_no_sessions:
  assumes "length (ta_token s) = TOKEN_COUNT" and "ta_client_list s = []" and "ta_client s = Map.empty"
    and "ta_session s = Map.empty"
    and "\<forall>tk \<in> set (ta_token s). token_ok tk \<and> tk_session_count tk = 0 \<and> tk_rw_session_count tk = 0"
  shows "ta_inv s"
  using assms by (simp add: ta_inv_defs sessions_on_def rw_sessions_on_def token_at_def)

lemma ta_inv_init:
  assumes "pkcs11_init e (restart_ta s) = Ret (TEE_SUCCESS, s')" and "\<And>n. honest_storage (e n)"
    and "length (ta_token s) = TOKEN_COUNT" and "\<forall>tk \<in> set (ta_token s). tk_object tk = None \<or> token_ok tk"
  shows "ta_inv s'"
proof -
  from assms(1) obtain tks where "init_tokens e 0 (map restart_token (ta_token s)) = Ret (TEE_SUCCESS, tks)"
    and s': "s' = restart_ta s\<lparr>ta_token := tks\<rparr>"
    by (auto simp: pkcs11_init_def restart_ta_def)
  from init_tokens_ok [OF this(1) assms(4,2)] assms(3) show ?thesis
    by (intro ta_inv_no_sessions) (simp_all add: s' restart_ta_def)
qed

lemma ta_step_inv:
  assumes "ta_step s s'" and inv: "ta_inv s"
  shows "ta_inv s'"
  using assms(1)
proof cases
  case (open_client e r)
  with register_client_inv [OF inv open_client(1)] show ?thesis
    by (auto simp: TA_OpenSessionEntryPoint_def split: prod.splits option.splits)
next
  case (close_client c)
  then show ?thesis
    using unregister_client_inv [OF inv, of c] inv
    by (auto simp: TA_CloseSessionEntryPoint_def tee_session2client_def unregister_client_def
        split: if_splits)
next
  case (invoke e p c cmd ptypes res p')
  with wp_invoke [OF inv invoke(1,2), of cmd c ptypes] show ?thesis by (simp add: cmd_post_def)
next
  case (memory m)
  then show ?thesis using inv ta_inv_cong [of s' s] by simp
next
  case (restart e)
  show ?thesis
  proof (rule ta_inv_init [OF restart(2,1)])
    show "length (ta_token s) = TOKEN_COUNT" by (rule ta_inv_length [OF inv])
    show "\<forall>tk \<in> set (ta_token s). tk_object tk = None \<or> token_ok tk"
      using ta_invD(5) [OF inv] by (auto simp: tokens_ok_def token_at_def in_set_conv_nth)
  qed
qed

lemma ta_reachable_inv: "ta_reachable s \<Longrightarrow> ta_inv s"
proof (induction rule: ta_reachable.induct)
  case (start e m s)
  have blank: "blank_ta m = restart_ta (blank_ta m)"
    by (simp add: blank_ta_def restart_ta_def restart_token_def)
  show ?case
    by (rule ta_inv_init [of e "blank_ta m"])
      (use start blank in \<open>auto simp: blank_ta_def\<close>)
qed (rule ta_step_inv)

lemma invoke_post:
  assumes "ta_reachable s" and "env_fresh e s" and "buffer_ok p"
    and "TA_InvokeCommandEntryPoint e c cmd ptypes p s = Ret (res, s', p')"
  shows "cmd_post e c (if cmd = 13 then {login_pin p s} else {}) s s'"
  using wp_invoke [OF ta_reachable_inv [OF assms(1)] assms(2,3), of cmd c ptypes] assms(4) by simp

section \<open>Properties\<close>

text \<open>
  C18. In every reachable state of the PKCS\#11 application, whatever commands its clients have sent:
  session lists, handle databases and sessions agree, the session counters of the tokens are the
  numbers of their open and read/write sessions, all sessions of a client on a token agree on who is
  logged in (so a read-only session never exists under a security officer login), the PIN counters and
  flags of the tokens are consistent, and the persistent objects equal the copies in memory.
\<close>

theorem pkcs11_ta_invariant:
  assumes "ta_reachable s"
  shows "ta_inv s"
  using assms by (rule ta_reachable_inv)


text \<open>
  C2. Authentication: when a session shows a user or security officer login after a command, then
  either its client had that login on that token already, or the command was a login and the PIN in the
  control buffer matches the stored salted digest of a PIN that is set and not locked.
\<close>

theorem pkcs11_login_authenticated:
  assumes "ta_reachable s" and "env_fresh e s" and "buffer_ok p"
    and "TA_InvokeCommandEntryPoint e c cmd ptypes p s = Ret (res, s', p')"
    and "ta_session s' a = Some x" and "login_of (ss_state x) \<noteq> Public"
  shows "inherited s x \<or> cmd = 13 \<and> granted e (login_pin p s) s x"
proof -
  from invoke_post [OF assms(1-4)] assms(5,6)
  have "inherited s x \<or> (\<exists>pin \<in> (if cmd = 13 then {login_pin p s} else {}). granted e pin s x)"
    unfolding cmd_post_def by blast
  then show ?thesis by (simp split: if_splits)
qed

text \<open>
  C28. Isolation: a command of one client neither changes, opens nor closes a session of another client.
\<close>

theorem pkcs11_client_isolation:
  assumes "ta_reachable s" and "env_fresh e s" and "buffer_ok p"
    and "TA_InvokeCommandEntryPoint e c cmd ptypes p s = Ret (res, s', p')" and "ss_client x \<noteq> c"
  shows "ta_session s' a = Some x \<longleftrightarrow> ta_session s a = Some x"
  using invoke_post [OF assms(1-4)] assms(5) unfolding cmd_post_def by blast

section \<open>A run\<close>

text \<open>Client 1 opens a read/write session on token 0, which is not initialized.\<close>

definition ex_token0 :: ck_token where
  "ex_token0 = \<lparr>tk_state = PKCS11_TOKEN_READ_WRITE, tk_session_count = 0, tk_rw_session_count = 0,
     tk_db_main = default_db, tk_object = Some default_db\<rparr>"

definition ex_ta0 :: pkcs11_ta where
  "ex_ta0 = \<lparr>ta_token = [ex_token0, ex_token0, ex_token0], ta_client_list = [],
     ta_client = Map.empty, ta_session = Map.empty, ta_mem = (\<lambda>a. 0)\<rparr>"

lemma ex_ta0_reachable: "ta_reachable ex_ta0"
proof (rule ta_reachable.start [of "\<lambda>n. ex_env"])
  show "pkcs11_init (\<lambda>n. ex_env) (blank_ta (\<lambda>a. 0)) = Ret (TEE_SUCCESS, ex_ta0)"
    by (simp add: pkcs11_init_def blank_ta_def TOKEN_COUNT_def ex_ta0_def ex_token0_def numeral_3_eq_3
        pkcs11_token_init_def init_persistent_db_def open_db_file_def ex_env_def)
qed (rule ex_env_ok)

text \<open>The application with one client, where token 0 is \<open>tk\<close> and the shared memory \<open>m\<close>.\<close>

definition ex_ta1 :: "ck_token \<Rightarrow> 64 mem \<Rightarrow> pkcs11_ta" where
  "ex_ta1 tk m = \<lparr>ta_token = [tk, ex_token0, ex_token0], ta_client_list = [1], ta_client = [1 \<mapsto> \<lparr>cl_session_list = [],
     cl_session_handle_db = pkcs11_handle_db_init\<rparr>], ta_session = Map.empty, ta_mem = m\<rparr>"

lemma ex_ta1_memory: "ta_reachable (ex_ta1 tk m) \<Longrightarrow> ta_reachable (ex_ta1 tk m')"
  using ta_reachable.step [OF _ ta_step.memory [of "ex_ta1 tk m" m']] by (simp add: ex_ta1_def)

lemma ex_ta1_reachable: "ta_reachable (ex_ta1 ex_token0 m)"
proof -
  have "ta_step ex_ta0 (ex_ta1 ex_token0 (\<lambda>a. 0))"
    by (rule ta_step.open_client [of ex_env _ "(TEE_SUCCESS, Some 1)"])
      (simp_all add: env_fresh_def TA_OpenSessionEntryPoint_def register_client_def ex_env_def ex_ta0_def
        ex_ta1_def)
  then have "ta_reachable (ex_ta1 ex_token0 (\<lambda>a. 0))" using ex_ta0_reachable by (rule ta_reachable.step [rotated])
  then show ?thesis by (rule ex_ta1_memory)
qed

definition open_mem :: "64 mem" where "open_mem = (\<lambda>a. if a = 0x1004 then 6 else 0)"

definition ex_params :: "u32 \<Rightarrow> tee_params" where
  "ex_params n = \<lparr>pr0 = \<lparr>mr_buffer = 0x1000, mr_size = n\<rparr>, pr2 = \<lparr>mr_buffer = 0x2000, mr_size = 4\<rparr>\<rparr>"

lemma ex_params_ok: "buffer_ok (ex_params n)"
  by (simp add: buffer_ok_def ex_params_def)

lemma bytes_at_4: "bytes_at m a 4 = [m a, m (a + 1), m (a + 2), m (a + 3)]"
  by (simp add: bytes_at_def upt_conv_Cons numeral_eq_Suc)

definition ex_env2 :: tee_env where "ex_env2 = ex_env\<lparr>env_malloc := Some 2\<rparr>"

definition ex_session :: pkcs11_session where
  "ex_session = \<lparr>ss_client = 1, ss_token = 0, ss_handle = 1, ss_state = PKCS11_CKS_RW_PUBLIC_SESSION\<rparr>"

definition ex_ta2 :: "ck_token \<Rightarrow> 64 mem \<Rightarrow> pkcs11_ta" where
  "ex_ta2 tk m = \<lparr>ta_token = [tk\<lparr>tk_session_count := tk_session_count tk + 1,
       tk_rw_session_count := tk_rw_session_count tk + 1\<rparr>, ex_token0, ex_token0],
     ta_client_list = [1], ta_client = [1 \<mapsto> \<lparr>cl_session_list = [2], cl_session_handle_db =
       \<lparr>pk_ptrs = [None, Some 2, None, None], pk_max_ptrs = 4\<rparr>\<rparr>],
     ta_session = [2 \<mapsto> ex_session], ta_mem = m\<rparr>"

lemma replicate_4: "replicate 4 x = [x, x, x, x]"
  by (simp add: numeral_eq_Suc)

lemma ex_handle_get:
  "pkcs11_handle_get 1024 (Some pkcs11_handle_db_init) (Some (2 :: addr)) =
     (Some \<lparr>pk_ptrs = [None, Some 2, None, None], pk_max_ptrs = 4\<rparr>, 1)"
  by (simp add: pkcs11_handle_get_def pkcs11_handle_db_init_def find_empty.simps realloc_ok_def
      word_le_nat_alt replicate_4)

lemma ex_params_simps [simp]:
  "mr_size (pr0 (ex_params n)) = n" "mr_size (pr2 (ex_params n)) = 4"
  "mr_buffer (pr0 (ex_params n)) = 0x1000"
  by (simp_all add: ex_params_def)

lemma ex_ta1_simps [simp]:
  "ta_client (ex_ta1 tk m) 1 = Some \<lparr>cl_session_list = [], cl_session_handle_db = pkcs11_handle_db_init\<rparr>"
  "ta_client (ex_ta1 tk m) (Suc 0) = Some \<lparr>cl_session_list = [], cl_session_handle_db = pkcs11_handle_db_init\<rparr>"
  "ta_client_list (ex_ta1 tk m) = [1]" "token_at (ex_ta1 tk m) 0 = tk" "ta_mem (ex_ta1 tk m) = m"
  "set_token (ex_ta1 tk m) 0 tk' = ex_ta1 tk' m" "ta_session (ex_ta1 tk m) a = None"
  by (simp_all add: ex_ta1_def token_at_def set_token_def)

lemma ex_ta2_simps [simp]:
  "ta_client (ex_ta2 tk m) (Suc 0) = Some \<lparr>cl_session_list = [2], cl_session_handle_db =
      \<lparr>pk_ptrs = [None, Some 2, None, None], pk_max_ptrs = 4\<rparr>\<rparr>"
  "ta_session (ex_ta2 tk m) 2 = Some ex_session" "ta_client_list (ex_ta2 tk m) = [1]"
  "ta_mem (ex_ta2 tk m) = m" "token_at (ex_ta2 tk m) 0 = tk\<lparr>tk_session_count := tk_session_count tk + 1,
       tk_rw_session_count := tk_rw_session_count tk + 1\<rparr>"
  by (simp_all add: ex_ta2_def token_at_def)

lemma ex_open_args:
  "serialargs_get_u32 open_mem (ctrl_args (ex_params 8)) =
     Inr (\<lparr>sa_start = 0x1000, sa_next = 0x1004, sa_size = 8\<rparr>, 0)"
  "serialargs_get_u32 open_mem \<lparr>sa_start = 0x1000, sa_next = 0x1004, sa_size = 8\<rparr> =
     Inr (\<lparr>sa_start = 0x1000, sa_next = 0x1008, sa_size = 8\<rparr>, 6)"
  by (simp_all add: serialargs_get_u32_def serialargs_get_def ctrl_args_def
      serialargs_init_def bytes_at_4 open_mem_def le32_def)

lemma ex_open_session:
  assumes "tk_state tk \<noteq> PKCS11_TOKEN_READ_ONLY"
  shows "entry_ck_open_session ex_env2 (Some 1) exp_pt_out (ex_params 8) (ex_ta1 tk open_mem) =
    Ret (PKCS11_CKR_OK, write_out (ex_ta2 tk open_mem) (pr2 (ex_params 8)) (le32_bytes 1), ex_params 8)"
proof -
  have "open_session ex_env2 1 \<lparr>cl_session_list = [], cl_session_handle_db = pkcs11_handle_db_init\<rparr> 0 False
      (ex_params 8) (ex_ta1 tk open_mem) = Ret (PKCS11_CKR_OK,
     write_out (ex_ta2 tk open_mem) (pr2 (ex_params 8)) (le32_bytes 1), ex_params 8)"
    by (simp add: open_session_def ex_env2_def ex_env_def ex_handle_get set_session_state_def Let_def
        ex_session_def) (simp add: ex_ta2_def ex_ta1_def ex_session_def)
  then show ?thesis using assms
    by (simp add: entry_ck_open_session_def ex_open_args serialargs_remaining_bytes_def get_token_def
        TOKEN_COUNT_def PKCS11_CKFSS_RW_SESSION_def PKCS11_CKFSS_SERIAL_SESSION_def get_client_def
        Let_def)
qed

lemma exp_pt_first: "TEE_PARAM_TYPE_GET exp_pt_out 0 = TEE_PARAM_TYPE_MEMREF_INOUT"
  "TEE_PARAM_TYPE_GET exp_pt_in 0 = TEE_PARAM_TYPE_MEMREF_INOUT"
  by (simp_all add: TEE_PARAM_TYPE_GET_def exp_pt_out_def exp_pt_in_def TEE_PARAM_TYPES_def
      TEE_PARAM_TYPE_NONE_def TEE_PARAM_TYPE_MEMREF_INOUT_def TEE_PARAM_TYPE_MEMREF_OUTPUT_def)

lemma ex_open_invoke:
  assumes "tk_state tk \<noteq> PKCS11_TOKEN_READ_ONLY"
  shows "\<exists>m p'. TA_InvokeCommandEntryPoint ex_env2 1 6 exp_pt_out (ex_params 8) (ex_ta1 tk open_mem) =
     Ret (TEE_SUCCESS, ex_ta2 tk m, p')"
proof -
  have "\<exists>m'. write_out (write_out (ex_ta2 tk open_mem) r bs) r' bs' = ex_ta2 tk m'" for r bs r' bs'
    by (auto simp: write_out_def ex_ta2_def)
  then show ?thesis
    by (simp add: TA_InvokeCommandEntryPoint_def tee_session2client_def exp_pt_first ta_command_def
        ex_open_session [OF assms, simplified] Let_def)
qed

lemma ex_fresh: "env_fresh ex_env2 (ex_ta1 tk m)"
  by (simp add: env_fresh_def ex_env2_def) (simp add: ex_ta1_def)

lemma ex_ta2_reachable:
  assumes "ta_reachable (ex_ta1 tk m)" and "tk_state tk \<noteq> PKCS11_TOKEN_READ_ONLY"
  shows "ta_reachable (ex_ta2 tk m')"
proof -
  from ex_open_invoke [OF assms(2)] obtain m1 p' where
    "TA_InvokeCommandEntryPoint ex_env2 1 6 exp_pt_out (ex_params 8) (ex_ta1 tk open_mem) =
      Ret (TEE_SUCCESS, ex_ta2 tk m1, p')" by blast
  from ta_reachable.step [OF ex_ta1_memory [OF assms(1)] ta_step.invoke [OF ex_fresh ex_params_ok this]]
  have "ta_reachable (ex_ta2 tk m1)" .
  from ta_reachable.step [OF this ta_step.memory [of _ m']] show ?thesis by (simp add: ex_ta2_def)
qed

theorem pkcs11_ta_invariant_witness:
  "ta_inv (ex_ta2 ex_token0 open_mem) \<and> tk_session_count (token_at (ex_ta2 ex_token0 open_mem) 0) = 1"
  using pkcs11_ta_invariant [OF ex_ta2_reachable [OF ex_ta1_reachable [of open_mem], of open_mem]]
  by (simp add: ex_token0_def)


theorem pkcs11_client_isolation_witness:
  "\<exists>s' p'. TA_InvokeCommandEntryPoint ex_env2 1 6 exp_pt_out (ex_params 8) (ex_ta1 ex_token0 open_mem) =
       Ret (TEE_SUCCESS, s', p') \<and> ta_session s' 2 \<noteq> Some (ex_session\<lparr>ss_client := 7\<rparr>)"
proof -
  have "tk_state ex_token0 \<noteq> PKCS11_TOKEN_READ_ONLY" by (simp add: ex_token0_def)
  from ex_open_invoke [OF this] obtain m p' where run:
    "TA_InvokeCommandEntryPoint ex_env2 1 6 exp_pt_out (ex_params 8) (ex_ta1 ex_token0 open_mem) =
      Ret (TEE_SUCCESS, ex_ta2 ex_token0 m, p')" by blast
  have "ta_session (ex_ta1 ex_token0 open_mem) 2 \<noteq> Some (ex_session\<lparr>ss_client := 7\<rparr>)" by simp
  with pkcs11_client_isolation [OF ex_ta1_reachable ex_fresh ex_params_ok run, of "ex_session\<lparr>ss_client := 7\<rparr>" 2]
  have "ta_session (ex_ta2 ex_token0 m) 2 \<noteq> Some (ex_session\<lparr>ss_client := 7\<rparr>)" by simp
  with run show ?thesis by blast
qed

section \<open>A login\<close>

text \<open>Memory for the login of a security officer in session 1 with a PIN of \<open>n\<close> zero bytes.\<close>

definition login_mem :: "u8 \<Rightarrow> 64 mem" where
  "login_mem n = (\<lambda>a. if a = 0x1000 then 1 else if a = 0x1008 then n else 0)"

lemma login_args:
  assumes "n < 128"
  shows
    "serialargs_get_session_from_handle (login_mem n) (ctrl_args (ex_params 12)) \<lparr>cl_session_list = [2],
        cl_session_handle_db = \<lparr>pk_ptrs = [None, Some 2, None, None], pk_max_ptrs = 4\<rparr>\<rparr> =
      Inr (\<lparr>sa_start = 0x1000, sa_next = 0x1004, sa_size = 12\<rparr>, 2)"
    "serialargs_get_session_from_handle (login_mem n) (ctrl_args (ex_params 22)) \<lparr>cl_session_list = [2],
        cl_session_handle_db = \<lparr>pk_ptrs = [None, Some 2, None, None], pk_max_ptrs = 4\<rparr>\<rparr> =
      Inr (\<lparr>sa_start = 0x1000, sa_next = 0x1004, sa_size = 22\<rparr>, 2)"
    "sz \<in> {12, 22} \<Longrightarrow> serialargs_get_u32 (login_mem n) \<lparr>sa_start = 0x1000, sa_next = 0x1004, sa_size = sz\<rparr> =
      Inr (\<lparr>sa_start = 0x1000, sa_next = 0x1008, sa_size = sz\<rparr>, 0)"
    "sz \<in> {12, 22} \<Longrightarrow> serialargs_get_u32 (login_mem n) \<lparr>sa_start = 0x1000, sa_next = 0x1008, sa_size = sz\<rparr> =
      Inr (\<lparr>sa_start = 0x1000, sa_next = 0x100C, sa_size = sz\<rparr>, ucast n)"
  by (auto simp: serialargs_get_session_from_handle_def serialargs_get_u32_def serialargs_get_def
      ctrl_args_def serialargs_init_def bytes_at_4 login_mem_def le32_def pkcs11_handle2session_def
      pkcs11_handle_lookup_def word_le_nat_alt)

text \<open>
  C33. A client can stop the application: a login as security officer in a read/write session on a token
  that was never initialized, in a reachable state and an environment where every call succeeds, runs into the assertion
  of \<^verbatim>\<open>check_so_pin\<close> that the token is initialized.
\<close>

theorem pkcs11_login_uninitialized_panics:
  "\<exists>s e p. ta_reachable s \<and> env_fresh e s \<and> buffer_ok p \<and> env_good e \<and>
     TA_InvokeCommandEntryPoint e 1 13 exp_pt_in p s = Panic"
proof -
  let ?p = "ex_params 12" and ?e = "ex_env\<lparr>env_malloc := Some 3\<rparr>" and ?s = "ex_ta2 ex_token0 (login_mem 0)"
  have "check_so_pin ?e (token_at ?s 0) [] = Panic"
    by (simp add: check_so_pin_def ex_token0_def default_db_def ckft_and ckft_bit bit_or_iff zero_db_def)
  then have "entry_ck_login ?e (Some 1) exp_pt_in ?p ?s = Panic"
    by (simp add: entry_ck_login_def get_client_def get_session_def login_args serialargs_get_ptr_def
        serialargs_remaining_bytes_def login_def ex_session_def pkcs11_session_is_so_def
        pkcs11_session_is_user_def pkcs11_session_is_read_write_def on_token_def pin_bytes_def
        bytes_at_def)
  then have "TA_InvokeCommandEntryPoint ?e 1 13 exp_pt_in ?p ?s = Panic"
    by (simp add: TA_InvokeCommandEntryPoint_def tee_session2client_def exp_pt_first ta_command_def
        Let_def)
  moreover have "env_fresh ?e ?s" by (simp add: env_fresh_def) (simp add: ex_ta2_def)
  moreover have "env_good ?e" by (simp add: env_good_def storage_ok_def ex_env_def)
  moreover have "ta_reachable ?s" by (rule ex_ta2_reachable [OF ex_ta1_reachable]) (simp add: ex_token0_def)
  ultimately show ?thesis using ex_params_ok by blast
qed

text \<open>Client 1 initializes token 0 with an SO PIN of ten zero bytes, opens a session and logs in.\<close>

definition init_mem :: "64 mem" where "init_mem = (\<lambda>a. if a = 0x1004 then 10 else 0)"

lemma bytes_at_10:
  "bytes_at m a 10 = [m a, m (a + 1), m (a + 2), m (a + 3), m (a + 4), m (a + 5), m (a + 6), m (a + 7),
     m (a + 8), m (a + 9)]"
  by (simp add: bytes_at_def upt_conv_Cons numeral_eq_Suc)

lemma replicate_10: "replicate 10 x = [x, x, x, x, x, x, x, x, x, x]"
  by (simp add: numeral_eq_Suc)

definition ex_env3 :: tee_env where "ex_env3 = ex_env\<lparr>env_malloc := None\<rparr>"

lemma ex_env3_ok: "storage_ok ex_env3" "digest_ok ex_env3" "env_fresh ex_env3 s"
  by (simp_all add: ex_env3_def ex_env_def storage_ok_def digest_ok_def env_fresh_def)

lemma ex_token0_db: "tk_db_main ex_token0 = default_db" "db_so_pin_salt default_db = 0"
  "db_so_pin_count default_db = 0" "\<not> bit (db_flags default_db) 22"
  by (simp_all add: ex_token0_def default_db_def zero_db_def flag_simps)

lemma ex_init_token:
  obtains tk label where "token_initialize ex_env3 ex_token0 label (replicate 10 0) = Ret (PKCS11_CKR_OK, tk)"
    and "entry_ck_token_initialize ex_env3 exp_pt_in (ex_params 50) (ex_ta1 ex_token0 init_mem) =
      Ret (PKCS11_CKR_OK, ex_ta1 tk init_mem, ex_params 50)"
proof -
  let ?l = "bytes_at init_mem 0x1008 32"
  have ok: "token_ok ex_token0" by (simp add: token_ok_def ex_token0_def db_ok_default)
  obtain salt hash where "hash_pin ex_env3 PKCS11_CKU_SO (replicate 10 0) = Inr (salt, hash)"
    by (auto simp: hash_pin_def do_hash_def ex_env3_def ex_env_def Let_def)
  then obtain tk where tk: "token_initialize ex_env3 ex_token0 ?l (replicate 10 0) = Ret (PKCS11_CKR_OK, tk)"
    by (auto simp: token_initialize_eq [OF ok refl] ex_token0_db ex_env3_ok PKCS11_TOKEN_PIN_SIZE_MIN_def
        PKCS11_TOKEN_PIN_SIZE_MAX_def)
  have args:
    "serialargs_get_u32 init_mem (ctrl_args (ex_params 50)) =
      Inr (\<lparr>sa_start = 0x1000, sa_next = 0x1004, sa_size = 50\<rparr>, 0)"
    "serialargs_get_u32 init_mem \<lparr>sa_start = 0x1000, sa_next = 0x1004, sa_size = 50\<rparr> =
      Inr (\<lparr>sa_start = 0x1000, sa_next = 0x1008, sa_size = 50\<rparr>, 10)"
    "serialargs_get init_mem \<lparr>sa_start = 0x1000, sa_next = 0x1008, sa_size = 50\<rparr> 32 =
      Inr (\<lparr>sa_start = 0x1000, sa_next = 0x1028, sa_size = 50\<rparr>, ?l)"
    "serialargs_get_ptr \<lparr>sa_start = 0x1000 :: 64 word, sa_next = 0x1028, sa_size = 50\<rparr> 10 =
      Inr (\<lparr>sa_start = 0x1000, sa_next = 0x1032, sa_size = 50\<rparr>, 0x1028)"
    by (simp_all add: serialargs_get_u32_def serialargs_get_def serialargs_get_ptr_def ctrl_args_def
        serialargs_init_def bytes_at_4 init_mem_def le32_def)
  have pin: "pin_bytes (ex_ta1 ex_token0 init_mem) 0x1028 10 = replicate 10 0"
    by (simp add: pin_bytes_def bytes_at_10 replicate_10 init_mem_def)
  have "\<not> bit (db_flags default_db) 22"
    by (simp add: default_db_def flag_simps)
  then have "entry_ck_token_initialize ex_env3 exp_pt_in (ex_params 50) (ex_ta1 ex_token0 init_mem) =
      Ret (PKCS11_CKR_OK, ex_ta1 tk init_mem, ex_params 50)"
    using tk by (simp add: entry_ck_token_initialize_def args PKCS11_TOKEN_LABEL_SIZE_def get_token_def
        TOKEN_COUNT_def serialargs_remaining_bytes_def on_token_def pin get_client_def ckft_and)
      (simp add: ex_token0_def)
  with tk show thesis by (rule that)
qed

text \<open>What the initialized token looks like, and that the PIN now opens it.\<close>

lemma ex_init_token_login:
  assumes "token_initialize ex_env3 ex_token0 label (replicate 10 0) = Ret (PKCS11_CKR_OK, tk)"
    and "tk' = tk\<lparr>tk_session_count := n, tk_rw_session_count := k\<rparr>"
  shows "tk_state tk = PKCS11_TOKEN_READ_WRITE" and "check_so_pin ex_env3 tk' (replicate 10 0) = Ret (PKCS11_CKR_OK, tk')"
proof -
  have ok: "token_ok ex_token0" by (simp add: token_ok_def ex_token0_def db_ok_default)
  note db = ex_token0_db
  from assms(1) obtain salt hash where hash: "hash_pin ex_env3 PKCS11_CKU_SO (replicate 10 0) = Inr (salt, hash)"
    and tk: "tk = commit ex_token0 (token_reset (default_db\<lparr>db_so_pin_salt := salt, db_so_pin_hash := hash\<rparr>) label)"
    by (auto simp: token_initialize_eq [OF ok refl] db split: if_splits sum.splits dest: hash_pin_Inl)
  show "tk_state tk = PKCS11_TOKEN_READ_WRITE" by (simp add: tk ex_token0_def)
  let ?db = "token_reset (default_db\<lparr>db_so_pin_salt := salt, db_so_pin_hash := hash\<rparr>) label"
  have m: "salt \<noteq> 0" "pin_matches ex_env3 PKCS11_CKU_SO (replicate 10 0) salt hash"
    using hash_pin_Inr [OF hash] by auto
  have "db_ok (default_db\<lparr>db_so_pin_salt := salt, db_so_pin_hash := hash\<rparr>)"
    using db_ok_default m(1) by (simp add: db_ok_def)
  then have "db_ok ?db" using m(1) by (intro db_ok_token_reset) simp_all
  then have ok': "token_ok tk'" by (simp add: assms(2) tk token_ok_def)
  have db': "tk_db_main tk' = ?db" by (simp add: assms(2) tk)
  have so: "db_so_pin_salt ?db = salt" "db_so_pin_hash ?db = hash" "db_so_pin_count ?db = 0"
    using db by (simp_all add: token_reset_def)
  have good: "so_pin_good ?db = ?db"
    unfolding so_pin_good_same using so(3)
    by (simp add: token_reset_def default_db_def flag_simps)
  show "check_so_pin ex_env3 tk' (replicate 10 0) = Ret (PKCS11_CKR_OK, tk')"
    using m db(4) commit_same [OF ok']
    by (simp add: check_so_pin_eq [OF ok' refl] db' token_reset_bits so good ex_env3_ok)
qed

lemma ex_init_reachable:
  assumes "entry_ck_token_initialize ex_env3 exp_pt_in (ex_params 50) (ex_ta1 ex_token0 init_mem) =
      Ret (PKCS11_CKR_OK, ex_ta1 tk init_mem, ex_params 50)"
  shows "ta_reachable (ex_ta1 tk m)"
proof -
  have out: "\<exists>m'. write_out (ex_ta1 tk init_mem) r bs = ex_ta1 tk m'" for r bs
    by (auto simp: write_out_def ex_ta1_def)
  have "\<exists>m' p'. TA_InvokeCommandEntryPoint ex_env3 1 10 exp_pt_in (ex_params 50) (ex_ta1 ex_token0 init_mem) =
      Ret (TEE_SUCCESS, ex_ta1 tk m', p')"
    using out
    by (simp add: TA_InvokeCommandEntryPoint_def tee_session2client_def exp_pt_first ta_command_def
        assms [simplified] Let_def)
  then obtain m' p' where "TA_InvokeCommandEntryPoint ex_env3 1 10 exp_pt_in (ex_params 50)
      (ex_ta1 ex_token0 init_mem) = Ret (TEE_SUCCESS, ex_ta1 tk m', p')" by blast
  from ta_reachable.step [OF ex_ta1_reachable ta_step.invoke [OF ex_env3_ok(3) ex_params_ok this]]
  show ?thesis by (rule ex_ta1_memory)
qed

text \<open>The login command on the initialized token.\<close>

lemma ex_login_invoke:
  assumes "token_initialize ex_env3 ex_token0 label (replicate 10 0) = Ret (PKCS11_CKR_OK, tk)"
  shows "\<exists>s' p'. TA_InvokeCommandEntryPoint ex_env3 1 13 exp_pt_in (ex_params 22) (ex_ta2 tk (login_mem 10)) =
      Ret (TEE_SUCCESS, s', p') \<and> ta_session s' 2 = Some (ex_session\<lparr>ss_state := PKCS11_CKS_RW_SO_FUNCTIONS\<rparr>)"
proof -
  let ?s = "ex_ta2 tk (login_mem 10)" and ?p = "ex_params 22"
  have check: "check_so_pin ex_env3 (token_at ?s 0) (replicate 10 0) = Ret (PKCS11_CKR_OK, token_at ?s 0)"
    by (rule ex_init_token_login(2) [OF assms]) simp
  have set: "set_token ?s 0 (token_at ?s 0) = ?s" by (simp add: set_token_def ex_ta2_def token_at_def)
  have pin: "pin_bytes ?s 0x100C 10 = replicate 10 0"
    by (simp add: pin_bytes_def bytes_at_10 replicate_10 login_mem_def)
  have ptr: "serialargs_get_ptr \<lparr>sa_start = 0x1000 :: 64 word, sa_next = 0x100C, sa_size = 22\<rparr> 10 =
      Inr (\<lparr>sa_start = 0x1000, sa_next = 0x1016, sa_size = 22\<rparr>, 0x100C)"
    by (simp add: serialargs_get_ptr_def)
  have "entry_ck_login ex_env3 (Some 1) exp_pt_in ?p ?s = Ret (PKCS11_CKR_OK,
      ?s\<lparr>ta_session := [2 \<mapsto> ex_session\<lparr>ss_state := PKCS11_CKS_RW_SO_FUNCTIONS\<rparr>]\<rparr>, ?p)"
    using check set
    by (simp add: entry_ck_login_def get_client_def get_session_def login_args ptr
        serialargs_remaining_bytes_def login_def ex_session_def pkcs11_session_is_so_def
        pkcs11_session_is_user_def pkcs11_session_is_read_write_def on_token_def pin
        session_login_so_def del: ex_ta2_simps(5)) (simp add: ex_ta2_def)
  then show ?thesis
    by (simp add: TA_InvokeCommandEntryPoint_def tee_session2client_def exp_pt_first ta_command_def
        Let_def)
qed

theorem pkcs11_login_authenticated_witness:
  "\<exists>s s' p' x. ta_reachable s \<and>
     TA_InvokeCommandEntryPoint ex_env3 1 13 exp_pt_in (ex_params 22) s = Ret (TEE_SUCCESS, s', p') \<and>
     ta_session s' 2 = Some x \<and> ss_state x = PKCS11_CKS_RW_SO_FUNCTIONS \<and>
     granted ex_env3 (login_pin (ex_params 22) s) s x"
proof -
  from ex_init_token obtain tk label where
    tk: "token_initialize ex_env3 ex_token0 label (replicate 10 0) = Ret (PKCS11_CKR_OK, tk)" and
    run: "entry_ck_token_initialize ex_env3 exp_pt_in (ex_params 50) (ex_ta1 ex_token0 init_mem) =
      Ret (PKCS11_CKR_OK, ex_ta1 tk init_mem, ex_params 50)" by blast
  let ?s = "ex_ta2 tk (login_mem 10)"
  have s: "ta_reachable ?s"
    by (rule ex_ta2_reachable [OF ex_init_reachable [OF run]]) (simp add: ex_init_token_login(1) [OF tk refl])
  from ex_login_invoke [OF tk] obtain s' p' where
    login: "TA_InvokeCommandEntryPoint ex_env3 1 13 exp_pt_in (ex_params 22) ?s = Ret (TEE_SUCCESS, s', p')"
    and x: "ta_session s' 2 = Some (ex_session\<lparr>ss_state := PKCS11_CKS_RW_SO_FUNCTIONS\<rparr>)" by blast
  have "\<not> inherited ?s (ex_session\<lparr>ss_state := PKCS11_CKS_RW_SO_FUNCTIONS\<rparr>)"
    by (auto simp: inherited_def ex_ta2_def ex_session_def split: if_splits)
  with pkcs11_login_authenticated [OF s ex_env3_ok(3) ex_params_ok login x]
  have "granted ex_env3 (login_pin (ex_params 22) ?s) ?s (ex_session\<lparr>ss_state := PKCS11_CKS_RW_SO_FUNCTIONS\<rparr>)"
    by simp
  with s login x show ?thesis by fastforce
qed

end
