(* ===== verification/Refcount.thy ===== *)
theory Refcount
  imports Prelude
begin

text \<open>
  The lock-free reference counter of \<^verbatim>\<open>core/kernel/refcount.c\<close>. Both operations are loops
  around a weak compare-and-swap. One iteration of each loop is a function of the thread's
  local \<^verbatim>\<open>oval\<close> and of the shared word; any number of threads interleave at that
  granularity. The theorems show that every call takes effect atomically, that zero is a
  final value, and that at most one caller is told to release the object.
\<close>

section \<open>The loops\<close>

datatype rc_op = RC_INC | RC_DEC

text \<open>
  Where a thread is: outside, in the loop of a call with its local \<^verbatim>\<open>oval\<close>, back from
  the call with its result, or stopped by \<^verbatim>\<open>assert(oval)\<close>.
\<close>

datatype rc_pc = Idle | Running rc_op u32 | Returned rc_op bool | Asserted

text \<open>
  \<open>cas_fails\<close> is the spurious failure the weak compare-and-swap may report; a failing one
  reloads \<^verbatim>\<open>oval\<close> from the shared word.
\<close>

definition atomic_cas_uint :: "bool \<Rightarrow> u32 \<Rightarrow> u32 \<Rightarrow> u32 \<Rightarrow> u32 \<times> u32 \<times> bool" where
  "atomic_cas_uint cas_fails p oval nval =
     (if p = oval \<and> \<not> cas_fails then (nval, oval, True) else (p, p, False))"

definition refcount_inc :: "bool \<Rightarrow> u32 \<Rightarrow> u32 \<Rightarrow> u32 \<times> rc_pc" where
  "refcount_inc cas_fails val oval =
     (let nval = oval + 1 in
      if oval = 0 then (val, Returned RC_INC False)
      else case atomic_cas_uint cas_fails val oval nval of
             (val', oval', True) \<Rightarrow> (val', Returned RC_INC True)
           | (val', oval', False) \<Rightarrow> (val', Running RC_INC oval'))"

definition refcount_dec :: "bool \<Rightarrow> u32 \<Rightarrow> u32 \<Rightarrow> u32 \<times> rc_pc" where
  "refcount_dec cas_fails val oval =
     (if oval = 0 then (val, Asserted)
      else let nval = oval - 1 in
        case atomic_cas_uint cas_fails val oval nval of
          (val', oval', True) \<Rightarrow> (val', Returned RC_DEC (nval = 0))
        | (val', oval', False) \<Rightarrow> (val', Running RC_DEC oval'))"

text \<open>
  A step of one thread: the \<^verbatim>\<open>atomic_load_uint\<close> that starts a call, one loop iteration,
  or the return to the caller.
\<close>

fun rc_thread :: "bool \<Rightarrow> rc_op \<Rightarrow> u32 \<Rightarrow> rc_pc \<Rightarrow> u32 \<times> rc_pc" where
  "rc_thread cas_fails op val Idle = (val, Running op val)"
| "rc_thread cas_fails op val (Running RC_INC oval) = refcount_inc cas_fails val oval"
| "rc_thread cas_fails op val (Running RC_DEC oval) = refcount_dec cas_fails val oval"
| "rc_thread cas_fails op val (Returned _ _) = (val, Idle)"
| "rc_thread cas_fails op val Asserted = (val, Asserted)"

section \<open>Interleaving\<close>

record rc_state =
  rc_val :: u32
  rc_pcs :: "nat \<Rightarrow> rc_pc"

definition rc_init :: "u32 \<Rightarrow> rc_state" where
  "rc_init n = \<lparr>rc_val = n, rc_pcs = (\<lambda>_. Idle)\<rparr>"

definition rc_exec :: "nat \<Rightarrow> bool \<Rightarrow> rc_op \<Rightarrow> rc_state \<Rightarrow> rc_state" where
  "rc_exec t cas_fails op s =
     (case rc_thread cas_fails op (rc_val s) (rc_pcs s t) of
        (v, pc) \<Rightarrow> \<lparr>rc_val = v, rc_pcs = (rc_pcs s)(t := pc)\<rparr>)"

text \<open>The results handed out by a step: the call that returned, if one did.\<close>

definition rc_result :: "rc_pc \<Rightarrow> rc_pc \<Rightarrow> (rc_op \<times> bool) list" where
  "rc_result pc pc' =
     (case (pc, pc') of (Running _ _, Returned op b) \<Rightarrow> [(op, b)] | _ \<Rightarrow> [])"

text \<open>\<open>rc_run n rs s\<close>: from value \<open>n\<close> the threads reach \<open>s\<close>, calls having returned \<open>rs\<close> in order.\<close>

inductive rc_run :: "u32 \<Rightarrow> (rc_op \<times> bool) list \<Rightarrow> rc_state \<Rightarrow> bool" for n where
  start: "rc_run n [] (rc_init n)"
| step: "rc_run n rs s \<Longrightarrow> s' = rc_exec t cas_fails op s \<Longrightarrow>
    rc_run n (rs @ rc_result (rc_pcs s t) (rc_pcs s' t)) s'"

section \<open>Atomic specification\<close>

text \<open>The contract of \<^verbatim>\<open>refcount.h\<close>, on the value alone; \<open>None\<close> is the failed assertion.\<close>

fun rc_atomic :: "rc_op \<Rightarrow> u32 \<Rightarrow> u32 \<times> bool option" where
  "rc_atomic RC_INC v = (if v = 0 then (v, Some False) else (v + 1, Some True))"
| "rc_atomic RC_DEC v = (if v = 0 then (v, None) else (v - 1, Some (v - 1 = 0)))"

named_theorems rc_defs \<open>definitions of the reference counter\<close>

lemmas [rc_defs] = refcount_inc_def refcount_dec_def atomic_cas_uint_def Let_def

text \<open>
  What a thread holds in \<^verbatim>\<open>oval\<close> may be stale, but a stale zero is impossible: zero is
  never left again.
\<close>

definition rc_inv :: "rc_state \<Rightarrow> bool" where
  "rc_inv s \<longleftrightarrow> (\<forall>t op. rc_pcs s t = Running op 0 \<longrightarrow> rc_val s = 0)"

lemma rc_thread_zero: "rc_thread w op 0 pc = (v, pc') \<Longrightarrow> v = 0"
  by (cases "(w, op, 0 :: u32, pc)" rule: rc_thread.cases) (auto simp: rc_defs split: if_splits)

lemma rc_thread_oval_zero:
  "rc_thread w op v pc = (v', Running op' 0) \<Longrightarrow> v' = 0"
  by (cases "(w, op, v, pc)" rule: rc_thread.cases) (auto simp: rc_defs split: if_splits)

lemma rc_exec_zero: "rc_val s = 0 \<Longrightarrow> rc_val (rc_exec t w op s) = 0"
  by (auto simp: rc_exec_def split: prod.split dest: rc_thread_zero)

lemma rc_inv_init: "rc_inv (rc_init n)"
  by (simp add: rc_inv_def rc_init_def)

lemma rc_inv_exec: "rc_inv s \<Longrightarrow> rc_inv (rc_exec t w op s)"
  by (auto simp: rc_inv_def rc_exec_def split: prod.split
      dest: rc_thread_zero rc_thread_oval_zero)

lemma rc_run_inv: "rc_run n rs s \<Longrightarrow> rc_inv s"
  by (induction rule: rc_run.induct) (auto simp: rc_inv_init rc_inv_exec)

text \<open>One iteration under a sound \<^verbatim>\<open>oval\<close> stutters or is the atomic operation.\<close>

lemma rc_thread_atomic:
  assumes "oval = 0 \<longrightarrow> v = 0" and "rc_thread w op' v (Running op oval) = (v', pc')"
  shows "(\<exists>oval'. pc' = Running op oval' \<and> v' = v) \<or>
         (\<exists>b. pc' = Returned op b \<and> rc_atomic op v = (v', Some b)) \<or>
         (pc' = Asserted \<and> rc_atomic op v = (v', None))"
  using assms by (cases op) (auto simp: rc_defs split: if_splits)

lemma rc_exec_atomic:
  assumes "rc_inv s" and "rc_pcs s t = Running op oval" and "s' = rc_exec t w op' s"
  shows "(\<exists>oval'. rc_pcs s' t = Running op oval' \<and> rc_val s' = rc_val s) \<or>
         (\<exists>b. rc_pcs s' t = Returned op b \<and> rc_atomic op (rc_val s) = (rc_val s', Some b)) \<or>
         (rc_pcs s' t = Asserted \<and> rc_atomic op (rc_val s) = (rc_val s', None))"
proof -
  obtain v' pc' where th: "rc_thread w op' (rc_val s) (Running op oval) = (v', pc')"
    by fastforce
  have "oval = 0 \<longrightarrow> rc_val s = 0"
    using assms(1,2) by (auto simp: rc_inv_def)
  from rc_thread_atomic [OF this th] show ?thesis
    using assms(2,3) th by (simp add: rc_exec_def)
qed

lemma rc_exec_idle:
  "(\<And>op oval. rc_pcs s t \<noteq> Running op oval) \<Longrightarrow>
   rc_val (rc_exec t w op s) = rc_val s \<and> rc_result (rc_pcs s t) pc' = []"
  by (cases "rc_pcs s t") (auto simp: rc_exec_def rc_result_def)

section \<open>Properties\<close>

text \<open>
  Summing up what calls returned gives the value: each successful increment adds one, each
  decrement that returned removes one (modulo the word size).
\<close>

definition rc_incs :: "(rc_op \<times> bool) list \<Rightarrow> nat" where
  "rc_incs rs = length (filter (\<lambda>r. r = (RC_INC, True)) rs)"

definition rc_decs :: "(rc_op \<times> bool) list \<Rightarrow> nat" where
  "rc_decs rs = length (filter (\<lambda>r. fst r = RC_DEC) rs)"

definition rc_finals :: "(rc_op \<times> bool) list \<Rightarrow> nat" where
  "rc_finals rs = length (filter (\<lambda>r. r = (RC_DEC, True)) rs)"

lemma rc_counts_append [simp]:
  "rc_incs (xs @ ys) = rc_incs xs + rc_incs ys"
  "rc_decs (xs @ ys) = rc_decs xs + rc_decs ys"
  "rc_finals (xs @ ys) = rc_finals xs + rc_finals ys"
  by (simp_all add: rc_incs_def rc_decs_def rc_finals_def)

lemma rc_step_counts:
  assumes "rc_inv s" and s': "s' = rc_exec t w op s"
  defines "r \<equiv> rc_result (rc_pcs s t) (rc_pcs s' t)"
  shows "rc_val s' = rc_val s + of_nat (rc_incs r) - of_nat (rc_decs r) \<and>
         (rc_val s = 0 \<longrightarrow> rc_finals r = 0) \<and>
         rc_finals r \<le> 1 \<and> (0 < rc_finals r \<longrightarrow> rc_val s' = 0)"
proof (cases "\<exists>op' oval. rc_pcs s t = Running op' oval")
  case True
  then obtain op' oval where pc: "rc_pcs s t = Running op' oval" by blast
  from rc_exec_atomic [OF assms(1) pc s'] show ?thesis
    by (cases op')
      (auto simp: r_def pc rc_result_def rc_incs_def rc_decs_def rc_finals_def split: if_splits)
next
  case False
  then show ?thesis
    using rc_exec_idle [of s t w op "rc_pcs s' t"]
    by (auto simp: r_def s' rc_incs_def rc_decs_def rc_finals_def)
qed

lemma rc_run_counts:
  "rc_run n rs s \<Longrightarrow>
   rc_val s = n + of_nat (rc_incs rs) - of_nat (rc_decs rs) \<and>
   rc_finals rs \<le> 1 \<and> (0 < rc_finals rs \<longrightarrow> rc_val s = 0)"
proof (induction rule: rc_run.induct)
  case start
  show ?case by (simp add: rc_init_def rc_incs_def rc_decs_def rc_finals_def)
next
  case (step rs s s' t w op)
  from rc_step_counts [OF rc_run_inv [OF step.hyps(1)] step.hyps(2)] step.IH
  show ?case
    using step.hyps(2) rc_exec_zero [of s t w op] by (auto simp: algebra_simps)
qed

text \<open>
  C25. Every interleaving of \<^verbatim>\<open>refcount_inc\<close> and \<^verbatim>\<open>refcount_dec\<close> calls on a counter with
  initial value \<open>n\<close>: a step of a thread inside a call either leaves the value alone and
  stays in the loop, or completes the call with exactly the value change and result of the
  atomic specification applied to the value at that moment.
\<close>

theorem refcount_linearizable:
  assumes "rc_run n rs s" and "rc_pcs s t = Running op oval" and "s' = rc_exec t w op' s"
  shows "(\<exists>oval'. rc_pcs s' t = Running op oval' \<and> rc_val s' = rc_val s) \<or>
         (\<exists>b. rc_pcs s' t = Returned op b \<and> rc_atomic op (rc_val s) = (rc_val s', Some b)) \<or>
         (rc_pcs s' t = Asserted \<and> rc_atomic op (rc_val s) = (rc_val s', None))"
  by (rule rc_exec_atomic [OF rc_run_inv [OF assms(1)] assms(2,3)])

theorem refcount_linearizable_witness:
  "(let s = rc_exec 0 False RC_INC (rc_init 5); s' = rc_exec 0 False RC_INC s in
    rc_pcs s' 0 = Returned RC_INC True \<and> rc_val s' = 6)"
proof -
  let ?s = "rc_exec 0 False RC_INC (rc_init 5)"
  have run: "rc_run 5 ([] @ rc_result (rc_pcs (rc_init 5) 0) (rc_pcs ?s 0)) ?s"
    by (rule rc_run.step [OF rc_run.start refl])
  have pc: "rc_pcs ?s 0 = Running RC_INC 5"
    by (simp add: rc_exec_def rc_init_def)
  show ?thesis
    using refcount_linearizable [OF run pc refl, of False RC_INC]
    by (auto simp: Let_def rc_exec_def rc_init_def refcount_inc_def atomic_cas_uint_def)
qed

text \<open>
  In every run at most one call of \<^verbatim>\<open>refcount_dec\<close> returns true, the value is then zero
  and stays zero, and at every point the value is the initial one plus the successful
  increments minus the completed decrements: the object is released exactly by the caller
  that drops the last reference.
\<close>

theorem refcount_released_once:
  assumes "rc_run n rs s"
  shows "rc_finals rs \<le> 1 \<and> (0 < rc_finals rs \<longrightarrow> rc_val s = 0) \<and>
         rc_val s = n + of_nat (rc_incs rs) - of_nat (rc_decs rs)"
  using rc_run_counts [OF assms] by blast

theorem refcount_released_once_witness:
  "\<exists>rs s. rc_run 1 rs s \<and> rc_finals rs = 1 \<and> rc_val s = 0"
proof -
  define s1 where "s1 = rc_exec 0 False RC_DEC (rc_init 1)"
  define s2 where "s2 = rc_exec 0 False RC_DEC s1"
  define rs where "rs = ([] @ rc_result (rc_pcs (rc_init 1) 0) (rc_pcs s1 0)) @
    rc_result (rc_pcs s1 0) (rc_pcs s2 0)"
  have run: "rc_run 1 rs s2"
    unfolding rs_def by (intro rc_run.step [OF _ s2_def] rc_run.step [OF rc_run.start s1_def])
  moreover have "rc_finals rs = 1"
    by (simp add: rs_def s1_def s2_def rc_exec_def rc_init_def rc_result_def rc_finals_def
        refcount_dec_def atomic_cas_uint_def)
  ultimately show ?thesis using refcount_released_once [OF run] by (metis zero_less_one)
qed

end
