(* ===== verification/Reg_Shm.thy ===== *)
theory Reg_Shm
  imports Refcount
begin

unbundle bit_operations_syntax

text \<open>
  Shared memory that the normal world registers, \<^verbatim>\<open>core/arch/arm/mm/mobj_dyn_shm.c\<close>: objects made
  of non-secure pages, found by a cookie, counted by references, mapped on demand. Reference
  counters take effect atomically, as \<^theory_text>\<open>Refcount\<close> shows, and sections under a spin lock do so too.
\<close>

section \<open>State\<close>

definition SMALL_PAGE_SIZE :: u64 where "SMALL_PAGE_SIZE = 0x1000"
definition SMALL_PAGE_MASK :: u64 where "SMALL_PAGE_MASK = SMALL_PAGE_SIZE - 1"

text \<open>\<^verbatim>\<open>struct mobj\<close> is embedded: its fields are \<open>rs_size\<close> and \<open>rs_refc\<close>; \<open>rs_mm\<close> is the mapping.\<close>

record mobj_reg_shm =
  rs_size :: size_t
  rs_refc :: u32
  rs_cookie :: u64
  rs_mm :: "addr option"
  rs_page_offset :: paddr_t
  rs_mapcount :: u32
  rs_guarded :: bool
  rs_releasing :: bool
  rs_release_frees :: bool
  rs_pages :: "paddr_t list"

text \<open>
  The list of registered objects, the objects, the live entries of the pool \<^verbatim>\<open>tee_mm_shm\<close> of
  virtual addresses, and the reference counter of the object for the reserved shared memory.
\<close>

record shm_state =
  reg_shm_list :: "addr list"
  rs_heap :: "addr \<Rightarrow> mobj_reg_shm"
  tee_mm_shm :: "addr list"
  shm_mobj_refc :: u32

text \<open>
  Memory allocation (whether it succeeds, and an address apart from those in use), the memory map,
  the pool, page tables, the memory of the normal world and the reserved shared memory.
\<close>

record shm_env =
  se_calloc :: "size_t \<Rightarrow> bool"
  se_addr :: "addr list \<Rightarrow> addr"
  se_malloc :: "size_t \<Rightarrow> bool"
  se_nsec :: "paddr_t \<Rightarrow> bool"
  se_mm_alloc :: "size_t \<Rightarrow> addr option"
  se_map_pages :: tee_result
  se_mem :: "paddr_t \<Rightarrow> u64"
  se_shm_paddr :: paddr_t
  se_shm_size :: size_t

datatype mobj = ShmMobj | RegShm addr

definition rs_upd :: "addr \<Rightarrow> (mobj_reg_shm \<Rightarrow> mobj_reg_shm) \<Rightarrow> shm_state \<Rightarrow> shm_state" where
  "rs_upd a f s = s\<lparr>rs_heap := (rs_heap s)(a := f (rs_heap s a))\<rparr>"

section \<open>Operations\<close>

definition sizeof_mobj_reg_shm :: size_t where "sizeof_mobj_reg_shm = 72"

definition mobj_reg_shm_size :: "size_t \<Rightarrow> size_t" where
  "mobj_reg_shm_size nr_pages =
     (case mul_overflow 8 nr_pages of (o1, s) \<Rightarrow>
      if o1 then 0
      else case add_overflow sizeof_mobj_reg_shm s of (o2, s) \<Rightarrow> if o2 then 0 else s)"

text \<open>\<^verbatim>\<open>mobj_reg_shm_alloc\<close>; the number of pages is the length of the list.\<close>

definition mobj_reg_shm_alloc ::
    "shm_env \<Rightarrow> paddr_t list \<Rightarrow> paddr_t \<Rightarrow> u64 \<Rightarrow> shm_state \<Rightarrow> addr option \<times> shm_state" where
  "mobj_reg_shm_alloc e pages page_offset cookie s =
     (let n = of_nat (length pages) in
      if n = 0 \<or> SMALL_PAGE_SIZE \<le> page_offset then (None, s)
      else if mobj_reg_shm_size n = 0 then (None, s)
      else if \<not> se_calloc e (mobj_reg_shm_size n) then (None, s)
      else let a = se_addr e (reg_shm_list s) in
          if list_all (\<lambda>p. p AND SMALL_PAGE_MASK = 0 \<and> se_nsec e p) pages
          then (Some a, s\<lparr>reg_shm_list := a # reg_shm_list s, rs_heap := (rs_heap s)(a :=
            \<lparr>rs_size = n * SMALL_PAGE_SIZE - page_offset, rs_refc = 1, rs_cookie = cookie, rs_mm = None,
             rs_page_offset = page_offset, rs_mapcount = 0, rs_guarded = True, rs_releasing = False,
             rs_release_frees = False, rs_pages = pages\<rparr>)\<rparr>)
          else (None, s))"

definition mobj_reg_shm_unguard :: "addr \<Rightarrow> shm_state \<Rightarrow> shm_state" where
  "mobj_reg_shm_unguard a s = rs_upd a (\<lambda>r. r\<lparr>rs_guarded := False\<rparr>) s"

definition reg_shm_unmap_helper :: "addr \<Rightarrow> shm_state \<Rightarrow> shm_state outcome" where
  "reg_shm_unmap_helper a s =
     (case rs_mm (rs_heap s a) of
        None \<Rightarrow> Panic
      | Some mm \<Rightarrow> Ret (rs_upd a (\<lambda>r. r\<lparr>rs_mm := None\<rparr>) (s\<lparr>tee_mm_shm := remove1 mm (tee_mm_shm s)\<rparr>)))"

definition reg_shm_free_helper :: "addr \<Rightarrow> shm_state \<Rightarrow> shm_state outcome" where
  "reg_shm_free_helper a s =
     bind_outcome (if rs_mm (rs_heap s a) \<noteq> None then reg_shm_unmap_helper a s else Ret s)
       (\<lambda>s. Ret (s\<lparr>reg_shm_list := remove1 a (reg_shm_list s)\<rparr>))"

definition mobj_reg_shm_free :: "addr \<Rightarrow> shm_state \<Rightarrow> shm_state outcome" where
  "mobj_reg_shm_free a s =
     (if rs_guarded (rs_heap s a) \<and> \<not> rs_releasing (rs_heap s a) then reg_shm_free_helper a s
      else Ret (rs_upd a (\<lambda>r. r\<lparr>rs_release_frees := True\<rparr>) s))"

text \<open>The object for the reserved memory keeps the reference it was made with, so it is never freed.\<close>

definition mobj_get :: "mobj \<Rightarrow> shm_state \<Rightarrow> shm_state outcome" where
  "mobj_get m s =
     (case m of
        ShmMobj \<Rightarrow>
          (case rc_atomic RC_INC (shm_mobj_refc s) of
             (v, Some True) \<Rightarrow> Ret (s\<lparr>shm_mobj_refc := v\<rparr>)
           | _ \<Rightarrow> Panic)
      | RegShm a \<Rightarrow>
          (case rc_atomic RC_INC (rs_refc (rs_heap s a)) of
             (v, Some True) \<Rightarrow> Ret (rs_upd a (\<lambda>r. r\<lparr>rs_refc := v\<rparr>) s)
           | _ \<Rightarrow> Panic))"

definition mobj_put :: "mobj option \<Rightarrow> shm_state \<Rightarrow> shm_state outcome" where
  "mobj_put m s =
     (case m of
        None \<Rightarrow> Ret s
      | Some ShmMobj \<Rightarrow>
          (case rc_atomic RC_DEC (shm_mobj_refc s) of
             (v, None) \<Rightarrow> Panic
           | (v, Some _) \<Rightarrow> Ret (s\<lparr>shm_mobj_refc := v\<rparr>))
      | Some (RegShm a) \<Rightarrow>
          (case rc_atomic RC_DEC (rs_refc (rs_heap s a)) of
             (v, None) \<Rightarrow> Panic
           | (v, Some zero) \<Rightarrow>
               let s = rs_upd a (\<lambda>r. r\<lparr>rs_refc := v\<rparr>) s in
               if zero then mobj_reg_shm_free a s else Ret s))"

definition reg_shm_find_unlocked :: "u64 \<Rightarrow> shm_state \<Rightarrow> addr option" where
  "reg_shm_find_unlocked cookie s = find (\<lambda>a. rs_cookie (rs_heap s a) = cookie) (reg_shm_list s)"

definition mobj_reg_shm_get_by_cookie :: "u64 \<Rightarrow> shm_state \<Rightarrow> (mobj option \<times> shm_state) outcome" where
  "mobj_reg_shm_get_by_cookie cookie s =
     (case reg_shm_find_unlocked cookie s of
        None \<Rightarrow> Ret (None, s)
      | Some a \<Rightarrow> bind_outcome (mobj_get (RegShm a) s) (\<lambda>s. Ret (Some (RegShm a), s)))"

text \<open>The two halves of \<^verbatim>\<open>mobj_reg_shm_release_by_cookie\<close>: claiming the object, and waiting for its end.\<close>

definition release_claim :: "u64 \<Rightarrow> shm_state \<Rightarrow> addr option \<times> shm_state" where
  "release_claim cookie s =
     (case reg_shm_find_unlocked cookie s of
        None \<Rightarrow> (None, s)
      | Some a \<Rightarrow>
          if rs_guarded (rs_heap s a) \<or> rs_releasing (rs_heap s a) then (None, s)
          else (Some a, rs_upd a (\<lambda>r. r\<lparr>rs_releasing := True\<rparr>) s))"

definition release_wait :: "addr \<Rightarrow> shm_state \<Rightarrow> shm_state call" where
  "release_wait a s =
     (if rs_release_frees (rs_heap s a) then of_outcome (reg_shm_free_helper a s) else Hangs)"

definition mobj_reg_shm_release_by_cookie :: "u64 \<Rightarrow> shm_state \<Rightarrow> (tee_result \<times> shm_state) call" where
  "mobj_reg_shm_release_by_cookie cookie s =
     (case release_claim cookie s of
        (None, s) \<Rightarrow> Returns (TEE_ERROR_BAD_PARAMETERS, s)
      | (Some a, s) \<Rightarrow>
          bind_call (of_outcome (mobj_put (Some (RegShm a)) s)) (\<lambda>s.
          bind_call (release_wait a s) (\<lambda>s. Returns (TEE_SUCCESS, s))))"

section \<open>Mapping\<close>

text \<open>\<^verbatim>\<open>mobj_inc_map\<close> and \<^verbatim>\<open>mobj_dec_map\<close>: the counter first, then a section under \<^verbatim>\<open>reg_shm_map_lock\<close>.\<close>

definition inc_map_count :: "addr \<Rightarrow> shm_state \<Rightarrow> bool \<times> shm_state" where
  "inc_map_count a s =
     (case rc_atomic RC_INC (rs_mapcount (rs_heap s a)) of
        (v, r) \<Rightarrow> (r = Some True, rs_upd a (\<lambda>x. x\<lparr>rs_mapcount := v\<rparr>) s))"

definition inc_map_locked :: "shm_env \<Rightarrow> addr \<Rightarrow> shm_state \<Rightarrow> tee_result \<times> shm_state" where
  "inc_map_locked e a s =
     (let r = rs_heap s a in
      if rs_mapcount r \<noteq> 0 then (TEE_SUCCESS, s)
      else let sz = (rs_size r + rs_page_offset r + SMALL_PAGE_MASK) AND NOT SMALL_PAGE_MASK in
        case se_mm_alloc e sz of
          None \<Rightarrow> (TEE_ERROR_OUT_OF_MEMORY, rs_upd a (\<lambda>r. r\<lparr>rs_mm := None\<rparr>) s)
        | Some mm \<Rightarrow>
            if se_map_pages e \<noteq> TEE_SUCCESS then (se_map_pages e, rs_upd a (\<lambda>r. r\<lparr>rs_mm := None\<rparr>) s)
            else (TEE_SUCCESS, rs_upd a (\<lambda>r. r\<lparr>rs_mm := Some mm, rs_mapcount := 1\<rparr>)
                   (s\<lparr>tee_mm_shm := mm # tee_mm_shm s\<rparr>)))"

definition mobj_inc_map :: "shm_env \<Rightarrow> addr \<Rightarrow> shm_state \<Rightarrow> tee_result \<times> shm_state" where
  "mobj_inc_map e a s = (case inc_map_count a s of (ok, s) \<Rightarrow> if ok then (TEE_SUCCESS, s) else inc_map_locked e a s)"

definition dec_map_count :: "addr \<Rightarrow> shm_state \<Rightarrow> (bool \<times> shm_state) outcome" where
  "dec_map_count a s =
     (case rc_atomic RC_DEC (rs_mapcount (rs_heap s a)) of
        (v, None) \<Rightarrow> Panic
      | (v, Some zero) \<Rightarrow> Ret (zero, rs_upd a (\<lambda>x. x\<lparr>rs_mapcount := v\<rparr>) s))"

definition dec_map_locked :: "addr \<Rightarrow> shm_state \<Rightarrow> shm_state outcome" where
  "dec_map_locked a s = (if rs_mapcount (rs_heap s a) \<noteq> 0 then reg_shm_unmap_helper a s else Ret s)"

definition mobj_dec_map :: "addr \<Rightarrow> shm_state \<Rightarrow> (tee_result \<times> shm_state) outcome" where
  "mobj_dec_map a s =
     bind_outcome (dec_map_count a s) (\<lambda>(zero, s).
       if zero then bind_outcome (dec_map_locked a s) (\<lambda>s. Ret (TEE_SUCCESS, s)) else Ret (TEE_SUCCESS, s))"

definition mobj_mapped_shm_alloc ::
    "shm_env \<Rightarrow> paddr_t list \<Rightarrow> paddr_t \<Rightarrow> u64 \<Rightarrow> shm_state \<Rightarrow> (addr option \<times> shm_state) outcome" where
  "mobj_mapped_shm_alloc e pages page_offset cookie s =
     (case mobj_reg_shm_alloc e pages page_offset cookie s of
        (None, s) \<Rightarrow> Ret (None, s)
      | (Some a, s) \<Rightarrow>
          (case mobj_inc_map e a s of (res, s) \<Rightarrow>
             if res \<noteq> TEE_SUCCESS then bind_outcome (mobj_put (Some (RegShm a)) s) (\<lambda>s. Ret (None, s))
             else Ret (Some a, s)))"

section \<open>Addresses\<close>

definition mobj_reg_shm_get_pa :: "mobj_reg_shm \<Rightarrow> size_t \<Rightarrow> size_t \<Rightarrow> tee_result + paddr_t" where
  "mobj_reg_shm_get_pa r offst granule =
     (if rs_size r \<le> offst then Inl TEE_ERROR_GENERIC
      else let full_offset = offst + rs_page_offset r;
               page = rs_pages r ! unat (full_offset div SMALL_PAGE_SIZE) in
        if granule = 0 then Inr (page + (full_offset AND SMALL_PAGE_MASK))
        else if granule = SMALL_PAGE_SIZE then Inr page
        else Inl TEE_ERROR_GENERIC)"

text \<open>An address in the mapping is the mapping and the offset in it.\<close>

definition mobj_reg_shm_get_va :: "mobj_reg_shm \<Rightarrow> size_t \<Rightarrow> (addr \<times> size_t) option" where
  "mobj_reg_shm_get_va r offst =
     (case rs_mm r of
        None \<Rightarrow> None
      | Some mm \<Rightarrow> if rs_size r \<le> offst then None else Some (mm, offst + rs_page_offset r))"

definition mobj_reg_shm_get_phys_offs :: "mobj_reg_shm \<Rightarrow> size_t" where
  "mobj_reg_shm_get_phys_offs r = rs_page_offset r"

section \<open>Words and pages\<close>

lemma and_zero_bits: "p AND M = 0 \<Longrightarrow> bit p n \<Longrightarrow> \<not> bit M n" for p M :: "'a::len word"
  by (metis bit_and_iff bit_0_eq bot_apply bot_bool_def)

lemma page_of:
  fixes p x M :: "'a::len word"
  assumes "p AND M = 0"
  shows "(p + (x AND M)) AND NOT M = p"
proof -
  note b = and_zero_bits [OF assms]
  have "p AND (x AND M) = 0" using b by (intro bit_word_eqI) (auto simp: bit_simps)
  then have "p + (x AND M) = p OR (x AND M)" by (rule disjunctive_add_eq_or)
  then show ?thesis using b by (intro bit_word_eqI) (auto simp: bit_simps)
qed

lemma mask_page: "SMALL_PAGE_MASK = mask 12"
  by (simp add: SMALL_PAGE_MASK_def SMALL_PAGE_SIZE_def mask_eq_exp_minus_1)

lemma unat_page_mod: "unat (w AND SMALL_PAGE_MASK) = unat w mod 4096"
  by (simp add: mask_page take_bit_eq_mask [symmetric] unsigned_take_bit_eq take_bit_eq_mod unat_mod_distrib)

lemma unat_page_div: "unat (w div SMALL_PAGE_SIZE) = unat w div 4096" for w :: u64
  by (simp add: SMALL_PAGE_SIZE_def unat_div_distrib)

section \<open>Registered objects\<close>

text \<open>An object consists of non-secure pages, and its size is what they hold from the offset on.\<close>

definition rs_ok :: "(paddr_t \<Rightarrow> bool) \<Rightarrow> mobj_reg_shm \<Rightarrow> bool" where
  "rs_ok N r \<longleftrightarrow> list_all (\<lambda>p. p AND SMALL_PAGE_MASK = 0 \<and> N p) (rs_pages r) \<and>
     unat (rs_page_offset r) < 4096 \<and> length (rs_pages r) * 4096 < 2 ^ 64 \<and>
     unat (rs_size r) + unat (rs_page_offset r) = length (rs_pages r) * 4096"

definition shm_inv :: "(paddr_t \<Rightarrow> bool) \<Rightarrow> shm_state \<Rightarrow> bool" where
  "shm_inv N s \<longleftrightarrow> distinct (reg_shm_list s) \<and> (\<forall>a. a \<in> set (reg_shm_list s) \<longrightarrow> rs_ok N (rs_heap s a))"

text \<open>Allocation returns memory that is not in use, and fails for absurd sizes.\<close>

definition shm_env_ok :: "(paddr_t \<Rightarrow> bool) \<Rightarrow> shm_env \<Rightarrow> bool" where
  "shm_env_ok N e \<longleftrightarrow> se_nsec e = N \<and> (\<forall>as. se_addr e as \<notin> set as) \<and> (\<forall>n. se_calloc e n \<longrightarrow> unat n < 2 ^ 48) \<and>
     (\<forall>n. se_malloc e n \<longrightarrow> unat n < 2 ^ 48)"

lemma rs_get_pa:
  assumes ok: "rs_ok N r" and less: "offst < rs_size r"
  shows "\<exists>pa. mobj_reg_shm_get_pa r offst 0 = Inr pa \<and> N (pa AND NOT SMALL_PAGE_MASK)"
proof -
  let ?f = "offst + rs_page_offset r"
  have l: "unat offst + unat (rs_page_offset r) < length (rs_pages r) * 4096"
    using ok less by (simp add: rs_ok_def word_less_nat_alt)
  then have f: "unat ?f = unat offst + unat (rs_page_offset r)"
    using ok by (intro unat_add_no_wrap) (simp add: rs_ok_def)
  have "unat (?f div SMALL_PAGE_SIZE) < length (rs_pages r)"
    using l by (simp add: unat_page_div f less_mult_imp_div_less)
  then have "rs_pages r ! unat (?f div SMALL_PAGE_SIZE) \<in> set (rs_pages r)" by simp
  with ok have p: "rs_pages r ! unat (?f div SMALL_PAGE_SIZE) AND SMALL_PAGE_MASK = 0"
    "N (rs_pages r ! unat (?f div SMALL_PAGE_SIZE))" by (auto simp: rs_ok_def list_all_iff)
  show ?thesis using less p(2) page_of [OF p(1)] by (simp add: mobj_reg_shm_get_pa_def Let_def not_le)
qed

lemma rs_upd_simps [simp]:
  "reg_shm_list (rs_upd a f s) = reg_shm_list s" "tee_mm_shm (rs_upd a f s) = tee_mm_shm s"
  "shm_mobj_refc (rs_upd a f s) = shm_mobj_refc s" "rs_heap (rs_upd a f s) = (rs_heap s)(a := f (rs_heap s a))"
  by (simp_all add: rs_upd_def)

lemma mobj_reg_shm_size_bound:
  assumes "mobj_reg_shm_size n \<noteq> 0" and "unat (mobj_reg_shm_size n) < 2 ^ 48"
  shows "unat n < 2 ^ 45"
proof -
  have u: "unat (8 :: size_t) = 8" "unat sizeof_mobj_reg_shm = 72" by (simp_all add: sizeof_mobj_reg_shm_def)
  have s: "mobj_reg_shm_size n = sizeof_mobj_reg_shm + 8 * n" "8 * unat n < 2 ^ 64" "72 + unat (8 * n) < 2 ^ 64"
    using assms(1) by (auto simp: mobj_reg_shm_size_def mul_overflow_def add_overflow_def u split: if_splits prod.splits)
  have e: "unat (8 * n) = 8 * unat n" using s(2) by (simp add: unat_word_ariths)
  have "unat (mobj_reg_shm_size n) = 72 + 8 * unat n"
    unfolding s(1) using s(3) e by (subst unat_add_no_wrap) (simp_all add: u)
  with assms(2) show ?thesis by simp
qed

lemma mobj_reg_shm_alloc_Some:
  assumes "mobj_reg_shm_alloc e pages off ck s = (Some a, s')" and env: "shm_env_ok N e" and len: "length pages < 2 ^ 64"
  obtains r where "s' = s\<lparr>reg_shm_list := a # reg_shm_list s, rs_heap := (rs_heap s)(a := r)\<rparr>" "rs_ok N r"
    "a \<notin> set (reg_shm_list s)" "rs_pages r = pages" "rs_page_offset r = off" "rs_cookie r = ck" "rs_refc r = 1"
    "rs_mm r = None" "rs_mapcount r = 0" "rs_guarded r" "\<not> rs_releasing r" "\<not> rs_release_frees r"
proof -
  define n where "n = (of_nat (length pages) :: size_t)"
  have ne: "n \<noteq> 0" "off < SMALL_PAGE_SIZE" "mobj_reg_shm_size n \<noteq> 0" "se_calloc e (mobj_reg_shm_size n)" "a = se_addr e (reg_shm_list s)"
      "list_all (\<lambda>p. p AND SMALL_PAGE_MASK = 0 \<and> se_nsec e p) pages"
    and s': "s' = s\<lparr>reg_shm_list := a # reg_shm_list s, rs_heap := (rs_heap s)(a :=
            \<lparr>rs_size = n * SMALL_PAGE_SIZE - off, rs_refc = 1, rs_cookie = ck, rs_mm = None,
             rs_page_offset = off, rs_mapcount = 0, rs_guarded = True, rs_releasing = False,
             rs_release_frees = False, rs_pages = pages\<rparr>)\<rparr>"
    using assms(1) by (auto simp: mobj_reg_shm_alloc_def Let_def n_def [symmetric] not_le split: if_splits option.splits)
  have fresh: "a \<notin> set (reg_shm_list s)" "unat (mobj_reg_shm_size n) < 2 ^ 48"
    using env ne(4,5) by (auto simp: shm_env_ok_def)
  have un: "unat n = length pages" using len by (simp add: n_def unat_of_nat)
  have "unat n < 2 ^ 45" by (rule mobj_reg_shm_size_bound [OF ne(3) fresh(2)])
  then have b: "length pages * 4096 < 2 ^ 64" by (simp add: un)
  have "unat SMALL_PAGE_SIZE = 4096" by (simp add: SMALL_PAGE_SIZE_def)
  then have m: "unat (n * SMALL_PAGE_SIZE) = length pages * 4096" "unat off < 4096"
    using b ne(2) by (simp_all add: unat_word_ariths un word_less_nat_alt)
  have "1 \<le> length pages" using ne(1) un by (cases pages) (auto simp: n_def)
  with m have "unat (n * SMALL_PAGE_SIZE - off) = length pages * 4096 - unat off" by (subst unat_sub_no_wrap) auto
  with m b ne(6) env \<open>1 \<le> length pages\<close> show ?thesis
    by (intro that [OF s']) (auto simp: rs_ok_def shm_env_ok_def fresh)
qed

section \<open>Temporary mappings\<close>

text \<open>The states that differ in memory that is not in use only.\<close>

definition same_shm :: "shm_state \<Rightarrow> shm_state \<Rightarrow> bool" where
  "same_shm s s' \<longleftrightarrow> reg_shm_list s' = reg_shm_list s \<and> tee_mm_shm s' = tee_mm_shm s \<and>
     shm_mobj_refc s' = shm_mobj_refc s \<and> (\<forall>a. a \<in> set (reg_shm_list s) \<longrightarrow> rs_heap s' a = rs_heap s a)"

lemma same_shm_refl [simp]: "same_shm s s"
  by (simp add: same_shm_def)

lemma same_shm_trans: "same_shm s s1 \<Longrightarrow> same_shm s1 s2 \<Longrightarrow> same_shm s s2"
  by (simp add: same_shm_def)

lemma same_shm_inv: "same_shm s s' \<Longrightarrow> shm_inv N s' = shm_inv N s"
  by (auto simp: same_shm_def shm_inv_def)

text \<open>One page can be mapped.\<close>

definition mappable :: "shm_env \<Rightarrow> paddr_t \<Rightarrow> bool" where
  "mappable e p \<longleftrightarrow> p AND SMALL_PAGE_MASK = 0 \<and> se_nsec e p \<and> se_calloc e 80 \<and> se_mm_alloc e 4096 \<noteq> None \<and>
     se_map_pages e = TEE_SUCCESS"

text \<open>Page \<open>p\<close> is mapped as object \<open>a\<close>, which is guarded and has one reference.\<close>

definition mapped :: "shm_state \<Rightarrow> addr \<Rightarrow> shm_state \<Rightarrow> bool" where
  "mapped s a s1 \<longleftrightarrow> a \<notin> set (reg_shm_list s) \<and> reg_shm_list s1 = a # reg_shm_list s \<and> shm_mobj_refc s1 = shm_mobj_refc s \<and>
     (\<exists>mm. rs_mm (rs_heap s1 a) = Some mm \<and> tee_mm_shm s1 = mm # tee_mm_shm s) \<and>
     rs_refc (rs_heap s1 a) = 1 \<and> rs_guarded (rs_heap s1 a) \<and> \<not> rs_releasing (rs_heap s1 a) \<and>
     (\<forall>b. b \<in> set (reg_shm_list s) \<longrightarrow> rs_heap s1 b = rs_heap s b)"

lemma mapped_put:
  assumes "mapped s a s1"
  shows "\<exists>s2. mobj_put (Some (RegShm a)) s1 = Ret s2 \<and> same_shm s s2"
  using assms
  by (auto simp: mapped_def mobj_put_def mobj_reg_shm_free_def reg_shm_free_helper_def reg_shm_unmap_helper_def
      same_shm_def Let_def)

lemma alloc_one_page:
  assumes env: "shm_env_ok N e"
  shows "mobj_mapped_shm_alloc e [p] 0 0 s = Ret (None, s) \<and> \<not> mappable e p \<or>
    (\<exists>s2. mobj_mapped_shm_alloc e [p] 0 0 s = Ret (None, s2) \<and> same_shm s s2 \<and> \<not> mappable e p) \<or>
    (\<exists>a s1. mobj_mapped_shm_alloc e [p] 0 0 s = Ret (Some a, s1) \<and> mapped s a s1 \<and> mappable e p)"
proof (cases "mobj_reg_shm_alloc e [p] 0 0 s")
  case (Pair x s1)
  have size: "mobj_reg_shm_size 1 = 80" by (simp add: mobj_reg_shm_size_def mul_overflow_def add_overflow_def sizeof_mobj_reg_shm_def)
  show ?thesis
  proof (cases x)
    case None
    then have "s1 = s" "\<not> mappable e p" using Pair
      by (auto simp: mobj_reg_shm_alloc_def Let_def size mappable_def SMALL_PAGE_SIZE_def split: if_splits option.splits)
    then show ?thesis using Pair None by (simp add: mobj_mapped_shm_alloc_def)
  next
    case (Some a)
    then have al: "mobj_reg_shm_alloc e [p] 0 0 s = (Some a, s1)" using Pair by simp
    then have p: "p AND SMALL_PAGE_MASK = 0" "se_nsec e p" "se_calloc e 80" "a = se_addr e (reg_shm_list s)"
      by (auto simp: mobj_reg_shm_alloc_def Let_def size SMALL_PAGE_SIZE_def split: if_splits option.splits)
    have a: "a \<notin> set (reg_shm_list s)" using env p(4) by (auto simp: shm_env_ok_def)
    have s1: "s1 = s\<lparr>reg_shm_list := a # reg_shm_list s, rs_heap := (rs_heap s)(a :=
            \<lparr>rs_size = 4096, rs_refc = 1, rs_cookie = 0, rs_mm = None, rs_page_offset = 0, rs_mapcount = 0,
             rs_guarded = True, rs_releasing = False, rs_release_frees = False, rs_pages = [p]\<rparr>)\<rparr>"
      using al p by (simp add: mobj_reg_shm_alloc_def Let_def size SMALL_PAGE_SIZE_def)
    have sz: "((4096 :: u64) + SMALL_PAGE_MASK) AND NOT SMALL_PAGE_MASK = 4096"
      by (simp add: SMALL_PAGE_MASK_def SMALL_PAGE_SIZE_def)
    show ?thesis
    proof (cases "mobj_inc_map e a s1")
      case map: (Pair res s2)
      show ?thesis
      proof (cases "res = TEE_SUCCESS")
        case True
        then have "mapped s a s2 \<and> mappable e p" using map p a
          by (auto simp: s1 mobj_inc_map_def inc_map_count_def inc_map_locked_def Let_def sz rs_upd_def mapped_def mappable_def
              split: option.splits if_splits)
        then show ?thesis using al map True by (simp add: mobj_mapped_shm_alloc_def)
      next
        case False
        then have s2: "s2 = s1" "\<not> mappable e p" using map p
          by (auto simp: s1 mobj_inc_map_def inc_map_count_def inc_map_locked_def Let_def sz rs_upd_def mappable_def
              split: option.splits if_splits)
        have "\<exists>s3. mobj_put (Some (RegShm a)) s1 = Ret s3 \<and> same_shm s s3"
          using a by (auto simp: s1 mobj_put_def mobj_reg_shm_free_def reg_shm_free_helper_def same_shm_def Let_def)
        then show ?thesis using al map False s2 by (auto simp: mobj_mapped_shm_alloc_def)
      qed
    qed
  qed
qed

section \<open>Mapping and unmapping\<close>

text \<open>An object is mapped and unmapped again, in the given environments one after the other.\<close>

fun map_rounds :: "shm_env list \<Rightarrow> addr \<Rightarrow> shm_state \<Rightarrow> shm_state outcome" where
  "map_rounds [] a s = Ret s"
| "map_rounds (e # es) a s =
     (case mobj_inc_map e a s of (res, s) \<Rightarrow>
      bind_outcome (if res = TEE_SUCCESS then mobj_dec_map a s else Ret (res, s)) (\<lambda>(r, s). map_rounds es a s))"

lemma map_round:
  assumes "rs_mapcount (rs_heap s a) = 0" "se_mm_alloc e = (\<lambda>_. Some mm)" "se_map_pages e = TEE_SUCCESS"
  shows "\<exists>s1 s2. mobj_inc_map e a s = (TEE_SUCCESS, s1) \<and> mobj_dec_map a s1 = Ret (TEE_SUCCESS, s2) \<and>
    rs_mapcount (rs_heap s2 a) = 0 \<and> rs_mm (rs_heap s2 a) = Some mm \<and> tee_mm_shm s2 = mm # tee_mm_shm s \<and>
    reg_shm_list s2 = reg_shm_list s"
  using assms
  by (auto simp: mobj_inc_map_def inc_map_count_def inc_map_locked_def Let_def mobj_dec_map_def dec_map_count_def
      dec_map_locked_def rs_upd_def)

text \<open>
  C38. Mappings leak. An object that is mapped and unmapped \<open>n\<close> times leaves \<open>n\<close> entries allocated in
  the pool of virtual addresses, only the last of which is still known: \<^verbatim>\<open>mobj_dec_map\<close> unmaps when
  the counter is not zero, where the contract of \<^verbatim>\<open>refcount.h\<close> says to do so when it is.
\<close>

theorem mobj_dec_map_leaks:
  assumes "rs_mapcount (rs_heap s a) = 0"
  shows "\<exists>s'. map_rounds (map (\<lambda>mm. e\<lparr>se_mm_alloc := (\<lambda>_. Some mm), se_map_pages := TEE_SUCCESS\<rparr>) mms) a s = Ret s' \<and>
    tee_mm_shm s' = rev mms @ tee_mm_shm s \<and> rs_mapcount (rs_heap s' a) = 0"
  using assms
proof (induction mms arbitrary: s)
  case (Cons mm mms)
  let ?e = "e\<lparr>se_mm_alloc := (\<lambda>_. Some mm), se_map_pages := TEE_SUCCESS\<rparr>"
  from map_round [OF Cons.prems, of ?e mm] obtain s1 s2 where
    r: "mobj_inc_map ?e a s = (TEE_SUCCESS, s1)" "mobj_dec_map a s1 = Ret (TEE_SUCCESS, s2)"
      "rs_mapcount (rs_heap s2 a) = 0" "tee_mm_shm s2 = mm # tee_mm_shm s" by auto
  from Cons.IH [OF r(3)] r show ?case by auto
qed simp

text \<open>
  Two threads that map an object at the same time both find the counter zero; the second one then
  finds it set and returns success without counting: the object is mapped for two and counted once.
\<close>

theorem mobj_inc_map_undercounts:
  assumes "rs_mapcount (rs_heap s a) = 0" "se_mm_alloc e = (\<lambda>_. Some mm)" "se_map_pages e = TEE_SUCCESS"
  shows "\<exists>s1 s2. inc_map_count a s = (False, s1) \<and> inc_map_count a s1 = (False, s1) \<and> inc_map_locked e a s1 = (TEE_SUCCESS, s2) \<and>
    inc_map_locked e a s2 = (TEE_SUCCESS, s2) \<and> rs_mapcount (rs_heap s2 a) = 1"
  using assms by (simp add: inc_map_count_def inc_map_locked_def Let_def rs_upd_def)

definition demo_rs :: mobj_reg_shm where
  "demo_rs = \<lparr>rs_size = 4096, rs_refc = 1, rs_cookie = 7, rs_mm = None, rs_page_offset = 0, rs_mapcount = 0,
     rs_guarded = False, rs_releasing = False, rs_release_frees = False, rs_pages = [0x2000]\<rparr>"

definition demo_shm :: shm_state where
  "demo_shm = \<lparr>reg_shm_list = [1], rs_heap = (\<lambda>_. demo_rs), tee_mm_shm = [], shm_mobj_refc = 1\<rparr>"

definition demo_shm_env :: shm_env where
  "demo_shm_env = \<lparr>se_calloc = (\<lambda>n. n \<le> 1024), se_addr = (\<lambda>as. Suc (foldr max as 0)), se_malloc = (\<lambda>n. n \<le> 1024),
     se_nsec = (\<lambda>p. p < 0x100000), se_mm_alloc = (\<lambda>_. Some 5), se_map_pages = TEE_SUCCESS,
     se_mem = (\<lambda>p. if p = 0x1000 then 0x3000 else if p = 0x1008 then 0x4000 else 1), se_shm_paddr = 0x80000, se_shm_size = 0x10000\<rparr>"

theorem mobj_dec_map_leaks_witness:
  "\<exists>s'. map_rounds (map (\<lambda>mm. demo_shm_env\<lparr>se_mm_alloc := (\<lambda>_. Some mm), se_map_pages := TEE_SUCCESS\<rparr>) [5, 6]) 1 demo_shm = Ret s' \<and>
    tee_mm_shm s' = [6, 5]"
proof -
  have "rs_mapcount (rs_heap demo_shm 1) = 0" "rev [5, 6] @ tee_mm_shm demo_shm = [6, 5 :: nat]"
    by (simp_all add: demo_shm_def demo_rs_def)
  with mobj_dec_map_leaks [OF this(1), of demo_shm_env "[5, 6]"] show ?thesis by metis
qed

text \<open>
  A live mapping is removed. One thread has decremented the map counter to zero; before it takes
  the lock another thread maps the object anew and is told that it is mapped; the first thread then
  finds the counter not zero and unmaps the object under the other one.
\<close>

theorem mobj_dec_map_unmaps_live:
  assumes "rs_mapcount (rs_heap s a) = 1" "se_mm_alloc e = (\<lambda>_. Some mm)" "se_map_pages e = TEE_SUCCESS"
  shows "\<exists>s1 s2 s3 s4. dec_map_count a s = Ret (True, s1) \<and> inc_map_count a s1 = (False, s2) \<and>
    inc_map_locked e a s2 = (TEE_SUCCESS, s3) \<and> dec_map_locked a s3 = Ret s4 \<and>
    rs_mapcount (rs_heap s4 a) = 1 \<and> mobj_reg_shm_get_va (rs_heap s4 a) 0 = None"
  using assms
  by (simp add: inc_map_count_def inc_map_locked_def Let_def dec_map_count_def dec_map_locked_def rs_upd_def
      reg_shm_unmap_helper_def mobj_reg_shm_get_va_def)

theorem mobj_dec_map_unmaps_live_witness:
  "\<exists>s1 s2 s3 s4. dec_map_count 1 (rs_upd 1 (\<lambda>r. r\<lparr>rs_mapcount := 1, rs_mm := Some 4\<rparr>) demo_shm) = Ret (True, s1) \<and>
    inc_map_count 1 s1 = (False, s2) \<and> inc_map_locked demo_shm_env 1 s2 = (TEE_SUCCESS, s3) \<and> dec_map_locked 1 s3 = Ret s4 \<and>
    mobj_reg_shm_get_va (rs_heap s4 1) 0 = None"
  using mobj_dec_map_unmaps_live [of "rs_upd 1 (\<lambda>r. r\<lparr>rs_mapcount := 1, rs_mm := Some 4\<rparr>) demo_shm" 1 demo_shm_env 5]
  by (auto simp: demo_shm_env_def)

end
