(* ===== verification/Msg_Param.thy ===== *)
theory Msg_Param
  imports Reg_Shm
begin

unbundle bit_operations_syntax

text \<open>
  Lists of pages that the normal world passes for shared memory, \<^verbatim>\<open>core/kernel/msg_param.c\<close>: a chain
  of pages, each of which holds the addresses of 511 pages and that of the next one. The loop that
  reads it maps one page of the chain after the other; it is equivalent to a definition by index.
\<close>

section \<open>The loop\<close>

text \<open>
  Where the loop reads: the object for the mapped page, the address of the page and the index in
  it. \<open>next_entry\<close> goes on to the next page of the chain at the last index; \<open>None\<close> stands for
  \<^verbatim>\<open>goto out\<close>, with the object that is still mapped, if any.
\<close>

definition next_entry ::
    "shm_env \<Rightarrow> addr \<times> paddr_t \<times> nat \<Rightarrow> shm_state \<Rightarrow> ((addr \<times> paddr_t \<times> nat) option \<times> addr option \<times> shm_state) outcome" where
  "next_entry e pos s =
     (case pos of (a, page, i) \<Rightarrow>
      if i = 511 then
        let nxt = se_mem e (page + 8 * of_nat i) in
        if nxt AND SMALL_PAGE_MASK \<noteq> 0 then Ret (None, Some a, s)
        else bind_outcome (mobj_put (Some (RegShm a)) s) (\<lambda>s.
          bind_outcome (mobj_mapped_shm_alloc e [nxt] 0 0 s) (\<lambda>(m, s).
            case m of None \<Rightarrow> Ret (None, None, s) | Some a \<Rightarrow> Ret (Some (a, nxt, 0), Some a, s)))
      else Ret (Some pos, Some a, s))"

fun extract_loop ::
    "shm_env \<Rightarrow> nat \<Rightarrow> addr \<times> paddr_t \<times> nat \<Rightarrow> shm_state \<Rightarrow> (paddr_t list option \<times> addr option \<times> shm_state) outcome" where
  "extract_loop e 0 (a, page, i) s = Ret (Some [], Some a, s)"
| "extract_loop e (Suc k) pos s =
     bind_outcome (next_entry e pos s) (\<lambda>(pos, m, s).
       case pos of
         None \<Rightarrow> Ret (None, m, s)
       | Some (a, page, i) \<Rightarrow>
           let p = se_mem e (page + 8 * of_nat i) in
           if p AND SMALL_PAGE_MASK \<noteq> 0 then Ret (None, Some a, s)
           else bind_outcome (extract_loop e k (a, page, Suc i) s) (\<lambda>(ps, m, s). Ret (map_option ((#) p) ps, m, s)))"

definition msg_param_extract_pages ::
    "shm_env \<Rightarrow> paddr_t \<Rightarrow> nat \<Rightarrow> shm_state \<Rightarrow> (paddr_t list option \<times> shm_state) outcome" where
  "msg_param_extract_pages e buffer num_pages s =
     (if buffer AND SMALL_PAGE_MASK \<noteq> 0 then Ret (None, s)
      else bind_outcome (mobj_mapped_shm_alloc e [buffer] 0 0 s) (\<lambda>(m, s).
        case m of
          None \<Rightarrow> Ret (None, s)
        | Some a \<Rightarrow>
            bind_outcome (extract_loop e num_pages (a, buffer, 0) s) (\<lambda>(ps, m, s).
            bind_outcome (mobj_put (map_option RegShm m) s) (\<lambda>s. Ret (ps, s)))))"

text \<open>\<^verbatim>\<open>msg_param_mobj_from_noncontig\<close>.\<close>

definition msg_param_mobj_from_noncontig ::
    "shm_env \<Rightarrow> paddr_t \<Rightarrow> size_t \<Rightarrow> u64 \<Rightarrow> bool \<Rightarrow> shm_state \<Rightarrow> (addr option \<times> shm_state) outcome" where
  "msg_param_mobj_from_noncontig e buf_ptr sz shm_ref map_buffer s =
     (let page_offset = buf_ptr AND SMALL_PAGE_MASK in
      case add_overflow sz page_offset of (o1, size_plus_offs) \<Rightarrow>
      if o1 then Ret (None, s)
      else let num_pages = (size_plus_offs - 1) div SMALL_PAGE_SIZE + 1 in
        case mul_overflow num_pages 8 of (o2, msize) \<Rightarrow>
        if o2 then Ret (None, s)
        else if \<not> se_malloc e msize then Ret (None, s)
        else bind_outcome (msg_param_extract_pages e (buf_ptr AND NOT SMALL_PAGE_MASK) (unat num_pages) s) (\<lambda>(ps, s).
          case ps of
            None \<Rightarrow> Ret (None, s)
          | Some pages \<Rightarrow>
              if map_buffer then mobj_mapped_shm_alloc e pages page_offset shm_ref s
              else Ret (mobj_reg_shm_alloc e pages page_offset shm_ref s)))"

section \<open>The entries by index\<close>

definition chain_page :: "shm_env \<Rightarrow> paddr_t \<Rightarrow> nat \<Rightarrow> paddr_t" where
  "chain_page e buffer q = ((\<lambda>p. se_mem e (p + 8 * 511)) ^^ q) buffer"

definition chain_entry :: "shm_env \<Rightarrow> paddr_t \<Rightarrow> nat \<Rightarrow> paddr_t" where
  "chain_entry e buffer j = se_mem e (chain_page e buffer (j div 511) + 8 * of_nat (j mod 511))"

text \<open>The pages of the chain that hold the first \<open>n\<close> entries, and that all of this can be read.\<close>

definition chain_ok :: "shm_env \<Rightarrow> paddr_t \<Rightarrow> nat \<Rightarrow> bool" where
  "chain_ok e buffer n \<longleftrightarrow>
     list_all (\<lambda>q. mappable e (chain_page e buffer q)) [0..<Suc ((n - 1) div 511)] \<and>
     list_all (\<lambda>j. chain_entry e buffer j AND SMALL_PAGE_MASK = 0) [0..<n]"

text \<open>What remains from entry \<open>j\<close> on, of \<open>k\<close> entries, where the page of \<open>j - 1\<close> is mapped.\<close>

definition rest_ok :: "shm_env \<Rightarrow> paddr_t \<Rightarrow> nat \<Rightarrow> nat \<Rightarrow> bool" where
  "rest_ok e buffer j k \<longleftrightarrow>
     (\<forall>x. j \<le> x \<longrightarrow> x < j + k \<longrightarrow> chain_entry e buffer x AND SMALL_PAGE_MASK = 0 \<and>
        (0 < x \<longrightarrow> x mod 511 = 0 \<longrightarrow> mappable e (chain_page e buffer (x div 511))))"

lemma rest_ok_Suc:
  "rest_ok e buffer j (Suc k) \<longleftrightarrow>
     (0 < j \<longrightarrow> j mod 511 = 0 \<longrightarrow> mappable e (chain_page e buffer (j div 511))) \<and>
     chain_entry e buffer j AND SMALL_PAGE_MASK = 0 \<and> rest_ok e buffer (Suc j) k"
proof -
  have "j \<le> x \<and> x < j + Suc k \<longleftrightarrow> x = j \<or> Suc j \<le> x \<and> x < Suc j + k" for x by auto
  then show ?thesis unfolding rest_ok_def by metis
qed

text \<open>The position of the loop before entry \<open>j\<close>: on its page, or behind the last entry of the page before.\<close>

definition at_entry :: "shm_env \<Rightarrow> paddr_t \<Rightarrow> nat \<Rightarrow> paddr_t \<times> nat \<Rightarrow> bool" where
  "at_entry e buffer j pi \<longleftrightarrow>
     (j = 0 \<or> j mod 511 \<noteq> 0) \<and> pi = (chain_page e buffer (j div 511), j mod 511) \<or>
     0 < j \<and> j mod 511 = 0 \<and> pi = (chain_page e buffer (j div 511 - 1), 511)"

lemma at_entry_Suc:
  assumes "pi = (chain_page e buffer (j div 511), j mod 511)"
  shows "at_entry e buffer (Suc j) (fst pi, Suc (snd pi))"
proof (cases "Suc (j mod 511) = 511")
  case True
  then have "Suc j mod 511 = 0" "Suc j div 511 = Suc (j div 511)" by (simp_all add: mod_Suc div_Suc)
  with True assms show ?thesis by (simp add: at_entry_def)
next
  case False
  then have "Suc j mod 511 = Suc (j mod 511)" "Suc j div 511 = j div 511" by (simp_all add: mod_Suc div_Suc)
  with assms show ?thesis by (simp add: at_entry_def)
qed

lemma chain_page_next: "0 < q \<Longrightarrow> chain_page e buffer q = se_mem e (chain_page e buffer (q - 1) + 8 * 511)"
  by (cases q) (simp_all add: chain_page_def)

section \<open>Correctness of the loop\<close>

definition released :: "shm_state \<Rightarrow> addr option \<Rightarrow> shm_state \<Rightarrow> bool" where
  "released s0 m s \<longleftrightarrow> (case m of None \<Rightarrow> same_shm s0 s | Some a \<Rightarrow> mapped s0 a s)"

lemma mapped_same: "same_shm s s1 \<Longrightarrow> mapped s1 a s2 \<Longrightarrow> mapped s a s2"
  by (simp add: same_shm_def mapped_def)

lemma next_entry_cases:
  assumes m: "mapped s0 a s" and at: "at_entry e buffer j (page, i)" and env: "shm_env_ok N e"
  obtains (stop) m s' where "next_entry e (a, page, i) s = Ret (None, m, s')" "released s0 m s'" "0 < j" "j mod 511 = 0"
      "\<not> mappable e (chain_page e buffer (j div 511))"
  | (go) a' s' where "next_entry e (a, page, i) s = Ret (Some (a', chain_page e buffer (j div 511), j mod 511), Some a', s')"
      "mapped s0 a' s'" "0 < j \<Longrightarrow> j mod 511 = 0 \<Longrightarrow> mappable e (chain_page e buffer (j div 511))"
proof (cases "i = 511")
  case False
  with at have "(page, i) = (chain_page e buffer (j div 511), j mod 511)" "j = 0 \<or> j mod 511 \<noteq> 0"
    by (auto simp: at_entry_def)
  then show thesis using m False by (intro go) (auto simp: next_entry_def)
next
  case True
  have "j mod 511 < 511" by simp
  with at True have j: "0 < j" "j mod 511 = 0" "page = chain_page e buffer (j div 511 - 1)" by (auto simp: at_entry_def)
  then have "0 < j div 511" using mult_div_mod_eq [of 511 j] by (cases "j div 511 = 0") simp_all
  then have nx: "se_mem e (page + 4088) = chain_page e buffer (j div 511)"
    using chain_page_next [of "j div 511" e buffer] j(3) by simp
  let ?p = "chain_page e buffer (j div 511)"
  show thesis
  proof (cases "?p AND SMALL_PAGE_MASK = 0")
    case False
    then have "next_entry e (a, page, i) s = Ret (None, Some a, s)" "\<not> mappable e ?p"
      using True by (simp_all add: next_entry_def nx Let_def mappable_def)
    then show thesis using m j by (intro stop [of "Some a" s]) (simp_all add: released_def)
  next
    case aligned: True
    from mapped_put [OF m] obtain s2 where s2: "mobj_put (Some (RegShm a)) s = Ret s2" "same_shm s0 s2" by blast
    have run: "next_entry e (a, page, i) s = bind_outcome (mobj_mapped_shm_alloc e [?p] 0 0 s2) (\<lambda>(m, s).
        case m of None \<Rightarrow> Ret (None, None, s) | Some a \<Rightarrow> Ret (Some (a, ?p, 0), Some a, s))"
      using True aligned s2(1) by (simp add: next_entry_def nx Let_def)
    from alloc_one_page [OF env, of ?p s2] show thesis
    proof (elim disjE exE conjE)
      assume "mobj_mapped_shm_alloc e [?p] 0 0 s2 = Ret (None, s2)" "\<not> mappable e ?p"
      then show thesis using run s2(2) j by (intro stop [of None s2]) (simp_all add: released_def)
    next
      fix s3 assume "mobj_mapped_shm_alloc e [?p] 0 0 s2 = Ret (None, s3)" "same_shm s2 s3" "\<not> mappable e ?p"
      then show thesis using run same_shm_trans [OF s2(2), of s3] j
        by (intro stop [of None s3]) (simp_all add: released_def)
    next
      fix a' s3 assume "mobj_mapped_shm_alloc e [?p] 0 0 s2 = Ret (Some a', s3)" "mapped s2 a' s3" "mappable e ?p"
      then show thesis using run mapped_same [OF s2(2), of a' s3] j by (intro go [of a' s3]) simp_all
    qed
  qed
qed

lemma extract_loop_ok:
  assumes env: "shm_env_ok N e"
  shows "mapped s0 a s \<Longrightarrow> at_entry e buffer j (page, i) \<Longrightarrow>
    \<exists>m s'. extract_loop e k (a, page, i) s =
      Ret (if rest_ok e buffer j k then Some (map (chain_entry e buffer) [j..<j + k]) else None, m, s') \<and> released s0 m s'"
proof (induction k arbitrary: a s page i j)
  case 0
  then show ?case by (auto simp: rest_ok_def released_def)
next
  case (Suc k)
  from Suc.prems env show ?case
  proof (cases rule: next_entry_cases)
    case (stop m s')
    then have "\<not> rest_ok e buffer j (Suc k)" by (simp add: rest_ok_Suc)
    then show ?thesis using stop by simp
  next
    case (go a' s')
    let ?p = "chain_entry e buffer j"
    have p: "se_mem e (chain_page e buffer (j div 511) + 8 * of_nat (j mod 511)) = ?p" by (simp add: chain_entry_def)
    show ?thesis
    proof (cases "?p AND SMALL_PAGE_MASK = 0")
      case False
      then have "\<not> rest_ok e buffer j (Suc k)" by (simp add: rest_ok_Suc)
      then show ?thesis using go(1,2) False p by (auto simp: Let_def released_def)
    next
      case True
      from at_entry_Suc [of "(chain_page e buffer (j div 511), j mod 511)" e buffer j]
      have "at_entry e buffer (Suc j) (chain_page e buffer (j div 511), Suc (j mod 511))" by simp
      from Suc.IH [OF go(2) this] obtain m s2 where
        "extract_loop e k (a', chain_page e buffer (j div 511), Suc (j mod 511)) s' =
          Ret (if rest_ok e buffer (Suc j) k then Some (map (chain_entry e buffer) [Suc j..<Suc j + k]) else None, m, s2)"
        "released s0 m s2" by blast
      moreover have "[j..<j + Suc k] = j # [Suc j..<Suc j + k]" by (simp add: upt_rec)
      ultimately show ?thesis using go(1,3) True p by (auto simp: Let_def rest_ok_Suc)
    qed
  qed
qed

lemma chain_ok_rest: "chain_ok e buffer n \<longleftrightarrow> mappable e buffer \<and> rest_ok e buffer 0 n"
proof -
  have c0: "chain_page e buffer 0 = buffer" by (simp add: chain_page_def)
  have "(\<forall>q \<le> (n - 1) div 511. mappable e (chain_page e buffer q)) \<longleftrightarrow>
    mappable e buffer \<and> (\<forall>x < n. 0 < x \<longrightarrow> x mod 511 = 0 \<longrightarrow> mappable e (chain_page e buffer (x div 511)))" (is "?l = ?r")
  proof
    assume l: ?l
    have "x div 511 \<le> (n - 1) div 511" if "x < n" for x using that by (intro div_le_mono) simp
    with l c0 show ?r by (metis le0)
  next
    assume r: ?r
    show ?l
    proof (intro allI impI)
      fix q assume q: "q \<le> (n - 1) div 511"
      show "mappable e (chain_page e buffer q)"
      proof (cases "q = 0")
        case False
        have "q * 511 \<le> n - 1" using q by (metis div_times_less_eq_dividend le_trans mult_le_mono1)
        with False have "q * 511 < n" "0 < q * 511" by simp_all
        with r have "mappable e (chain_page e buffer (q * 511 div 511))" by (metis mod_mult_self2_is_0)
        then show ?thesis by simp
      qed (use r c0 in simp)
    qed
  qed
  then show ?thesis unfolding chain_ok_def rest_ok_def
    by (simp add: list_all_iff less_Suc_eq_le atLeast0LessThan del: upt_Suc) (auto simp: Ball_def)
qed

lemma extract_pages_result:
  assumes env: "shm_env_ok N e"
  shows "\<exists>s'. msg_param_extract_pages e buffer n s =
    Ret (if chain_ok e buffer n then Some (map (chain_entry e buffer) [0..<n]) else None, s') \<and> same_shm s s'"
proof (cases "buffer AND SMALL_PAGE_MASK = 0")
  case False
  then show ?thesis by (simp add: msg_param_extract_pages_def chain_ok_rest mappable_def)
next
  case True
  from alloc_one_page [OF env, of buffer s] show ?thesis
  proof (elim disjE exE conjE)
    fix a s1 assume a: "mobj_mapped_shm_alloc e [buffer] 0 0 s = Ret (Some a, s1)" "mapped s a s1" "mappable e buffer"
    have "at_entry e buffer 0 (buffer, 0)" by (simp add: at_entry_def chain_page_def)
    from extract_loop_ok [OF env a(2) this, of n] obtain m s2 where
      run: "extract_loop e n (a, buffer, 0) s1 =
        Ret (if rest_ok e buffer 0 n then Some (map (chain_entry e buffer) [0..<n]) else None, m, s2)"
      and rel: "released s m s2" by auto
    from rel have "\<exists>s'. mobj_put (map_option RegShm m) s2 = Ret s' \<and> same_shm s s'"
      using mapped_put [of s _ s2] by (cases m) (auto simp: released_def mobj_put_def)
    with a run True show ?thesis by (auto simp: msg_param_extract_pages_def chain_ok_rest)
  qed (use True in \<open>auto simp: msg_param_extract_pages_def chain_ok_rest\<close>)
qed

text \<open>
  C11. The loop that reads the list of pages, which maps one page of the chain after the other and
  checks each entry as it goes, returns exactly the entries given by index: it succeeds if and only
  if every page of the chain can be mapped and every entry is page-aligned, and whether it succeeds
  or not, all temporary mappings are gone when it returns.
\<close>

theorem msg_param_extract_pages_equiv:
  assumes "shm_env_ok N e"
  shows "\<exists>s'. msg_param_extract_pages e buffer n s =
    Ret (if chain_ok e buffer n then Some (map (chain_entry e buffer) [0..<n]) else None, s') \<and>
    reg_shm_list s' = reg_shm_list s \<and> tee_mm_shm s' = tee_mm_shm s"
  using extract_pages_result [OF assms, of buffer n s] by (auto simp: same_shm_def)

lemma demo_shm_env_ok: "shm_env_ok (\<lambda>p. p < 0x100000) demo_shm_env"
proof -
  have "unat n < 2 ^ 48" if "n \<le> 1024" for n :: size_t
    using that by (simp add: word_le_nat_alt)
  moreover have "a \<in> set as \<Longrightarrow> a \<le> foldr max as 0" for a :: nat and as by (induction as) auto
  then have "Suc (foldr max as 0) \<notin> set as" for as :: "nat list" by (meson Suc_n_not_le_n)
  ultimately show ?thesis by (auto simp: shm_env_ok_def demo_shm_env_def)
qed

lemma demo_chain:
  "chain_ok demo_shm_env 0x1000 2" "map (chain_entry demo_shm_env 0x1000) [0..<2] = [0x3000, 0x4000]"
proof -
  have up: "[0..<Suc 0] = [0]" "[0..<2] = [0, 1 :: nat]" by (simp_all add: upt_rec)
  show "chain_ok demo_shm_env 0x1000 2"
    by (simp add: chain_ok_def up mappable_def chain_page_def chain_entry_def demo_shm_env_def SMALL_PAGE_MASK_def
        SMALL_PAGE_SIZE_def)
  show "map (chain_entry demo_shm_env 0x1000) [0..<2] = [0x3000, 0x4000]"
    by (simp add: up chain_page_def chain_entry_def demo_shm_env_def)
qed

theorem msg_param_extract_pages_equiv_witness:
  "\<exists>s'. msg_param_extract_pages demo_shm_env 0x1000 2 demo_shm = Ret (Some [0x3000, 0x4000], s') \<and> tee_mm_shm s' = []"
proof -
  have "tee_mm_shm demo_shm = []" by (simp add: demo_shm_def)
  with msg_param_extract_pages_equiv [OF demo_shm_env_ok, of "0x1000" 2 demo_shm] demo_chain show ?thesis by auto
qed

section \<open>Objects from lists of pages\<close>

text \<open>A new guarded object with one reference, in a state that is otherwise the same.\<close>

definition added :: "(paddr_t \<Rightarrow> bool) \<Rightarrow> u64 \<Rightarrow> shm_state \<Rightarrow> addr \<Rightarrow> shm_state \<Rightarrow> bool" where
  "added N ck s a s' \<longleftrightarrow> a \<notin> set (reg_shm_list s) \<and> reg_shm_list s' = a # reg_shm_list s \<and> tee_mm_shm s' = tee_mm_shm s \<and>
     shm_mobj_refc s' = shm_mobj_refc s \<and> (\<forall>b. b \<in> set (reg_shm_list s) \<longrightarrow> rs_heap s' b = rs_heap s b) \<and>
     rs_ok N (rs_heap s' a) \<and> rs_refc (rs_heap s' a) = 1 \<and> rs_guarded (rs_heap s' a) \<and> \<not> rs_releasing (rs_heap s' a) \<and>
     \<not> rs_release_frees (rs_heap s' a) \<and> rs_mm (rs_heap s' a) = None \<and> rs_cookie (rs_heap s' a) = ck"

lemma added_inv: "added N ck s a s' \<Longrightarrow> shm_inv N s \<Longrightarrow> shm_inv N s'"
  by (auto simp: added_def shm_inv_def)

lemma num_pages_cover:
  fixes spo :: size_t
  shows "unat spo \<le> unat ((spo - 1) div SMALL_PAGE_SIZE + 1) * 4096"
proof (cases "spo = 0")
  case False
  then have u: "unat (spo - 1) = unat spo - 1" by (simp add: unat_minus_one)
  have "unat (spo - 1) < 2 ^ 64" using unat_lt2p [of "spo - 1"] by simp
  then have "unat (spo - 1) div 4096 < 2 ^ 52" by (simp add: less_mult_imp_div_less)
  then have "unat ((spo - 1) div SMALL_PAGE_SIZE + 1) = (unat spo - 1) div 4096 + 1"
    by (subst unat_add_no_wrap) (simp_all add: unat_page_div u)
  then show ?thesis by (simp add: mult.commute)
qed simp

lemma noncontig_cases:
  assumes env: "shm_env_ok N e"
  obtains (none) s' where "msg_param_mobj_from_noncontig e buf_ptr sz ck False s = Ret (None, s')" "same_shm s s'"
  | (some) a s' where "msg_param_mobj_from_noncontig e buf_ptr sz ck False s = Ret (Some a, s')" "added N ck s a s'"
      "unat sz \<le> unat (rs_size (rs_heap s' a))"
proof -
  define off where "off = buf_ptr AND SMALL_PAGE_MASK"
  define np where "np = (sz + off - 1) div SMALL_PAGE_SIZE + 1"
  show thesis
  proof (cases "2 ^ 64 \<le> unat sz + unat off \<or> 2 ^ 64 \<le> unat np * unat (8 :: size_t) \<or> \<not> se_malloc e (np * 8)")
    case True
    then have "msg_param_mobj_from_noncontig e buf_ptr sz ck False s = Ret (None, s)"
      by (auto simp: msg_param_mobj_from_noncontig_def off_def [symmetric] np_def [symmetric] add_overflow_def mul_overflow_def Let_def)
    then show thesis by (rule none) simp
  next
    case False
    then have no: "unat sz + unat off < 2 ^ 64" by simp
    let ?b = "buf_ptr AND NOT SMALL_PAGE_MASK"
    from extract_pages_result [OF env, of ?b "unat np" s] obtain s1 where
      ex: "msg_param_extract_pages e ?b (unat np) s =
        Ret (if chain_ok e ?b (unat np) then Some (map (chain_entry e ?b) [0..<unat np]) else None, s1)"
      and same: "same_shm s s1" by blast
    let ?ps = "map (chain_entry e ?b) [0..<unat np]"
    have run: "msg_param_mobj_from_noncontig e buf_ptr sz ck False s =
        (if chain_ok e ?b (unat np) then Ret (mobj_reg_shm_alloc e ?ps off ck s1) else Ret (None, s1))"
      using False ex
      by (simp add: msg_param_mobj_from_noncontig_def off_def [symmetric] np_def [symmetric] add_overflow_def mul_overflow_def Let_def)
    show thesis
    proof (cases "chain_ok e ?b (unat np) \<and> fst (mobj_reg_shm_alloc e ?ps off ck s1) \<noteq> None")
      case False
      have "fst (mobj_reg_shm_alloc e ?ps off ck s1) = None \<Longrightarrow> mobj_reg_shm_alloc e ?ps off ck s1 = (None, s1)"
        by (auto simp: mobj_reg_shm_alloc_def Let_def split: option.splits if_splits)
      with False run have "msg_param_mobj_from_noncontig e buf_ptr sz ck False s = Ret (None, s1)" by auto
      then show thesis using same by (rule none)
    next
      case True
      then obtain a s' where al: "mobj_reg_shm_alloc e ?ps off ck s1 = (Some a, s')" by (metis not_None_eq prod.collapse)
      have "length ?ps < 2 ^ 64" using unat_lt2p [of np] by simp
      from al env this show thesis
      proof (rule mobj_reg_shm_alloc_Some)
        fix r assume r: "s' = s1\<lparr>reg_shm_list := a # reg_shm_list s1, rs_heap := (rs_heap s1)(a := r)\<rparr>" "rs_ok N r"
          "a \<notin> set (reg_shm_list s1)" "rs_pages r = ?ps" "rs_page_offset r = off" "rs_cookie r = ck" "rs_refc r = 1"
          "rs_mm r = None" "rs_mapcount r = 0" "rs_guarded r" "\<not> rs_releasing r" "\<not> rs_release_frees r"
        have "added N ck s a s'" using r same by (auto simp: added_def same_shm_def)
        moreover have "unat sz \<le> unat (rs_size r)"
        proof -
          have "unat (sz + off) = unat sz + unat off" using no by (intro unat_add_no_wrap) simp
          moreover have "unat (sz + off) \<le> unat np * 4096" unfolding np_def by (rule num_pages_cover)
          moreover have "unat (rs_size r) + unat off = unat np * 4096" using r(2,4,5) by (simp add: rs_ok_def)
          ultimately show ?thesis by simp
        qed
        ultimately show thesis using run True al r(1) by (intro some [of a s']) auto
      qed
    qed
  qed
qed

end
