(* ===== verification/Ta_Session.thy ===== *)
theory Ta_Session
  imports Prelude
begin

text \<open>
  Sessions of trusted applications, \<^verbatim>\<open>core/kernel/tee_ta_manager.c\<close>: session identifiers,
  looking up, locking, releasing and unlinking sessions, client checks, timeouts and
  cancellation. Functions run under \<^verbatim>\<open>tee_ta_mutex\<close> and are cut at \<^verbatim>\<open>condvar_wait\<close> as in
  the theory of the busy flag. Reference counts are natural numbers: every reference belongs to
  a call of one of the few threads.

  The theorems: identifiers are nonzero and unused; a session is freed only when nobody refers
  to it any more; its lock has one holder; a thread that closes a session to which it holds
  another reference waits for ever; the timeout arithmetic and where it goes wrong.
\<close>

section \<open>Data\<close>

record TEE_Time =
  tm_seconds :: u32
  tm_millis :: u32

record TEE_Identity =
  login :: u32
  uuid :: "u8 list"

record tee_ta_session =
  ss_id :: u32
  ss_ctx :: "addr option"
  ss_clnt_id :: TEE_Identity
  ss_cancel :: bool
  ss_cancel_mask :: bool
  ss_cancel_time :: TEE_Time
  ss_ref_count :: nat
  ss_lock_thread :: "nat option"
  ss_unlink :: bool

record ta_sessions =
  open_sessions :: "addr list"
  ss_heap :: "addr \<Rightarrow> tee_ta_session"

definition ss_upd :: "addr \<Rightarrow> (tee_ta_session \<Rightarrow> tee_ta_session) \<Rightarrow> ta_sessions \<Rightarrow> ta_sessions" where
  "ss_upd a f s = s\<lparr>ss_heap := (ss_heap s)(a := f (ss_heap s a))\<rparr>"

section \<open>Identifiers\<close>

fun find_session_in :: "ta_sessions \<Rightarrow> addr list \<Rightarrow> u32 \<Rightarrow> addr option" where
  "find_session_in s [] i = None"
| "find_session_in s (a # as) i = (if ss_id (ss_heap s a) = i then Some a else find_session_in s as i)"

definition tee_ta_find_session_nolock :: "u32 \<Rightarrow> ta_sessions \<Rightarrow> addr option" where
  "tee_ta_find_session_nolock i s = find_session_in s (open_sessions s) i"

definition tee_ta_find_session :: "u32 \<Rightarrow> ta_sessions \<Rightarrow> addr option" where
  "tee_ta_find_session i s = tee_ta_find_session_nolock i s"

definition next_id :: "u32 \<Rightarrow> u32" where
  "next_id i = (if i + 1 = 0 then 1 else i + 1)"

text \<open>
  The search starts behind the identifier of the last session. The loop is bounded by one more
  round than there are sessions; \<open>None\<close> is running out of rounds.
\<close>

fun new_session_id_loop :: "nat \<Rightarrow> ta_sessions \<Rightarrow> u32 \<Rightarrow> u32 \<Rightarrow> u32 option" where
  "new_session_id_loop 0 s saved i = None"
| "new_session_id_loop (Suc fuel) s saved i =
     (if tee_ta_find_session_nolock i s = None then Some i
      else if next_id i = saved then Some 0
      else new_session_id_loop fuel s saved (next_id i))"

definition new_session_id :: "ta_sessions \<Rightarrow> u32 option" where
  "new_session_id s =
     (let i = (if open_sessions s = [] then 1 else next_id (ss_id (ss_heap s (last (open_sessions s)))))
      in new_session_id_loop (Suc (length (open_sessions s))) s i i)"

section \<open>References and locks\<close>

datatype sess_wait = WaitLockCv addr | WaitRefCv addr

text \<open>How a call ends: with a session or none, or waiting in a loop.\<close>

datatype sess_end = Got "addr option" | Waits sess_wait

definition dec_session_ref_count :: "addr \<Rightarrow> ta_sessions \<Rightarrow> ta_sessions outcome" where
  "dec_session_ref_count a s =
     (if ss_ref_count (ss_heap s a) = 0 then Panic
      else Ret (ss_upd a (\<lambda>x. x\<lparr>ss_ref_count := ss_ref_count x - 1\<rparr>) s))"

definition tee_ta_put_session :: "nat \<Rightarrow> addr \<Rightarrow> ta_sessions \<Rightarrow> ta_sessions outcome" where
  "tee_ta_put_session t a s =
     dec_session_ref_count a
       (if ss_lock_thread (ss_heap s a) = Some t then ss_upd a (\<lambda>x. x\<lparr>ss_lock_thread := None\<rparr>) s else s)"

text \<open>The inner loop of \<^verbatim>\<open>tee_ta_get_session\<close> and what follows it.\<close>

definition get_session_loop :: "nat \<Rightarrow> addr \<Rightarrow> ta_sessions \<Rightarrow> (ta_sessions \<times> sess_end) outcome" where
  "get_session_loop t a s =
     (if ss_lock_thread (ss_heap s a) \<noteq> None \<and> \<not> ss_unlink (ss_heap s a)
      then Ret (s, Waits (WaitLockCv a))
      else if ss_unlink (ss_heap s a)
      then bind_outcome (dec_session_ref_count a s) (\<lambda>s'. Ret (s', Got None))
      else Ret (ss_upd a (\<lambda>x. x\<lparr>ss_lock_thread := Some t\<rparr>) s, Got (Some a)))"

definition tee_ta_get_session ::
    "nat \<Rightarrow> u32 \<Rightarrow> bool \<Rightarrow> ta_sessions \<Rightarrow> (ta_sessions \<times> sess_end) outcome" where
  "tee_ta_get_session t i exclusive s =
     (case tee_ta_find_session_nolock i s of
        None \<Rightarrow> Ret (s, Got None)
      | Some a \<Rightarrow>
          if ss_unlink (ss_heap s a) then Ret (s, Got None)
          else let s1 = ss_upd a (\<lambda>x. x\<lparr>ss_ref_count := ss_ref_count x + 1\<rparr>) s in
            if \<not> exclusive then Ret (s1, Got (Some a))
            else if ss_lock_thread (ss_heap s1 a) = Some t then Panic
            else get_session_loop t a s1)"

definition unlink_session_loop :: "addr \<Rightarrow> ta_sessions \<Rightarrow> ta_sessions \<times> sess_end" where
  "unlink_session_loop a s =
     (if ss_ref_count (ss_heap s a) \<noteq> 1 then (s, Waits (WaitRefCv a))
      else (s\<lparr>open_sessions := remove1 a (open_sessions s)\<rparr>, Got None))"

definition tee_ta_unlink_session :: "nat \<Rightarrow> addr \<Rightarrow> ta_sessions \<Rightarrow> (ta_sessions \<times> sess_end) outcome" where
  "tee_ta_unlink_session t a s =
     (if ss_ref_count (ss_heap s a) = 0 then Panic
      else if ss_lock_thread (ss_heap s a) \<noteq> Some t then Panic
      else if ss_unlink (ss_heap s a) then Panic
      else Ret (unlink_session_loop a (ss_upd a (\<lambda>x. x\<lparr>ss_unlink := True\<rparr>) s)))"

text \<open>The session part of \<^verbatim>\<open>tee_ta_init_session\<close>: a new session at address \<open>a\<close>, linked.\<close>

definition init_session :: "addr \<Rightarrow> ta_sessions \<Rightarrow> ta_sessions option" where
  "init_session a s =
     (case new_session_id s of
        None \<Rightarrow> None
      | Some i \<Rightarrow>
          if i = 0 then Some s
          else Some (s\<lparr>open_sessions := open_sessions s @ [a],
            ss_heap := (ss_heap s)(a := \<lparr>ss_id = i, ss_ctx = None,
              ss_clnt_id = \<lparr>login = 0, uuid = replicate 16 0\<rparr>, ss_cancel = False, ss_cancel_mask = True,
              ss_cancel_time = \<lparr>tm_seconds = 0, tm_millis = 0\<rparr>, ss_ref_count = 1,
              ss_lock_thread = None, ss_unlink = False\<rparr>)\<rparr>))"

section \<open>Clients, timeouts, cancellation\<close>

text \<open>\<^verbatim>\<open>KERN_IDENTITY\<close>, \<^verbatim>\<open>NSAPP_IDENTITY\<close> and a pointer to an identity.\<close>

datatype client = KERN_IDENTITY | NSAPP_IDENTITY | Client TEE_Identity

definition TEE_LOGIN_TRUSTED_APP :: u32 where "TEE_LOGIN_TRUSTED_APP = 0xF0000000"

definition check_client :: "tee_ta_session \<Rightarrow> client \<Rightarrow> tee_result" where
  "check_client s c =
     (case c of
        KERN_IDENTITY \<Rightarrow> TEE_SUCCESS
      | NSAPP_IDENTITY \<Rightarrow>
          if login (ss_clnt_id s) = TEE_LOGIN_TRUSTED_APP then TEE_ERROR_ACCESS_DENIED else TEE_SUCCESS
      | Client i \<Rightarrow> if ss_clnt_id s \<noteq> i then TEE_ERROR_ACCESS_DENIED else TEE_SUCCESS)"

definition TEE_TIMEOUT_INFINITE :: u32 where "TEE_TIMEOUT_INFINITE = 0xFFFFFFFF"

definition time_infinite :: TEE_Time where
  "time_infinite = \<lparr>tm_seconds = 0xFFFFFFFF, tm_millis = 0xFFFFFFFF\<rparr>"

text \<open>\<^verbatim>\<open>ADD_OVERFLOW\<close> on \<^verbatim>\<open>uint32_t\<close>: whether the sum wraps; the result is stored either way.\<close>

definition ADD_OVERFLOW :: "u32 \<Rightarrow> u32 \<Rightarrow> bool \<times> u32" where
  "ADD_OVERFLOW a b = (a + b < a, a + b)"

text \<open>\<open>now\<close> is the system time, \<open>None\<close> if it cannot be read.\<close>

definition set_invoke_timeout :: "TEE_Time option \<Rightarrow> u32 \<Rightarrow> tee_ta_session \<Rightarrow> tee_ta_session" where
  "set_invoke_timeout now cancel_req_to s =
     s\<lparr>ss_cancel_time :=
       (if cancel_req_to = TEE_TIMEOUT_INFINITE then time_infinite
        else case now of
          None \<Rightarrow> time_infinite
        | Some current \<Rightarrow>
            (case ADD_OVERFLOW (tm_seconds current) (cancel_req_to div 1000) of
               (True, _) \<Rightarrow> time_infinite
             | (False, seconds) \<Rightarrow>
                 (let millis = tm_millis current + cancel_req_to mod 1000 in
                  if millis > 1000
                  then (case ADD_OVERFLOW (tm_seconds current) 1 of
                      (True, _) \<Rightarrow> time_infinite
                    | (False, seconds') \<Rightarrow> \<lparr>tm_seconds = seconds' + 1, tm_millis = millis - 1000\<rparr>)
                  else \<lparr>tm_seconds = seconds, tm_millis = millis\<rparr>)))\<rparr>"

definition tee_ta_cancel_command :: "client \<Rightarrow> tee_ta_session \<Rightarrow> tee_ta_session \<times> tee_result" where
  "tee_ta_cancel_command c s =
     (if check_client s c \<noteq> TEE_SUCCESS then (s, TEE_ERROR_BAD_PARAMETERS)
      else (s\<lparr>ss_cancel := True\<rparr>, TEE_SUCCESS))"

text \<open>\<open>curr_time\<close> is the time given by the caller, \<open>now\<close> the system time read otherwise.\<close>

definition tee_ta_session_is_cancelled :: "TEE_Time option \<Rightarrow> TEE_Time option \<Rightarrow> tee_ta_session \<Rightarrow> bool" where
  "tee_ta_session_is_cancelled curr_time now s =
     (if ss_cancel_mask s then False
      else if ss_cancel s then True
      else if tm_seconds (ss_cancel_time s) = 0xFFFFFFFF then False
      else case (case curr_time of None \<Rightarrow> now | Some c \<Rightarrow> Some c) of
          None \<Rightarrow> False
        | Some c \<Rightarrow>
            tm_seconds (ss_cancel_time s) < tm_seconds c \<or>
            (tm_seconds c = tm_seconds (ss_cancel_time s) \<and> tm_millis (ss_cancel_time s) \<le> tm_millis c))"


section \<open>Identifiers are new\<close>

definition used_ids :: "ta_sessions \<Rightarrow> u32 set" where
  "used_ids s = (\<lambda>a. ss_id (ss_heap s a)) ` set (open_sessions s)"

lemma find_session_in_None: "find_session_in s as i = None \<longleftrightarrow> (\<forall>a \<in> set as. ss_id (ss_heap s a) \<noteq> i)"
  by (induction as) auto

lemma find_session_in_Some: "find_session_in s as i = Some a \<Longrightarrow> a \<in> set as \<and> ss_id (ss_heap s a) = i"
  by (induction as) (auto split: if_splits)

lemma find_session_None: "tee_ta_find_session_nolock i s = None \<longleftrightarrow> i \<notin> used_ids s"
  by (auto simp: tee_ta_find_session_nolock_def find_session_in_None used_ids_def)

text \<open>The identifiers are walked cyclically: as numbers from 0 they are counted modulo \<open>id_mod\<close>.\<close>

abbreviation id_mod :: nat where "id_mod \<equiv> 4294967295"

lemma next_id_nonzero [simp]: "next_id i \<noteq> 0"
  by (simp add: next_id_def)

lemma unat_next_id:
  assumes "i \<noteq> 0" shows "unat (next_id i) - 1 = (unat i - 1 + 1) mod id_mod"
proof -
  have l: "unat i < 4294967296" using unat_lt2p [of i] by simp
  have "0 < unat i" using assms by (simp add: unat_gt_0)
  show ?thesis
  proof (cases "unat i = id_mod")
    case True
    then have "i + 1 = 0" by (simp add: word_unat_eq_iff unat_word_ariths)
    with True show ?thesis by (simp add: next_id_def)
  next
    case False
    with l have n: "unat (i + 1) = unat i + 1" by (simp add: unat_word_ariths)
    then have "i + 1 \<noteq> 0" by (metis add_is_0 unat_0 zero_neq_one)
    with n l False \<open>0 < unat i\<close> show ?thesis by (simp add: next_id_def)
  qed
qed

lemma next_id_pow:
  assumes "i \<noteq> 0"
  shows "(next_id ^^ k) i \<noteq> 0 \<and> unat ((next_id ^^ k) i) - 1 = (unat i - 1 + k) mod id_mod"
proof (induction k)
  case 0
  have "unat i < 4294967296" "0 < unat i" using unat_lt2p [of i] assms by (simp_all add: unat_gt_0)
  with assms show ?case by simp
next
  case (Suc k)
  have "unat (next_id ((next_id ^^ k) i)) - 1 = (unat ((next_id ^^ k) i) - 1 + 1) mod id_mod"
    using Suc by (intro unat_next_id) simp
  also have "\<dots> = ((unat i - 1 + k) mod id_mod + 1) mod id_mod" using Suc by simp
  also have "\<dots> = (unat i - 1 + Suc k) mod id_mod" by (simp add: mod_Suc_eq)
  finally show ?case by simp
qed

lemma next_id_pow_eq:
  assumes "i \<noteq> 0"
  shows "(next_id ^^ j) i = (next_id ^^ k) i \<longleftrightarrow> (unat i - 1 + j) mod id_mod = (unat i - 1 + k) mod id_mod"
    (is "?x = ?y \<longleftrightarrow> ?m = ?n")
proof
  assume "?m = ?n"
  then have "unat ?x - 1 = unat ?y - 1" using next_id_pow [OF assms] by simp
  moreover have "unat ?x \<noteq> 0" "unat ?y \<noteq> 0" using next_id_pow [OF assms] by (simp_all add: unat_eq_zero)
  ultimately have "unat ?x = unat ?y" by simp
  then show "?x = ?y" by (simp add: word_unat_eq_iff)
qed (use next_id_pow [OF assms] in metis)

lemma add_mod_eq_iff:
  fixes a j k m :: nat
  assumes "(a + j) mod m = (a + k) mod m" "j \<le> k"
  shows "m dvd k - j"
  using assms mod_eq_dvd_iff_nat [of "a + j" "a + k" m] by simp

lemma next_id_pow_inj:
  assumes "i \<noteq> 0" "k \<le> id_mod" shows "inj_on (\<lambda>j. (next_id ^^ j) i) {..<k}"
proof (rule linorder_inj_onI)
  fix x y assume xy: "x < y" "x \<in> {..<k}" "y \<in> {..<k}"
  show "(next_id ^^ x) i \<noteq> (next_id ^^ y) i"
  proof
    assume "(next_id ^^ x) i = (next_id ^^ y) i"
    then have "id_mod dvd y - x" using xy(1) by (intro add_mod_eq_iff [of "unat i - 1"])
        (simp_all add: next_id_pow_eq [OF assms(1)])
    moreover have "0 < y - x" "y - x < id_mod" using xy assms(2) by auto
    ultimately show False using nat_dvd_not_less by blast
  qed
qed auto

lemma next_id_pow_return:
  assumes "i \<noteq> 0" "(next_id ^^ k) i = i" "0 < k"
  shows "id_mod \<le> k"
proof -
  have "(unat i - 1 + 0) mod id_mod = (unat i - 1 + k) mod id_mod"
    using assms(2) next_id_pow_eq [OF assms(1), of 0 k] by simp
  then have "id_mod dvd k - 0" by (rule add_mod_eq_iff) simp
  with assms(3) show ?thesis by (auto dest: dvd_imp_le)
qed

lemma next_id_pow_surj:
  assumes "i \<noteq> 0" "j \<noteq> 0" shows "\<exists>k < id_mod. (next_id ^^ k) i = j"
proof -
  have "(\<lambda>k. (next_id ^^ k) i) ` {..<id_mod} \<subseteq> UNIV - {0}" using next_id_pow [OF assms(1)] by auto
  moreover have "card ((\<lambda>k. (next_id ^^ k) i) ` {..<id_mod}) = id_mod"
    using card_image [OF next_id_pow_inj [OF assms(1) order_refl]] by simp
  moreover have "card (UNIV - {0 :: u32}) = id_mod" by (simp add: card_Diff_singleton card_word)
  ultimately have "(\<lambda>k. (next_id ^^ k) i) ` {..<id_mod} = UNIV - {0}"
    by (intro card_subset_eq) auto
  with assms(2) have "j \<in> (\<lambda>k. (next_id ^^ k) i) ` {..<id_mod}" by simp
  then show ?thesis by auto
qed

lemma new_session_id_loop_correct:
  assumes "saved \<noteq> 0" "fuel + k = Suc (length (open_sessions s))"
    "\<forall>j < k. (next_id ^^ j) saved \<in> used_ids s" "\<forall>j. 0 < j \<and> j \<le> k \<longrightarrow> (next_id ^^ j) saved \<noteq> saved"
  shows "\<exists>r. new_session_id_loop fuel s saved ((next_id ^^ k) saved) = Some r \<and>
    (if r = 0 then UNIV - {0} \<subseteq> used_ids s else r \<notin> used_ids s)"
  using assms(2-)
proof (induction fuel arbitrary: k)
  case (0 k)
  have "k < id_mod"
  proof (rule ccontr)
    assume "\<not> k < id_mod"
    with 0(3) have "(next_id ^^ id_mod) saved \<noteq> saved" by simp
    moreover have "(next_id ^^ id_mod) saved = (next_id ^^ 0) saved" unfolding next_id_pow_eq [OF assms(1)] by simp
    ultimately show False by simp
  qed
  then have "card ((\<lambda>j. (next_id ^^ j) saved) ` {..<k}) = k"
    using card_image [OF next_id_pow_inj [OF assms(1)]] by simp
  moreover have "card ((\<lambda>j. (next_id ^^ j) saved) ` {..<k}) \<le> card (used_ids s)"
    using 0(2) by (intro card_mono) (auto simp: used_ids_def)
  moreover have "card (used_ids s) \<le> length (open_sessions s)"
    unfolding used_ids_def by (rule order_trans [OF card_image_le card_length]) simp
  ultimately show ?case using 0(1) by simp
next
  case (Suc fuel k)
  let ?i = "(next_id ^^ k) saved"
  have nz: "?i \<noteq> 0" using next_id_pow [OF assms(1)] by simp
  show ?case
  proof (cases "?i \<in> used_ids s")
    case False
    with nz show ?thesis by (auto simp: find_session_None)
  next
    case True
    then have used: "\<forall>j < Suc k. (next_id ^^ j) saved \<in> used_ids s" using Suc.prems(2) by (auto simp: less_Suc_eq)
    show ?thesis
    proof (cases "next_id ?i = saved")
      case ret: True
      then have "id_mod \<le> Suc k" by (intro next_id_pow_return [OF assms(1)]) simp_all
      have "j \<in> used_ids s" if "j \<noteq> 0" for j
      proof -
        from next_id_pow_surj [OF assms(1) that] obtain m where "m < id_mod" "(next_id ^^ m) saved = j" by blast
        with used \<open>id_mod \<le> Suc k\<close> show ?thesis by force
      qed
      then have "UNIV - {0} \<subseteq> used_ids s" by blast
      with True ret show ?thesis by (auto simp: find_session_None)
    next
      case False
      with Suc.prems(3) have "\<forall>j. 0 < j \<and> j \<le> Suc k \<longrightarrow> (next_id ^^ j) saved \<noteq> saved" by (auto simp: le_Suc_eq)
      with Suc.IH [of "Suc k"] Suc.prems(1) used have "\<exists>r. new_session_id_loop fuel s saved (next_id ?i) = Some r \<and>
        (if r = 0 then UNIV - {0} \<subseteq> used_ids s else r \<notin> used_ids s)" by simp
      with True False show ?thesis by (auto simp: find_session_None)
    qed
  qed
qed

lemma new_session_id_result:
  "\<exists>r. new_session_id s = Some r \<and> (if r = 0 then UNIV - {0} \<subseteq> used_ids s else r \<notin> used_ids s)"
proof -
  let ?i = "if open_sessions s = [] then 1 else next_id (ss_id (ss_heap s (last (open_sessions s))))"
  have "?i \<noteq> 0" by simp
  then have "\<exists>r. new_session_id_loop (Suc (length (open_sessions s))) s ?i ((next_id ^^ 0) ?i) = Some r \<and>
      (if r = 0 then UNIV - {0} \<subseteq> used_ids s else r \<notin> used_ids s)"
    by (rule new_session_id_loop_correct) auto
  then show ?thesis unfolding new_session_id_def Let_def funpow_0 .
qed


section \<open>Threads using sessions\<close>

text \<open>
  Each thread has the references it took and not yet gave back, and the loop it waits in. A
  session is freed when \<^verbatim>\<open>tee_ta_unlink_session\<close> returns (\<^verbatim>\<open>destroy_session\<close>), so an address
  can be allocated again once it is not linked.
\<close>

record sess_sys =
  sy_s :: ta_sessions
  sy_refs :: "nat \<Rightarrow> addr list"
  sy_wait :: "nat \<Rightarrow> sess_wait option"

datatype sess_act = InitS addr | GetS u32 bool | ResumeS | PutS addr | UnlinkS addr

definition got :: "nat \<Rightarrow> ta_sessions \<times> sess_end \<Rightarrow> sess_sys \<Rightarrow> sess_sys" where
  "got t r y =
     (case r of
        (s, Waits w) \<Rightarrow> y\<lparr>sy_s := s, sy_wait := (sy_wait y)(t := Some w)\<rparr>
      | (s, Got None) \<Rightarrow> y\<lparr>sy_s := s, sy_wait := (sy_wait y)(t := None)\<rparr>
      | (s, Got (Some a)) \<Rightarrow> y\<lparr>sy_s := s, sy_wait := (sy_wait y)(t := None),
          sy_refs := (sy_refs y)(t := a # sy_refs y t)\<rparr>)"

lemma sy_s_got [simp]: "sy_s (got t r y) = fst r"
  by (auto simp: got_def split: prod.splits sess_end.splits option.splits)

text \<open>Unlinking ends with the reference given up and the session freed.\<close>

definition unlinked :: "nat \<Rightarrow> addr \<Rightarrow> ta_sessions \<times> sess_end \<Rightarrow> sess_sys \<Rightarrow> sess_sys" where
  "unlinked t a r y =
     (case r of
        (s, Waits w) \<Rightarrow> y\<lparr>sy_s := s, sy_wait := (sy_wait y)(t := Some w)\<rparr>
      | (s, Got _) \<Rightarrow> y\<lparr>sy_s := s, sy_wait := (sy_wait y)(t := None),
          sy_refs := (sy_refs y)(t := remove1 a (sy_refs y t))\<rparr>)"

lemma got_other [simp]:
  "u \<noteq> t \<Longrightarrow> sy_wait (got t r y) u = sy_wait y u" "u \<noteq> t \<Longrightarrow> sy_refs (got t r y) u = sy_refs y u"
  "u \<noteq> t \<Longrightarrow> sy_wait (unlinked t a r y) u = sy_wait y u" "u \<noteq> t \<Longrightarrow> sy_refs (unlinked t a r y) u = sy_refs y u"
  by (auto simp: got_def unlinked_def split: prod.splits sess_end.splits option.splits)

text \<open>A thread does not lock a session it has locked; it puts and unlinks what it refers to.\<close>

fun sess_exec :: "sess_act \<Rightarrow> nat \<Rightarrow> sess_sys \<Rightarrow> sess_sys outcome option" where
  "sess_exec (InitS a) t y =
     (if sy_wait y t = None \<and> a \<notin> set (open_sessions (sy_s y))
      then (case init_session a (sy_s y) of
          None \<Rightarrow> None
        | Some s \<Rightarrow>
            Some (Ret (if a \<in> set (open_sessions s)
              then y\<lparr>sy_s := s, sy_refs := (sy_refs y)(t := a # sy_refs y t)\<rparr> else y)))
      else None)"
| "sess_exec (GetS i exclusive) t y =
     (if sy_wait y t = None \<and>
         \<not> (exclusive \<and> (\<exists>a \<in> set (open_sessions (sy_s y)). ss_lock_thread (ss_heap (sy_s y) a) = Some t))
      then Some (bind_outcome (tee_ta_get_session t i exclusive (sy_s y)) (\<lambda>r. Ret (got t r y)))
      else None)"
| "sess_exec ResumeS t y =
     (case sy_wait y t of
        None \<Rightarrow> None
      | Some (WaitLockCv a) \<Rightarrow> Some (bind_outcome (get_session_loop t a (sy_s y)) (\<lambda>r. Ret (got t r y)))
      | Some (WaitRefCv a) \<Rightarrow> Some (Ret (unlinked t a (unlink_session_loop a (sy_s y)) y)))"
| "sess_exec (PutS a) t y =
     (if sy_wait y t = None \<and> a \<in> set (sy_refs y t)
      then Some (bind_outcome (tee_ta_put_session t a (sy_s y))
             (\<lambda>s. Ret (y\<lparr>sy_s := s, sy_refs := (sy_refs y)(t := remove1 a (sy_refs y t))\<rparr>)))
      else None)"
| "sess_exec (UnlinkS a) t y =
     (if sy_wait y t = None \<and> a \<in> set (sy_refs y t) \<and> ss_lock_thread (ss_heap (sy_s y) a) = Some t
      then Some (bind_outcome (tee_ta_unlink_session t a (sy_s y)) (\<lambda>r. Ret (unlinked t a r y)))
      else None)"

definition sess_start :: "(addr \<Rightarrow> tee_ta_session) \<Rightarrow> sess_sys" where
  "sess_start h = \<lparr>sy_s = \<lparr>open_sessions = [], ss_heap = h\<rparr>, sy_refs = (\<lambda>_. []), sy_wait = (\<lambda>_. None)\<rparr>"

inductive sess_reach :: "nat \<Rightarrow> sess_sys \<Rightarrow> bool" for n where
  start: "sess_reach n (sess_start h)"
| step: "sess_reach n y \<Longrightarrow> t < n \<Longrightarrow> sess_exec a t y = Some (Ret y') \<Longrightarrow> sess_reach n y'"

section \<open>Invariant of the references\<close>

definition held :: "sess_sys \<Rightarrow> nat \<Rightarrow> addr \<Rightarrow> nat" where
  "held y t a = count_list (sy_refs y t) a + (if sy_wait y t = Some (WaitLockCv a) then 1 else 0)"

definition live_inv :: "nat \<Rightarrow> sess_sys \<Rightarrow> addr \<Rightarrow> bool" where
  "live_inv n y a \<longleftrightarrow> (let x = ss_heap (sy_s y) a in
     ss_ref_count x = (\<Sum>t<n. held y t a) \<and>
     (ss_unlink x \<longrightarrow> (\<exists>t. sy_wait y t = Some (WaitRefCv a))) \<and>
     (\<forall>t. ss_lock_thread x = Some t \<longrightarrow> a \<in> set (sy_refs y t)))"

definition dead_inv :: "sess_sys \<Rightarrow> addr \<Rightarrow> bool" where
  "dead_inv y a \<longleftrightarrow> (\<forall>t. held y t a = 0 \<and> sy_wait y t \<noteq> Some (WaitRefCv a))"

definition ref_wait_inv :: "sess_sys \<Rightarrow> bool" where
  "ref_wait_inv y \<longleftrightarrow> (\<forall>t a. sy_wait y t = Some (WaitRefCv a) \<longrightarrow>
     ss_unlink (ss_heap (sy_s y) a) \<and> ss_lock_thread (ss_heap (sy_s y) a) = Some t \<and> a \<in> set (sy_refs y t))"

definition sess_inv :: "nat \<Rightarrow> sess_sys \<Rightarrow> bool" where
  "sess_inv n y \<longleftrightarrow> (\<forall>t. n \<le> t \<longrightarrow> sy_refs y t = [] \<and> sy_wait y t = None) \<and>
     distinct (open_sessions (sy_s y)) \<and> ref_wait_inv y \<and>
     (\<forall>a. if a \<in> set (open_sessions (sy_s y)) then live_inv n y a else dead_inv y a)"

lemma sess_inv_liveI:
  assumes "sess_inv n y" "held y t a \<noteq> 0 \<or> sy_wait y t = Some (WaitRefCv a)"
  shows "a \<in> set (open_sessions (sy_s y))" "live_inv n y a"
  using assms by (auto simp: sess_inv_def dead_inv_def split: if_splits)

lemma sess_inv_addr:
  "sess_inv n y \<Longrightarrow> if a \<in> set (open_sessions (sy_s y)) then live_inv n y a else dead_inv y a"
  by (simp add: sess_inv_def)

lemma held_ref: "a \<in> set (sy_refs y t) \<Longrightarrow> held y t a \<noteq> 0"
  by (simp add: held_def count_list_0_iff)

lemma sum_update:
  fixes f g :: "nat \<Rightarrow> nat"
  assumes "t < n" "\<And>u. u \<noteq> t \<Longrightarrow> g u = f u"
  shows "(\<Sum>u<n. g u) + f t = (\<Sum>u<n. f u) + g t"
proof -
  have "(\<Sum>u<n. h u) = h t + (\<Sum>u\<in>{..<n} - {t}. h u)" for h :: "nat \<Rightarrow> nat"
    using assms(1) by (intro sum.remove) auto
  moreover have "(\<Sum>u\<in>{..<n} - {t}. g u) = (\<Sum>u\<in>{..<n} - {t}. f u)"
    using assms(2) by (intro sum.cong) auto
  ultimately show ?thesis by simp
qed

text \<open>A step of thread \<open>t\<close> that changes one linked session \<open>a\<close> and keeps all others.\<close>

lemma sess_inv_step:
  assumes i: "sess_inv n y" and t: "t < n" and a: "a \<in> set (open_sessions (sy_s y))"
    and op: "open_sessions (sy_s y') = open_sessions (sy_s y)"
    and heap: "\<And>b. b \<noteq> a \<Longrightarrow> ss_heap (sy_s y') b = ss_heap (sy_s y) b"
    and others: "\<And>u. u \<noteq> t \<Longrightarrow> sy_refs y' u = sy_refs y u \<and> sy_wait y' u = sy_wait y u"
    and mine: "\<And>b. b \<noteq> a \<Longrightarrow> count_list (sy_refs y' t) b = count_list (sy_refs y t) b"
      "\<And>b. b \<noteq> a \<Longrightarrow> sy_wait y' t = Some (WaitLockCv b) \<longleftrightarrow> sy_wait y t = Some (WaitLockCv b)"
      "\<And>b. b \<noteq> a \<Longrightarrow> sy_wait y' t = Some (WaitRefCv b) \<longleftrightarrow> sy_wait y t = Some (WaitRefCv b)"
    and cnt: "ss_ref_count (ss_heap (sy_s y') a) + held y t a = ss_ref_count (ss_heap (sy_s y) a) + held y' t a"
    and unl: "ss_unlink (ss_heap (sy_s y') a) \<longrightarrow> (\<exists>u. sy_wait y' u = Some (WaitRefCv a))"
    and lock: "\<And>u. ss_lock_thread (ss_heap (sy_s y') a) = Some u \<Longrightarrow> a \<in> set (sy_refs y' u)"
    and rw: "\<And>u. sy_wait y' u = Some (WaitRefCv a) \<Longrightarrow> ss_unlink (ss_heap (sy_s y') a) \<and>
       ss_lock_thread (ss_heap (sy_s y') a) = Some u \<and> a \<in> set (sy_refs y' u)"
  shows "sess_inv n y'"
proof -
  have h: "held y' u b = held y u b" if "u \<noteq> t \<or> b \<noteq> a" for u b
    using that others mine by (cases "u = t") (auto simp: held_def)
  have refs: "b \<in> set (sy_refs y' u) \<longleftrightarrow> b \<in> set (sy_refs y u)" if "b \<noteq> a" for b u
    using others [of u] mine(1) [OF that] by (cases "u = t") (metis count_list_0_iff, simp)
  have wt: "sy_wait y' u = Some (WaitRefCv b) \<longleftrightarrow> sy_wait y u = Some (WaitRefCv b)" if "b \<noteq> a" for b u
    using that others mine(3) by (cases "u = t") auto
  have la: "live_inv n y' a"
  proof -
    have "live_inv n y a" using i a by (simp add: sess_inv_def split: if_splits)
    moreover have "(\<Sum>u<n. held y' u a) + held y t a = (\<Sum>u<n. held y u a) + held y' t a"
      using t h by (intro sum_update) auto
    ultimately have "ss_ref_count (ss_heap (sy_s y') a) = (\<Sum>u<n. held y' u a)"
      using cnt by (simp add: live_inv_def Let_def)
    with unl lock show ?thesis by (simp add: live_inv_def Let_def)
  qed
  have lb: "live_inv n y' b = live_inv n y b" if "b \<noteq> a" for b
    using that h heap refs wt by (simp add: live_inv_def Let_def)
  have db: "dead_inv y' b = dead_inv y b" if "b \<noteq> a" for b
    using that h wt by (simp add: dead_inv_def)
  have "ref_wait_inv y'"
    unfolding ref_wait_inv_def
  proof (intro allI impI)
    fix u b assume w: "sy_wait y' u = Some (WaitRefCv b)"
    show "ss_unlink (ss_heap (sy_s y') b) \<and> ss_lock_thread (ss_heap (sy_s y') b) = Some u \<and> b \<in> set (sy_refs y' u)"
    proof (cases "b = a")
      case True
      with w rw show ?thesis by simp
    next
      case False
      with w wt i heap refs show ?thesis by (auto simp: sess_inv_def ref_wait_inv_def)
    qed
  qed
  moreover have "\<forall>u. n \<le> u \<longrightarrow> sy_refs y' u = [] \<and> sy_wait y' u = None"
    using i t others by (auto simp: sess_inv_def)
  moreover have "if b \<in> set (open_sessions (sy_s y')) then live_inv n y' b else dead_inv y' b" for b
    using i a la lb db op by (cases "b = a") (auto simp: sess_inv_def split: if_splits)
  ultimately show ?thesis using i op by (simp add: sess_inv_def)
qed


lemma ss_upd_simps [simp]:
  "open_sessions (ss_upd a f s) = open_sessions s"
  "ss_heap (ss_upd a f s) b = (if b = a then f (ss_heap s a) else ss_heap s b)"
  by (simp_all add: ss_upd_def)

lemma count_remove1: "a \<in> set xs \<Longrightarrow> Suc (count_list (remove1 a xs) a) = count_list xs a"
  by (induction xs) auto

lemma count_remove1_other: "b \<noteq> a \<Longrightarrow> count_list (remove1 a xs) b = count_list xs b"
  by (induction xs) auto

text \<open>Who waits for the references of a session has its lock and marked it.\<close>

lemma sess_inv_waiter:
  assumes "sess_inv n y" "sy_wait y t = Some (WaitRefCv a)"
  shows "ss_unlink (ss_heap (sy_s y) a)" "ss_lock_thread (ss_heap (sy_s y) a) = Some t" "a \<in> set (sy_refs y t)"
  using assms by (auto simp: sess_inv_def ref_wait_inv_def)

lemma live_inv_count:
  assumes "live_inv n y a" "t < n" shows "held y t a \<le> ss_ref_count (ss_heap (sy_s y) a)"
proof -
  have "held y t a \<le> (\<Sum>u<n. held y u a)" using assms(2) by (intro member_le_sum) auto
  with assms(1) show ?thesis by (simp add: live_inv_def Let_def)
qed

lemma sess_inv_lock_loop:
  assumes i: "sess_inv n y" and t: "t < n" and a: "a \<in> set (open_sessions (sy_s y))"
    and y1: "y1 = y\<lparr>sy_s := s1\<rparr>" and idle: "sy_wait y t = w0"
    and cases: "w0 = Some (WaitLockCv a) \<and> s1 = sy_s y \<or>
      w0 = None \<and> s1 = ss_upd a (\<lambda>x. x\<lparr>ss_ref_count := ss_ref_count x + 1\<rparr>) (sy_s y) \<and>
      \<not> ss_unlink (ss_heap (sy_s y) a)"
  shows "\<exists>r. get_session_loop t a s1 = Ret r \<and> sess_inv n (got t r y)"
proof -
  have li: "live_inv n y a" using i a by (simp add: sess_inv_def split: if_splits)
  have pos: "0 < ss_ref_count (ss_heap s1 a)"
    using cases live_inv_count [OF li t] idle by (auto simp: held_def)
  let ?x = "ss_heap (sy_s y) a"
  have same: "ss_lock_thread (ss_heap s1 a) = ss_lock_thread ?x" "ss_unlink (ss_heap s1 a) = ss_unlink ?x"
    "open_sessions s1 = open_sessions (sy_s y)" "\<And>b. b \<noteq> a \<Longrightarrow> ss_heap s1 b = ss_heap (sy_s y) b"
    using cases by auto
  have cnt: "ss_ref_count (ss_heap s1 a) + held y t a = ss_ref_count ?x + (count_list (sy_refs y t) a + 1)"
    using cases idle by (auto simp: held_def)
  have tw: "u \<noteq> t" if "sy_wait y u = Some (WaitRefCv a)" for u using that idle cases by auto
  note wt = sess_inv_waiter [OF i]
  consider (wait) "ss_lock_thread ?x \<noteq> None" "\<not> ss_unlink ?x" | (gone) "ss_unlink ?x"
    | (lock) "ss_lock_thread ?x = None" "\<not> ss_unlink ?x" by blast
  then show ?thesis
  proof cases
    case wait
    let ?y = "got t (s1, Waits (WaitLockCv a)) y"
    have "sess_inv n ?y"
      by (rule sess_inv_step [OF i t a])
        (use same cnt wait li wt tw idle cases in \<open>auto simp: got_def held_def live_inv_def Let_def split: if_splits\<close>)
    with wait same show ?thesis by (auto simp: get_session_loop_def)
  next
    case gone
    let ?s = "ss_upd a (\<lambda>x. x\<lparr>ss_ref_count := ss_ref_count x - 1\<rparr>) s1"
    have w0: "w0 = Some (WaitLockCv a)" "s1 = sy_s y" using cases gone by auto
    from li gone obtain u where u: "sy_wait y u = Some (WaitRefCv a)" by (auto simp: live_inv_def Let_def)
    have ut: "u \<noteq> t" "ss_lock_thread ?x = Some u" "a \<in> set (sy_refs y u)" using tw wt u by auto
    have uniq: "sy_wait y v = Some (WaitRefCv a) \<longleftrightarrow> v = u" for v using wt(2) [of v a] ut(2) u by auto
    have "sess_inv n (got t (?s, Got None) y)"
      by (rule sess_inv_step [OF i t a])
        (use same pos w0 idle ut gone in \<open>auto simp: got_def held_def uniq split: if_splits\<close>)
    with gone same pos show ?thesis by (auto simp: get_session_loop_def dec_session_ref_count_def)
  next
    case lock
    let ?s = "ss_upd a (\<lambda>x. x\<lparr>ss_lock_thread := Some t\<rparr>) s1"
    have nw: "sy_wait y u \<noteq> Some (WaitRefCv a)" for u using wt(1) [of u a] lock by auto
    have "sess_inv n (got t (?s, Got (Some a)) y)"
      by (rule sess_inv_step [OF i t a])
        (use same cnt lock nw idle cases in \<open>auto simp: got_def held_def split: if_splits\<close>)
    with lock same show ?thesis by (auto simp: get_session_loop_def)
  qed
qed


lemma sess_inv_get:
  assumes i: "sess_inv n y" and t: "t < n" and w: "sy_wait y t = None"
    and g: "\<not> (ex \<and> (\<exists>a \<in> set (open_sessions (sy_s y)). ss_lock_thread (ss_heap (sy_s y) a) = Some t))"
  shows "\<exists>r. tee_ta_get_session t j ex (sy_s y) = Ret r \<and> sess_inv n (got t r y)"
proof (cases "tee_ta_find_session_nolock j (sy_s y)")
  case None
  have "got t (sy_s y, Got None) y = y" using w by (simp add: got_def fun_upd_idem)
  with None i show ?thesis by (simp add: tee_ta_get_session_def)
next
  case (Some a)
  then have a: "a \<in> set (open_sessions (sy_s y))"
    by (auto simp: tee_ta_find_session_nolock_def dest: find_session_in_Some)
  have li: "live_inv n y a" using i a by (simp add: sess_inv_def split: if_splits)
  let ?x = "ss_heap (sy_s y) a"
  let ?s = "ss_upd a (\<lambda>x. x\<lparr>ss_ref_count := ss_ref_count x + 1\<rparr>) (sy_s y)"
  consider (gone) "ss_unlink ?x" | (shared) "\<not> ss_unlink ?x" "\<not> ex" | (excl) "\<not> ss_unlink ?x" ex by blast
  then show ?thesis
  proof cases
    case gone
    have "got t (sy_s y, Got None) y = y" using w by (simp add: got_def fun_upd_idem)
    with Some gone i show ?thesis by (simp add: tee_ta_get_session_def)
  next
    case shared
    have nw: "sy_wait y u \<noteq> Some (WaitRefCv a)" for u using sess_inv_waiter(1) [OF i, of u a] shared by auto
    have lk: "ss_lock_thread ?x = Some u \<Longrightarrow> a \<in> set (sy_refs y u)" for u using li by (simp add: live_inv_def Let_def)
    have "sess_inv n (got t (?s, Got (Some a)) y)"
      by (rule sess_inv_step [OF i t a]) (use shared nw lk w in \<open>auto simp: got_def held_def split: if_splits\<close>)
    with Some shared show ?thesis by (simp add: tee_ta_get_session_def Let_def)
  next
    case excl
    with sess_inv_lock_loop [OF i t a refl refl, of ?s] w have
      "\<exists>r. get_session_loop t a ?s = Ret r \<and> sess_inv n (got t r y)" by simp
    moreover have "ss_lock_thread ?x \<noteq> Some t" using g excl a by blast
    ultimately show ?thesis using Some excl by (simp add: tee_ta_get_session_def Let_def)
  qed
qed

lemma sess_inv_put:
  assumes i: "sess_inv n y" and t: "t < n" and w: "sy_wait y t = None" and r: "a \<in> set (sy_refs y t)"
  shows "\<exists>s. tee_ta_put_session t a (sy_s y) = Ret s \<and>
    sess_inv n (y\<lparr>sy_s := s, sy_refs := (sy_refs y)(t := remove1 a (sy_refs y t))\<rparr>)"
proof -
  let ?x = "ss_heap (sy_s y) a"
  have a: "a \<in> set (open_sessions (sy_s y))" and li: "live_inv n y a"
    using sess_inv_liveI [OF i] held_ref [OF r] by auto
  have pos: "0 < ss_ref_count ?x" using live_inv_count [OF li t] held_ref [OF r] by simp
  define s where "s = ss_upd a (\<lambda>x. x\<lparr>ss_lock_thread := (if ss_lock_thread x = Some t then None else ss_lock_thread x),
    ss_ref_count := ss_ref_count x - 1\<rparr>) (sy_s y)"
  have "tee_ta_put_session t a (sy_s y) = Ret s"
    using pos by (auto simp: tee_ta_put_session_def dec_session_ref_count_def s_def ss_upd_def fun_eq_iff)
  moreover have "sess_inv n (y\<lparr>sy_s := s, sy_refs := (sy_refs y)(t := remove1 a (sy_refs y t))\<rparr>)"
  proof (rule sess_inv_step [OF i t a])
    let ?y = "y\<lparr>sy_s := s, sy_refs := (sy_refs y)(t := remove1 a (sy_refs y t))\<rparr>"
    show "ss_ref_count (ss_heap (sy_s ?y) a) + held y t a = ss_ref_count ?x + held ?y t a"
      using pos count_remove1 [OF r] w by (simp add: s_def held_def)
    show "ss_unlink (ss_heap (sy_s ?y) a) \<longrightarrow> (\<exists>u. sy_wait ?y u = Some (WaitRefCv a))"
      using li by (simp add: s_def live_inv_def Let_def)
    show "ss_lock_thread (ss_heap (sy_s ?y) a) = Some u \<Longrightarrow> a \<in> set (sy_refs ?y u)" for u
      using li by (auto simp: s_def live_inv_def Let_def split: if_splits)
    show "sy_wait ?y u = Some (WaitRefCv a) \<Longrightarrow> ss_unlink (ss_heap (sy_s ?y) a) \<and>
       ss_lock_thread (ss_heap (sy_s ?y) a) = Some u \<and> a \<in> set (sy_refs ?y u)" for u
      using sess_inv_waiter [OF i, of u a] w by (auto simp: s_def split: if_splits)
  qed (auto simp: s_def count_remove1_other)
  ultimately show ?thesis by blast
qed

text \<open>The end of unlinking: nobody else refers to the session.\<close>

lemma last_reference:
  assumes i: "sess_inv n y" and t: "t < n" and a: "a \<in> set (open_sessions (sy_s y))"
    and r: "a \<in> set (sy_refs y t)" "ss_ref_count (ss_heap (sy_s y) a) = 1"
  shows "held y u a = (if u = t then 1 else 0)" "count_list (sy_refs y t) a = 1"
proof -
  have s: "(\<Sum>u<n. held y u a) = 1" using i a r(2) by (auto simp: sess_inv_def live_inv_def Let_def split: if_splits)
  moreover have "(\<Sum>u<n. held y u a) = held y t a + (\<Sum>u\<in>{..<n} - {t}. held y u a)"
    using t by (intro sum.remove) auto
  moreover have "0 < held y t a" using held_ref [OF r(1)] by simp
  ultimately have "held y t a = 1" "(\<Sum>u\<in>{..<n} - {t}. held y u a) = 0" by linarith+
  then have o: "held y t a = 1" "\<And>u. u < n \<Longrightarrow> u \<noteq> t \<Longrightarrow> held y u a = 0" by simp_all
  moreover have "held y u a = 0" if "n \<le> u" for u using i that by (auto simp: sess_inv_def held_def)
  ultimately show "held y u a = (if u = t then 1 else 0)" using t by (cases "u < n") auto
  have "count_list (sy_refs y t) a \<noteq> 0" using r(1) by (simp add: count_list_0_iff)
  with o(1) show "count_list (sy_refs y t) a = 1" by (auto simp: held_def split: if_splits)
qed

lemma sess_inv_freed:
  assumes i: "sess_inv n y" and t: "t < n" and a: "a \<in> set (open_sessions (sy_s y))"
    and r: "a \<in> set (sy_refs y t)" "ss_ref_count (ss_heap (sy_s y) a) = 1"
    and w: "sy_wait y t \<in> {None, Some (WaitRefCv a)}" and only: "\<And>u. u \<noteq> t \<Longrightarrow> sy_wait y u \<noteq> Some (WaitRefCv a)"
    and s: "open_sessions s = remove1 a (open_sessions (sy_s y))" "\<And>b. b \<noteq> a \<Longrightarrow> ss_heap s b = ss_heap (sy_s y) b"
  shows "sess_inv n (unlinked t a (s, Got None) y)" (is "sess_inv n ?y")
proof -
  note l = last_reference [OF i t a r]
  have d: "distinct (open_sessions (sy_s y))" using i by (simp add: sess_inv_def)
  have h: "held ?y u b = held y u b" if "b \<noteq> a" for u b
    using that w by (auto simp: held_def unlinked_def count_remove1_other split: if_splits)
  have wt: "sy_wait ?y u = Some (WaitRefCv b) \<longleftrightarrow> sy_wait y u = Some (WaitRefCv b)" if "b \<noteq> a" for u b
    using that w by (auto simp: unlinked_def)
  have refs: "b \<in> set (sy_refs ?y u) \<longleftrightarrow> b \<in> set (sy_refs y u)" if "b \<noteq> a" for u b
    using that by (auto simp: unlinked_def)
  have "dead_inv ?y a"
  proof -
    have "count_list (remove1 a (sy_refs y t)) a = 0" using count_remove1 [OF r(1)] l(2) by simp
    then have "held ?y u a = 0" for u using l(1) [of u] by (auto simp: held_def unlinked_def split: if_splits)
    moreover have "sy_wait ?y u \<noteq> Some (WaitRefCv a)" for u using only by (auto simp: unlinked_def)
    ultimately show ?thesis by (simp add: dead_inv_def)
  qed
  moreover have "live_inv n ?y b = live_inv n y b" "dead_inv ?y b = dead_inv y b" if "b \<noteq> a" for b
    using that h wt refs s(2) by (simp_all add: live_inv_def dead_inv_def Let_def) (simp_all add: unlinked_def)
  moreover have "ref_wait_inv ?y"
    unfolding ref_wait_inv_def
  proof (intro allI impI)
    fix u b assume u: "sy_wait ?y u = Some (WaitRefCv b)"
    then have ba: "b \<noteq> a" using only by (auto simp: unlinked_def split: if_splits)
    have "sy_s ?y = s" by (simp add: unlinked_def)
    with sess_inv_waiter [OF i, of u b] u wt [OF ba, of u] refs [OF ba, of u] s(2) [OF ba]
    show "ss_unlink (ss_heap (sy_s ?y) b) \<and> ss_lock_thread (ss_heap (sy_s ?y) b) = Some u \<and> b \<in> set (sy_refs ?y u)"
      by simp
  qed
  ultimately have "if b \<in> set (open_sessions s) then live_inv n ?y b else dead_inv ?y b" for b
    using sess_inv_addr [OF i, of b] s(1) d by (cases "b = a") simp_all
  moreover have "sy_s ?y = s" by (simp add: unlinked_def)
  moreover have "\<forall>u. n \<le> u \<longrightarrow> sy_refs ?y u = [] \<and> sy_wait ?y u = None"
    using i t by (auto simp: unlinked_def sess_inv_def)
  ultimately show ?thesis using d s(1) \<open>ref_wait_inv ?y\<close> by (simp add: sess_inv_def)
qed


lemma sess_inv_unlink_wait:
  assumes i: "sess_inv n y" and t: "t < n" and a: "a \<in> set (sy_refs y t)"
    and w: "sy_wait y t \<in> {None, Some (WaitRefCv a)}" and lk: "ss_lock_thread (ss_heap (sy_s y) a) = Some t"
    and s: "s = ss_upd a (\<lambda>x. x\<lparr>ss_unlink := True\<rparr>) (sy_s y)"
  shows "sess_inv n (unlinked t a (unlink_session_loop a s) y)"
proof -
  let ?x = "ss_heap (sy_s y) a"
  have o: "a \<in> set (open_sessions (sy_s y))" and li: "live_inv n y a"
    using sess_inv_liveI [OF i] held_ref [OF a] by auto
  have only: "sy_wait y u \<noteq> Some (WaitRefCv a)" if "u \<noteq> t" for u using sess_inv_waiter(2) [OF i, of u a] lk that by auto
  show ?thesis
  proof (cases "ss_ref_count ?x = 1")
    case True
    have "unlink_session_loop a s = (s\<lparr>open_sessions := remove1 a (open_sessions (sy_s y))\<rparr>, Got None)"
      using True by (simp add: s unlink_session_loop_def)
    moreover have "sess_inv n (unlinked t a (s\<lparr>open_sessions := remove1 a (open_sessions (sy_s y))\<rparr>, Got None) y)"
      using only by (intro sess_inv_freed [OF i t o a True w]) (auto simp: s)
    ultimately show ?thesis by simp
  next
    case False
    then have e: "unlink_session_loop a s = (s, Waits (WaitRefCv a))" by (simp add: s unlink_session_loop_def)
    have "sess_inv n (unlinked t a (s, Waits (WaitRefCv a)) y)"
    proof (rule sess_inv_step [OF i t o])
      let ?y = "unlinked t a (s, Waits (WaitRefCv a)) y"
      have uw: "u = t" if "sy_wait ?y u = Some (WaitRefCv a)" for u
        using that only by (auto simp: unlinked_def split: if_splits)
      show "ss_lock_thread (ss_heap (sy_s ?y) a) = Some u \<Longrightarrow> a \<in> set (sy_refs ?y u)" for u
        using lk a by (simp add: unlinked_def s)
      have "ss_unlink (ss_heap (sy_s ?y) a) \<and> ss_lock_thread (ss_heap (sy_s ?y) a) = Some t \<and> a \<in> set (sy_refs ?y t)"
        using lk a by (simp add: unlinked_def s)
      with uw show "sy_wait ?y u = Some (WaitRefCv a) \<Longrightarrow> ss_unlink (ss_heap (sy_s ?y) a) \<and>
         ss_lock_thread (ss_heap (sy_s ?y) a) = Some u \<and> a \<in> set (sy_refs ?y u)" for u
        by blast
      have "sy_wait y t \<noteq> Some (WaitLockCv b)" for b using w by auto
      then show "ss_ref_count (ss_heap (sy_s ?y) a) + held y t a = ss_ref_count ?x + held ?y t a"
        "sy_wait ?y t = Some (WaitLockCv b) \<longleftrightarrow> sy_wait y t = Some (WaitLockCv b)" for b
        by (simp_all add: unlinked_def s held_def)
      show "sy_wait ?y t = Some (WaitRefCv b) \<longleftrightarrow> sy_wait y t = Some (WaitRefCv b)" if "b \<noteq> a" for b
        using w that by (auto simp: unlinked_def)
      show "ss_unlink (ss_heap (sy_s ?y) a) \<longrightarrow> (\<exists>u. sy_wait ?y u = Some (WaitRefCv a))"
        by (auto simp: unlinked_def intro: exI [of _ t])
    qed (simp_all add: unlinked_def s)
    with e show ?thesis by simp
  qed
qed

lemma sess_inv_init:
  assumes i: "sess_inv n y" and t: "t < n" and w: "sy_wait y t = None"
    and a: "a \<notin> set (open_sessions (sy_s y))"
    and s: "open_sessions s = open_sessions (sy_s y) @ [a]" "ss_heap s = (ss_heap (sy_s y))(a := x)"
      "ss_ref_count x = 1" "ss_lock_thread x = None" "\<not> ss_unlink x"
  shows "sess_inv n (y\<lparr>sy_s := s, sy_refs := (sy_refs y)(t := a # sy_refs y t)\<rparr>)" (is "sess_inv n ?y")
proof -
  have d: "dead_inv y a" using i a by (simp add: sess_inv_def split: if_splits)
  then have h: "held ?y u b = held y u b + (if u = t \<and> b = a then 1 else 0)" for u b
    by (auto simp: held_def)
  have "live_inv n ?y a"
  proof -
    have "(\<Sum>u<n. held ?y u a) = (\<Sum>u<n. if u = t then 1 else 0)"
      using d by (intro sum.cong) (auto simp: h dead_inv_def)
    also have "\<dots> = 1" using t by simp
    finally show ?thesis using s by (simp add: live_inv_def Let_def)
  qed
  moreover have "live_inv n ?y b = live_inv n y b" "dead_inv ?y b = dead_inv y b" if "b \<noteq> a" for b
    using that s(2) h by (auto simp: live_inv_def dead_inv_def Let_def split: if_splits)
  moreover have "ref_wait_inv ?y"
    using i d s(2) unfolding ref_wait_inv_def sess_inv_def dead_inv_def by (auto split: if_splits)
  ultimately have "if b \<in> set (open_sessions s) then live_inv n ?y b else dead_inv ?y b" for b
    using sess_inv_addr [OF i, of b] s(1) by (cases "b = a") simp_all
  with \<open>ref_wait_inv ?y\<close> show ?thesis using i t a s(1) by (simp add: sess_inv_def)
qed

lemma sess_inv_exec:
  assumes i: "sess_inv n y" and t: "t < n" and e: "sess_exec act t y = Some r"
  shows "\<exists>y'. r = Ret y' \<and> sess_inv n y'"
proof (cases act)
  case (InitS a)
  with e have w: "sy_wait y t = None" "a \<notin> set (open_sessions (sy_s y))" by (auto split: if_splits)
  from new_session_id_result [of "sy_s y"] obtain j where j: "new_session_id (sy_s y) = Some j" by blast
  show ?thesis
  proof (cases "j = 0")
    case True
    with e InitS w j i show ?thesis by (auto simp: init_session_def)
  next
    case False
    then obtain s x where "init_session a (sy_s y) = Some s" and s: "open_sessions s = open_sessions (sy_s y) @ [a]"
      "ss_heap s = (ss_heap (sy_s y))(a := x)" "ss_ref_count x = 1" "ss_lock_thread x = None" "\<not> ss_unlink x"
      using j by (force simp: init_session_def)
    with sess_inv_init [OF i t w s] e InitS w show ?thesis by auto
  qed
next
  case (GetS j ex)
  with e have w: "sy_wait y t = None"
    and g: "\<not> (ex \<and> (\<exists>a \<in> set (open_sessions (sy_s y)). ss_lock_thread (ss_heap (sy_s y) a) = Some t))"
    by (auto split: if_splits)
  from sess_inv_get [OF i t w g, of j] obtain x where
    "tee_ta_get_session t j ex (sy_s y) = Ret x" "sess_inv n (got t x y)" by blast
  with e GetS show ?thesis by (auto split: if_splits)
next
  case (PutS a)
  with e have w: "sy_wait y t = None" "a \<in> set (sy_refs y t)" by (auto split: if_splits)
  from sess_inv_put [OF i t w] e PutS w show ?thesis by auto
next
  case (UnlinkS a)
  with e have w: "sy_wait y t = None" "a \<in> set (sy_refs y t)" "ss_lock_thread (ss_heap (sy_s y) a) = Some t"
    by (auto split: if_splits)
  have li: "live_inv n y a" using sess_inv_liveI [OF i] held_ref [OF w(2)] by auto
  have "ss_ref_count (ss_heap (sy_s y) a) \<noteq> 0" using live_inv_count [OF li t] held_ref [OF w(2)] by simp
  moreover have "\<not> ss_unlink (ss_heap (sy_s y) a)"
    using li w sess_inv_waiter(2) [OF i] by (auto simp: live_inv_def Let_def)
  ultimately show ?thesis
    using sess_inv_unlink_wait [OF i t w(2) _ w(3) refl] e UnlinkS w by (auto simp: tee_ta_unlink_session_def)
next
  case ResumeS
  then obtain w where w: "sy_wait y t = Some w" using e by (auto split: option.splits)
  show ?thesis
  proof (cases w)
    case (WaitLockCv a)
    then have "held y t a \<noteq> 0" using w by (simp add: held_def)
    then have a: "a \<in> set (open_sessions (sy_s y))" using sess_inv_liveI [OF i] by blast
    from sess_inv_lock_loop [OF i t a refl refl, of "sy_s y"] w WaitLockCv obtain x where
      "get_session_loop t a (sy_s y) = Ret x" "sess_inv n (got t x y)" by auto
    with e ResumeS w WaitLockCv show ?thesis by auto
  next
    case (WaitRefCv a)
    note wt = sess_inv_waiter [OF i w [unfolded WaitRefCv]]
    have "ss_upd a (\<lambda>x. x\<lparr>ss_unlink := True\<rparr>) (sy_s y) = sy_s y"
      using wt(1) by (simp add: ss_upd_def fun_upd_idem)
    with sess_inv_unlink_wait [OF i t wt(3) _ wt(2), of "sy_s y"] w WaitRefCv e ResumeS show ?thesis by auto
  qed
qed

lemma sess_reach_inv: "sess_reach n y \<Longrightarrow> sess_inv n y"
proof (induction rule: sess_reach.induct)
  case (start h)
  then show ?case by (simp add: sess_start_def sess_inv_def ref_wait_inv_def dead_inv_def held_def)
next
  case (step y t a y')
  with sess_inv_exec [OF step(4,2,3)] show ?case by auto
qed


section \<open>Properties\<close>

fun sess_runs :: "(sess_act \<times> nat) list \<Rightarrow> sess_sys \<Rightarrow> sess_sys option" where
  "sess_runs [] y = Some y"
| "sess_runs ((a, t) # as) y = (case sess_exec a t y of Some (Ret y') \<Rightarrow> sess_runs as y' | _ \<Rightarrow> None)"

lemma sess_reach_runs:
  "sess_runs as y = Some y' \<Longrightarrow> sess_reach n y \<Longrightarrow> list_all (\<lambda>(a, t). t < n) as \<Longrightarrow> sess_reach n y'"
  by (induction as y rule: sess_runs.induct)
    (auto split: option.splits outcome.splits intro: sess_reach.step)

text \<open>For the witnesses: thread 0 opens session 1 at address 7 and locks it besides.\<close>

definition sess_demo_new :: tee_ta_session where
  "sess_demo_new = \<lparr>ss_id = 1, ss_ctx = None, ss_clnt_id = \<lparr>login = 0, uuid = replicate 16 0\<rparr>, ss_cancel = False,
     ss_cancel_mask = True, ss_cancel_time = \<lparr>tm_seconds = 0, tm_millis = 0\<rparr>, ss_ref_count = 1,
     ss_lock_thread = None, ss_unlink = False\<rparr>"

definition sess_demo :: sess_sys where
  "sess_demo = \<lparr>sy_s = \<lparr>open_sessions = [7], ss_heap = (\<lambda>_. sess_demo_new)(7 :=
     sess_demo_new\<lparr>ss_ref_count := 2, ss_lock_thread := Some 0\<rparr>)\<rparr>, sy_refs = (\<lambda>_. [])(0 := [7, 7]), sy_wait = (\<lambda>_. None)\<rparr>"

lemma sess_demo_runs: "sess_runs [(InitS 7, 0), (GetS 1 True, 0)] (sess_start (\<lambda>_. sess_demo_new)) = Some sess_demo"
  by (simp add: sess_start_def init_session_def new_session_id_def Let_def tee_ta_find_session_nolock_def
      tee_ta_get_session_def get_session_loop_def got_def ss_upd_def sess_demo_def sess_demo_new_def fun_eq_iff)

lemma sess_reach_demo: "sess_reach 2 sess_demo"
  by (rule sess_reach_runs [OF sess_demo_runs sess_reach.start]) simp

text \<open>
  C13. No dangling references. Under any interleaving of opening, getting, putting and unlinking
  sessions by any number of threads, the reference count of a linked session is the number of
  references that threads hold or wait with; a session that is unlinked, and so freed, is
  neither referred to nor waited for by anybody; and no assertion fails.
\<close>

theorem session_refs_safe:
  assumes "sess_reach n y"
  shows "(if a \<in> set (open_sessions (sy_s y))
     then ss_ref_count (ss_heap (sy_s y) a) =
       (\<Sum>t<n. count_list (sy_refs y t) a + (if sy_wait y t = Some (WaitLockCv a) then 1 else 0))
     else a \<notin> set (sy_refs y t) \<and> sy_wait y t \<noteq> Some (WaitLockCv a) \<and> sy_wait y t \<noteq> Some (WaitRefCv a)) \<and>
   (t < n \<longrightarrow> sess_exec act t y \<noteq> Some Panic)"
proof
  have i: "sess_inv n y" by (rule sess_reach_inv [OF assms])
  show "if a \<in> set (open_sessions (sy_s y))
     then ss_ref_count (ss_heap (sy_s y) a) =
       (\<Sum>t<n. count_list (sy_refs y t) a + (if sy_wait y t = Some (WaitLockCv a) then 1 else 0))
     else a \<notin> set (sy_refs y t) \<and> sy_wait y t \<noteq> Some (WaitLockCv a) \<and> sy_wait y t \<noteq> Some (WaitRefCv a)"
    using sess_inv_addr [OF i, of a]
    by (auto simp: live_inv_def dead_inv_def held_def Let_def count_list_0_iff split: if_splits)
  show "t < n \<longrightarrow> sess_exec act t y \<noteq> Some Panic" using sess_inv_exec [OF i] by blast
qed

theorem session_refs_safe_witness:
  "sess_reach 2 sess_demo \<and> 3 \<notin> set (open_sessions (sy_s sess_demo)) \<and> 3 \<notin> set (sy_refs sess_demo 0) \<and>
   sess_exec (PutS 7) 0 sess_demo \<noteq> Some Panic"
proof -
  have n: "3 \<notin> set (open_sessions (sy_s sess_demo))" by (simp add: sess_demo_def)
  from session_refs_safe [OF sess_reach_demo, of 3 0 "PutS 7"] n sess_reach_demo show ?thesis by simp
qed

text \<open>
  The session lock. While a thread holds the lock of a linked session, no step of another
  thread releases it, hands it on, or unlinks the session.
\<close>

theorem session_lock_exclusive:
  assumes "sess_reach n y" "a \<in> set (open_sessions (sy_s y))" "ss_lock_thread (ss_heap (sy_s y) a) = Some t"
    "u \<noteq> t" "u < n" "sess_exec act u y = Some (Ret y')"
  shows "ss_lock_thread (ss_heap (sy_s y') a) = Some t \<and> a \<in> set (open_sessions (sy_s y'))"
proof -
  have i: "sess_inv n y" by (rule sess_reach_inv [OF assms(1)])
  have loop: "ss_lock_thread (ss_heap s' a) = Some t \<and> a \<in> set (open_sessions s')"
    if "get_session_loop u b s = Ret (s', e)" "ss_lock_thread (ss_heap s a) = Some t" "a \<in> set (open_sessions s)" for b s s' e
    using that by (auto simp: get_session_loop_def dec_session_ref_count_def split: if_splits)
  show ?thesis
  proof (cases act)
    case (InitS b)
    with assms show ?thesis by (auto simp: init_session_def split: if_splits option.splits)
  next
    case (GetS j ex)
    with assms loop show ?thesis
      by (fastforce simp: tee_ta_get_session_def Let_def split: if_splits option.splits)
  next
    case (PutS b)
    with assms show ?thesis
      by (auto simp: tee_ta_put_session_def dec_session_ref_count_def split: if_splits)
  next
    case (UnlinkS b)
    with assms have "b \<noteq> a" by (auto split: if_splits)
    with UnlinkS assms show ?thesis
      by (auto simp: tee_ta_unlink_session_def unlink_session_loop_def unlinked_def split: if_splits)
  next
    case ResumeS
    then obtain w where w: "sy_wait y u = Some w" using assms(6) by (auto split: option.splits)
    show ?thesis
    proof (cases w)
      case (WaitLockCv b)
      with w ResumeS assms loop show ?thesis by fastforce
    next
      case (WaitRefCv b)
      from sess_inv_waiter(2) [OF i w [unfolded this]] assms(3,4) have "b \<noteq> a" by auto
      with w ResumeS WaitRefCv assms show ?thesis by (auto simp: unlink_session_loop_def unlinked_def split: if_splits)
    qed
  qed
qed

theorem session_lock_exclusive_witness:
  "\<exists>y'. sess_exec (GetS 1 True) 1 sess_demo = Some (Ret y') \<and>
     ss_lock_thread (ss_heap (sy_s y') 7) = Some 0 \<and> 7 \<in> set (open_sessions (sy_s y'))"
proof -
  let ?s = "ss_upd 7 (\<lambda>x. x\<lparr>ss_ref_count := ss_ref_count x + 1\<rparr>) (sy_s sess_demo)"
  have e: "sess_exec (GetS 1 True) 1 sess_demo = Some (Ret (got 1 (?s, Waits (WaitLockCv 7)) sess_demo))"
    by (simp add: tee_ta_get_session_def tee_ta_find_session_nolock_def get_session_loop_def sess_demo_def
        sess_demo_new_def Let_def)
  have o: "7 \<in> set (open_sessions (sy_s sess_demo))" "ss_lock_thread (ss_heap (sy_s sess_demo) 7) = Some 0"
    by (simp_all add: sess_demo_def)
  let ?y = "got 1 (?s, Waits (WaitLockCv 7)) sess_demo"
  have "ss_lock_thread (ss_heap (sy_s ?y) 7) = Some 0 \<and> 7 \<in> set (open_sessions (sy_s ?y))"
    by (rule session_lock_exclusive [OF sess_reach_demo o _ _ e]) simp_all
  with e show ?thesis by blast
qed


text \<open>A thread that unlinks a session to which it has a second reference waits for ever.\<close>

definition hangs :: "nat \<Rightarrow> addr \<Rightarrow> sess_sys \<Rightarrow> bool" where
  "hangs t a y \<longleftrightarrow> sy_wait y t = Some (WaitRefCv a) \<and> 1 < count_list (sy_refs y t) a"

lemma hangs_exec:
  assumes i: "sess_inv n y" and u: "u < n" and h: "hangs t a y" and e: "sess_exec act u y = Some (Ret y')"
  shows "hangs t a y'"
proof (cases "u = t")
  case True
  have w: "sy_wait y t = Some (WaitRefCv a)" using h by (simp add: hangs_def)
  have li: "live_inv n y a" using sess_inv_liveI [OF i] w by blast
  have "1 < ss_ref_count (ss_heap (sy_s y) a)"
    using live_inv_count [OF li, of t] u True h by (simp add: hangs_def held_def)
  then have "unlinked t a (unlink_session_loop a (sy_s y)) y = y"
    using w by (simp add: unlink_session_loop_def unlinked_def fun_upd_idem)
  with e True w have "y' = y" by (cases act) auto
  with h show ?thesis by simp
next
  case False
  have "sy_wait y' t = sy_wait y t \<and> sy_refs y' t = sy_refs y t"
    using e False
    by (cases act) (auto split: if_splits option.splits sess_wait.splits)
  with h show ?thesis by (simp add: hangs_def)
qed

lemma hangs_runs:
  "sess_runs as y = Some y' \<Longrightarrow> sess_inv n y \<Longrightarrow> list_all (\<lambda>(a, u). u < n) as \<Longrightarrow> hangs t a y \<Longrightarrow> hangs t a y'"
proof (induction as y rule: sess_runs.induct)
  case (2 act u as y)
  then obtain y1 where y1: "sess_exec act u y = Some (Ret y1)" "sess_runs as y1 = Some y'"
    by (auto split: option.splits outcome.splits)
  have "sess_inv n y1" using sess_inv_exec [of n y u act "Ret y1"] 2 y1(1) by auto
  moreover have "hangs t a y1" using hangs_exec [of n y u t a act y1] 2 y1(1) by auto
  ultimately show ?case using "2.IH" [OF y1(1) refl y1(2)] "2.prems" by simp
qed simp

lemma find_session_in_append:
  "(\<And>b. b \<in> set as \<Longrightarrow> ss_id (ss_heap s b) \<noteq> i) \<Longrightarrow> find_session_in s (as @ bs) i = find_session_in s bs i"
  by (induction as) auto

text \<open>
  What \<^verbatim>\<open>tee_ta_open_session\<close> does to the new session at \<open>a\<close>, identifier \<open>i\<close>, when the context
  found has panicked: it is linked with one reference, not put back, then \<^verbatim>\<open>tee_ta_close_session\<close>
  gets it exclusively and destroys it.
\<close>

definition open_panicked :: "nat \<Rightarrow> addr \<Rightarrow> u32 \<Rightarrow> (sess_act \<times> nat) list" where
  "open_panicked t a i = [(InitS a, t), (GetS i True, t), (UnlinkS a, t)]"

lemma open_panicked_hangs:
  assumes i: "sess_inv n y" and w: "sy_wait y t = None" and a: "a \<notin> set (open_sessions (sy_s y))"
    and id: "new_session_id (sy_s y) = Some i" "i \<noteq> 0"
    and lk: "\<And>b. b \<in> set (open_sessions (sy_s y)) \<Longrightarrow> ss_lock_thread (ss_heap (sy_s y) b) \<noteq> Some t"
  shows "\<exists>y'. sess_runs (open_panicked t a i) y = Some y' \<and> hangs t a y'"
proof -
  obtain s where s: "init_session a (sy_s y) = Some s" "open_sessions s = open_sessions (sy_s y) @ [a]"
    and x: "ss_id (ss_heap s a) = i" "ss_ref_count (ss_heap s a) = 1" "ss_lock_thread (ss_heap s a) = None"
      "\<not> ss_unlink (ss_heap s a)" "\<And>b. b \<noteq> a \<Longrightarrow> ss_heap s b = ss_heap (sy_s y) b"
    using id by (auto simp: init_session_def)
  have "i \<notin> used_ids (sy_s y)" using new_session_id_result [of "sy_s y"] id by auto
  have "ss_id (ss_heap s b) \<noteq> i" if "b \<in> set (open_sessions (sy_s y))" for b
  proof -
    have "ss_heap s b = ss_heap (sy_s y) b" using that a by (intro x(5)) auto
    with \<open>i \<notin> used_ids (sy_s y)\<close> that show ?thesis by (auto simp: used_ids_def)
  qed
  then have f: "tee_ta_find_session_nolock i s = Some a"
    by (simp add: tee_ta_find_session_nolock_def s(2) find_session_in_append x(1))
  let ?y1 = "y\<lparr>sy_s := s, sy_refs := (sy_refs y)(t := a # sy_refs y t)\<rparr>"
  let ?s2 = "ss_upd a (\<lambda>x. x\<lparr>ss_lock_thread := Some t\<rparr>) (ss_upd a (\<lambda>x. x\<lparr>ss_ref_count := ss_ref_count x + 1\<rparr>) s)"
  let ?y2 = "got t (?s2, Got (Some a)) ?y1"
  have e1: "sess_exec (InitS a) t y = Some (Ret ?y1)" using s w a by simp
  have lk1: "\<not> (\<exists>b \<in> set (open_sessions s). ss_lock_thread (ss_heap s b) = Some t)"
  proof -
    have "ss_lock_thread (ss_heap s b) \<noteq> Some t" if "b \<in> set (open_sessions s)" for b
      using that lk [of b] x(3) x(5) [of b] by (cases "b = a") (auto simp: s(2))
    then show ?thesis by blast
  qed
  have e2: "sess_exec (GetS i True) t ?y1 = Some (Ret ?y2)"
    using w lk1 f x by (simp add: tee_ta_get_session_def get_session_loop_def Let_def)
  have e3: "sess_exec (UnlinkS a) t ?y2 =
      Some (Ret (unlinked t a (ss_upd a (\<lambda>x. x\<lparr>ss_unlink := True\<rparr>) ?s2, Waits (WaitRefCv a)) ?y2))"
    using x by (simp add: got_def tee_ta_unlink_session_def unlink_session_loop_def)
  show ?thesis
    using e1 e2 e3 by (auto simp: open_panicked_def hangs_def unlinked_def got_def simp del: sess_exec.simps)
qed

text \<open>
  Opening a session of a panicked application hangs. From every reachable state in which
  thread \<open>t\<close> waits for nothing and has no session locked, the calls that
  \<^verbatim>\<open>tee_ta_open_session\<close> makes for the new session when the context has panicked are possible, and
  after them thread \<open>t\<close> waits in \<^verbatim>\<open>tee_ta_unlink_session\<close> for ever, whatever is done.
\<close>

theorem session_open_panicked_hangs:
  assumes "sess_reach n y" "t < n" "sy_wait y t = None" "a \<notin> set (open_sessions (sy_s y))"
    "new_session_id (sy_s y) = Some i" "i \<noteq> 0"
    "\<forall>b \<in> set (open_sessions (sy_s y)). ss_lock_thread (ss_heap (sy_s y) b) \<noteq> Some t"
  shows "\<exists>y1. sess_runs (open_panicked t a i) y = Some y1 \<and>
    (\<forall>acts y2. list_all (\<lambda>(act, u). u < n) acts \<and> sess_runs acts y1 = Some y2 \<longrightarrow>
       sy_wait y2 t = Some (WaitRefCv a))"
proof -
  from open_panicked_hangs [OF sess_reach_inv [OF assms(1)] assms(3-6)] assms(7) obtain y1 where
    y1: "sess_runs (open_panicked t a i) y = Some y1" "hangs t a y1" by blast
  have "sess_inv n y1"
    using sess_reach_runs [OF y1(1) assms(1)] assms(2) by (auto simp: open_panicked_def intro: sess_reach_inv)
  with y1 hangs_runs show ?thesis by (metis hangs_def)
qed

theorem session_open_panicked_hangs_witness:
  "\<exists>y1. sess_runs (open_panicked 0 7 1) (sess_start (\<lambda>_. sess_demo_new)) = Some y1 \<and>
     sy_wait y1 0 = Some (WaitRefCv 7)"
proof -
  have "new_session_id (sy_s (sess_start (\<lambda>_. sess_demo_new))) = Some 1"
    by (simp add: sess_start_def new_session_id_def tee_ta_find_session_nolock_def Let_def)
  with session_open_panicked_hangs [OF sess_reach.start, of 0 1 "\<lambda>_. sess_demo_new" 7 1] obtain y1 where
    y1: "sess_runs (open_panicked 0 7 1) (sess_start (\<lambda>_. sess_demo_new)) = Some y1"
      "\<forall>acts y2. list_all (\<lambda>(act, u). u < 1) acts \<and> sess_runs acts y1 = Some y2 \<longrightarrow> sy_wait y2 0 = Some (WaitRefCv 7)"
    by (auto simp: sess_start_def)
  from y1(2) [rule_format, of "[]" y1] y1(1) show ?thesis by simp
qed

text \<open>
  New session identifiers: the search returns within its rounds, with an identifier that is
  not zero and not used by an open session, or with zero exactly if every identifier is used.
\<close>

theorem new_session_id_fresh:
  "\<exists>i. new_session_id s = Some i \<and>
     (if i = 0 then UNIV - {0} \<subseteq> used_ids s else tee_ta_find_session i s = None \<and> i \<notin> used_ids s)"
proof -
  from new_session_id_result [of s] obtain i where
    "new_session_id s = Some i" "if i = 0 then UNIV - {0} \<subseteq> used_ids s else i \<notin> used_ids s" by blast
  then show ?thesis
    by (intro exI [of _ i]) (simp add: tee_ta_find_session_def find_session_None split: if_splits)
qed

text \<open>A time in milliseconds.\<close>

definition time_ms :: "TEE_Time \<Rightarrow> nat" where
  "time_ms t = 1000 * unat (tm_seconds t) + unat (tm_millis t)"

lemma set_invoke_timeout_time:
  assumes "req \<noteq> TEE_TIMEOUT_INFINITE" "unat (tm_millis cur) < 1000"
    "unat (tm_seconds cur) + unat req div 1000 < 4294967295" "unat (tm_seconds cur) + 2 < 4294967295"
  shows "unat (tm_seconds (ss_cancel_time (set_invoke_timeout (Some cur) req s))) =
      (if unat (tm_millis cur) + unat req mod 1000 \<le> 1000 then unat (tm_seconds cur) + unat req div 1000
       else unat (tm_seconds cur) + 2)"
    and "unat (tm_millis (ss_cancel_time (set_invoke_timeout (Some cur) req s))) =
      (if unat (tm_millis cur) + unat req mod 1000 \<le> 1000 then unat (tm_millis cur) + unat req mod 1000
       else unat (tm_millis cur) + unat req mod 1000 - 1000)"
proof -
  let ?s = "tm_seconds cur" and ?m = "tm_millis cur"
  have d: "unat (req div 1000) = unat req div 1000" "unat (req mod 1000) = unat req mod 1000"
    by (simp_all add: unat_div unat_mod)
  have md: "unat req mod 1000 < 1000" by simp
  have s1: "unat (?s + req div 1000) = unat ?s + unat req div 1000"
    using assms(3) d by (subst unat_add_no_wrap) simp_all
  have s2: "unat (?s + 1) = unat ?s + 1" using assms(4) by (subst unat_add_no_wrap) simp_all
  have s3: "unat (?s + 1 + 1) = unat ?s + 2" using assms(4) s2 by (subst unat_add_no_wrap) simp_all
  have m: "unat (?m + req mod 1000) = unat ?m + unat req mod 1000"
  proof -
    have "unat ?m + unat (req mod 1000) < 4294967296" using assms(2) md unfolding d by linarith
    then show ?thesis by (subst unat_add_no_wrap) (simp_all add: d)
  qed
  have o: "\<not> ?s + req div 1000 < ?s" "\<not> ?s + 1 < ?s" using s1 s2 by (simp_all add: word_less_nat_alt)
  have c: "?m + req mod 1000 > 1000 \<longleftrightarrow> \<not> unat ?m + unat req mod 1000 \<le> 1000"
    using m by (simp add: word_less_nat_alt not_le)
  have m2: "unat (?m + req mod 1000 - 1000) = unat ?m + unat req mod 1000 - 1000"
    if "\<not> unat ?m + unat req mod 1000 \<le> 1000"
    using that m by (subst unat_sub_no_wrap) (simp_all add: word_le_nat_alt)
  show "unat (tm_seconds (ss_cancel_time (set_invoke_timeout (Some cur) req s))) =
      (if unat ?m + unat req mod 1000 \<le> 1000 then unat ?s + unat req div 1000 else unat ?s + 2)"
    using assms(1) o c s1 s3 by (simp add: set_invoke_timeout_def ADD_OVERFLOW_def Let_def)
  show "unat (tm_millis (ss_cancel_time (set_invoke_timeout (Some cur) req s))) =
      (if unat ?m + unat req mod 1000 \<le> 1000 then unat ?m + unat req mod 1000
       else unat ?m + unat req mod 1000 - 1000)"
    using assms(1) o c m m2 by (simp add: set_invoke_timeout_def ADD_OVERFLOW_def Let_def)
qed

text \<open>
  Timeouts. For a session whose cancellation is not masked and not requested, a request
  with timeout \<open>req\<close> (in ms) made at time \<open>cur\<close> counts as cancelled at time \<open>c\<close> exactly if \<open>req\<close>
  milliseconds have passed, provided that adding the milliseconds gives no carry to the
  seconds. With a carry the whole seconds of the timeout are lost: the request is cancelled
  after \<open>req mod 1000 + 1000\<close> milliseconds.
\<close>

theorem invoke_timeout_effective:
  assumes "req \<noteq> TEE_TIMEOUT_INFINITE" "unat (tm_millis cur) < 1000" "unat (tm_millis c) < 1000"
    "unat (tm_seconds cur) + unat req div 1000 < 4294967295" "unat (tm_seconds cur) + 2 < 4294967295"
    "\<not> ss_cancel s" "\<not> ss_cancel_mask s"
  shows "tee_ta_session_is_cancelled (Some c) now (set_invoke_timeout (Some cur) req s) \<longleftrightarrow>
    time_ms cur + (if unat (tm_millis cur) + unat req mod 1000 \<le> 1000 then unat req
                   else unat req mod 1000 + 1000) \<le> time_ms c"
proof -
  let ?x = "set_invoke_timeout (Some cur) req s"
  let ?t = "ss_cancel_time ?x"
  note st = set_invoke_timeout_time [OF assms(1,2,4,5), of s]
  have f: "\<not> ss_cancel ?x" "\<not> ss_cancel_mask ?x" using assms(6,7) by (simp_all add: set_invoke_timeout_def)
  have "tm_seconds ?t \<noteq> 0xFFFFFFFF"
  proof
    assume "tm_seconds ?t = 0xFFFFFFFF"
    then have "unat (tm_seconds ?t) = 4294967295" by simp
    with st(1) assms(4,5) show False by (simp split: if_splits)
  qed
  with f have e: "tee_ta_session_is_cancelled (Some c) now ?x \<longleftrightarrow>
      unat (tm_seconds ?t) < unat (tm_seconds c) \<or>
      unat (tm_seconds c) = unat (tm_seconds ?t) \<and> unat (tm_millis ?t) \<le> unat (tm_millis c)"
    by (simp add: tee_ta_session_is_cancelled_def word_less_nat_alt word_le_nat_alt word_unat_eq_iff)
  have req: "unat req = 1000 * (unat req div 1000) + unat req mod 1000" by simp
  show ?thesis
  proof (cases "unat (tm_millis cur) + unat req mod 1000 \<le> 1000")
    case True
    then show ?thesis unfolding e st time_ms_def using assms(3) req by (simp only: if_True) linarith
  next
    case False
    moreover have "unat req mod 1000 < 1000" by simp
    ultimately show ?thesis unfolding e st time_ms_def using assms(2,3) by (simp only: if_False) linarith
  qed
qed

theorem invoke_timeout_effective_witness:
  "tee_ta_session_is_cancelled (Some \<lparr>tm_seconds = 12, tm_millis = 200\<rparr>) None
     (set_invoke_timeout (Some \<lparr>tm_seconds = 10, tm_millis = 900\<rparr>) 5200 (sess_demo_new\<lparr>ss_cancel_mask := False\<rparr>))"
  using invoke_timeout_effective [of 5200 "\<lparr>tm_seconds = 10, tm_millis = 900\<rparr>" "\<lparr>tm_seconds = 12, tm_millis = 200\<rparr>"
      "sess_demo_new\<lparr>ss_cancel_mask := False\<rparr>" None]
  by (simp add: TEE_TIMEOUT_INFINITE_def sess_demo_new_def time_ms_def)

end
