(* ===== verification/Entry_Params.thy ===== *)
theory Entry_Params
  imports Msg_Param Ta_Session
begin

unbundle bit_operations_syntax

text \<open>
  The parameters of messages from the normal world, \<^verbatim>\<open>core/arch/arm/tee/entry_std.c\<close>: they are copied
  in with references to memory objects, handed to the trusted application, copied out, and the
  references are given back. Registering and unregistering shared memory are messages too.
\<close>

section \<open>Data\<close>

definition OPTEE_MSG_ATTR_TYPE_MASK :: u64 where "OPTEE_MSG_ATTR_TYPE_MASK = 0xFF"
definition OPTEE_MSG_ATTR_META :: u64 where "OPTEE_MSG_ATTR_META = 0x100"
definition OPTEE_MSG_ATTR_NONCONTIG :: u64 where "OPTEE_MSG_ATTR_NONCONTIG = 0x200"
definition OPTEE_MSG_ATTR_TYPE_VALUE_INPUT :: u64 where "OPTEE_MSG_ATTR_TYPE_VALUE_INPUT = 1"
definition OPTEE_MSG_ATTR_TYPE_RMEM_INPUT :: u64 where "OPTEE_MSG_ATTR_TYPE_RMEM_INPUT = 5"
definition OPTEE_MSG_ATTR_TYPE_TMEM_INPUT :: u64 where "OPTEE_MSG_ATTR_TYPE_TMEM_INPUT = 9"
definition OPTEE_MSG_ATTR_TYPE_TMEM_OUTPUT :: u64 where "OPTEE_MSG_ATTR_TYPE_TMEM_OUTPUT = 10"

text \<open>The case labels \<^verbatim>\<open>VALUE_*\<close>, \<^verbatim>\<open>RMEM_*\<close> and \<^verbatim>\<open>TMEM_*\<close>: input, output and both, in this order.\<close>

definition is_value :: "u64 \<Rightarrow> bool" where "is_value t \<longleftrightarrow> t \<in> {1, 2, 3}"
definition is_rmem :: "u64 \<Rightarrow> bool" where "is_rmem t \<longleftrightarrow> t \<in> {5, 6, 7}"
definition is_tmem :: "u64 \<Rightarrow> bool" where "is_tmem t \<longleftrightarrow> t \<in> {9, 10, 11}"

text \<open>
  The union of a message parameter is three words: \<^verbatim>\<open>a, b, c\<close> of a value, \<^verbatim>\<open>buf_ptr, size, shm_ref\<close>
  of a temporary and \<^verbatim>\<open>offs, size, shm_ref\<close> of a registered memory reference.
\<close>

record optee_msg_param =
  mp_attr :: u64
  mp_a :: u64
  mp_b :: u64
  mp_c :: u64

record param_mem =
  pm_mobj :: "mobj option"
  pm_offs :: size_t
  pm_size :: size_t

text \<open>The union of a parameter for applications; its type says which member is read.\<close>

record param_u =
  pu_a :: u32
  pu_b :: u32
  pu_mem :: param_mem

record tee_ta_param =
  tp_types :: u32
  tp_u :: "param_u list"

definition TEE_NUM_PARAMS :: nat where "TEE_NUM_PARAMS = 4"

definition null_mem :: param_mem where "null_mem = \<lparr>pm_mobj = None, pm_offs = 0, pm_size = 0\<rparr>"
definition null_u :: param_u where "null_u = \<lparr>pu_a = 0, pu_b = 0, pu_mem = null_mem\<rparr>"

definition zero_param :: tee_ta_param where
  "zero_param = \<lparr>tp_types = 0, tp_u = replicate TEE_NUM_PARAMS null_u\<rparr>"

definition zero_attr :: "u64 list" where
  "zero_attr = replicate TEE_NUM_PARAMS 0"

definition TEE_PARAM_TYPES :: "u32 \<Rightarrow> u32 \<Rightarrow> u32 \<Rightarrow> u32 \<Rightarrow> u32" where
  "TEE_PARAM_TYPES t0 t1 t2 t3 = t0 OR push_bit 4 t1 OR push_bit 8 t2 OR push_bit 12 t3"

definition TEE_PARAM_TYPE_GET :: "u32 \<Rightarrow> nat \<Rightarrow> u32" where
  "TEE_PARAM_TYPE_GET t i = drop_bit (i * 4) t AND 0xF"

section \<open>Copying in\<close>

definition is_valid_conf_and_notnull_size :: "paddr_t \<Rightarrow> paddr_t \<Rightarrow> paddr_t \<Rightarrow> paddr_t \<Rightarrow> bool" where
  "is_valid_conf_and_notnull_size b bl a al \<longleftrightarrow>
     (if b - 1 + bl < b \<or> a - 1 + al < a then False else if bl = 0 \<or> al = 0 then False else True)"

definition core_is_buffer_inside :: "paddr_t \<Rightarrow> paddr_t \<Rightarrow> paddr_t \<Rightarrow> paddr_t \<Rightarrow> bool" where
  "core_is_buffer_inside b bl a al \<longleftrightarrow>
     is_valid_conf_and_notnull_size b bl a al \<and> a \<le> b \<and> b - 1 + bl \<le> a - 1 + al"

text \<open>\<^verbatim>\<open>param_mem_from_mobj\<close> for the reserved shared memory.\<close>

definition param_mem_from_mobj :: "shm_env \<Rightarrow> paddr_t \<Rightarrow> size_t \<Rightarrow> shm_state \<Rightarrow> (param_mem option \<times> shm_state) outcome" where
  "param_mem_from_mobj e pa sz s =
     (if core_is_buffer_inside pa (max sz 1) (se_shm_paddr e) (se_shm_size e)
      then bind_outcome (mobj_get ShmMobj s) (\<lambda>s.
        Ret (Some \<lparr>pm_mobj = Some ShmMobj, pm_offs = pa - se_shm_paddr e, pm_size = sz\<rparr>, s))
      else Ret (None, s))"

definition set_tmem_param ::
    "shm_env \<Rightarrow> optee_msg_param \<Rightarrow> u32 \<Rightarrow> param_mem \<Rightarrow> shm_state \<Rightarrow> (tee_result \<times> param_mem \<times> shm_state) outcome" where
  "set_tmem_param e tmem attr mem s =
     (let pa = mp_a tmem; sz = mp_b tmem in
      if pa = 0 then Ret (TEE_SUCCESS, null_mem, s)
      else if attr AND ucast OPTEE_MSG_ATTR_NONCONTIG \<noteq> 0 then
        bind_outcome (msg_param_mobj_from_noncontig e pa sz (mp_c tmem) False s) (\<lambda>(m, s).
          case m of
            None \<Rightarrow> Ret (TEE_ERROR_BAD_PARAMETERS, mem\<lparr>pm_mobj := None\<rparr>, s)
          | Some a \<Rightarrow> Ret (TEE_SUCCESS, \<lparr>pm_mobj = Some (RegShm a), pm_offs = 0, pm_size = sz\<rparr>, s))
      else bind_outcome (param_mem_from_mobj e pa sz s) (\<lambda>(m, s).
        case m of
          None \<Rightarrow> Ret (TEE_ERROR_BAD_PARAMETERS, mem, s)
        | Some mem \<Rightarrow> Ret (TEE_SUCCESS, mem, s)))"

definition mobj_size :: "shm_env \<Rightarrow> mobj \<Rightarrow> shm_state \<Rightarrow> size_t" where
  "mobj_size e m s = (case m of ShmMobj \<Rightarrow> se_shm_size e | RegShm a \<Rightarrow> rs_size (rs_heap s a))"

definition set_rmem_param ::
    "shm_env \<Rightarrow> optee_msg_param \<Rightarrow> param_mem \<Rightarrow> shm_state \<Rightarrow> (tee_result \<times> param_mem \<times> shm_state) outcome" where
  "set_rmem_param e rmem mem s =
     bind_outcome (mobj_reg_shm_get_by_cookie (mp_c rmem) s) (\<lambda>(m, s).
       case m of
         None \<Rightarrow> Ret (TEE_ERROR_BAD_PARAMETERS, mem\<lparr>pm_mobj := None\<rparr>, s)
       | Some mo \<Rightarrow>
           let mem = \<lparr>pm_mobj = Some mo, pm_offs = mp_a rmem, pm_size = mp_b rmem\<rparr> in
           (case add_overflow (pm_offs mem) (pm_size mem) of (ov, req_size) \<Rightarrow>
            if ov \<or> mobj_size e mo s < req_size then Ret (TEE_ERROR_SECURITY, mem, s)
            else Ret (TEE_SUCCESS, mem, s)))"

text \<open>The array \<^verbatim>\<open>u\<close>, the types \<^verbatim>\<open>pt\<close> and the saved attributes as the loop goes through the parameters.\<close>

record copy_state =
  cs_u :: "param_u list"
  cs_pt :: "u32 list"
  cs_attr :: "u64 list"

definition cs_mem :: "nat \<Rightarrow> param_mem \<Rightarrow> copy_state \<Rightarrow> copy_state" where
  "cs_mem n m c = c\<lparr>cs_u := (cs_u c)[n := (cs_u c ! n)\<lparr>pu_mem := m\<rparr>]\<rparr>"

definition cs_type :: "nat \<Rightarrow> u32 \<Rightarrow> copy_state \<Rightarrow> copy_state" where
  "cs_type n t c = c\<lparr>cs_pt := (cs_pt c)[n := t]\<rparr>"

text \<open>One parameter: the body of the loop of \<^verbatim>\<open>copy_in_params\<close>.\<close>

definition copy_in_one ::
    "shm_env \<Rightarrow> nat \<Rightarrow> optee_msg_param \<Rightarrow> copy_state \<Rightarrow> shm_state \<Rightarrow> (tee_result \<times> copy_state \<times> shm_state) outcome" where
  "copy_in_one e n p c s =
     (let c = c\<lparr>cs_attr := (cs_attr c)[n := mp_attr p]\<rparr>;
          attr = mp_attr p AND OPTEE_MSG_ATTR_TYPE_MASK;
          mem = pu_mem (cs_u c ! n) in
      if mp_attr p AND OPTEE_MSG_ATTR_META \<noteq> 0 then Ret (TEE_ERROR_BAD_PARAMETERS, c, s)
      else if attr = 0 then Ret (TEE_SUCCESS, cs_type n 0 c, s)
      else if is_value attr then
        Ret (TEE_SUCCESS, cs_type n (ucast (1 + attr - OPTEE_MSG_ATTR_TYPE_VALUE_INPUT))
          (c\<lparr>cs_u := (cs_u c)[n := (cs_u c ! n)\<lparr>pu_a := ucast (mp_a p), pu_b := ucast (mp_b p)\<rparr>]\<rparr>), s)
      else if is_tmem attr then
        bind_outcome (set_tmem_param e p (ucast (mp_attr p)) mem s) (\<lambda>(res, mem, s).
          Ret (res, if res \<noteq> TEE_SUCCESS then cs_mem n mem c
            else cs_type n (ucast (5 + attr - OPTEE_MSG_ATTR_TYPE_TMEM_INPUT)) (cs_mem n mem c), s))
      else if is_rmem attr then
        bind_outcome (set_rmem_param e p mem s) (\<lambda>(res, mem, s).
          Ret (res, if res \<noteq> TEE_SUCCESS then cs_mem n mem c
            else cs_type n (ucast (5 + attr - OPTEE_MSG_ATTR_TYPE_RMEM_INPUT)) (cs_mem n mem c), s))
      else Ret (TEE_ERROR_BAD_PARAMETERS, c, s))"

fun copy_in_loop ::
    "shm_env \<Rightarrow> nat \<Rightarrow> optee_msg_param list \<Rightarrow> copy_state \<Rightarrow> shm_state \<Rightarrow> (tee_result \<times> copy_state \<times> shm_state) outcome" where
  "copy_in_loop e n [] c s = Ret (TEE_SUCCESS, c, s)"
| "copy_in_loop e n (p # ps) c s =
     bind_outcome (copy_in_one e n p c s) (\<lambda>(res, c, s).
       if res \<noteq> TEE_SUCCESS then Ret (res, c, s) else copy_in_loop e (Suc n) ps c s)"

text \<open>
  \<^verbatim>\<open>copy_in_params\<close>, given what \<^verbatim>\<open>ta_param\<close> and \<^verbatim>\<open>saved_attr\<close> hold before.
\<close>

definition copy_in_params ::
    "shm_env \<Rightarrow> optee_msg_param list \<Rightarrow> tee_ta_param \<Rightarrow> u64 list \<Rightarrow> shm_state \<Rightarrow>
      (tee_result \<times> tee_ta_param \<times> u64 list \<times> shm_state) outcome" where
  "copy_in_params e params ta_param saved_attr s =
     (if TEE_NUM_PARAMS < length params then Ret (TEE_ERROR_BAD_PARAMETERS, ta_param, saved_attr, s)
      else bind_outcome
        (copy_in_loop e 0 params \<lparr>cs_u = tp_u zero_param, cs_pt = replicate TEE_NUM_PARAMS 0, cs_attr = saved_attr\<rparr> s)
        (\<lambda>(res, c, s). Ret (res,
          \<lparr>tp_types = if res = TEE_SUCCESS then TEE_PARAM_TYPES (cs_pt c ! 0) (cs_pt c ! 1) (cs_pt c ! 2) (cs_pt c ! 3) else 0,
           tp_u = cs_u c\<rparr>, cs_attr c, s)))"

section \<open>Copying out and cleaning up\<close>

text \<open>\<open>None\<close>: an array of \<^verbatim>\<open>TEE_NUM_PARAMS\<close> elements is read past its end.\<close>

fun cleanup_loop :: "u64 list \<Rightarrow> param_u list \<Rightarrow> nat \<Rightarrow> nat \<Rightarrow> shm_state \<Rightarrow> shm_state outcome option" where
  "cleanup_loop saved_attr u n 0 s = Some (Ret s)"
| "cleanup_loop saved_attr u n (Suc k) s =
     (if length saved_attr \<le> n then None
      else if is_tmem (saved_attr ! n) \<or> is_rmem (saved_attr ! n) then
        (case mobj_put (pm_mobj (pu_mem (u ! n))) s of
           Panic \<Rightarrow> Some Panic
         | Ret s \<Rightarrow> cleanup_loop saved_attr u (Suc n) k s)
      else cleanup_loop saved_attr u (Suc n) k s)"

definition cleanup_shm_refs :: "u64 list \<Rightarrow> tee_ta_param \<Rightarrow> nat \<Rightarrow> shm_state \<Rightarrow> shm_state outcome option" where
  "cleanup_shm_refs saved_attr param num_params s = cleanup_loop saved_attr (tp_u param) 0 num_params s"

definition copy_out_one :: "tee_ta_param \<Rightarrow> u64 list \<Rightarrow> nat \<Rightarrow> optee_msg_param \<Rightarrow> optee_msg_param" where
  "copy_out_one ta_param saved_attr n p =
     (let t = TEE_PARAM_TYPE_GET (tp_types ta_param) n; u = tp_u ta_param ! n;
          attr = saved_attr ! n AND OPTEE_MSG_ATTR_TYPE_MASK in
      if t = 6 \<or> t = 7 then (if attr \<in> {6, 7, 10, 11} then p\<lparr>mp_b := pm_size (pu_mem u)\<rparr> else p)
      else if t = 2 \<or> t = 3 then p\<lparr>mp_a := ucast (pu_a u), mp_b := ucast (pu_b u)\<rparr>
      else p)"

definition copy_out_param :: "tee_ta_param \<Rightarrow> u64 list \<Rightarrow> optee_msg_param list \<Rightarrow> optee_msg_param list" where
  "copy_out_param ta_param saved_attr params =
     map (\<lambda>n. copy_out_one ta_param saved_attr n (params ! n)) [0..<length params]"

section \<open>Parameters of applications\<close>

text \<open>
  The values \<^verbatim>\<open>vals\<close> of \<^verbatim>\<open>struct utee_params\<close>, two for each parameter; \<open>va\<close> holds the addresses at
  which memory parameters are mapped.
\<close>

definition init_utee_one :: "u64 list \<Rightarrow> tee_ta_param \<Rightarrow> nat \<Rightarrow> u64 list" where
  "init_utee_one va p n =
     (let t = TEE_PARAM_TYPE_GET (tp_types p) n; u = tp_u p ! n in
      if t \<in> {5, 6, 7} then [va ! n, pm_size (pu_mem u)]
      else if t = 1 \<or> t = 3 then [ucast (pu_a u), ucast (pu_b u)]
      else [0, 0])"

definition init_utee_param :: "u64 list \<Rightarrow> tee_ta_param \<Rightarrow> u64 list" where
  "init_utee_param va p = concat (map (init_utee_one va p) [0..<TEE_NUM_PARAMS])"

definition update_from_utee_one :: "u64 list \<Rightarrow> tee_ta_param \<Rightarrow> nat \<Rightarrow> param_u" where
  "update_from_utee_one vals p n =
     (let t = TEE_PARAM_TYPE_GET (tp_types p) n; u = tp_u p ! n in
      if t = 6 \<or> t = 7 then u\<lparr>pu_mem := (pu_mem u)\<lparr>pm_size := vals ! (n * 2 + 1)\<rparr>\<rparr>
      else if t = 2 \<or> t = 3 then u\<lparr>pu_a := ucast (vals ! (n * 2)), pu_b := ucast (vals ! (n * 2 + 1))\<rparr>
      else u)"

definition update_from_utee_param :: "u64 list \<Rightarrow> tee_ta_param \<Rightarrow> tee_ta_param" where
  "update_from_utee_param vals p = p\<lparr>tp_u := map (update_from_utee_one vals p) [0..<TEE_NUM_PARAMS]\<rparr>"

section \<open>Messages\<close>

text \<open>
  What the entry functions do with parameters. \<open>run\<close> is the part between copying in and copying
  out, on a state of its own: it gives the result and the parameters as the application leaves them,
  or \<open>None\<close> where the entry function does not copy out.
\<close>

definition entry_with_params ::
    "shm_env \<Rightarrow> (tee_ta_param \<Rightarrow> 'm \<Rightarrow> (tee_result \<times> tee_ta_param option \<times> 'm) call) \<Rightarrow> tee_ta_param \<Rightarrow>
      optee_msg_param list \<Rightarrow> 'm \<Rightarrow> shm_state \<Rightarrow> (tee_result \<times> optee_msg_param list \<times> 'm \<times> shm_state) call option" where
  "entry_with_params e run param params m s =
     (case copy_in_params e params param zero_attr s of
        Panic \<Rightarrow> Some Panics
      | Ret (res, ta, saved_attr, s) \<Rightarrow>
          (case if res \<noteq> TEE_SUCCESS then Returns (res, None, m) else run ta m of
             Panics \<Rightarrow> Some Panics
           | Hangs \<Rightarrow> Some Hangs
           | Returns (res, out, m) \<Rightarrow>
               let params' = (case out of None \<Rightarrow> params | Some ta \<Rightarrow> copy_out_param ta saved_attr params);
                   ta = (case out of None \<Rightarrow> ta | Some ta \<Rightarrow> ta) in
               map_option (\<lambda>r. bind_call (of_outcome r) (\<lambda>s. Returns (res, params', m, s)))
                 (cleanup_shm_refs saved_attr ta (length params) s)))"

text \<open>The octets of a value in memory, and \<^verbatim>\<open>tee_uuid_from_octets\<close> to the memory of a \<^verbatim>\<open>TEE_UUID\<close>.\<close>

definition value_octets :: "optee_msg_param \<Rightarrow> u8 list" where
  "value_octets p = map (\<lambda>i. ucast (drop_bit (8 * i) (mp_a p))) [0..<8] @ map (\<lambda>i. ucast (drop_bit (8 * i) (mp_b p))) [0..<8]"

definition tee_uuid_from_octets :: "u8 list \<Rightarrow> u8 list" where
  "tee_uuid_from_octets s = [s ! 3, s ! 2, s ! 1, s ! 0, s ! 5, s ! 4, s ! 7, s ! 6] @ take 8 (drop 8 s)"

definition get_open_session_meta :: "optee_msg_param list \<Rightarrow> tee_result + (u8 list \<times> TEE_Identity)" where
  "get_open_session_meta params =
     (let req_attr = OPTEE_MSG_ATTR_META OR OPTEE_MSG_ATTR_TYPE_VALUE_INPUT in
      case params of
        p0 # p1 # ps \<Rightarrow>
          if mp_attr p0 \<noteq> req_attr \<or> mp_attr p1 \<noteq> req_attr then Inl TEE_ERROR_BAD_PARAMETERS
          else let u = tee_uuid_from_octets (value_octets p0); lg = ucast (mp_c p1) in
            if lg = 0 \<or> lg = 0x80000000 then Inr (u, \<lparr>login = lg, uuid = replicate 16 0\<rparr>)
            else if lg \<in> {1, 2, 4, 5, 6} then Inr (u, \<lparr>login = lg, uuid = tee_uuid_from_octets (value_octets p1)\<rparr>)
            else Inl TEE_ERROR_BAD_PARAMETERS
      | _ \<Rightarrow> Inl TEE_ERROR_BAD_PARAMETERS)"

definition register_shm :: "shm_env \<Rightarrow> optee_msg_param list \<Rightarrow> shm_state \<Rightarrow> (tee_result \<times> shm_state) outcome" where
  "register_shm e params s =
     (case params of
        [p] \<Rightarrow>
          if mp_attr p \<noteq> OPTEE_MSG_ATTR_TYPE_TMEM_OUTPUT OR OPTEE_MSG_ATTR_NONCONTIG then Ret (TEE_ERROR_BAD_PARAMETERS, s)
          else bind_outcome (msg_param_mobj_from_noncontig e (mp_a p) (mp_b p) (mp_c p) False s) (\<lambda>(m, s).
            case m of
              None \<Rightarrow> Ret (TEE_ERROR_BAD_PARAMETERS, s)
            | Some a \<Rightarrow> Ret (TEE_SUCCESS, mobj_reg_shm_unguard a s))
      | _ \<Rightarrow> Ret (TEE_ERROR_BAD_PARAMETERS, s))"

definition unregister_shm :: "optee_msg_param list \<Rightarrow> shm_state \<Rightarrow> (tee_result \<times> shm_state) call" where
  "unregister_shm params s =
     (case params of [p] \<Rightarrow> mobj_reg_shm_release_by_cookie (mp_c p) s | _ \<Rightarrow> Returns (TEE_ERROR_BAD_PARAMETERS, s))"

section \<open>Types of parameters\<close>

lemma nibble: "t < 16 \<Longrightarrow> take_bit 4 t = t" for t :: u32
  by (simp add: take_bit_eq_mod word_unat_eq_iff unat_mod word_less_nat_alt)

lemma param_type_get:
  assumes "list_all (\<lambda>t. t < 16) [t0, t1, t2, t3]" and "i < TEE_NUM_PARAMS"
  shows "TEE_PARAM_TYPE_GET (TEE_PARAM_TYPES t0 t1 t2 t3) i = [t0, t1, t2, t3] ! i"
proof -
  from assms(1) have n: "take_bit 4 t0 = t0" "take_bit 4 t1 = t1" "take_bit 4 t2 = t2" "take_bit 4 t3 = t3"
    by (simp_all add: nibble)
  have f: "(0xF :: u32) = mask 4" by (simp add: mask_eq_exp_minus_1)
  have z: "\<not> bit t m" if "take_bit 4 t = t" "4 \<le> m" for t :: u32 and m
    using that by (metis bit_take_bit_iff not_less)
  note z = z [OF n(1)] z [OF n(2)] z [OF n(3)] z [OF n(4)]
  have "i \<in> {0, 1, 2, 3}" using assms(2) by (auto simp: TEE_NUM_PARAMS_def)
  moreover have "bit (TEE_PARAM_TYPE_GET (TEE_PARAM_TYPES t0 t1 t2 t3) i) k \<longleftrightarrow> bit ([t0, t1, t2, t3] ! i) k"
    if "i \<in> {0, 1, 2, 3}" for k
    by (cases "k < 4") (use that z in \<open>auto simp: TEE_PARAM_TYPE_GET_def TEE_PARAM_TYPES_def f bit_simps\<close>)
  ultimately show ?thesis by (intro bit_word_eqI) simp
qed

section \<open>Copied memory parameters\<close>

definition is_memref :: "u32 \<Rightarrow> bool" where "is_memref t \<longleftrightarrow> t \<in> {5, 6, 7}"

text \<open>The range lies in the object; a null reference is empty.\<close>

definition mem_ok :: "shm_env \<Rightarrow> shm_state \<Rightarrow> param_mem \<Rightarrow> bool" where
  "mem_ok e s mem \<longleftrightarrow>
     (case pm_mobj mem of
        None \<Rightarrow> pm_size mem = 0
      | Some ShmMobj \<Rightarrow> unat (pm_offs mem) + unat (pm_size mem) \<le> unat (se_shm_size e)
      | Some (RegShm a) \<Rightarrow> a \<in> set (reg_shm_list s) \<and> unat (pm_offs mem) + unat (pm_size mem) \<le> unat (rs_size (rs_heap s a)))"

text \<open>Registered objects stay registered and keep their size.\<close>

definition shm_ext :: "(paddr_t \<Rightarrow> bool) \<Rightarrow> shm_state \<Rightarrow> shm_state \<Rightarrow> bool" where
  "shm_ext N s s' \<longleftrightarrow> shm_inv N s' \<and>
     (\<forall>a. a \<in> set (reg_shm_list s) \<longrightarrow> a \<in> set (reg_shm_list s') \<and> rs_size (rs_heap s' a) = rs_size (rs_heap s a))"

lemma shm_ext_trans: "shm_ext N s s1 \<Longrightarrow> shm_ext N s1 s2 \<Longrightarrow> shm_ext N s s2"
  by (simp add: shm_ext_def)

lemma mem_ok_ext: "mem_ok e s mem \<Longrightarrow> shm_ext N s s' \<Longrightarrow> mem_ok e s' mem"
  by (auto simp: mem_ok_def shm_ext_def split: option.splits mobj.splits)

lemma mobj_get_ext:
  assumes "mobj_get m s = Ret s'" and "shm_inv N s"
  shows "shm_ext N s s'" and "mobj_size e m s' = mobj_size e m s" and "reg_shm_list s' = reg_shm_list s"
  using assms
  by (auto simp: mobj_get_def shm_ext_def shm_inv_def rs_ok_def mobj_size_def split: mobj.splits if_splits)

lemma last_byte:
  fixes b bl :: u64
  assumes "\<not> b - 1 + bl < b" and "bl \<noteq> 0"
  shows "unat (b - 1 + bl) + 1 = unat b + unat bl"
proof -
  have e: "b - 1 + bl = b + (bl - 1)" by simp
  have "b \<le> b + (bl - 1)" using assms(1) by (simp add: e not_less)
  then have "unat (b + (bl - 1)) = unat b + unat (bl - 1)" using unat_lt2p [of "bl - 1"] by (simp add: unat_plus_if' word_le_nat_alt split: if_splits)
  moreover have "unat (bl - 1) = unat bl - 1" "0 < unat bl" using assms(2) by (simp_all add: unat_minus_one unat_gt_0)
  ultimately show ?thesis by (simp add: e)
qed

lemma buffer_inside:
  assumes "core_is_buffer_inside pa (max sz 1) b bl"
  shows "unat (pa - b) + unat sz \<le> unat bl"
proof -
  have v: "\<not> pa - 1 + max sz 1 < pa" "\<not> b - 1 + bl < b" "max sz 1 \<noteq> 0" "bl \<noteq> 0" "b \<le> pa" "pa - 1 + max sz 1 \<le> b - 1 + bl"
    using assms by (auto simp: core_is_buffer_inside_def is_valid_conf_and_notnull_size_def split: if_splits)
  have "unat pa + unat (max sz 1) \<le> unat b + unat bl"
    using last_byte [OF v(1,3)] last_byte [OF v(2,4)] v(6) by (simp add: word_le_nat_alt)
  moreover have "unat sz \<le> unat (max sz 1)" by (simp add: max_def word_le_nat_alt)
  moreover have "unat (pa - b) = unat pa - unat b" "unat b \<le> unat pa" using v(5) by (simp_all add: unat_sub word_le_nat_alt)
  ultimately show ?thesis by simp
qed

lemma set_tmem_ok:
  assumes run: "set_tmem_param e p attr mem s = Ret (res, mem', s')" and inv: "shm_inv N s" and env: "shm_env_ok N e"
  shows "shm_ext N s s' \<and> (res = TEE_SUCCESS \<longrightarrow> mem_ok e s' mem')"
proof -
  have refl: "shm_ext N s s" using inv by (simp add: shm_ext_def)
  consider (null) "mp_a p = 0" | (list) "mp_a p \<noteq> 0" "attr AND ucast OPTEE_MSG_ATTR_NONCONTIG \<noteq> 0"
    | (range) "mp_a p \<noteq> 0" "attr AND ucast OPTEE_MSG_ATTR_NONCONTIG = 0" by blast
  then show ?thesis
  proof cases
    case null
    then show ?thesis using run refl by (auto simp: set_tmem_param_def mem_ok_def null_mem_def)
  next
    case list
    from env show ?thesis
    proof (cases rule: noncontig_cases [where buf_ptr = "mp_a p" and sz = "mp_b p" and ck = "mp_c p" and s = s])
      case (none s1)
      then show ?thesis using run list same_shm_inv [OF none(2), of N] inv
        by (auto simp: set_tmem_param_def shm_ext_def same_shm_def)
    next
      case (some a s1)
      then show ?thesis using run list added_inv [OF some(2) inv]
        by (auto simp: set_tmem_param_def shm_ext_def added_def mem_ok_def)
    qed
  next
    case range
    then show ?thesis using run refl mobj_get_ext(1) [OF _ inv, of ShmMobj s'] buffer_inside [of "mp_a p" "mp_b p"]
      by (auto simp: set_tmem_param_def param_mem_from_mobj_def mem_ok_def Let_def split: if_splits)
  qed
qed

lemma set_rmem_ok:
  assumes run: "set_rmem_param e p mem s = Ret (res, mem', s')" and inv: "shm_inv N s"
  shows "shm_ext N s s' \<and> (res = TEE_SUCCESS \<longrightarrow> mem_ok e s' mem')"
proof (cases "reg_shm_find_unlocked (mp_c p) s")
  case None
  then show ?thesis using run inv by (auto simp: set_rmem_param_def mobj_reg_shm_get_by_cookie_def shm_ext_def)
next
  case (Some a)
  then have a: "a \<in> set (reg_shm_list s)" by (auto simp: reg_shm_find_unlocked_def find_Some_iff)
  from run Some obtain s1 where s1: "mobj_get (RegShm a) s = Ret s1" by (auto simp: set_rmem_param_def mobj_reg_shm_get_by_cookie_def)
  note x = mobj_get_ext [OF s1 inv]
  have "s' = s1" using run Some s1 by (auto simp: set_rmem_param_def mobj_reg_shm_get_by_cookie_def add_overflow_def Let_def split: if_splits)
  moreover have "mem_ok e s1 mem'" if "res = TEE_SUCCESS"
  proof -
    have "mem' = \<lparr>pm_mobj = Some (RegShm a), pm_offs = mp_a p, pm_size = mp_b p\<rparr>"
      and c: "unat (mp_a p) + unat (mp_b p) < 2 ^ 64" "\<not> mobj_size e (RegShm a) s1 < mp_a p + mp_b p"
      using run Some s1 that
      by (auto simp: set_rmem_param_def mobj_reg_shm_get_by_cookie_def add_overflow_def Let_def split: if_splits)
    moreover have "unat (mp_a p + mp_b p) = unat (mp_a p) + unat (mp_b p)" using c(1) by (intro unat_add_no_wrap) simp
    ultimately show ?thesis using a x(3) by (simp add: mem_ok_def mobj_size_def word_less_nat_alt not_less)
  qed
  ultimately show ?thesis using x(1) by simp
qed

text \<open>The type for applications that an attribute of a message stands for.\<close>

definition msg_type :: "u64 \<Rightarrow> u32" where
  "msg_type a = (let t = a AND OPTEE_MSG_ATTR_TYPE_MASK in if is_tmem t then ucast (t - 4) else ucast t)"

lemma copy_in_one_ok:
  assumes run: "copy_in_one e n p c s = Ret (res, c', s')" and inv: "shm_inv N s" and env: "shm_env_ok N e"
    and n: "n < length (cs_u c)"
  shows "shm_ext N s s'" and "length (cs_u c') = length (cs_u c)"
    and "res = TEE_SUCCESS \<Longrightarrow> cs_attr c' = (cs_attr c)[n := mp_attr p] \<and> cs_pt c' = (cs_pt c)[n := msg_type (mp_attr p)] \<and>
      msg_type (mp_attr p) < 16 \<and> (\<exists>u. cs_u c' = (cs_u c)[n := u] \<and> (is_memref (msg_type (mp_attr p)) \<longrightarrow> mem_ok e s' (pu_mem u)))"
proof -
  let ?t = "mp_attr p AND OPTEE_MSG_ATTR_TYPE_MASK"
  have refl: "shm_ext N s s" using inv by (simp add: shm_ext_def)
  note d = copy_in_one_def Let_def cs_type_def cs_mem_def msg_type_def is_memref_def
  have "shm_ext N s s' \<and> length (cs_u c') = length (cs_u c) \<and> (res = TEE_SUCCESS \<longrightarrow> cs_attr c' = (cs_attr c)[n := mp_attr p] \<and>
      cs_pt c' = (cs_pt c)[n := msg_type (mp_attr p)] \<and>
      msg_type (mp_attr p) < 16 \<and> (\<exists>u. cs_u c' = (cs_u c)[n := u] \<and> (is_memref (msg_type (mp_attr p)) \<longrightarrow> mem_ok e s' (pu_mem u))))"
  proof (cases "mp_attr p AND OPTEE_MSG_ATTR_META \<noteq> 0 \<or> \<not> (?t = 0 \<or> is_value ?t \<or> is_tmem ?t \<or> is_rmem ?t)")
    case True
    then have "copy_in_one e n p c s = Ret (TEE_ERROR_BAD_PARAMETERS, c\<lparr>cs_attr := (cs_attr c)[n := mp_attr p]\<rparr>, s)"
      by (auto simp: copy_in_one_def Let_def)
    then show ?thesis using run refl by auto
  next
    case False
    then consider (none) "?t = 0" | (val) "is_value ?t" | (tmem) "is_tmem ?t" | (rmem) "is_rmem ?t" by blast
    then show ?thesis
    proof cases
      case none
      then show ?thesis using run refl False by (auto simp: d is_tmem_def intro!: exI [of _ "cs_u c ! n"])
    next
      case val
      then show ?thesis using run refl False
        by (fastforce simp: d is_tmem_def is_value_def OPTEE_MSG_ATTR_TYPE_VALUE_INPUT_def)
    next
      case tmem
      then have t: "?t \<noteq> 0" "\<not> is_value ?t" by (auto simp: is_tmem_def is_value_def)
      from run False tmem t obtain mem s1 where m: "set_tmem_param e p (ucast (mp_attr p)) (pu_mem (cs_u c ! n)) s = Ret (res, mem, s1)"
        by (auto simp: d)
      from set_tmem_ok [OF this inv env] show ?thesis using run False tmem t m n
        by (auto simp: d is_tmem_def OPTEE_MSG_ATTR_TYPE_TMEM_INPUT_def intro!: exI split: if_splits)
    next
      case rmem
      then have t: "?t \<noteq> 0" "\<not> is_value ?t" "\<not> is_tmem ?t" by (auto simp: is_tmem_def is_value_def is_rmem_def)
      from run False rmem t obtain mem s1 where m: "set_rmem_param e p (pu_mem (cs_u c ! n)) s = Ret (res, mem, s1)"
        by (auto simp: d)
      from set_rmem_ok [OF this inv] show ?thesis using run False rmem t m n
        by (auto simp: d is_rmem_def OPTEE_MSG_ATTR_TYPE_RMEM_INPUT_def intro!: exI split: if_splits)
    qed
  qed
  then show "shm_ext N s s'" "length (cs_u c') = length (cs_u c)"
    "res = TEE_SUCCESS \<Longrightarrow> cs_attr c' = (cs_attr c)[n := mp_attr p] \<and> cs_pt c' = (cs_pt c)[n := msg_type (mp_attr p)] \<and>
      msg_type (mp_attr p) < 16 \<and> (\<exists>u. cs_u c' = (cs_u c)[n := u] \<and> (is_memref (msg_type (mp_attr p)) \<longrightarrow> mem_ok e s' (pu_mem u)))"
    by blast+
qed

text \<open>What holds of the parameters copied so far.\<close>

definition slots_ok :: "shm_env \<Rightarrow> shm_state \<Rightarrow> copy_state \<Rightarrow> bool" where
  "slots_ok e s c \<longleftrightarrow> length (cs_u c) = TEE_NUM_PARAMS \<and> length (cs_pt c) = TEE_NUM_PARAMS \<and>
     (\<forall>i < TEE_NUM_PARAMS. cs_pt c ! i < 16 \<and> (is_memref (cs_pt c ! i) \<longrightarrow> mem_ok e s (pu_mem (cs_u c ! i))))"

lemma slots_ok_upd:
  assumes "slots_ok e s c" and "shm_ext N s s'" and "cs_pt c' = (cs_pt c)[n := t]" and "cs_u c' = (cs_u c)[n := u]"
    and "t < 16" and "is_memref t \<longrightarrow> mem_ok e s' (pu_mem u)"
  shows "slots_ok e s' c'"
proof -
  have "cs_pt c' ! i < 16 \<and> (is_memref (cs_pt c' ! i) \<longrightarrow> mem_ok e s' (pu_mem (cs_u c' ! i)))" if "i < TEE_NUM_PARAMS" for i
    using assms that mem_ok_ext [OF _ assms(2)] by (cases "i = n") (simp_all add: slots_ok_def)
  then show ?thesis using assms(1,3,4) by (simp add: slots_ok_def)
qed

lemma copy_in_loop_ok:
  assumes "copy_in_loop e n ps c s = Ret (TEE_SUCCESS, c', s')" and "shm_inv N s" and env: "shm_env_ok N e"
    and "slots_ok e s c" and "n + length ps \<le> TEE_NUM_PARAMS"
  shows "shm_inv N s' \<and> slots_ok e s' c' \<and>
    cs_pt c' = take n (cs_pt c) @ map (msg_type \<circ> mp_attr) ps @ drop (n + length ps) (cs_pt c)"
  using assms(1,2,4,5)
proof (induction ps arbitrary: n c s)
  case (Cons p ps)
  from Cons.prems(1) obtain c1 s1 where one: "copy_in_one e n p c s = Ret (TEE_SUCCESS, c1, s1)"
    and rest: "copy_in_loop e (Suc n) ps c1 s1 = Ret (TEE_SUCCESS, c', s')" by (auto split: if_splits)
  have n: "n < length (cs_u c)" "n < length (cs_pt c)" using Cons.prems(3,4) by (simp_all add: slots_ok_def)
  note ok = copy_in_one_ok [OF one Cons.prems(2) env n(1)]
  from ok(3) obtain u where u: "cs_pt c1 = (cs_pt c)[n := msg_type (mp_attr p)]" "msg_type (mp_attr p) < 16"
    "cs_u c1 = (cs_u c)[n := u]" "is_memref (msg_type (mp_attr p)) \<longrightarrow> mem_ok e s1 (pu_mem u)" by auto
  have "shm_inv N s1" using ok(1) by (simp add: shm_ext_def)
  from Cons.IH [OF rest this slots_ok_upd [OF Cons.prems(3) ok(1) u(1,3,2,4)]] Cons.prems(4) n u(1) show ?case
    by (simp add: take_Suc_conv_app_nth take_update_swap list_update_append)
qed simp

lemma zero_slots: "slots_ok e s \<lparr>cs_u = tp_u zero_param, cs_pt = replicate TEE_NUM_PARAMS 0, cs_attr = at\<rparr>"
  by (auto simp: slots_ok_def zero_param_def is_memref_def)

lemma four_elements: "length xs = 4 \<Longrightarrow> [xs ! 0, xs ! 1, xs ! 2, xs ! 3] = xs"
  by (auto simp: numeral_eq_Suc length_Suc_conv)

lemma copy_in_params_ok:
  assumes run: "copy_in_params e params ta at s = Ret (TEE_SUCCESS, ta', at', s')" and inv: "shm_inv N s" and env: "shm_env_ok N e"
  obtains pt where "pt = map (msg_type \<circ> mp_attr) params @ replicate (TEE_NUM_PARAMS - length params) 0" "length params \<le> TEE_NUM_PARAMS"
    "\<And>i. i < TEE_NUM_PARAMS \<Longrightarrow> TEE_PARAM_TYPE_GET (tp_types ta') i = pt ! i" "shm_inv N s'"
    "\<And>i. i < TEE_NUM_PARAMS \<Longrightarrow> is_memref (pt ! i) \<Longrightarrow> mem_ok e s' (pu_mem (tp_u ta' ! i))"
proof -
  let ?c = "\<lparr>cs_u = tp_u zero_param, cs_pt = replicate TEE_NUM_PARAMS 0, cs_attr = at\<rparr>"
  from run have len: "length params \<le> TEE_NUM_PARAMS" by (auto simp: copy_in_params_def split: if_splits)
  with run obtain c where lp: "copy_in_loop e 0 params ?c s = Ret (TEE_SUCCESS, c, s')"
    and ta: "ta' = \<lparr>tp_types = TEE_PARAM_TYPES (cs_pt c ! 0) (cs_pt c ! 1) (cs_pt c ! 2) (cs_pt c ! 3), tp_u = cs_u c\<rparr>"
    by (auto simp: copy_in_params_def split: if_splits)
  from copy_in_loop_ok [OF lp inv env zero_slots] len have ok: "shm_inv N s'" "slots_ok e s' c"
    "cs_pt c = map (msg_type \<circ> mp_attr) params @ replicate (TEE_NUM_PARAMS - length params) 0" by auto
  have l: "length (cs_pt c) = 4" "\<And>i. i < 4 \<Longrightarrow> cs_pt c ! i < 16" using ok(2) by (simp_all add: slots_ok_def TEE_NUM_PARAMS_def)
  note e = four_elements [OF l(1)]
  have "TEE_PARAM_TYPE_GET (tp_types ta') i = cs_pt c ! i" if "i < TEE_NUM_PARAMS" for i
    using param_type_get [OF _ that, of "cs_pt c ! 0" "cs_pt c ! 1" "cs_pt c ! 2" "cs_pt c ! 3"] l(2) e by (simp add: ta)
  then show thesis using ok len by (intro that) (auto simp: slots_ok_def ta)
qed

text \<open>The physical address of byte \<open>k\<close> of a memory parameter, and the memory of the normal world.\<close>

definition mem_byte :: "shm_env \<Rightarrow> shm_state \<Rightarrow> param_mem \<Rightarrow> size_t \<Rightarrow> paddr_t option" where
  "mem_byte e s mem k =
     (case pm_mobj mem of
        None \<Rightarrow> None
      | Some ShmMobj \<Rightarrow> if pm_offs mem + k < se_shm_size e then Some (se_shm_paddr e + (pm_offs mem + k)) else None
      | Some (RegShm a) \<Rightarrow> (case mobj_reg_shm_get_pa (rs_heap s a) (pm_offs mem + k) 0 of Inl _ \<Rightarrow> None | Inr pa \<Rightarrow> Some pa))"

definition nsec_byte :: "shm_env \<Rightarrow> paddr_t \<Rightarrow> bool" where
  "nsec_byte e pa \<longleftrightarrow> se_nsec e (pa AND NOT SMALL_PAGE_MASK) \<or> pa - se_shm_paddr e < se_shm_size e"

lemma mem_ok_byte:
  assumes ok: "mem_ok e s mem" and inv: "shm_inv N s" and env: "shm_env_ok N e" and k: "k < pm_size mem"
  shows "\<exists>pa. mem_byte e s mem k = Some pa \<and> nsec_byte e pa"
proof -
  have kn: "unat k < unat (pm_size mem)" using k by (simp add: word_less_nat_alt)
  have sum: "unat (pm_offs mem + k) = unat (pm_offs mem) + unat k" if "unat (pm_offs mem) + unat (pm_size mem) \<le> unat (z :: u64)" for z
    using that kn unat_lt2p [of z] by (intro unat_add_no_wrap) simp
  show ?thesis
  proof (cases "pm_mobj mem")
    case None
    then show ?thesis using ok k by (simp add: mem_ok_def)
  next
    case (Some m)
    show ?thesis
    proof (cases m)
      case ShmMobj
      with ok Some have b: "unat (pm_offs mem) + unat (pm_size mem) \<le> unat (se_shm_size e)" by (simp add: mem_ok_def)
      with sum [OF this] kn have "pm_offs mem + k < se_shm_size e" by (simp add: word_less_nat_alt)
      then show ?thesis using Some ShmMobj by (simp add: mem_byte_def nsec_byte_def)
    next
      case (RegShm a)
      with ok Some have b: "unat (pm_offs mem) + unat (pm_size mem) \<le> unat (rs_size (rs_heap s a))" "a \<in> set (reg_shm_list s)"
        by (simp_all add: mem_ok_def)
      with sum [OF b(1)] kn have "pm_offs mem + k < rs_size (rs_heap s a)" by (simp add: word_less_nat_alt)
      moreover have "rs_ok N (rs_heap s a)" using inv b(2) by (simp add: shm_inv_def)
      ultimately obtain pa where "mobj_reg_shm_get_pa (rs_heap s a) (pm_offs mem + k) 0 = Inr pa" "N (pa AND NOT SMALL_PAGE_MASK)"
        using rs_get_pa by blast
      then show ?thesis using Some RegShm env by (simp add: mem_byte_def nsec_byte_def shm_env_ok_def)
    qed
  qed
qed

text \<open>
  C1. Trusted applications get no other memory than that of the normal world. When copying in the
  parameters of a message succeeds, whatever offsets, sizes, cookies and lists of pages it
  contains, every byte of every memory parameter has a physical address, and that lies in a
  non-secure page or in the reserved shared memory.
\<close>

theorem copy_in_memory_safe:
  assumes "copy_in_params e params ta at s = Ret (TEE_SUCCESS, ta', at', s')" and "shm_inv N s" and "shm_env_ok N e"
    and "i < TEE_NUM_PARAMS" and "is_memref (TEE_PARAM_TYPE_GET (tp_types ta') i)" and "k < pm_size (pu_mem (tp_u ta' ! i))"
  shows "\<exists>pa. mem_byte e s' (pu_mem (tp_u ta' ! i)) k = Some pa \<and> nsec_byte e pa"
  using assms(1-3)
proof (cases rule: copy_in_params_ok)
  case (1 pt)
  then have "mem_ok e s' (pu_mem (tp_u ta' ! i))" using assms(4,5) by simp
  then show ?thesis using 1(4) assms(3,6) by (rule mem_ok_byte)
qed

definition demo_rmem :: optee_msg_param where
  "demo_rmem = \<lparr>mp_attr = OPTEE_MSG_ATTR_TYPE_RMEM_INPUT, mp_a = 0x10, mp_b = 0x20, mp_c = 7\<rparr>"

lemma demo_shm_inv: "shm_inv (\<lambda>p. p < 0x100000) demo_shm"
  by (simp add: shm_inv_def demo_shm_def rs_ok_def demo_rs_def SMALL_PAGE_MASK_def SMALL_PAGE_SIZE_def)

lemma replicate_four: "replicate 4 x = [x, x, x, x]"
  by (simp add: numeral_eq_Suc)

lemma demo_copy_in:
  "copy_in_params demo_shm_env [demo_rmem] zero_param zero_attr demo_shm =
    Ret (TEE_SUCCESS, \<lparr>tp_types = 5, tp_u = [null_u\<lparr>pu_mem := \<lparr>pm_mobj = Some (RegShm 1), pm_offs = 0x10, pm_size = 0x20\<rparr>\<rparr>,
      null_u, null_u, null_u]\<rparr>, [5, 0, 0, 0], rs_upd 1 (\<lambda>r. r\<lparr>rs_refc := 2\<rparr>) demo_shm)"
  by (simp add: copy_in_params_def copy_in_one_def demo_rmem_def set_rmem_param_def mobj_reg_shm_get_by_cookie_def mobj_get_def
      reg_shm_find_unlocked_def demo_shm_def demo_rs_def add_overflow_def mobj_size_def rs_upd_def cs_mem_def cs_type_def Let_def
      replicate_four TEE_PARAM_TYPES_def is_value_def is_tmem_def is_rmem_def zero_param_def zero_attr_def
      OPTEE_MSG_ATTR_META_def OPTEE_MSG_ATTR_TYPE_MASK_def OPTEE_MSG_ATTR_TYPE_RMEM_INPUT_def TEE_NUM_PARAMS_def)

theorem copy_in_memory_safe_witness:
  "\<exists>pa. mem_byte demo_shm_env (rs_upd 1 (\<lambda>r. r\<lparr>rs_refc := 2\<rparr>) demo_shm)
     \<lparr>pm_mobj = Some (RegShm 1), pm_offs = 0x10, pm_size = 0x20\<rparr> 3 = Some pa \<and> nsec_byte demo_shm_env pa"
  using copy_in_memory_safe [OF demo_copy_in demo_shm_inv demo_shm_env_ok, of 0 3]
  by (simp add: TEE_NUM_PARAMS_def TEE_PARAM_TYPE_GET_def is_memref_def)

text \<open>
  C23. The types that an application is told are those of the message: value and registered memory
  attributes keep their number, temporary memory becomes the memory type of the same direction, and
  parameters that the message does not have are of type none.
\<close>

theorem copy_in_types:
  assumes "copy_in_params e params ta at s = Ret (TEE_SUCCESS, ta', at', s')" and "shm_inv N s" and "shm_env_ok N e"
    and "i < TEE_NUM_PARAMS"
  shows "TEE_PARAM_TYPE_GET (tp_types ta') i = (if i < length params then msg_type (mp_attr (params ! i)) else 0)"
  using assms(1-3)
proof (cases rule: copy_in_params_ok)
  case (1 pt)
  then show ?thesis using assms(4) by (auto simp: nth_append)
qed

theorem copy_in_types_witness: "TEE_PARAM_TYPE_GET 5 0 = msg_type OPTEE_MSG_ATTR_TYPE_RMEM_INPUT"
  using copy_in_types [OF demo_copy_in demo_shm_inv demo_shm_env_ok, of 0]
  by (simp add: TEE_NUM_PARAMS_def demo_rmem_def)

end
