(* ===== verification/Entry_Refs.thy ===== *)
theory Entry_Refs
  imports Entry_Params "HOL-Library.Multiset"
begin

unbundle bit_operations_syntax

text \<open>
  References to memory objects while a message is handled: those that copying in takes are those
  that cleaning up gives back, so that a message leaves the reference counters as they were.
\<close>

section \<open>References in use\<close>

fun refc :: "mobj \<Rightarrow> shm_state \<Rightarrow> u32" where
  "refc ShmMobj s = shm_mobj_refc s"
| "refc (RegShm a) s = rs_refc (rs_heap s a)"

text \<open>The state with the references \<open>M\<close> taken in addition.\<close>

definition inc_refs :: "mobj multiset \<Rightarrow> shm_state \<Rightarrow> shm_state" where
  "inc_refs M s = s\<lparr>shm_mobj_refc := shm_mobj_refc s + of_nat (count M ShmMobj),
     rs_heap := (\<lambda>a. (rs_heap s a)\<lparr>rs_refc := rs_refc (rs_heap s a) + of_nat (count M (RegShm a))\<rparr>)\<rparr>"

definition known :: "shm_state \<Rightarrow> mobj set" where
  "known s = insert ShmMobj (RegShm ` set (reg_shm_list s))"

text \<open>Objects in use have a reference, and room for those of one message.\<close>

definition refs_room :: "shm_state \<Rightarrow> bool" where
  "refs_room s \<longleftrightarrow> (\<forall>x. x \<in> known s \<longrightarrow> 1 \<le> unat (refc x s) \<and> unat (refc x s) + TEE_NUM_PARAMS < 2 ^ 32)"

lemma inc_refs_empty [simp]: "inc_refs {#} s = s"
  by (simp add: inc_refs_def)

lemma inc_refs_simps [simp]:
  "reg_shm_list (inc_refs M s) = reg_shm_list s" "tee_mm_shm (inc_refs M s) = tee_mm_shm s"
  "refc x (inc_refs M s) = refc x s + of_nat (count M x)"
  "rs_size (rs_heap (inc_refs M s) a) = rs_size (rs_heap s a)" "rs_cookie (rs_heap (inc_refs M s) a) = rs_cookie (rs_heap s a)"
  "reg_shm_find_unlocked ck (inc_refs M s) = reg_shm_find_unlocked ck s"
  by (cases x; simp add: inc_refs_def reg_shm_find_unlocked_def)+

lemma refc_inc:
  assumes "refs_room s" and "x \<in> known s" and "size M \<le> TEE_NUM_PARAMS"
  shows "unat (refc x s + of_nat (count M x)) = unat (refc x s) + count M x"
proof -
  have c: "count M x \<le> TEE_NUM_PARAMS" using assms(3) count_le_size [of M x] by simp
  then have "unat (of_nat (count M x) :: u32) = count M x" by (simp add: TEE_NUM_PARAMS_def unat_of_nat)
  moreover have "unat (refc x s) + TEE_NUM_PARAMS < 2 ^ 32" using assms(1,2) by (auto simp: refs_room_def)
  ultimately show ?thesis using c by (subst unat_add_no_wrap) simp_all
qed

lemma mobj_get_inc:
  assumes "refs_room s" and "x \<in> known s" and "size M \<le> TEE_NUM_PARAMS"
  shows "mobj_get x (inc_refs M s) = Ret (inc_refs (add_mset x M) s)"
proof -
  have "1 \<le> unat (refc x s)" using assms(1,2) by (auto simp: refs_room_def)
  then have "refc x s + of_nat (count M x) \<noteq> 0" using refc_inc [OF assms] by (metis add_is_0 not_one_le_zero unat_0)
  then show ?thesis by (cases x) (auto simp: mobj_get_def inc_refs_def rs_upd_def algebra_simps intro!: shm_state.equality)
qed

lemma mobj_put_inc:
  assumes "refs_room s" and "x \<in> known s" and "size M < TEE_NUM_PARAMS"
  shows "mobj_put (Some x) (inc_refs (add_mset x M) s) = Ret (inc_refs M s)"
proof -
  have "1 \<le> unat (refc x s)" using assms(1,2) by (auto simp: refs_room_def)
  then have "refc x s + of_nat (count M x) \<noteq> 0" using refc_inc [OF assms(1,2), of M] assms(3)
    by (metis add_is_0 less_imp_le not_one_le_zero unat_0)
  moreover have "refc x s + of_nat (count (add_mset x M) x) \<noteq> 0"
    using refc_inc [OF assms(1,2), of "add_mset x M"] assms(3) by (metis add_is_0 \<open>1 \<le> unat (refc x s)\<close> Suc_leI not_one_le_zero size_add_mset unat_0)
  ultimately show ?thesis by (cases x) (auto simp: mobj_put_def inc_refs_def rs_upd_def algebra_simps intro!: shm_state.equality)
qed

section \<open>References of parameters\<close>

text \<open>An attribute with nothing but a type.\<close>

definition plain :: "optee_msg_param \<Rightarrow> bool" where
  "plain p \<longleftrightarrow> mp_attr p AND OPTEE_MSG_ATTR_TYPE_MASK = mp_attr p"

lemma and_disjoint: "x AND k = x \<Longrightarrow> k AND c = 0 \<Longrightarrow> x AND c = 0" for x k c :: u64
  by (metis and.assoc and_zero_eq)

lemma plain_bits:
  assumes "plain p"
  shows "mp_attr p AND OPTEE_MSG_ATTR_META = 0" and "(ucast (mp_attr p) :: u32) AND ucast OPTEE_MSG_ATTR_NONCONTIG = 0"
proof -
  have m: "mp_attr p AND 0xFF = mp_attr p" using assms by (simp add: plain_def OPTEE_MSG_ATTR_TYPE_MASK_def)
  show "mp_attr p AND OPTEE_MSG_ATTR_META = 0"
    by (rule and_disjoint [OF m]) (simp add: OPTEE_MSG_ATTR_META_def)
  have "mp_attr p AND OPTEE_MSG_ATTR_NONCONTIG = 0"
    by (rule and_disjoint [OF m]) (simp add: OPTEE_MSG_ATTR_NONCONTIG_def)
  then show "(ucast (mp_attr p) :: u32) AND ucast OPTEE_MSG_ATTR_NONCONTIG = 0"
    by (simp only: unsigned_and_eq [symmetric] unsigned_0)
qed

definition slot_refs :: "u64 \<Rightarrow> param_u \<Rightarrow> mobj multiset" where
  "slot_refs a u =
     (if is_tmem a \<or> is_rmem a then (case pm_mobj (pu_mem u) of None \<Rightarrow> {#} | Some x \<Rightarrow> {#x#}) else {#})"

lemma slot_refs_size: "size (slot_refs a u) \<le> 1"
  by (simp add: slot_refs_def split: option.splits)

text \<open>Those of the parameters \<open>n, \<dots>, n + k - 1\<close>.\<close>

fun slots_held :: "u64 list \<Rightarrow> param_u list \<Rightarrow> nat \<Rightarrow> nat \<Rightarrow> mobj multiset" where
  "slots_held at us n 0 = {#}"
| "slots_held at us n (Suc k) = slot_refs (at ! n) (us ! n) + slots_held at us (Suc n) k"

lemma held_size: "size (slots_held at us n k) \<le> k"
proof (induction k arbitrary: n)
  case (Suc k)
  show ?case using slot_refs_size [of "at ! n" "us ! n"] Suc [of "Suc n"] by simp
qed simp

lemma held_append: "slots_held at us n (j + k) = slots_held at us n j + slots_held at us (n + j) k"
  by (induction j arbitrary: n) (simp_all add: ac_simps)

lemma held_cong:
  "(\<And>i. n \<le> i \<Longrightarrow> i < n + k \<Longrightarrow> at' ! i = at ! i \<and> pm_mobj (pu_mem (us' ! i)) = pm_mobj (pu_mem (us ! i))) \<Longrightarrow>
    slots_held at' us' n k = slots_held at us n k"
  by (induction k arbitrary: n) (simp_all add: slot_refs_def)

lemma held_zero: "(\<And>i. n \<le> i \<Longrightarrow> i < n + k \<Longrightarrow> at ! i = 0) \<Longrightarrow> slots_held at us n k = {#}"
  by (induction k arbitrary: n) (simp_all add: slot_refs_def is_tmem_def is_rmem_def)

lemma cleanup_held:
  assumes "refs_room s" and "set_mset (slots_held at us n k) \<subseteq> known s" and "n + k \<le> TEE_NUM_PARAMS" and "length at = TEE_NUM_PARAMS"
  shows "cleanup_loop at us n k (inc_refs (slots_held at us n k) s) = Some (Ret s)"
  using assms(2,3)
proof (induction k arbitrary: n)
  case (Suc k)
  have IH: "cleanup_loop at us (Suc n) k (inc_refs (slots_held at us (Suc n) k) s) = Some (Ret s)"
    by (rule Suc.IH) (use Suc.prems in auto)
  show ?case
  proof (cases "slot_refs (at ! n) (us ! n)")
    case empty
    then show ?thesis using IH Suc.prems(2) assms(4) by (auto simp: slot_refs_def mobj_put_def split: if_splits option.splits)
  next
    case (add x M)
    then have x: "M = {#}" "pm_mobj (pu_mem (us ! n)) = Some x" "is_tmem (at ! n) \<or> is_rmem (at ! n)"
      by (auto simp: slot_refs_def split: if_splits option.splits)
    have "x \<in> known s" "size (slots_held at us (Suc n) k) < TEE_NUM_PARAMS"
      using Suc.prems add held_size [of at us "Suc n" k] by auto
    from mobj_put_inc [OF assms(1) this] show ?thesis using IH x add Suc.prems(2) assms(4) by simp
  qed
qed simp

section \<open>Copying in takes references\<close>

text \<open>Copying in one memory parameter: the result, and the object that is referred to afterwards.\<close>

lemma set_tmem_refs:
  assumes "refs_room s" and "size M \<le> TEE_NUM_PARAMS" and "pm_mobj mem = None" and "attr AND ucast OPTEE_MSG_ATTR_NONCONTIG = 0"
  shows "\<exists>res mem'. set_tmem_param e p attr mem (inc_refs M s) = Ret (res, mem', inc_refs (mset_set (set_option (pm_mobj mem')) + M) s) \<and>
    set_option (pm_mobj mem') \<subseteq> known s"
proof -
  have "ShmMobj \<in> known s" by (simp add: known_def)
  with mobj_get_inc [OF assms(1) this assms(2)] assms(3,4) show ?thesis
    by (auto simp: set_tmem_param_def param_mem_from_mobj_def null_mem_def Let_def)
qed

lemma set_rmem_refs:
  assumes "refs_room s" and "size M \<le> TEE_NUM_PARAMS"
  shows "\<exists>res mem'. set_rmem_param e p mem (inc_refs M s) = Ret (res, mem', inc_refs (mset_set (set_option (pm_mobj mem')) + M) s) \<and>
    set_option (pm_mobj mem') \<subseteq> known s"
proof (cases "reg_shm_find_unlocked (mp_c p) s")
  case None
  then show ?thesis by (simp add: set_rmem_param_def mobj_reg_shm_get_by_cookie_def)
next
  case (Some a)
  then have "RegShm a \<in> known s" by (auto simp: known_def reg_shm_find_unlocked_def find_Some_iff)
  with mobj_get_inc [OF assms(1) this assms(2)] Some show ?thesis
    by (auto simp: set_rmem_param_def mobj_reg_shm_get_by_cookie_def add_overflow_def Let_def)
qed

lemma copy_in_one_refs:
  assumes room: "refs_room s" and pl: "plain p" and M: "size M \<le> TEE_NUM_PARAMS" and n: "n < length (cs_u c)"
    and none: "pm_mobj (pu_mem (cs_u c ! n)) = None"
  obtains res c' u where "copy_in_one e n p c (inc_refs M s) = Ret (res, c', inc_refs (slot_refs (mp_attr p) u + M) s)"
    "cs_attr c' = (cs_attr c)[n := mp_attr p]" "cs_u c' = (cs_u c)[n := u]" "set_mset (slot_refs (mp_attr p) u) \<subseteq> known s"
proof -
  note bits = plain_bits [OF pl]
  have t: "mp_attr p AND OPTEE_MSG_ATTR_TYPE_MASK = mp_attr p" using pl by (simp add: plain_def)
  consider (tmem) "is_tmem (mp_attr p)" | (rmem) "is_rmem (mp_attr p)" | (other) "\<not> is_tmem (mp_attr p)" "\<not> is_rmem (mp_attr p)"
    by blast
  then show thesis
  proof cases
    case tmem
    then have k: "mp_attr p \<noteq> 0" "\<not> is_value (mp_attr p)" by (auto simp: is_tmem_def is_value_def)
    from set_tmem_refs [OF room M none bits(2), of e p] obtain res mem where
      "set_tmem_param e p (ucast (mp_attr p)) (pu_mem (cs_u c ! n)) (inc_refs M s) =
        Ret (res, mem, inc_refs (mset_set (set_option (pm_mobj mem)) + M) s)" "set_option (pm_mobj mem) \<subseteq> known s" by blast
    then show thesis using tmem k bits(1) t n
      by (intro that [where u = "(cs_u c ! n)\<lparr>pu_mem := mem\<rparr>"])
        (auto simp: copy_in_one_def Let_def cs_mem_def cs_type_def slot_refs_def split: option.splits)
  next
    case rmem
    then have k: "mp_attr p \<noteq> 0" "\<not> is_value (mp_attr p)" "\<not> is_tmem (mp_attr p)" by (auto simp: is_tmem_def is_value_def is_rmem_def)
    from set_rmem_refs [OF room M, of e p "pu_mem (cs_u c ! n)"] obtain res mem where
      "set_rmem_param e p (pu_mem (cs_u c ! n)) (inc_refs M s) =
        Ret (res, mem, inc_refs (mset_set (set_option (pm_mobj mem)) + M) s)" "set_option (pm_mobj mem) \<subseteq> known s" by blast
    then show thesis using rmem k bits(1) t n
      by (intro that [where u = "(cs_u c ! n)\<lparr>pu_mem := mem\<rparr>"])
        (auto simp: copy_in_one_def Let_def cs_mem_def cs_type_def slot_refs_def split: option.splits)
  next
    case other
    show thesis
    proof (cases "is_value (mp_attr p)")
      case True
      then have "mp_attr p \<noteq> 0" by (auto simp: is_value_def)
      then show thesis using True other bits(1) t
        by (intro that [where u = "(cs_u c ! n)\<lparr>pu_a := ucast (mp_a p), pu_b := ucast (mp_b p)\<rparr>"])
          (auto simp: copy_in_one_def Let_def cs_type_def slot_refs_def)
    next
      case False
      then show thesis using other bits(1) t
        by (intro that [where u = "cs_u c ! n" and res = "if mp_attr p = 0 then TEE_SUCCESS else TEE_ERROR_BAD_PARAMETERS" and c' = "if mp_attr p = 0 then cs_type n 0 (c\<lparr>cs_attr := (cs_attr c)[n := mp_attr p]\<rparr>)
            else c\<lparr>cs_attr := (cs_attr c)[n := mp_attr p]\<rparr>"])
          (auto simp: copy_in_one_def Let_def cs_type_def slot_refs_def)
    qed
  qed
qed

lemma held_step:
  assumes "n < length at" and "n < length us"
  shows "slots_held (at[n := a]) (us[n := u]) 0 (Suc n) = slot_refs a u + slots_held at us 0 n"
proof -
  have "slots_held (at[n := a]) (us[n := u]) 0 n = slots_held at us 0 n" by (rule held_cong) simp
  then show ?thesis using held_append [of "at[n := a]" "us[n := u]" 0 n 1] assms by (simp add: ac_simps)
qed

lemma held_all:
  assumes "n \<le> TEE_NUM_PARAMS" and "\<And>i. n \<le> i \<Longrightarrow> i < TEE_NUM_PARAMS \<Longrightarrow> at ! i = 0"
  shows "slots_held at us 0 TEE_NUM_PARAMS = slots_held at us 0 n"
  using held_append [of at us 0 n "TEE_NUM_PARAMS - n"] held_zero [of n "TEE_NUM_PARAMS - n" at us] assms by simp

lemma copy_in_loop_refs:
  assumes room: "refs_room s"
  shows "\<lbrakk>list_all plain ps; n + length ps \<le> TEE_NUM_PARAMS; length (cs_u c) = TEE_NUM_PARAMS; length (cs_attr c) = TEE_NUM_PARAMS;
      \<And>i. n \<le> i \<Longrightarrow> i < TEE_NUM_PARAMS \<Longrightarrow> cs_attr c ! i = 0 \<and> pm_mobj (pu_mem (cs_u c ! i)) = None;
      set_mset (slots_held (cs_attr c) (cs_u c) 0 n) \<subseteq> known s\<rbrakk> \<Longrightarrow>
    \<exists>res c'. copy_in_loop e n ps c (inc_refs (slots_held (cs_attr c) (cs_u c) 0 n) s) =
        Ret (res, c', inc_refs (slots_held (cs_attr c') (cs_u c') 0 (n + length ps)) s) \<and>
      length (cs_attr c') = TEE_NUM_PARAMS \<and> set_mset (slots_held (cs_attr c') (cs_u c') 0 (n + length ps)) \<subseteq> known s"
proof (induction ps arbitrary: n c)
  case Nil
  then show ?case by simp
next
  case (Cons p ps)
  let ?M = "slots_held (cs_attr c) (cs_u c) 0 n"
  have n: "n < length (cs_u c)" "n < length (cs_attr c)" "n < TEE_NUM_PARAMS" "plain p" using Cons.prems(1-4) by simp_all
  have M: "size ?M \<le> TEE_NUM_PARAMS" using held_size [of "cs_attr c" "cs_u c" 0 n] n(3) by simp
  have none: "pm_mobj (pu_mem (cs_u c ! n)) = None" using Cons.prems(5) n(3) by simp
  from room n(4) M n(1) none show ?case
  proof (cases rule: copy_in_one_refs [where e = e])
    case (1 res c1 u)
    let ?M1 = "slots_held (cs_attr c1) (cs_u c1) 0 (Suc n)"
    have M1: "slot_refs (mp_attr p) u + ?M = ?M1" using held_step [OF n(2,1)] 1(2,3) by simp
    have rest: "cs_attr c1 ! i = 0 \<and> pm_mobj (pu_mem (cs_u c1 ! i)) = None" if "Suc n \<le> i" "i < TEE_NUM_PARAMS" for i
      using that Cons.prems(5) [of i] 1(2,3) by simp
    have kn: "set_mset ?M1 \<subseteq> known s" using 1(4) Cons.prems(6) unfolding M1 [symmetric] by simp
    have len: "length (cs_attr c1) = TEE_NUM_PARAMS" "length (cs_u c1) = TEE_NUM_PARAMS" using 1(2,3) Cons.prems(3,4) by simp_all
    show ?thesis
    proof (cases "res = TEE_SUCCESS")
      case True
      with Cons.IH [of "Suc n" c1] rest kn len Cons.prems(1,2) 1(1) show ?thesis by (auto simp: M1)
    next
      case False
      have "slots_held (cs_attr c1) (cs_u c1) (Suc n) (length ps) = {#}"
        by (rule held_zero) (use rest Cons.prems(2) in simp)
      then have "slots_held (cs_attr c1) (cs_u c1) 0 (n + length (p # ps)) = ?M1"
        using held_append [of "cs_attr c1" "cs_u c1" 0 "Suc n" "length ps"] by simp
      then show ?thesis using False 1(1) kn len by (auto simp: M1)
    qed
  qed
qed

section \<open>Messages give references back\<close>

text \<open>What copying out leaves alone.\<close>

definition same_mobjs :: "tee_ta_param \<Rightarrow> tee_ta_param \<Rightarrow> bool" where
  "same_mobjs ta ta' \<longleftrightarrow> (\<forall>i < TEE_NUM_PARAMS. pm_mobj (pu_mem (tp_u ta' ! i)) = pm_mobj (pu_mem (tp_u ta ! i)))"

lemma update_same_mobjs: "same_mobjs ta (update_from_utee_param vals ta)"
  by (simp add: same_mobjs_def update_from_utee_param_def update_from_utee_one_def Let_def del: upt_Suc)

lemma copy_in_params_refs:
  assumes room: "refs_room s" and len: "length params \<le> TEE_NUM_PARAMS" and pl: "list_all plain params"
  obtains res ta at M where "copy_in_params e params param zero_attr s = Ret (res, ta, at, inc_refs M s)"
    "\<And>ta'. ta' = ta \<or> same_mobjs ta ta' \<Longrightarrow> cleanup_shm_refs at ta' (length params) (inc_refs M s) = Some (Ret s)"
proof -
  let ?c = "\<lparr>cs_u = tp_u zero_param, cs_pt = replicate TEE_NUM_PARAMS 0, cs_attr = zero_attr\<rparr>"
  have none: "cs_attr ?c ! i = 0 \<and> pm_mobj (pu_mem (cs_u ?c ! i)) = None" if "i < TEE_NUM_PARAMS" for i
    using that by (simp add: zero_attr_def zero_param_def null_u_def null_mem_def)
  have "length (cs_u ?c) = TEE_NUM_PARAMS" "length (cs_attr ?c) = TEE_NUM_PARAMS" by (simp_all add: zero_attr_def zero_param_def)
  from copy_in_loop_refs [OF room pl _ this, of 0 e] len none obtain res c where
    run: "copy_in_loop e 0 params ?c s = Ret (res, c, inc_refs (slots_held (cs_attr c) (cs_u c) 0 (length params)) s)"
    and kn: "length (cs_attr c) = TEE_NUM_PARAMS" "set_mset (slots_held (cs_attr c) (cs_u c) 0 (length params)) \<subseteq> known s" by auto
  let ?M = "slots_held (cs_attr c) (cs_u c) 0 (length params)"
  show thesis
  proof (rule that)
    show "copy_in_params e params param zero_attr s = Ret (res,
        \<lparr>tp_types = if res = TEE_SUCCESS then TEE_PARAM_TYPES (cs_pt c ! 0) (cs_pt c ! 1) (cs_pt c ! 2) (cs_pt c ! 3) else 0,
         tp_u = cs_u c\<rparr>, cs_attr c, inc_refs ?M s)" (is "_ = Ret (res, ?ta, _)")
      using run len by (simp add: copy_in_params_def)
    fix ta' assume t: "ta' = ?ta \<or> same_mobjs ?ta ta'"
    have M: "slots_held (cs_attr c) (tp_u ta') 0 (length params) = ?M"
      by (rule held_cong) (use t len in \<open>auto simp: same_mobjs_def\<close>)
    show "cleanup_shm_refs (cs_attr c) ta' (length params) (inc_refs ?M s) = Some (Ret s)"
      unfolding cleanup_shm_refs_def M [symmetric] by (rule cleanup_held [OF room]) (use kn len in \<open>simp_all add: M\<close>)
  qed
qed

text \<open>
  What \<^verbatim>\<open>cleanup_shm_refs\<close> relies on: the part between copying in and copying out does not exchange the
  memory objects of the parameters.
\<close>

locale params_client =
  fixes run :: "tee_ta_param \<Rightarrow> 'm \<Rightarrow> (tee_result \<times> tee_ta_param option \<times> 'm) call"
  assumes keeps: "run ta m = Returns (res, Some ta', m') \<Longrightarrow> same_mobjs ta ta'"
begin

lemma balanced:
  assumes room: "refs_room s" and len: "length params \<le> TEE_NUM_PARAMS" and pl: "list_all plain params"
  obtains res ta f where "entry_with_params e run param params m s =
    Some (bind_call (if res \<noteq> TEE_SUCCESS then Returns (res, None, m) else run ta m) (\<lambda>(res, out, m). Returns (res, f out, m, s)))"
  using room len pl
proof (cases rule: copy_in_params_refs [where e = e and param = param])
  case (1 res ta at M)
  let ?f = "\<lambda>out. case out of None \<Rightarrow> params | Some ta \<Rightarrow> copy_out_param ta at params"
  let ?r = "if res \<noteq> TEE_SUCCESS then Returns (res, None, m) else run ta m"
  have "entry_with_params e run param params m s = Some (bind_call ?r (\<lambda>(res, out, m). Returns (res, ?f out, m, s)))"
  proof (cases ?r)
    case (Returns x)
    obtain r out m' where x: "x = (r, out, m')" by (metis prod_cases3)
    have "out = None \<or> (\<exists>ta'. out = Some ta' \<and> same_mobjs ta ta')"
      using Returns x keeps [of ta m r _ m'] by (cases out) (auto split: if_splits)
    then show ?thesis using 1 Returns x by (auto simp: entry_with_params_def)
  qed (use 1 in \<open>simp_all add: entry_with_params_def\<close>)
  then show thesis by (rule that)
qed

end

section \<open>Registering and unregistering\<close>

text \<open>Between messages: one reference to each object, which is that of its registration.\<close>

definition shm_rest :: "(paddr_t \<Rightarrow> bool) \<Rightarrow> shm_state \<Rightarrow> bool" where
  "shm_rest N s \<longleftrightarrow> shm_inv N s \<and> shm_mobj_refc s = 1 \<and>
     (\<forall>a. a \<in> set (reg_shm_list s) \<longrightarrow> rs_refc (rs_heap s a) = 1 \<and> \<not> rs_guarded (rs_heap s a) \<and>
        \<not> rs_releasing (rs_heap s a) \<and> \<not> rs_release_frees (rs_heap s a))"

lemma shm_rest_room: "shm_rest N s \<Longrightarrow> refs_room s"
  by (auto simp: shm_rest_def refs_room_def known_def TEE_NUM_PARAMS_def)

lemma same_shm_rest: "same_shm s s' \<Longrightarrow> shm_rest N s \<Longrightarrow> shm_rest N s'"
  using same_shm_inv [of s s' N] by (auto simp: shm_rest_def same_shm_def)

lemma register_shm_cases:
  assumes env: "shm_env_ok N e"
  obtains (refused) s' where "register_shm e params s = Ret (TEE_ERROR_BAD_PARAMETERS, s')" "same_shm s s'"
  | (registered) p a s1 where "params = [p]" "register_shm e params s = Ret (TEE_SUCCESS, mobj_reg_shm_unguard a s1)"
      "added N (mp_c p) s a s1" "unat (mp_b p) \<le> unat (rs_size (rs_heap s1 a))"
proof (cases "\<exists>p. params = [p] \<and> mp_attr p = OPTEE_MSG_ATTR_TYPE_TMEM_OUTPUT OR OPTEE_MSG_ATTR_NONCONTIG")
  case False
  then have "register_shm e params s = Ret (TEE_ERROR_BAD_PARAMETERS, s)"
    by (auto simp: register_shm_def split: list.splits)
  then show thesis by (rule refused) simp
next
  case True
  then obtain p where p: "params = [p]" "mp_attr p = OPTEE_MSG_ATTR_TYPE_TMEM_OUTPUT OR OPTEE_MSG_ATTR_NONCONTIG" by blast
  from env show thesis
  proof (cases rule: noncontig_cases [where buf_ptr = "mp_a p" and sz = "mp_b p" and ck = "mp_c p" and s = s])
    case (none s')
    then show thesis using p by (intro refused [of s']) (simp_all add: register_shm_def)
  next
    case (some a s1)
    then show thesis using p by (intro registered [of p a s1]) (simp_all add: register_shm_def)
  qed
qed

lemma register_shm_rest:
  assumes env: "shm_env_ok N e" and rest: "shm_rest N s"
  shows "\<exists>res s'. register_shm e params s = Ret (res, s') \<and> shm_rest N s'"
  using env
proof (cases rule: register_shm_cases [where params = params and s = s])
  case (refused s')
  then show ?thesis using same_shm_rest rest by blast
next
  case (registered p a s1)
  have "shm_inv N s1" using added_inv [OF registered(3)] rest by (simp add: shm_rest_def)
  then have "shm_rest N (mobj_reg_shm_unguard a s1)" using registered(3) rest
    by (auto simp: shm_rest_def added_def mobj_reg_shm_unguard_def shm_inv_def rs_ok_def)
  then show ?thesis using registered(2) by blast
qed

text \<open>The object that a release claims is removed.\<close>

lemma release_found:
  assumes "reg_shm_find_unlocked ck s = Some a" and "rs_refc (rs_heap s a) = 1"
    and "\<not> rs_guarded (rs_heap s a)" "\<not> rs_releasing (rs_heap s a)"
  shows "\<exists>s'. mobj_reg_shm_release_by_cookie ck s = Returns (TEE_SUCCESS, s') \<and> reg_shm_list s' = remove1 a (reg_shm_list s) \<and>
    shm_mobj_refc s' = shm_mobj_refc s \<and> (\<forall>b. b \<noteq> a \<longrightarrow> rs_heap s' b = rs_heap s b) \<and>
    (rs_mm (rs_heap s a) = None \<longrightarrow> tee_mm_shm s' = tee_mm_shm s)"
proof (cases "rs_mm (rs_heap s a)")
  case None
  then show ?thesis using assms
    by (auto simp: mobj_reg_shm_release_by_cookie_def release_claim_def mobj_put_def mobj_reg_shm_free_def release_wait_def
        reg_shm_free_helper_def Let_def)
next
  case (Some mm)
  then show ?thesis using assms
    by (auto simp: mobj_reg_shm_release_by_cookie_def release_claim_def mobj_put_def mobj_reg_shm_free_def release_wait_def
        reg_shm_free_helper_def reg_shm_unmap_helper_def Let_def)
qed

lemma unregister_shm_rest:
  assumes rest: "shm_rest N s"
  shows "\<exists>res s'. unregister_shm params s = Returns (res, s') \<and> shm_rest N s'"
proof (cases "\<exists>p. params = [p]")
  case False
  then have "unregister_shm params s = Returns (TEE_ERROR_BAD_PARAMETERS, s)" by (auto simp: unregister_shm_def split: list.splits)
  then show ?thesis using rest by simp
next
  case True
  then obtain p where p: "params = [p]" by blast
  show ?thesis
  proof (cases "reg_shm_find_unlocked (mp_c p) s")
    case None
    then show ?thesis using rest p by (simp add: unregister_shm_def mobj_reg_shm_release_by_cookie_def release_claim_def)
  next
    case (Some a)
    then have a: "a \<in> set (reg_shm_list s)" by (auto simp: reg_shm_find_unlocked_def find_Some_iff)
    from release_found [OF Some] a rest obtain s' where s': "mobj_reg_shm_release_by_cookie (mp_c p) s = Returns (TEE_SUCCESS, s')"
      "reg_shm_list s' = remove1 a (reg_shm_list s)" "shm_mobj_refc s' = shm_mobj_refc s" "\<forall>b. b \<noteq> a \<longrightarrow> rs_heap s' b = rs_heap s b"
      by (auto simp: shm_rest_def)
    then have "shm_rest N s'" using rest by (auto simp: shm_rest_def shm_inv_def)
    then show ?thesis using s'(1) p by (auto simp: unregister_shm_def)
  qed
qed

text \<open>
  C24. Shared memory that a message registers can be unregistered by the same cookie, even if that
  cookie is in use already: the new object is gone and everything else is as before.
\<close>

theorem shm_register_roundtrip:
  assumes "shm_env_ok N e" and "register_shm e [p] s = Ret (TEE_SUCCESS, s1)" and "mp_c q = mp_c p"
  shows "\<exists>s2. unregister_shm [q] s1 = Returns (TEE_SUCCESS, s2) \<and> same_shm s s2"
  using assms(1)
proof (cases rule: register_shm_cases [where params = "[p]" and s = s])
  case (refused s')
  then show ?thesis using assms(2) by simp
next
  case (registered p' a s0)
  then have s1: "s1 = mobj_reg_shm_unguard a s0" "p' = p" using assms(2) by simp_all
  note ad = registered(3) [unfolded s1(2) added_def]
  have f: "reg_shm_find_unlocked (mp_c p) s1 = Some a" using ad by (simp add: s1 mobj_reg_shm_unguard_def reg_shm_find_unlocked_def)
  have h: "rs_refc (rs_heap s1 a) = 1" "\<not> rs_guarded (rs_heap s1 a)" "\<not> rs_releasing (rs_heap s1 a)" "rs_mm (rs_heap s1 a) = None"
    using ad by (simp_all add: s1 mobj_reg_shm_unguard_def)
  from release_found [OF f h(1-3)] h(4) obtain s2 where s2: "mobj_reg_shm_release_by_cookie (mp_c p) s1 = Returns (TEE_SUCCESS, s2)"
    "reg_shm_list s2 = remove1 a (reg_shm_list s1)" "shm_mobj_refc s2 = shm_mobj_refc s1" "\<forall>b. b \<noteq> a \<longrightarrow> rs_heap s2 b = rs_heap s1 b"
    "tee_mm_shm s2 = tee_mm_shm s1" by auto
  have "same_shm s s2" using ad s2 by (auto simp: same_shm_def s1 mobj_reg_shm_unguard_def)
  then show ?thesis using s2(1) assms(3) by (simp add: unregister_shm_def)
qed

text \<open>A message that registers two pages with the cookie of the registered object.\<close>

definition demo_register :: optee_msg_param where
  "demo_register = \<lparr>mp_attr = OPTEE_MSG_ATTR_TYPE_TMEM_OUTPUT OR OPTEE_MSG_ATTR_NONCONTIG, mp_a = 0x1000, mp_b = 0x2000, mp_c = 7\<rparr>"

lemma demo_noncontig:
  "\<exists>a s1. msg_param_mobj_from_noncontig demo_shm_env 0x1000 0x2000 7 False s = Ret (Some a, s1)"
proof -
  from extract_pages_result [OF demo_shm_env_ok, of "0x1000" 2 s] demo_chain obtain s' where
    ex: "msg_param_extract_pages demo_shm_env 0x1000 2 s = Ret (Some [0x3000, 0x4000], s')" by auto
  have "fst (mobj_reg_shm_alloc demo_shm_env [0x3000, 0x4000] 0 7 s') \<noteq> None"
    by (simp add: mobj_reg_shm_alloc_def Let_def mobj_reg_shm_size_def sizeof_mobj_reg_shm_def add_overflow_def mul_overflow_def
        demo_shm_env_def SMALL_PAGE_MASK_def SMALL_PAGE_SIZE_def)
  then obtain a s1 where "mobj_reg_shm_alloc demo_shm_env [0x3000, 0x4000] 0 7 s' = (Some a, s1)" by (metis not_None_eq prod.collapse)
  moreover have "se_malloc demo_shm_env 16" by (simp add: demo_shm_env_def)
  ultimately show ?thesis using ex(1)
    by (simp add: msg_param_mobj_from_noncontig_def add_overflow_def mul_overflow_def Let_def SMALL_PAGE_MASK_def SMALL_PAGE_SIZE_def)
qed

lemma demo_registers: "\<exists>s1. register_shm demo_shm_env [demo_register] s = Ret (TEE_SUCCESS, s1)"
  using demo_noncontig [of s] by (auto simp: register_shm_def demo_register_def)

theorem shm_register_roundtrip_witness:
  "\<exists>s1 s2. register_shm demo_shm_env [demo_register] demo_shm = Ret (TEE_SUCCESS, s1) \<and>
    unregister_shm [demo_rmem] s1 = Returns (TEE_SUCCESS, s2) \<and> same_shm demo_shm s2"
proof -
  from demo_registers obtain s1 where "register_shm demo_shm_env [demo_register] demo_shm = Ret (TEE_SUCCESS, s1)" by blast
  with shm_register_roundtrip [OF demo_shm_env_ok this, of demo_rmem] show ?thesis by (auto simp: demo_rmem_def demo_register_def)
qed

end
