(* ===== verification/Ta_Busy.thy ===== *)
theory Ta_Busy
  imports Prelude
begin

unbundle bit_operations_syntax

text \<open>
  Entering and leaving trusted applications: the busy flag of a context and the global
  single-instance lock of \<^verbatim>\<open>core/kernel/tee_ta_manager.c\<close> (built without
  \<^verbatim>\<open>CFG_CONCURRENT_SINGLE_INSTANCE_TA\<close>). Every function runs under \<^verbatim>\<open>tee_ta_mutex\<close>; a
  \<^verbatim>\<open>condvar_wait\<close> gives it up, so a function is cut there: it either finishes or says in which
  of its loops it waits, and continues from the test of that loop.

  The theorems: a context that is not concurrent is entered at most once, single-instance
  contexts only by one thread; the assertions never fail; a thread that holds the
  single-instance lock waits in no loop but that for an initializing context, and there two
  threads can wait for each other for ever.
\<close>

section \<open>State\<close>

definition TA_FLAG_SINGLE_INSTANCE :: u32 where "TA_FLAG_SINGLE_INSTANCE = 4"
definition TA_FLAG_CONCURRENT :: u32 where "TA_FLAG_CONCURRENT = 256"

record ta_ctx =
  cx_flags :: u32
  cx_busy :: bool
  cx_initializing :: bool

text \<open>\<^verbatim>\<open>THREAD_ID_INVALID\<close> is \<open>None\<close>.\<close>

record ta_busy =
  tb_ctx :: "addr \<Rightarrow> ta_ctx"
  tee_ta_single_instance_thread :: "nat option"
  tee_ta_single_instance_count :: nat

abbreviation single :: "ta_busy \<Rightarrow> addr \<Rightarrow> bool" where
  "single s c \<equiv> cx_flags (tb_ctx s c) AND TA_FLAG_SINGLE_INSTANCE \<noteq> 0"

abbreviation concurrent :: "ta_busy \<Rightarrow> addr \<Rightarrow> bool" where
  "concurrent s c \<equiv> cx_flags (tb_ctx s c) AND TA_FLAG_CONCURRENT \<noteq> 0"

definition ctx_upd :: "addr \<Rightarrow> (ta_ctx \<Rightarrow> ta_ctx) \<Rightarrow> ta_busy \<Rightarrow> ta_busy" where
  "ctx_upd c f s = s\<lparr>tb_ctx := (tb_ctx s)(c := f (tb_ctx s c))\<rparr>"

text \<open>The loops of \<^verbatim>\<open>tee_ta_try_set_busy\<close> in which a thread can wait, and how a section ends.\<close>

datatype busy_wait = WaitInit addr | WaitLock addr | WaitBusy addr

datatype busy_end = Done bool | Wait busy_wait

section \<open>Operations\<close>

text \<open>The loop of \<^verbatim>\<open>lock_single_instance\<close>; \<open>None\<close>: the thread waits.\<close>

definition lock_single_instance_loop :: "nat \<Rightarrow> ta_busy \<Rightarrow> ta_busy option outcome" where
  "lock_single_instance_loop t s =
     (if tee_ta_single_instance_thread s \<noteq> None then Ret None
      else if tee_ta_single_instance_count s \<noteq> 0 then Panic
      else Ret (Some (s\<lparr>tee_ta_single_instance_thread := Some t,
                        tee_ta_single_instance_count := tee_ta_single_instance_count s + 1\<rparr>)))"

definition lock_single_instance :: "nat \<Rightarrow> ta_busy \<Rightarrow> ta_busy option outcome" where
  "lock_single_instance t s =
     (if tee_ta_single_instance_thread s \<noteq> Some t then lock_single_instance_loop t s
      else Ret (Some (s\<lparr>tee_ta_single_instance_count := tee_ta_single_instance_count s + 1\<rparr>)))"

definition unlock_single_instance :: "nat \<Rightarrow> ta_busy \<Rightarrow> ta_busy outcome" where
  "unlock_single_instance t s =
     (if tee_ta_single_instance_thread s \<noteq> Some t then Panic
      else if tee_ta_single_instance_count s = 0 then Panic
      else let n = tee_ta_single_instance_count s - 1 in
        Ret (s\<lparr>tee_ta_single_instance_count := n,
               tee_ta_single_instance_thread := if n = 0 then None else Some t\<rparr>))"

definition has_single_instance_lock :: "nat \<Rightarrow> ta_busy \<Rightarrow> bool" where
  "has_single_instance_lock t s \<longleftrightarrow> tee_ta_single_instance_thread s = Some t"

text \<open>\<^verbatim>\<open>tee_ta_try_set_busy\<close> from its last loop, from its middle and from its first loop on.\<close>

definition set_busy_wait :: "addr \<Rightarrow> ta_busy \<Rightarrow> (ta_busy \<times> busy_end) outcome" where
  "set_busy_wait c s =
     (if cx_busy (tb_ctx s c) then Ret (s, Wait (WaitBusy c))
      else Ret (ctx_upd c (cx_busy_update (\<lambda>_. True)) s, Done True))"

definition set_busy_check :: "nat \<Rightarrow> addr \<Rightarrow> ta_busy \<Rightarrow> (ta_busy \<times> busy_end) outcome" where
  "set_busy_check t c s =
     (if has_single_instance_lock t s
      then if cx_busy (tb_ctx s c)
        then bind_outcome (if single s c then unlock_single_instance t s else Ret s)
               (\<lambda>s'. Ret (ctx_upd c (cx_busy_update (\<lambda>_. True)) s', Done False))
        else Ret (ctx_upd c (cx_busy_update (\<lambda>_. True)) s, Done True)
      else set_busy_wait c s)"

definition set_busy_locked ::
    "nat \<Rightarrow> addr \<Rightarrow> ta_busy option \<Rightarrow> ta_busy \<Rightarrow> (ta_busy \<times> busy_end) outcome" where
  "set_busy_locked t c r s =
     (case r of None \<Rightarrow> Ret (s, Wait (WaitLock c)) | Some s' \<Rightarrow> set_busy_check t c s')"

definition set_busy_lock :: "nat \<Rightarrow> addr \<Rightarrow> ta_busy \<Rightarrow> (ta_busy \<times> busy_end) outcome" where
  "set_busy_lock t c s =
     (if single s c then bind_outcome (lock_single_instance t s) (\<lambda>r. set_busy_locked t c r s)
      else set_busy_check t c s)"

definition set_busy_init :: "nat \<Rightarrow> addr \<Rightarrow> ta_busy \<Rightarrow> (ta_busy \<times> busy_end) outcome" where
  "set_busy_init t c s =
     (if cx_busy (tb_ctx s c) then Ret (s, Wait (WaitInit c)) else set_busy_lock t c s)"

definition tee_ta_try_set_busy :: "nat \<Rightarrow> addr \<Rightarrow> ta_busy \<Rightarrow> (ta_busy \<times> busy_end) outcome" where
  "tee_ta_try_set_busy t c s =
     (if concurrent s c then Ret (s, Done True)
      else if cx_initializing (tb_ctx s c) then set_busy_init t c s
      else set_busy_lock t c s)"

text \<open>Going on after a wake-up.\<close>

fun try_set_busy_resume :: "nat \<Rightarrow> busy_wait \<Rightarrow> ta_busy \<Rightarrow> (ta_busy \<times> busy_end) outcome" where
  "try_set_busy_resume t (WaitInit c) s = set_busy_init t c s"
| "try_set_busy_resume t (WaitLock c) s =
     bind_outcome (lock_single_instance_loop t s) (\<lambda>r. set_busy_locked t c r s)"
| "try_set_busy_resume t (WaitBusy c) s = set_busy_wait c s"

text \<open>\<^verbatim>\<open>tee_ta_set_busy\<close>: what the end of \<^verbatim>\<open>tee_ta_try_set_busy\<close> means there.\<close>

definition tee_ta_set_busy_end :: "busy_end \<Rightarrow> busy_end outcome" where
  "tee_ta_set_busy_end e = (if e = Done False then Panic else Ret e)"

definition tee_ta_clear_busy :: "nat \<Rightarrow> addr \<Rightarrow> ta_busy \<Rightarrow> ta_busy outcome" where
  "tee_ta_clear_busy t c s =
     (if concurrent s c then Ret s
      else if \<not> cx_busy (tb_ctx s c) then Panic
      else let s1 = ctx_upd c (cx_busy_update (\<lambda>_. False)) s in
        bind_outcome
          (if \<not> cx_initializing (tb_ctx s1 c) \<and> single s1 c then unlock_single_instance t s1 else Ret s1)
          (\<lambda>s2. Ret (ctx_upd c (cx_initializing_update (\<lambda>_. False)) s2)))"


section \<open>Threads entering and leaving contexts\<close>

text \<open>
  Each thread has the loop it waits in, if any, and the contexts it is inside of, innermost
  first, each with whether it took the single-instance lock for it.
\<close>

record busy_sys =
  by_s :: ta_busy
  by_wait :: "nat \<Rightarrow> busy_wait option"
  by_stack :: "nat \<Rightarrow> (addr \<times> bool) list"

definition busy_finish :: "nat \<Rightarrow> addr \<Rightarrow> ta_busy \<times> busy_end \<Rightarrow> busy_sys \<Rightarrow> busy_sys" where
  "busy_finish t c r y =
     (case r of
        (s, Wait w) \<Rightarrow> y\<lparr>by_s := s, by_wait := (by_wait y)(t := Some w)\<rparr>
      | (s, Done True) \<Rightarrow> y\<lparr>by_s := s, by_wait := (by_wait y)(t := None),
          by_stack := (by_stack y)(t := (c, \<not> concurrent s c \<and> single s c) # by_stack y t)\<rparr>
      | (s, Done False) \<Rightarrow> y\<lparr>by_s := s, by_wait := (by_wait y)(t := None)\<rparr>)"

fun wait_ctx :: "busy_wait \<Rightarrow> addr" where
  "wait_ctx (WaitInit c) = c" | "wait_ctx (WaitLock c) = c" | "wait_ctx (WaitBusy c) = c"

text \<open>
  What a thread does: it calls \<^verbatim>\<open>tee_ta_try_set_busy\<close>, goes on in it, leaves the innermost
  context with \<^verbatim>\<open>tee_ta_clear_busy\<close>, or, inside a context that is initializing, loads the flags
  of the application. Concurrent contexts are pseudo applications only, whose flags are fixed.
\<close>

datatype busy_act = CallBusy addr | ResumeBusy | ClearBusy | LoadFlags u32

definition load_flags :: "u32 \<Rightarrow> addr \<Rightarrow> ta_busy \<Rightarrow> ta_busy" where
  "load_flags f c s = ctx_upd c (cx_flags_update (\<lambda>_. f)) s"

fun busy_exec :: "busy_act \<Rightarrow> nat \<Rightarrow> busy_sys \<Rightarrow> busy_sys outcome option" where
  "busy_exec (CallBusy c) t y =
     (if by_wait y t = None
      then Some (bind_outcome (tee_ta_try_set_busy t c (by_s y)) (\<lambda>r. Ret (busy_finish t c r y)))
      else None)"
| "busy_exec ResumeBusy t y =
     (case by_wait y t of
        None \<Rightarrow> None
      | Some w \<Rightarrow> Some (bind_outcome (try_set_busy_resume t w (by_s y))
                   (\<lambda>r. Ret (busy_finish t (wait_ctx w) r y))))"
| "busy_exec ClearBusy t y =
     (case by_stack y t of
        [] \<Rightarrow> None
      | (c, b) # st \<Rightarrow>
          if by_wait y t = None
          then Some (bind_outcome (tee_ta_clear_busy t c (by_s y))
                 (\<lambda>s. Ret (y\<lparr>by_s := s, by_stack := (by_stack y)(t := st)\<rparr>)))
          else None)"
| "busy_exec (LoadFlags f) t y =
     (case by_stack y t of
        [] \<Rightarrow> None
      | (c, b) # st \<Rightarrow>
          if by_wait y t = None \<and> cx_initializing (tb_ctx (by_s y) c) \<and>
             \<not> concurrent (by_s y) c \<and> f AND TA_FLAG_CONCURRENT = 0
          then Some (Ret (y\<lparr>by_s := load_flags f c (by_s y)\<rparr>))
          else None)"

text \<open>Contexts start idle; one that is initializing has no flags yet.\<close>

definition busy_start :: "(addr \<Rightarrow> ta_ctx) \<Rightarrow> busy_sys" where
  "busy_start ctxs = \<lparr>by_s = \<lparr>tb_ctx = ctxs, tee_ta_single_instance_thread = None,
     tee_ta_single_instance_count = 0\<rparr>, by_wait = (\<lambda>_. None), by_stack = (\<lambda>_. [])\<rparr>"

inductive busy_reach :: "busy_sys \<Rightarrow> bool" where
  start: "(\<And>c. \<not> cx_busy (ctxs c) \<and> (cx_initializing (ctxs c) \<longrightarrow> cx_flags (ctxs c) = 0)) \<Longrightarrow>
    busy_reach (busy_start ctxs)"
| step: "busy_reach y \<Longrightarrow> busy_exec a t y = Some (Ret y') \<Longrightarrow> busy_reach y'"

section \<open>Invariant\<close>

definition inside :: "busy_sys \<Rightarrow> nat \<Rightarrow> addr \<Rightarrow> nat" where
  "inside y t c = count_list (map fst (by_stack y t)) c"

lemma inside_pos: "inside y t c \<noteq> 0 \<longleftrightarrow> c \<in> fst ` set (by_stack y t)"
  by (simp add: inside_def count_list_0_iff)

definition ctx_inv :: "busy_sys \<Rightarrow> addr \<Rightarrow> bool" where
  "ctx_inv y c \<longleftrightarrow>
     (if cx_busy (tb_ctx (by_s y) c)
      then \<exists>t. inside y t c = 1 \<and> (\<forall>t'. t' \<noteq> t \<longrightarrow> inside y t' c = 0)
      else (\<forall>t. inside y t c = 0) \<and> (cx_initializing (tb_ctx (by_s y) c) \<longrightarrow> \<not> single (by_s y) c))"

definition inv_busy :: "busy_sys \<Rightarrow> bool" where
  "inv_busy y \<longleftrightarrow> (\<forall>c. \<not> concurrent (by_s y) c \<longrightarrow> ctx_inv y c)"

lemma ctx_inv_cong:
  "tb_ctx (by_s y') c = tb_ctx (by_s y) c \<Longrightarrow> (\<And>t. inside y' t c = inside y t c) \<Longrightarrow>
   ctx_inv y' c = ctx_inv y c"
  by (simp add: ctx_inv_def)

definition inv_bits :: "busy_sys \<Rightarrow> bool" where
  "inv_bits y \<longleftrightarrow> (\<forall>t c b. (c, b) \<in> set (by_stack y t) \<longrightarrow>
     b = (\<not> concurrent (by_s y) c \<and> single (by_s y) c \<and> \<not> cx_initializing (tb_ctx (by_s y) c)))"

definition inv_lock :: "busy_sys \<Rightarrow> bool" where
  "inv_lock y \<longleftrightarrow>
     (case tee_ta_single_instance_thread (by_s y) of
        None \<Rightarrow> tee_ta_single_instance_count (by_s y) = 0 \<and> (\<forall>t. filter snd (by_stack y t) = [])
      | Some h \<Rightarrow> 0 < tee_ta_single_instance_count (by_s y) \<and>
          tee_ta_single_instance_count (by_s y) = length (filter snd (by_stack y h)) \<and>
          (\<forall>t. t \<noteq> h \<longrightarrow> filter snd (by_stack y t) = []))"

lemma inv_lock_cong:
  "tee_ta_single_instance_thread (by_s y') = tee_ta_single_instance_thread (by_s y) \<Longrightarrow>
   tee_ta_single_instance_count (by_s y') = tee_ta_single_instance_count (by_s y) \<Longrightarrow>
   (\<And>u. filter snd (by_stack y' u) = filter snd (by_stack y u)) \<Longrightarrow> inv_lock y' = inv_lock y"
  by (simp add: inv_lock_def cong: option.case_cong)

fun wait_ok :: "nat \<Rightarrow> ta_busy \<Rightarrow> busy_wait \<Rightarrow> bool" where
  "wait_ok t s (WaitInit c) \<longleftrightarrow> \<not> concurrent s c"
| "wait_ok t s (WaitLock c) \<longleftrightarrow> \<not> concurrent s c \<and> single s c \<and> \<not> cx_initializing (tb_ctx s c) \<and>
     tee_ta_single_instance_thread s \<noteq> Some t"
| "wait_ok t s (WaitBusy c) \<longleftrightarrow> \<not> concurrent s c \<and> \<not> single s c \<and> \<not> cx_initializing (tb_ctx s c) \<and>
     tee_ta_single_instance_thread s \<noteq> Some t"

definition inv_wait :: "busy_sys \<Rightarrow> bool" where
  "inv_wait y \<longleftrightarrow> (\<forall>t w. by_wait y t = Some w \<longrightarrow> wait_ok t (by_s y) w)"

definition busy_inv :: "busy_sys \<Rightarrow> bool" where
  "busy_inv y \<longleftrightarrow> inv_busy y \<and> inv_bits y \<and> inv_lock y \<and> inv_wait y"

text \<open>The state after entering a context.\<close>

definition enter :: "nat \<Rightarrow> addr \<Rightarrow> ta_busy \<Rightarrow> ta_busy" where
  "enter t c s = ctx_upd c (cx_busy_update (\<lambda>_. True))
     (if single s c then s\<lparr>tee_ta_single_instance_thread := Some t,
        tee_ta_single_instance_count := tee_ta_single_instance_count s + 1\<rparr> else s)"

text \<open>How a section ends.\<close>

inductive section_ends :: "nat \<Rightarrow> addr \<Rightarrow> ta_busy \<Rightarrow> ta_busy \<times> busy_end \<Rightarrow> bool" for t c s where
  waits: "wait_ok t s w \<Longrightarrow> wait_ctx w = c \<Longrightarrow> section_ends t c s (s, Wait w)"
| refused: "tee_ta_single_instance_thread s \<noteq> None \<longrightarrow> tee_ta_single_instance_thread s = Some t \<Longrightarrow>
    cx_busy (tb_ctx s c) \<Longrightarrow> section_ends t c s (s, Done False)"
| enters: "\<not> cx_busy (tb_ctx s c) \<Longrightarrow> \<not> concurrent s c \<Longrightarrow>
    (single s c \<longrightarrow> tee_ta_single_instance_thread s \<in> {None, Some t}) \<Longrightarrow>
    section_ends t c s (enter t c s, Done True)"
| free: "concurrent s c \<Longrightarrow> section_ends t c s (s, Done True)"

lemma ctx_upd_idem: "f (tb_ctx s c) = tb_ctx s c \<Longrightarrow> ctx_upd c f s = s"
  by (simp add: ctx_upd_def)

lemma ctx_upd_simps [simp]:
  "tb_ctx (ctx_upd c f s) = (tb_ctx s)(c := f (tb_ctx s c))"
  "tee_ta_single_instance_thread (ctx_upd c f s) = tee_ta_single_instance_thread s"
  "tee_ta_single_instance_count (ctx_upd c f s) = tee_ta_single_instance_count s"
  by (simp_all add: ctx_upd_def)

definition lock_ok :: "ta_busy \<Rightarrow> bool" where
  "lock_ok s \<longleftrightarrow> (tee_ta_single_instance_thread s = None \<longleftrightarrow> tee_ta_single_instance_count s = 0)"

lemma set_busy_locked_ends:
  assumes "lock_ok s" "\<not> concurrent s c" "single s c" "\<not> cx_initializing (tb_ctx s c)"
    "r = (if tee_ta_single_instance_thread s \<in> {None, Some t}
          then Some (s\<lparr>tee_ta_single_instance_thread := Some t,
            tee_ta_single_instance_count := tee_ta_single_instance_count s + 1\<rparr>) else None)"
  shows "\<exists>e. set_busy_locked t c r s = Ret e \<and> section_ends t c s e"
proof (cases "tee_ta_single_instance_thread s \<in> {None, Some t}")
  case False
  with assms show ?thesis
    by (auto simp: set_busy_locked_def intro!: section_ends.waits)
next
  case True
  let ?s = "s\<lparr>tee_ta_single_instance_thread := Some t,
    tee_ta_single_instance_count := tee_ta_single_instance_count s + 1\<rparr>"
  have r: "r = Some ?s" using assms(5) True by simp
  show ?thesis
  proof (cases "cx_busy (tb_ctx s c)")
    case busy: True
    have "ctx_upd c (cx_busy_update (\<lambda>_. True)) s = s" using busy by (intro ctx_upd_idem) simp
    moreover have "unlock_single_instance t ?s = Ret s"
      using True assms(1) by (auto simp: unlock_single_instance_def lock_ok_def Let_def)
    ultimately have "set_busy_locked t c r s = Ret (s, Done False)"
      using assms(3) busy by (simp add: set_busy_locked_def r set_busy_check_def has_single_instance_lock_def)
    with busy True show ?thesis by (auto intro!: section_ends.refused)
  next
    case False
    then have "set_busy_locked t c r s = Ret (enter t c s, Done True)"
      using assms(3) by (simp add: set_busy_locked_def r set_busy_check_def has_single_instance_lock_def enter_def)
    with False True assms(2) show ?thesis by (auto intro!: section_ends.enters)
  qed
qed

lemma lock_single_instance_result:
  assumes "lock_ok s"
  shows "lock_single_instance t s = Ret (if tee_ta_single_instance_thread s \<in> {None, Some t}
          then Some (s\<lparr>tee_ta_single_instance_thread := Some t,
            tee_ta_single_instance_count := tee_ta_single_instance_count s + 1\<rparr>) else None)"
    and "tee_ta_single_instance_thread s \<noteq> Some t \<Longrightarrow> lock_single_instance_loop t s = lock_single_instance t s"
  using assms by (auto simp: lock_single_instance_def lock_single_instance_loop_def lock_ok_def)

lemma set_busy_lock_ends:
  assumes "lock_ok s" "\<not> concurrent s c" "cx_initializing (tb_ctx s c) \<Longrightarrow> \<not> cx_busy (tb_ctx s c) \<and> \<not> single s c"
  shows "\<exists>e. set_busy_lock t c s = Ret e \<and> section_ends t c s e"
proof (cases "single s c")
  case True
  with assms(3) have ni: "\<not> cx_initializing (tb_ctx s c)" by blast
  from set_busy_locked_ends [OF assms(1,2) True ni refl, of t] True show ?thesis
    by (simp only: set_busy_lock_def lock_single_instance_result(1) [OF assms(1)] bind_outcome.simps if_True not_False_eq_True)
next
  case False
  have idem: "cx_busy (tb_ctx s c) \<Longrightarrow> ctx_upd c (cx_busy_update (\<lambda>_. True)) s = s" by (intro ctx_upd_idem) simp
  have e: "enter t c s = ctx_upd c (cx_busy_update (\<lambda>_. True)) s" using False by (simp add: enter_def)
  show ?thesis
    using False assms(2,3) idem section_ends.enters [of s c t] section_ends.waits [of t s "WaitBusy c" c]
    by (auto simp: set_busy_lock_def set_busy_check_def set_busy_wait_def has_single_instance_lock_def e
        intro: section_ends.refused)
qed


lemma busy_inv_lock_ok: "busy_inv y \<Longrightarrow> lock_ok (by_s y)"
  by (auto simp: busy_inv_def inv_lock_def lock_ok_def split: option.splits)

lemma busy_inv_init:
  "busy_inv y \<Longrightarrow> \<not> concurrent (by_s y) c \<Longrightarrow> cx_initializing (tb_ctx (by_s y) c) \<Longrightarrow>
   \<not> cx_busy (tb_ctx (by_s y) c) \<Longrightarrow> \<not> single (by_s y) c"
  by (auto simp: busy_inv_def inv_busy_def ctx_inv_def)

lemma busy_inv_ctx: "busy_inv y \<Longrightarrow> \<not> concurrent (by_s y) c \<Longrightarrow> ctx_inv y c"
  by (simp add: busy_inv_def inv_busy_def)

lemma ctx_inv_inside:
  assumes "ctx_inv y c" "inside y t c \<noteq> 0"
  shows "cx_busy (tb_ctx (by_s y) c)" "inside y t c = 1" "\<And>u. u \<noteq> t \<Longrightarrow> inside y u c = 0"
  using assms unfolding ctx_inv_def by (metis (full_types))+

lemma try_set_busy_ends:
  assumes "busy_inv y"
  shows "\<exists>e. tee_ta_try_set_busy t c (by_s y) = Ret e \<and> section_ends t c (by_s y) e"
proof -
  note l = set_busy_lock_ends [OF busy_inv_lock_ok [OF assms]]
  show ?thesis
    using l [of c t] busy_inv_init [OF assms, of c] section_ends.waits [of t "by_s y" "WaitInit c" c]
    by (auto simp: tee_ta_try_set_busy_def set_busy_init_def intro: section_ends.free)
qed

lemma resume_ends:
  assumes "busy_inv y" "by_wait y t = Some w"
  shows "\<exists>e. try_set_busy_resume t w (by_s y) = Ret e \<and> section_ends t (wait_ctx w) (by_s y) e"
proof -
  have ok: "wait_ok t (by_s y) w" using assms by (simp add: busy_inv_def inv_wait_def)
  note lo = busy_inv_lock_ok [OF assms(1)]
  show ?thesis
  proof (cases w)
    case (WaitInit c)
    with ok set_busy_lock_ends [OF lo, of c t] busy_inv_init [OF assms(1), of c] section_ends.waits [OF ok]
    show ?thesis by (auto simp: set_busy_init_def)
  next
    case (WaitLock c)
    with ok have c: "\<not> concurrent (by_s y) c" "single (by_s y) c" "\<not> cx_initializing (tb_ctx (by_s y) c)"
      "tee_ta_single_instance_thread (by_s y) \<noteq> Some t" by auto
    from set_busy_locked_ends [OF lo c(1,2,3) refl, of t] WaitLock show ?thesis
      by (simp only: try_set_busy_resume.simps lock_single_instance_result(2) [OF lo c(4)]
          lock_single_instance_result(1) [OF lo] bind_outcome.simps wait_ctx.simps)
  next
    case (WaitBusy c)
    with ok section_ends.waits [OF ok] section_ends.enters [of "by_s y" c t] show ?thesis
      by (auto simp: set_busy_wait_def enter_def)
  qed
qed

section \<open>Steps keep the invariant\<close>

lemma enter_simps [simp]:
  "cx_flags (tb_ctx (enter t c s) x) = cx_flags (tb_ctx s x)"
  "cx_initializing (tb_ctx (enter t c s) x) = cx_initializing (tb_ctx s x)"
  "cx_busy (tb_ctx (enter t c s) x) = (cx_busy (tb_ctx s x) \<or> x = c)"
  by (auto simp: enter_def)

lemma enter_lock:
  "tee_ta_single_instance_thread (enter t c s) = (if single s c then Some t else tee_ta_single_instance_thread s)"
  "tee_ta_single_instance_count (enter t c s) = tee_ta_single_instance_count s + (if single s c then 1 else 0)"
  by (simp_all add: enter_def)

lemma inside_push [simp]:
  "inside (y\<lparr>by_s := s, by_wait := w, by_stack := (by_stack y)(t := (c, b) # by_stack y t)\<rparr>) u x =
     inside y u x + (if u = t \<and> x = c then 1 else 0)"
  by (simp add: inside_def)

lemma inside_by_s [simp]: "inside (y\<lparr>by_s := s\<rparr>) u x = inside y u x"
  by (simp add: inside_def)

lemma inv_bitsD:
  "inv_bits y \<Longrightarrow> (c, b) \<in> set (by_stack y t) \<Longrightarrow>
   b = (\<not> concurrent (by_s y) c \<and> single (by_s y) c \<and> \<not> cx_initializing (tb_ctx (by_s y) c))"
  unfolding inv_bits_def by blast

lemma busy_inv_enter:
  assumes i: "busy_inv y" and e: "\<not> cx_busy (tb_ctx (by_s y) c)" "\<not> concurrent (by_s y) c"
    "single (by_s y) c \<longrightarrow> tee_ta_single_instance_thread (by_s y) \<in> {None, Some t}"
    and y': "y' = y\<lparr>by_s := enter t c (by_s y), by_wait := (by_wait y)(t := None),
      by_stack := (by_stack y)(t := (c, single (by_s y) c) # by_stack y t)\<rparr>"
  shows "busy_inv y'"
proof -
  have nin: "inside y u c = 0" for u
    using i e(1,2) by (auto simp: busy_inv_def inv_busy_def ctx_inv_def)
  have ni: "cx_initializing (tb_ctx (by_s y) c) \<longrightarrow> \<not> single (by_s y) c"
    using busy_inv_init [OF i e(2)] e(1) by blast
  have "ctx_inv y' x" if "\<not> concurrent (by_s y') x" for x
  proof (cases "x = c")
    case True
    then show ?thesis using nin by (auto simp: ctx_inv_def y')
  next
    case False
    have "tb_ctx (by_s y') x = tb_ctx (by_s y) x" using False by (simp add: y' enter_def)
    moreover from this have "\<not> concurrent (by_s y) x" using that by simp
    ultimately show ?thesis
      using i False ctx_inv_cong [of y' x y] by (simp add: busy_inv_def inv_busy_def y')
  qed
  moreover have "inv_bits y'"
    using i e(2) ni by (auto simp: busy_inv_def inv_bits_def y')
  moreover have "inv_lock y'"
    using i e(3) by (auto simp: busy_inv_def inv_lock_def y' enter_lock split: option.splits)
  moreover have "wait_ok u (by_s y') w" if "by_wait y' u = Some w" for u w
  proof -
    from that have "u \<noteq> t" "by_wait y u = Some w" by (auto simp: y' split: if_splits)
    with i have "wait_ok u (by_s y) w" by (simp add: busy_inv_def inv_wait_def)
    with \<open>u \<noteq> t\<close> show ?thesis by (cases w) (auto simp: y' enter_lock)
  qed
  ultimately show ?thesis by (simp add: busy_inv_def inv_busy_def inv_wait_def)
qed

lemma busy_inv_free:
  assumes i: "busy_inv y" and c: "concurrent (by_s y) c"
  shows "busy_inv (y\<lparr>by_s := by_s y, by_wait := (by_wait y)(t := None),
    by_stack := (by_stack y)(t := (c, False) # by_stack y t)\<rparr>)" (is "busy_inv ?y")
proof -
  have "ctx_inv ?y x" if "\<not> concurrent (by_s ?y) x" for x
  proof -
    from that c have "x \<noteq> c" by auto
    then have "inside ?y u x = inside y u x" for u by (simp add: inside_def)
    with ctx_inv_cong [of ?y x y] i that show ?thesis by (simp add: busy_inv_def inv_busy_def)
  qed
  moreover have "inv_lock ?y" using i by (auto simp: busy_inv_def inv_lock_def split: option.splits)
  ultimately show ?thesis
    using i c by (auto simp: busy_inv_def inv_busy_def inv_bits_def inv_wait_def)
qed

lemma busy_inv_wait:
  assumes "busy_inv y" "\<And>w. wo = Some w \<Longrightarrow> wait_ok t (by_s y) w"
  shows "busy_inv (y\<lparr>by_s := by_s y, by_wait := (by_wait y)(t := wo)\<rparr>)" (is "busy_inv ?y")
proof -
  have "ctx_inv ?y c = ctx_inv y c" for c by (rule ctx_inv_cong) (simp_all add: inside_def)
  moreover have "inv_lock ?y = inv_lock y" by (auto simp: inv_lock_def split: option.splits)
  ultimately show ?thesis using assms by (auto simp: busy_inv_def inv_busy_def inv_bits_def inv_wait_def)
qed

lemma busy_inv_finish:
  assumes "busy_inv y" "section_ends t c (by_s y) e"
  shows "busy_inv (busy_finish t c e y)"
  using assms(2)
proof (cases rule: section_ends.cases)
  case (waits w)
  with busy_inv_wait [OF assms(1), of "Some w" t] show ?thesis by (simp add: busy_finish_def)
next
  case refused
  with busy_inv_wait [OF assms(1), of None t] show ?thesis by (simp add: busy_finish_def)
next
  case enters
  with busy_inv_enter [OF assms(1) enters(2-4) refl] show ?thesis by (simp add: busy_finish_def)
next
  case free
  with busy_inv_free [OF assms(1), of c t] show ?thesis by (simp add: busy_finish_def)
qed

text \<open>Leaving a context: the lock is dropped exactly if it was taken for this entry.\<close>

lemma busy_inv_leave_lock:
  assumes "inv_lock y" "by_stack y t = (c, b) # st"
  shows "b \<Longrightarrow> \<exists>s'. unlock_single_instance t (ctx_upd c f (by_s y)) = Ret s' \<and> tb_ctx s' = tb_ctx (ctx_upd c f (by_s y)) \<and>
      tee_ta_single_instance_thread s' \<in> {None, Some t} \<and>
      inv_lock (y\<lparr>by_s := s', by_stack := (by_stack y)(t := st)\<rparr>)"
    and "\<not> b \<Longrightarrow> inv_lock (y\<lparr>by_s := ctx_upd c f (by_s y), by_stack := (by_stack y)(t := st)\<rparr>)"
proof -
  assume b: b
  then have ne: "filter snd (by_stack y t) \<noteq> []" using assms(2) by simp
  have h: "tee_ta_single_instance_thread (by_s y) = Some t"
  proof (cases "tee_ta_single_instance_thread (by_s y)")
    case None
    then have "filter snd (by_stack y t) = []" using assms(1) by (simp add: inv_lock_def)
    with ne show ?thesis by blast
  next
    case (Some h)
    then have "u \<noteq> h \<Longrightarrow> filter snd (by_stack y u) = []" for u using assms(1) by (simp add: inv_lock_def)
    with ne have "h = t" by metis
    with Some show ?thesis by simp
  qed
  with assms b have l: "tee_ta_single_instance_thread (by_s y) = Some t"
    "tee_ta_single_instance_count (by_s y) = Suc (length (filter snd st))"
    "\<And>u. u \<noteq> t \<Longrightarrow> filter snd (by_stack y u) = []" by (simp_all add: inv_lock_def)
  then show "\<exists>s'. unlock_single_instance t (ctx_upd c f (by_s y)) = Ret s' \<and> tb_ctx s' = tb_ctx (ctx_upd c f (by_s y)) \<and>
      tee_ta_single_instance_thread s' \<in> {None, Some t} \<and>
      inv_lock (y\<lparr>by_s := s', by_stack := (by_stack y)(t := st)\<rparr>)"
    by (auto simp: unlock_single_instance_def inv_lock_def Let_def)
next
  assume "\<not> b"
  with assms(2) have "filter snd (((by_stack y)(t := st)) u) = filter snd (by_stack y u)" for u by simp
  with assms(1) show "inv_lock (y\<lparr>by_s := ctx_upd c f (by_s y), by_stack := (by_stack y)(t := st)\<rparr>)"
    by (subst inv_lock_cong [of _ y]) simp_all
qed


lemma busy_inv_clear:
  assumes i: "busy_inv y" and st: "by_stack y t = (c, b) # st" and w: "by_wait y t = None"
  shows "\<exists>s'. tee_ta_clear_busy t c (by_s y) = Ret s' \<and>
    busy_inv (y\<lparr>by_s := s', by_stack := (by_stack y)(t := st)\<rparr>)"
proof (cases "concurrent (by_s y) c")
  case True
  have ins: "inside (y\<lparr>by_s := by_s y, by_stack := (by_stack y)(t := st)\<rparr>) u x = inside y u x" if "x \<noteq> c" for u x
    using that st by (simp add: inside_def)
  have b: "\<not> b" using i st True unfolding busy_inv_def inv_bits_def by (metis list.set_intros(1))
  have "ctx_inv (y\<lparr>by_s := by_s y, by_stack := (by_stack y)(t := st)\<rparr>) x" if "\<not> concurrent (by_s y) x" for x
  proof -
    have "x \<noteq> c" using that True by auto
    then show ?thesis using ctx_inv_cong [OF _ ins] busy_inv_ctx [OF i that] by simp
  qed
  moreover have "inv_lock (y\<lparr>by_s := by_s y, by_stack := (by_stack y)(t := st)\<rparr>)"
    using busy_inv_leave_lock(2) [OF _ st b, of "\<lambda>x. x"] i by (simp add: busy_inv_def ctx_upd_def)
  moreover have "inv_bits (y\<lparr>by_s := by_s y, by_stack := (by_stack y)(t := st)\<rparr>)"
  proof -
    have sub: "(x, v) \<in> set (by_stack y u)" if "(x, v) \<in> set (((by_stack y)(t := st)) u)" for x v u
      using that st by (auto split: if_splits)
    have "inv_bits y" using i by (simp add: busy_inv_def)
    from inv_bitsD [OF this sub] show ?thesis unfolding inv_bits_def by simp
  qed
  ultimately show ?thesis
    using True i by (simp add: tee_ta_clear_busy_def busy_inv_def inv_busy_def inv_wait_def)
next
  case False
  let ?s1 = "ctx_upd c (cx_busy_update (\<lambda>_. False)) (by_s y)"
  have one: "inside y t c \<noteq> 0" using st by (simp add: inside_def)
  note busy = ctx_inv_inside(1) [OF busy_inv_ctx [OF i False] one]
  note ins = ctx_inv_inside(2,3) [OF busy_inv_ctx [OF i False] one]
  have b: "b = (single (by_s y) c \<and> \<not> cx_initializing (tb_ctx (by_s y) c))"
    using i st False unfolding busy_inv_def inv_bits_def by (metis list.set_intros(1))
  have il: "inv_lock y" using i by (simp add: busy_inv_def)
  obtain s2 where s2: "(if b then unlock_single_instance t ?s1 else Ret ?s1) = Ret s2" "tb_ctx s2 = tb_ctx ?s1"
    "tee_ta_single_instance_thread s2 = tee_ta_single_instance_thread (by_s y) \<or>
     tee_ta_single_instance_thread s2 \<in> {None, Some t}"
    "inv_lock (y\<lparr>by_s := s2, by_stack := (by_stack y)(t := st)\<rparr>)"
    using busy_inv_leave_lock [OF il st, of "cx_busy_update (\<lambda>_. False)"] by (cases b) auto
  let ?s3 = "ctx_upd c (cx_initializing_update (\<lambda>_. False)) s2"
  let ?y = "y\<lparr>by_s := ?s3, by_stack := (by_stack y)(t := st)\<rparr>"
  have "tee_ta_clear_busy t c (by_s y) = Ret ?s3"
    using False busy b s2(1) by (auto simp: tee_ta_clear_busy_def Let_def)
  moreover have "ctx_inv ?y x" if "\<not> concurrent (by_s ?y) x" for x
  proof (cases "x = c")
    case True
    have "inside ?y u c = 0" for u using ins st by (cases "u = t") (auto simp: inside_def)
    then show ?thesis using True s2(2) by (simp add: ctx_inv_def)
  next
    case nc: False
    have t: "tb_ctx (by_s ?y) x = tb_ctx (by_s y) x" using nc s2(2) by simp
    moreover have "inside ?y u x = inside y u x" for u using nc st by (simp add: inside_def)
    ultimately show ?thesis
      using ctx_inv_cong [of ?y x y] i that by (simp add: busy_inv_def inv_busy_def)
  qed
  moreover have "inv_bits ?y"
    unfolding inv_bits_def
  proof (intro allI impI)
    fix u x b' assume m: "(x, b') \<in> set (by_stack ?y u)"
    have "x \<noteq> c"
    proof
      assume "x = c"
      then have "inside ?y u c \<noteq> 0" unfolding inside_pos using m by (metis fst_conv image_eqI)
      then show False using ins st by (cases "u = t") (auto simp: inside_def)
    qed
    moreover have "(x, b') \<in> set (by_stack y u)" using m st by (auto split: if_splits)
    ultimately show "b' = (\<not> concurrent (by_s ?y) x \<and> single (by_s ?y) x \<and> \<not> cx_initializing (tb_ctx (by_s ?y) x))"
      using i s2(2) unfolding busy_inv_def inv_bits_def by simp
  qed
  moreover have "inv_lock ?y"
    using s2(4) inv_lock_cong [of ?y "y\<lparr>by_s := s2, by_stack := (by_stack y)(t := st)\<rparr>"] by simp
  moreover have "wait_ok u (by_s ?y) v" if "by_wait y u = Some v" for u v
  proof -
    have "u \<noteq> t" using that w by auto
    moreover have "wait_ok u (by_s y) v" using i that by (simp add: busy_inv_def inv_wait_def)
    ultimately show ?thesis using s2(2,3) by (cases v) auto
  qed
  ultimately show ?thesis by (simp add: busy_inv_def inv_busy_def inv_wait_def)
qed

lemma busy_inv_load:
  assumes i: "busy_inv y" and st: "by_stack y t = (c, b) # st" "cx_initializing (tb_ctx (by_s y) c)"
    "\<not> concurrent (by_s y) c" "f AND TA_FLAG_CONCURRENT = 0"
  shows "busy_inv (y\<lparr>by_s := load_flags f c (by_s y)\<rparr>)" (is "busy_inv ?y")
proof -
  have "inside y t c \<noteq> 0" using st(1) by (simp add: inside_def)
  note busy = ctx_inv_inside(1) [OF busy_inv_ctx [OF i st(3)] this]
  have cx: "ctx_inv ?y x" if "\<not> concurrent (by_s ?y) x" for x
  proof (cases "x = c")
    case True
    have "ctx_inv y c" using i st(3) by (simp add: busy_inv_def inv_busy_def)
    with True busy show ?thesis by (simp add: ctx_inv_def load_flags_def)
  next
    case False
    with ctx_inv_cong [of ?y x y] that i show ?thesis
      by (simp add: load_flags_def busy_inv_def inv_busy_def)
  qed
  have bits: "inv_bits ?y" using i st(2) by (auto simp: busy_inv_def inv_bits_def load_flags_def)
  have lock: "inv_lock ?y"
    using i by (auto simp: busy_inv_def inv_lock_def load_flags_def split: option.splits)
  have wait: "wait_ok u (by_s ?y) v" if "by_wait y u = Some v" for u v
  proof -
    have "wait_ok u (by_s y) v" using i that by (simp add: busy_inv_def inv_wait_def)
    then show ?thesis using st by (cases v) (auto simp: load_flags_def)
  qed
  show ?thesis using cx bits lock wait by (simp add: busy_inv_def inv_busy_def inv_wait_def)
qed

lemma busy_inv_exec:
  assumes i: "busy_inv y" and e: "busy_exec a t y = Some r"
  shows "\<exists>y'. r = Ret y' \<and> busy_inv y'"
proof (cases a)
  case (CallBusy c)
  from try_set_busy_ends [OF i, of t c] obtain e' where
    "tee_ta_try_set_busy t c (by_s y) = Ret e'" "section_ends t c (by_s y) e'" by blast
  with busy_inv_finish [OF i, of t c e'] e CallBusy show ?thesis by (auto split: if_splits)
next
  case ResumeBusy
  then obtain w where w: "by_wait y t = Some w" using e by (auto split: option.splits)
  from resume_ends [OF i w] obtain e' where
    "try_set_busy_resume t w (by_s y) = Ret e'" "section_ends t (wait_ctx w) (by_s y) e'" by blast
  with busy_inv_finish [OF i, of t "wait_ctx w" e'] e ResumeBusy w show ?thesis by auto
next
  case ClearBusy
  with e obtain c b st where s: "by_stack y t = (c, b) # st" "by_wait y t = None"
    by (auto split: list.splits if_splits)
  from busy_inv_clear [OF i s] obtain s' where "tee_ta_clear_busy t c (by_s y) = Ret s'"
    "busy_inv (y\<lparr>by_s := s', by_stack := (by_stack y)(t := st)\<rparr>)" by blast
  with e ClearBusy s show ?thesis by auto
next
  case (LoadFlags f)
  with e obtain c b st where s: "by_stack y t = (c, b) # st" "cx_initializing (tb_ctx (by_s y) c)"
    "\<not> concurrent (by_s y) c" "f AND TA_FLAG_CONCURRENT = 0"
    "r = Ret (y\<lparr>by_s := load_flags f c (by_s y)\<rparr>)" by (auto split: list.splits if_splits)
  with busy_inv_load [OF i s(1-4)] show ?thesis by auto
qed

lemma busy_reach_inv: "busy_reach y \<Longrightarrow> busy_inv y"
proof (induction rule: busy_reach.induct)
  case (start ctxs)
  then show ?case
    by (auto simp: busy_start_def busy_inv_def inv_busy_def ctx_inv_def inside_def inv_bits_def
        inv_lock_def inv_wait_def)
next
  case (step y a t y')
  with busy_inv_exec [OF step(3,2)] show ?case by auto
qed


section \<open>Properties\<close>

text \<open>
  The context table of the witnesses: 1 and 2 are single-instance, 3 is a user application
  still to be initialized. Thread 0 enters context 1; thread 1 enters the new context 3 and
  loads its flags; thread 0, inside 1, waits for 3 to be initialized; thread 1, still
  initializing 3, calls into context 2 and waits for the single-instance lock.
\<close>

definition busy_demo_ctx :: "addr \<Rightarrow> ta_ctx" where
  "busy_demo_ctx = (\<lambda>_. \<lparr>cx_flags = 4, cx_busy = False, cx_initializing = False\<rparr>)
     (3 := \<lparr>cx_flags = 0, cx_busy = False, cx_initializing = True\<rparr>)"

fun busy_runs :: "(busy_act \<times> nat) list \<Rightarrow> busy_sys \<Rightarrow> busy_sys option" where
  "busy_runs [] y = Some y"
| "busy_runs ((a, t) # as) y =
     (case busy_exec a t y of Some (Ret y') \<Rightarrow> busy_runs as y' | _ \<Rightarrow> None)"

lemma busy_reach_runs: "busy_runs as y = Some y' \<Longrightarrow> busy_reach y \<Longrightarrow> busy_reach y'"
  by (induction as y rule: busy_runs.induct)
    (auto split: option.splits outcome.splits intro: busy_reach.step)

definition busy_demo_acts :: "(busy_act \<times> nat) list" where
  "busy_demo_acts = [(CallBusy 1, 0), (CallBusy 3, 1), (LoadFlags 4, 1), (CallBusy 3, 0), (CallBusy 2, 1)]"

definition busy_demo :: busy_sys where
  "busy_demo = \<lparr>by_s = \<lparr>tb_ctx = busy_demo_ctx(1 := \<lparr>cx_flags = 4, cx_busy = True, cx_initializing = False\<rparr>,
       3 := \<lparr>cx_flags = 4, cx_busy = True, cx_initializing = True\<rparr>),
     tee_ta_single_instance_thread = Some 0, tee_ta_single_instance_count = 1\<rparr>,
     by_wait = (\<lambda>_. None)(0 := Some (WaitInit 3), 1 := Some (WaitLock 2)),
     by_stack = (\<lambda>_. [])(0 := [(1, True)], 1 := [(3, False)])\<rparr>"

lemmas busy_op_defs = tee_ta_try_set_busy_def set_busy_init_def set_busy_lock_def set_busy_locked_def
  set_busy_check_def set_busy_wait_def lock_single_instance_def lock_single_instance_loop_def
  has_single_instance_lock_def ctx_upd_def load_flags_def TA_FLAG_SINGLE_INSTANCE_def TA_FLAG_CONCURRENT_def

lemma busy_demo_runs: "busy_runs busy_demo_acts (busy_start busy_demo_ctx) = Some busy_demo"
  by (simp add: busy_demo_acts_def busy_start_def busy_demo_ctx_def busy_demo_def busy_finish_def busy_op_defs
      fun_eq_iff)

lemma busy_reach_demo: "busy_reach busy_demo"
  by (rule busy_reach_runs [OF busy_demo_runs]) (auto intro!: busy_reach.start simp: busy_demo_ctx_def split: if_splits)


text \<open>
  C19. Exclusion. Under any interleaving of calls to enter, wake-ups, exits and flag loading, a
  context without \<^verbatim>\<open>TA_FLAG_CONCURRENT\<close> is entered at most once by at most one thread, and is
  busy exactly while somebody is inside; and all single-instance contexts entered after
  initialization are entered by one and the same thread.
\<close>

theorem ta_busy_exclusive:
  assumes "busy_reach y"
  shows "(\<not> concurrent (by_s y) c \<longrightarrow>
       count_list (map fst (by_stack y t)) c \<le> 1 \<and>
       (c \<in> fst ` set (by_stack y t) \<and> c \<in> fst ` set (by_stack y t') \<longrightarrow> t = t') \<and>
       (cx_busy (tb_ctx (by_s y) c) \<longleftrightarrow> (\<exists>t. c \<in> fst ` set (by_stack y t)))) \<and>
     ((c1, True) \<in> set (by_stack y t) \<and> (c2, True) \<in> set (by_stack y t') \<longrightarrow> t = t')"
proof (intro conjI impI)
  have i: "busy_inv y" by (rule busy_reach_inv [OF assms])
  { assume "\<not> concurrent (by_s y) c"
    note ci = busy_inv_ctx [OF i this]
    show "count_list (map fst (by_stack y t)) c \<le> 1"
      using ctx_inv_inside(2) [OF ci, of t] by (cases "inside y t c = 0") (auto simp: inside_def)
    show "c \<in> fst ` set (by_stack y t) \<and> c \<in> fst ` set (by_stack y t') \<Longrightarrow> t = t'"
      using ctx_inv_inside(3) [OF ci, of t t'] unfolding inside_pos [symmetric] by metis
    show "cx_busy (tb_ctx (by_s y) c) \<longleftrightarrow> (\<exists>t. c \<in> fst ` set (by_stack y t))"
      using ci unfolding inside_pos [symmetric] ctx_inv_def by (metis one_neq_zero) }
  assume "(c1, True) \<in> set (by_stack y t) \<and> (c2, True) \<in> set (by_stack y t')"
  then have "filter snd (by_stack y t) \<noteq> []" "filter snd (by_stack y t') \<noteq> []"
    by (force simp: filter_empty_conv)+
  moreover have "inv_lock y" using i by (simp add: busy_inv_def)
  ultimately show "t = t'" unfolding inv_lock_def by (auto split: option.splits) metis
qed

theorem ta_busy_exclusive_witness:
  "busy_reach busy_demo \<and> (1 :: addr) \<in> fst ` set (by_stack busy_demo 0) \<and> cx_busy (tb_ctx (by_s busy_demo) 1)"
proof (intro conjI)
  show "busy_reach busy_demo" by (rule busy_reach_demo)
  show m: "(1 :: addr) \<in> fst ` set (by_stack busy_demo 0)" by (simp add: busy_demo_def)
  have "\<not> concurrent (by_s busy_demo) 1" by (simp add: busy_demo_def TA_FLAG_CONCURRENT_def)
  with ta_busy_exclusive [OF busy_reach_demo, of 1 0 0] m show "cx_busy (tb_ctx (by_s busy_demo) 1)" by blast
qed

text \<open>
  The assertions of \<^verbatim>\<open>lock_single_instance\<close>, \<^verbatim>\<open>unlock_single_instance\<close> and
  \<^verbatim>\<open>tee_ta_clear_busy\<close> never fail, and a thread that holds the single-instance lock waits, if at
  all, for a context that is being initialized: it never waits for the lock, nor for a busy
  context that is initialized.
\<close>

theorem ta_busy_no_panic:
  assumes "busy_reach y"
  shows "busy_exec a t y \<noteq> Some Panic \<and>
    (tee_ta_single_instance_thread (by_s y) = Some t \<and> by_wait y t = Some w \<longrightarrow> (\<exists>c. w = WaitInit c))"
proof
  have i: "busy_inv y" by (rule busy_reach_inv [OF assms])
  then show "busy_exec a t y \<noteq> Some Panic" using busy_inv_exec by blast
  show "tee_ta_single_instance_thread (by_s y) = Some t \<and> by_wait y t = Some w \<longrightarrow> (\<exists>c. w = WaitInit c)"
  proof
    assume w: "tee_ta_single_instance_thread (by_s y) = Some t \<and> by_wait y t = Some w"
    with i have "wait_ok t (by_s y) w" by (simp add: busy_inv_def inv_wait_def)
    with w show "\<exists>c. w = WaitInit c" by (cases w) auto
  qed
qed

theorem ta_busy_no_panic_witness:
  "busy_reach busy_demo \<and> busy_exec ResumeBusy 0 busy_demo \<noteq> Some Panic"
  using ta_busy_no_panic [OF busy_reach_demo] busy_reach_demo by blast

text \<open>Two threads that wait for each other keep waiting, whatever anybody does.\<close>

definition stuck :: "busy_sys \<Rightarrow> bool" where
  "stuck y \<longleftrightarrow> busy_inv y \<and> by_wait y 0 = Some (WaitInit 3) \<and> by_wait y 1 = Some (WaitLock 2) \<and>
     tee_ta_single_instance_thread (by_s y) = Some 0 \<and> cx_busy (tb_ctx (by_s y) 3) \<and>
     \<not> concurrent (by_s y) 3 \<and> 3 \<in> fst ` set (by_stack y 1)"

lemma stuck_other:
  assumes "stuck y" "c \<in> fst ` set (by_stack y t)" "by_wait y t = None"
  shows "c \<noteq> 3" "t \<noteq> 0" "t \<noteq> 1"
proof -
  show "t \<noteq> 0" "t \<noteq> 1" using assms(1,3) unfolding stuck_def by (metis option.distinct(1))+
  moreover have "ctx_inv y 3" using assms(1) busy_inv_ctx by (simp add: stuck_def)
  ultimately show "c \<noteq> 3"
    using assms(1,2) ctx_inv_inside(3) [of y 3 1 t] unfolding inside_pos [symmetric] stuck_def by metis
qed

lemma stuck_finish:
  assumes "stuck y" "section_ends t c (by_s y) e" "t \<noteq> 0" "t \<noteq> 1"
  shows "stuck (busy_finish t c e y)"
proof -
  have i: "busy_inv (busy_finish t c e y)" using busy_inv_finish assms(1,2) by (simp add: stuck_def)
  show ?thesis using assms(2)
    by (cases rule: section_ends.cases)
      (use assms i in \<open>auto simp: stuck_def busy_finish_def enter_lock split: busy_end.splits bool.splits\<close>)
qed

lemma stuck_resume:
  assumes "stuck y"
  shows "busy_exec ResumeBusy 0 y = Some (Ret y)" "busy_exec ResumeBusy 1 y = Some (Ret y)"
  using assms
  by (auto simp: stuck_def set_busy_init_def lock_single_instance_loop_def set_busy_locked_def busy_finish_def
      fun_upd_idem)


lemma stuck_exec:
  assumes st: "stuck y" and e: "busy_exec a t y = Some (Ret y')"
  shows "stuck y'"
proof -
  have i: "busy_inv y" using st by (simp add: stuck_def)
  have i': "busy_inv y'" using busy_inv_exec [OF i e] by auto
  have idle: "t \<noteq> 0 \<and> t \<noteq> 1" if "by_wait y t = None"
    using st that unfolding stuck_def by (metis option.distinct(1))
  show ?thesis
  proof (cases a)
    case (CallBusy c)
    with e have n: "by_wait y t = None" by (auto split: if_splits)
    from try_set_busy_ends [OF i, of t c] obtain r where
      r: "tee_ta_try_set_busy t c (by_s y) = Ret r" "section_ends t c (by_s y) r" by blast
    with e CallBusy n have "y' = busy_finish t c r y" by auto
    with stuck_finish [OF st r(2)] idle [OF n] show ?thesis by simp
  next
    case ResumeBusy
    then obtain w where w: "by_wait y t = Some w" using e by (auto split: option.splits)
    from resume_ends [OF i w] obtain r where
      r: "try_set_busy_resume t w (by_s y) = Ret r" "section_ends t (wait_ctx w) (by_s y) r" by blast
    with e ResumeBusy w have "y' = busy_finish t (wait_ctx w) r y" by auto
    with stuck_finish [OF st r(2)] stuck_resume [OF st] e st ResumeBusy show ?thesis
      by (cases "t = 0 \<or> t = 1") auto
  next
    case ClearBusy
    with e obtain c b rest s' where s: "by_stack y t = (c, b) # rest" "by_wait y t = None"
      "tee_ta_clear_busy t c (by_s y) = Ret s'" "y' = y\<lparr>by_s := s', by_stack := (by_stack y)(t := rest)\<rparr>"
      by (auto split: list.splits if_splits)
    have o: "c \<noteq> 3" "t \<noteq> 0" "t \<noteq> 1" using stuck_other [OF st _ s(2), of c] s(1) by auto
    have "tb_ctx s' 3 = tb_ctx (by_s y) 3 \<and>
      tee_ta_single_instance_thread s' = tee_ta_single_instance_thread (by_s y)"
      using s(3) st o by (auto simp: tee_ta_clear_busy_def Let_def unlock_single_instance_def stuck_def split: if_splits)
    with st o s(4) i' show ?thesis by (auto simp: stuck_def)
  next
    case (LoadFlags f)
    with e obtain c b rest where s: "by_stack y t = (c, b) # rest" "by_wait y t = None"
      "y' = y\<lparr>by_s := load_flags f c (by_s y)\<rparr>" by (auto split: list.splits if_splits)
    have "c \<noteq> 3" using stuck_other [OF st _ s(2), of c] s(1) by auto
    with st s(3) i' show ?thesis by (auto simp: stuck_def load_flags_def)
  qed
qed

text \<open>
  C35. Deadlock while initializing. \<^verbatim>\<open>tee_ta_try_set_busy\<close> waits for an initializing context even
  if the calling thread holds the single-instance lock. There is a reachable state in which
  thread 0 waits so for a context that thread 1 is initializing, while thread 1 waits for the
  single-instance lock, and whatever steps follow, both still wait.
\<close>

theorem ta_busy_init_deadlock:
  "\<exists>y. busy_reach y \<and> (\<forall>as. case busy_runs as y of None \<Rightarrow> True | Some y' \<Rightarrow>
     by_wait y' 0 = Some (WaitInit 3) \<and> by_wait y' 1 = Some (WaitLock 2))"
proof (intro exI conjI allI)
  show "busy_reach busy_demo" by (rule busy_reach_demo)
  have "stuck y'" if "busy_runs as y = Some y'" "stuck y" for as y y'
    using that by (induction as y rule: busy_runs.induct)
      (auto split: option.splits outcome.splits intro: stuck_exec)
  moreover have "stuck busy_demo"
    using busy_reach_inv [OF busy_reach_demo] by (auto simp: stuck_def busy_demo_def TA_FLAG_CONCURRENT_def)
  ultimately show "case busy_runs as busy_demo of None \<Rightarrow> True | Some y' \<Rightarrow>
      by_wait y' 0 = Some (WaitInit 3) \<and> by_wait y' 1 = Some (WaitLock 2)" for as
    by (auto simp: stuck_def split: option.splits)
qed

end
