(* ===== verification/Ta_Manager.thy ===== *)
theory Ta_Manager
  imports Ta_Busy Ta_Session
begin

unbundle bit_operations_syntax

text \<open>
  Contexts and sessions together: opening, invoking, cancelling and closing sessions,
  \<^verbatim>\<open>core/kernel/tee_ta_manager.c\<close>, with the entry points of the normal world
  (\<^verbatim>\<open>core/arch/arm/tee/entry_std.c\<close>), the system calls of trusted applications
  (\<^verbatim>\<open>core/tee/tee_svc.c\<close>) and the life of a context (\<^verbatim>\<open>user_ta.c\<close>, \<^verbatim>\<open>pseudo_ta.c\<close>). The
  operations are put together from those of the busy flag and of the sessions.

  Here requests run one after the other, by one thread; the interleaving of threads is the
  subject of the theories this one is built from. A request that would wait for another thread
  therefore never returns (\<open>Hangs\<close>). System calls of an application are requests of their own,
  not nested in the entry that makes them.

  What the applications do is not modelled: whether an application can be loaded, its flags, the
  results of its entry points and whether it panics there are given by the environment of a
  request. The parameters of calls are copied elsewhere; here only the result of copying matters.
\<close>

section \<open>State\<close>

definition TA_FLAG_MULTI_SESSION :: u32 where "TA_FLAG_MULTI_SESSION = 8"
definition TA_FLAG_INSTANCE_KEEP_ALIVE :: u32 where "TA_FLAG_INSTANCE_KEEP_ALIVE = 16"
definition TA_FLAGS_MASK :: u32 where "TA_FLAGS_MASK = 0x7FF"

text \<open>
  A context; its flags, \<^verbatim>\<open>busy\<close> and \<^verbatim>\<open>initializing\<close> are in the state of the busy protocol.
  \<open>tc_is_initializing\<close> and \<open>tc_open_sessions\<close> are fields of the enclosing \<^verbatim>\<open>user_ta_ctx\<close>.
\<close>

record tee_ta_ctx =
  tc_uuid :: "u8 list"
  tc_user :: bool
  tc_panicked :: bool
  tc_ref_count :: nat
  tc_is_initializing :: bool
  tc_open_sessions :: "addr list"

record ta_mgr =
  mg_ctxes :: "addr list"
  mg_ctx :: "addr \<Rightarrow> tee_ta_ctx"
  mg_busy :: ta_busy
  mg_nsec :: "addr list"
  mg_heap :: "addr \<Rightarrow> tee_ta_session"

text \<open>The lists of open sessions: that of the normal world and that of each user context.\<close>

datatype sess_list = Nsec | OfTa addr

definition ctx_set :: "addr \<Rightarrow> (tee_ta_ctx \<Rightarrow> tee_ta_ctx) \<Rightarrow> ta_mgr \<Rightarrow> ta_mgr" where
  "ctx_set c f m = m\<lparr>mg_ctx := (mg_ctx m)(c := f (mg_ctx m c))\<rparr>"

definition sess_set :: "addr \<Rightarrow> (tee_ta_session \<Rightarrow> tee_ta_session) \<Rightarrow> ta_mgr \<Rightarrow> ta_mgr" where
  "sess_set a f m = m\<lparr>mg_heap := (mg_heap m)(a := f (mg_heap m a))\<rparr>"

fun get_list :: "sess_list \<Rightarrow> ta_mgr \<Rightarrow> addr list" where
  "get_list Nsec m = mg_nsec m"
| "get_list (OfTa c) m = tc_open_sessions (mg_ctx m c)"

fun set_list :: "sess_list \<Rightarrow> addr list \<Rightarrow> ta_mgr \<Rightarrow> ta_mgr" where
  "set_list Nsec as m = m\<lparr>mg_nsec := as\<rparr>"
| "set_list (OfTa c) as m = ctx_set c (\<lambda>x. x\<lparr>tc_open_sessions := as\<rparr>) m"

text \<open>What a request finds in its environment.\<close>

record ta_env =
  en_session :: "addr option"
  en_ctx :: "addr option"
  en_pseudo :: "u8 list \<Rightarrow> u32 option"
  en_load :: tee_result
  en_ldelf :: tee_result
  en_flags :: u32
  en_enter :: "tee_result \<times> bool"
  en_close_panics :: "addr \<Rightarrow> bool"
  en_time :: "TEE_Time option"
  en_params :: tee_result
  en_out :: tee_result

text \<open>The thread that runs the requests.\<close>

definition self :: nat where "self = 0"

section \<open>Sessions and busy flags in the larger state\<close>

definition sess_view :: "sess_list \<Rightarrow> ta_mgr \<Rightarrow> ta_sessions" where
  "sess_view l m = \<lparr>open_sessions = get_list l m, ss_heap = mg_heap m\<rparr>"

definition sess_put :: "sess_list \<Rightarrow> ta_sessions \<Rightarrow> ta_mgr \<Rightarrow> ta_mgr" where
  "sess_put l s m = (set_list l (open_sessions s) m)\<lparr>mg_heap := ss_heap s\<rparr>"

definition run_sess ::
    "sess_list \<Rightarrow> (ta_sessions \<Rightarrow> (ta_sessions \<times> sess_end) outcome) \<Rightarrow> ta_mgr \<Rightarrow> (addr option \<times> ta_mgr) call" where
  "run_sess l f m =
     bind_call (of_outcome (f (sess_view l m))) (\<lambda>(s, e).
       case e of Waits w \<Rightarrow> Hangs | Got r \<Rightarrow> Returns (r, sess_put l s m))"

definition mg_get_session :: "sess_list \<Rightarrow> u32 \<Rightarrow> bool \<Rightarrow> ta_mgr \<Rightarrow> (addr option \<times> ta_mgr) call" where
  "mg_get_session l i exclusive m = run_sess l (tee_ta_get_session self i exclusive) m"

definition mg_put_session :: "sess_list \<Rightarrow> addr \<Rightarrow> ta_mgr \<Rightarrow> ta_mgr call" where
  "mg_put_session l a m =
     bind_call (of_outcome (tee_ta_put_session self a (sess_view l m))) (\<lambda>s. Returns (sess_put l s m))"

definition try_set_busy :: "addr \<Rightarrow> ta_mgr \<Rightarrow> (bool \<times> ta_mgr) call" where
  "try_set_busy c m =
     bind_call (of_outcome (tee_ta_try_set_busy self c (mg_busy m))) (\<lambda>(s, e).
       case e of Wait w \<Rightarrow> Hangs | Done r \<Rightarrow> Returns (r, m\<lparr>mg_busy := s\<rparr>))"

definition set_busy :: "addr \<Rightarrow> ta_mgr \<Rightarrow> ta_mgr call" where
  "set_busy c m = bind_call (try_set_busy c m) (\<lambda>(r, m). if r then Returns m else Panics)"

definition clear_busy :: "addr \<Rightarrow> ta_mgr \<Rightarrow> ta_mgr call" where
  "clear_busy c m =
     bind_call (of_outcome (tee_ta_clear_busy self c (mg_busy m))) (\<lambda>s. Returns (m\<lparr>mg_busy := s\<rparr>))"

section \<open>Entering applications\<close>

text \<open>
  \<^verbatim>\<open>user_ta_enter\<close>: \<open>r\<close> is the result of mapping the parameters and running the application,
  \<open>p\<close> whether it panicked.
\<close>

definition user_ta_enter :: "addr \<Rightarrow> addr \<Rightarrow> tee_result \<times> bool \<Rightarrow> ta_mgr \<Rightarrow> tee_result \<times> ta_mgr" where
  "user_ta_enter a c rp m =
     (case rp of (r, p) \<Rightarrow>
       (if p then TEE_ERROR_TARGET_DEAD else r,
        sess_set a (\<lambda>x. x\<lparr>ss_cancel := False\<rparr>)
          (if p then ctx_set c (\<lambda>x. x\<lparr>tc_panicked := True\<rparr>) m else m)))"

definition init_with_ldelf :: "ta_env \<Rightarrow> addr \<Rightarrow> ta_mgr \<Rightarrow> tee_result \<times> ta_mgr" where
  "init_with_ldelf e c m =
     (if en_ldelf e \<noteq> TEE_SUCCESS then (en_ldelf e, m)
      else if en_flags e AND NOT TA_FLAGS_MASK \<noteq> 0 then (TEE_ERROR_BAD_FORMAT, m)
      else (TEE_SUCCESS, m\<lparr>mg_busy := load_flags (en_flags e) c (mg_busy m)\<rparr>))"

definition enter_open_session :: "ta_env \<Rightarrow> addr \<Rightarrow> addr \<Rightarrow> ta_mgr \<Rightarrow> tee_result \<times> ta_mgr" where
  "enter_open_session e a c m =
     (if \<not> tc_user (mg_ctx m c) then (fst (en_enter e), m)
      else if tc_is_initializing (mg_ctx m c) then
        (case init_with_ldelf e c m of (res, m) \<Rightarrow>
          if res \<noteq> TEE_SUCCESS then (res, m)
          else user_ta_enter a c (en_enter e) (ctx_set c (\<lambda>x. x\<lparr>tc_is_initializing := False\<rparr>) m))
      else user_ta_enter a c (en_enter e) m)"

definition enter_invoke_cmd :: "ta_env \<Rightarrow> addr \<Rightarrow> addr \<Rightarrow> ta_mgr \<Rightarrow> tee_result \<times> ta_mgr" where
  "enter_invoke_cmd e a c m =
     (if tc_user (mg_ctx m c) then user_ta_enter a c (en_enter e) m else (fst (en_enter e), m))"

definition enter_close_session :: "ta_env \<Rightarrow> addr \<Rightarrow> addr \<Rightarrow> ta_mgr \<Rightarrow> ta_mgr" where
  "enter_close_session e a c m =
     (if tc_user (mg_ctx m c) \<and> \<not> tc_is_initializing (mg_ctx m c)
      then snd (user_ta_enter a c (TEE_SUCCESS, en_close_panics e a) m) else m)"

section \<open>Closing sessions and destroying contexts\<close>

definition destroy_session :: "sess_list \<Rightarrow> addr \<Rightarrow> ta_mgr \<Rightarrow> ta_mgr call" where
  "destroy_session l a m =
     bind_call (run_sess l (tee_ta_unlink_session self a) m) (\<lambda>(r, m). Returns m)"

definition set_timeout :: "ta_env \<Rightarrow> addr \<Rightarrow> u32 \<Rightarrow> ta_mgr \<Rightarrow> ta_mgr" where
  "set_timeout e a to m = sess_set a (set_invoke_timeout (en_time e) to) m"

definition keep_alive :: "u32 \<Rightarrow> bool" where
  "keep_alive flags \<longleftrightarrow> flags AND TA_FLAG_INSTANCE_KEEP_ALIVE \<noteq> 0 \<and> flags AND TA_FLAG_SINGLE_INSTANCE \<noteq> 0"

definition ctx_flags :: "ta_mgr \<Rightarrow> addr \<Rightarrow> u32" where
  "ctx_flags m c = cx_flags (tb_ctx (mg_busy m) c)"

definition unlink_ctx :: "addr \<Rightarrow> ta_mgr \<Rightarrow> ta_mgr" where
  "unlink_ctx c m = m\<lparr>mg_ctxes := remove1 c (mg_ctxes m)\<rparr>"

text \<open>
  Closing the last session of a context destroys the context; \<open>destroy\<close> is what
  \<^verbatim>\<open>destroy_context\<close> does there.
\<close>

definition leave_context :: "(addr \<Rightarrow> ta_mgr \<Rightarrow> ta_mgr call) \<Rightarrow> addr \<Rightarrow> ta_mgr \<Rightarrow> (tee_result \<times> ta_mgr) call" where
  "leave_context destroy c m =
     (if tc_ref_count (mg_ctx m c) = 0 then Panics
      else let m = ctx_set c (\<lambda>x. x\<lparr>tc_ref_count := tc_ref_count x - 1\<rparr>) m in
        if tc_ref_count (mg_ctx m c) = 0 \<and> \<not> keep_alive (ctx_flags m c)
        then bind_call (destroy c (unlink_ctx c m)) (\<lambda>m. Returns (TEE_SUCCESS, m))
        else Returns (TEE_SUCCESS, m))"

definition close_with ::
    "(addr \<Rightarrow> ta_mgr \<Rightarrow> ta_mgr call) \<Rightarrow> ta_env \<Rightarrow> sess_list \<Rightarrow> addr option \<Rightarrow> client \<Rightarrow> ta_mgr \<Rightarrow>
      (tee_result \<times> ta_mgr) call" where
  "close_with destroy e l csess clnt m =
     (case csess of None \<Rightarrow> Returns (TEE_ERROR_ITEM_NOT_FOUND, m) | Some s \<Rightarrow>
      bind_call (mg_get_session l (ss_id (mg_heap m s)) True m) (\<lambda>(r, m).
      case r of
        None \<Rightarrow> Returns (TEE_ERROR_ITEM_NOT_FOUND, m)
      | Some a \<Rightarrow>
          if check_client (mg_heap m a) clnt \<noteq> TEE_SUCCESS
          then bind_call (mg_put_session l a m) (\<lambda>m. Returns (TEE_ERROR_BAD_PARAMETERS, m))
          else case ss_ctx (mg_heap m a) of
            None \<Rightarrow> bind_call (destroy_session l a m) (\<lambda>m. Returns (TEE_SUCCESS, m))
          | Some c \<Rightarrow>
              bind_call
                (if tc_panicked (mg_ctx m c) then destroy_session l a m
                 else bind_call (set_busy c m) (\<lambda>m.
                   let m = set_timeout e a TEE_TIMEOUT_INFINITE m; m = enter_close_session e a c m in
                   bind_call (destroy_session l a m) (clear_busy c)))
                (leave_context destroy c)))"

text \<open>
  A user context is freed by \<^verbatim>\<open>free_utc\<close>, which closes the sessions that the application had
  opened, and this may destroy further contexts. The loop and the calls it leads to are bounded by
  a number of rounds, one more than there are sessions; running out of it is \<open>Hangs\<close>.
\<close>

primrec free_utc :: "nat \<Rightarrow> ta_env \<Rightarrow> addr \<Rightarrow> ta_mgr \<Rightarrow> ta_mgr call" where
  "free_utc 0 e c m = Hangs"
| "free_utc (Suc n) e c m =
     (case tc_open_sessions (mg_ctx m c) of
        [] \<Rightarrow> Returns m
      | a # as \<Rightarrow>
          bind_call
            (close_with (\<lambda>d m. if tc_user (mg_ctx m d) then free_utc n e d m else Returns m)
              e (OfTa c) (Some a) KERN_IDENTITY m)
            (\<lambda>(res, m). free_utc n e c m))"

definition destroy_context :: "nat \<Rightarrow> ta_env \<Rightarrow> addr \<Rightarrow> ta_mgr \<Rightarrow> ta_mgr call" where
  "destroy_context n e c m = (if tc_user (mg_ctx m c) then free_utc n e c m else Returns m)"

text \<open>All open sessions, and the number of rounds that closing them can take.\<close>

definition all_sessions :: "ta_mgr \<Rightarrow> addr list" where
  "all_sessions m = mg_nsec m @ concat (map (\<lambda>c. tc_open_sessions (mg_ctx m c)) (mg_ctxes m))"

definition rounds :: "ta_mgr \<Rightarrow> nat" where
  "rounds m = Suc (length (all_sessions m))"

definition tee_ta_close_session ::
    "ta_env \<Rightarrow> sess_list \<Rightarrow> addr option \<Rightarrow> client \<Rightarrow> ta_mgr \<Rightarrow> (tee_result \<times> ta_mgr) call" where
  "tee_ta_close_session e l csess clnt m = close_with (destroy_context (rounds m) e) e l csess clnt m"

text \<open>The sessions other than \<open>a\<close> that \<^verbatim>\<open>destroy_ta_ctx_from_session\<close> finds for context \<open>c\<close>.\<close>

definition other_sessions :: "addr \<Rightarrow> addr \<Rightarrow> ta_mgr \<Rightarrow> addr list" where
  "other_sessions a c m = filter (\<lambda>x. ss_ctx (mg_heap m x) = Some c \<and> x \<noteq> a)
     (mg_nsec m @ concat (map (\<lambda>d. tc_open_sessions (mg_ctx m d)) (filter (\<lambda>d. tc_user (mg_ctx m d)) (mg_ctxes m))))"

definition destroy_ta_ctx_from_session :: "ta_env \<Rightarrow> addr \<Rightarrow> addr \<Rightarrow> ta_mgr \<Rightarrow> ta_mgr call" where
  "destroy_ta_ctx_from_session e a c m =
     (let others = other_sessions a c m;
          m1 = m\<lparr>mg_heap := (\<lambda>x. if x \<in> set others then (mg_heap m x)\<lparr>ss_ctx := None\<rparr> else mg_heap m x)\<rparr> in
      if 1 + length others \<noteq> tc_ref_count (mg_ctx m1 c) then Panics
      else bind_call (destroy_context (rounds m) e c (unlink_ctx c m1))
        (\<lambda>m. Returns (sess_set a (\<lambda>x. x\<lparr>ss_ctx := None\<rparr>) m)))"

section \<open>Opening sessions\<close>

text \<open>\<^verbatim>\<open>check_params\<close> without \<^verbatim>\<open>CFG_SECURE_DATA_PATH\<close>, the default configuration.\<close>

definition check_params :: "addr \<Rightarrow> bool" where
  "check_params sess = True"

definition tee_ta_context_find :: "u8 list \<Rightarrow> ta_mgr \<Rightarrow> addr option" where
  "tee_ta_context_find u m = find (\<lambda>c. tc_uuid (mg_ctx m c) = u) (mg_ctxes m)"

definition tee_ta_init_session_with_context :: "addr \<Rightarrow> addr \<Rightarrow> ta_mgr \<Rightarrow> tee_result \<times> ta_mgr" where
  "tee_ta_init_session_with_context c a m =
     (if ctx_flags m c AND TA_FLAG_SINGLE_INSTANCE = 0 then (TEE_ERROR_ITEM_NOT_FOUND, m)
      else if ctx_flags m c AND TA_FLAG_MULTI_SESSION = 0 \<and> tc_ref_count (mg_ctx m c) \<noteq> 0
      then (TEE_ERROR_BUSY, m)
      else (TEE_SUCCESS, sess_set a (\<lambda>x. x\<lparr>ss_ctx := Some c\<rparr>)
              (ctx_set c (\<lambda>x. x\<lparr>tc_ref_count := tc_ref_count x + 1\<rparr>) m)))"

text \<open>A new context at address \<open>c\<close>, registered and referred to by session \<open>a\<close>.\<close>

definition new_context :: "addr \<Rightarrow> u8 list \<Rightarrow> bool \<Rightarrow> u32 \<Rightarrow> addr \<Rightarrow> ta_mgr \<Rightarrow> ta_mgr" where
  "new_context c u user flags a m =
     sess_set a (\<lambda>x. x\<lparr>ss_ctx := Some c\<rparr>)
       (m\<lparr>mg_ctxes := mg_ctxes m @ [c],
          mg_ctx := (mg_ctx m)(c := \<lparr>tc_uuid = u, tc_user = user, tc_panicked = False, tc_ref_count = 1,
            tc_is_initializing = user, tc_open_sessions = []\<rparr>),
          mg_busy := ctx_upd c (\<lambda>_. \<lparr>cx_flags = flags, cx_busy = False, cx_initializing = user\<rparr>) (mg_busy m)\<rparr>)"

definition tee_ta_init_pseudo_ta_session :: "ta_env \<Rightarrow> u8 list \<Rightarrow> addr \<Rightarrow> ta_mgr \<Rightarrow> tee_result \<times> ta_mgr" where
  "tee_ta_init_pseudo_ta_session e u a m =
     (case en_pseudo e u of
        None \<Rightarrow> (TEE_ERROR_ITEM_NOT_FOUND, m)
      | Some flags \<Rightarrow>
          (case en_ctx e of
             None \<Rightarrow> (TEE_ERROR_OUT_OF_MEMORY, m)
           | Some c \<Rightarrow> (TEE_SUCCESS, new_context c u False flags a m)))"

text \<open>\<open>en_load\<close> is the result of setting up the address space and mapping the loader.\<close>

definition tee_ta_init_user_ta_session :: "ta_env \<Rightarrow> u8 list \<Rightarrow> addr \<Rightarrow> ta_mgr \<Rightarrow> tee_result \<times> ta_mgr" where
  "tee_ta_init_user_ta_session e u a m =
     (case en_ctx e of
        None \<Rightarrow> (TEE_ERROR_OUT_OF_MEMORY, m)
      | Some c \<Rightarrow>
          if en_load e \<noteq> TEE_SUCCESS then (en_load e, sess_set a (\<lambda>x. x\<lparr>ss_ctx := None\<rparr>) m)
          else (TEE_SUCCESS, new_context c u True 0 a m))"

text \<open>The search for the application of a new session.\<close>

definition find_application :: "ta_env \<Rightarrow> u8 list \<Rightarrow> addr \<Rightarrow> ta_mgr \<Rightarrow> tee_result \<times> ta_mgr" where
  "find_application e u a m =
     (case (case tee_ta_context_find u m of
              None \<Rightarrow> (TEE_ERROR_ITEM_NOT_FOUND, m)
            | Some c \<Rightarrow> tee_ta_init_session_with_context c a m) of (res, m) \<Rightarrow>
      if res \<noteq> TEE_ERROR_ITEM_NOT_FOUND then (res, m)
      else case tee_ta_init_pseudo_ta_session e u a m of (res, m) \<Rightarrow>
        if res \<noteq> TEE_ERROR_ITEM_NOT_FOUND then (res, m)
        else tee_ta_init_user_ta_session e u a m)"

text \<open>
  Without a free identifier the source unlinks a session that was never linked, which is undefined
  (\<open>Panics\<close>).
\<close>

definition tee_ta_init_session :: "ta_env \<Rightarrow> sess_list \<Rightarrow> u8 list \<Rightarrow> ta_mgr \<Rightarrow> (tee_result \<times> addr \<times> ta_mgr) call" where
  "tee_ta_init_session e l u m =
     (case en_session e of
        None \<Rightarrow> Returns (TEE_ERROR_OUT_OF_MEMORY, 0, m)
      | Some a \<Rightarrow>
          (case new_session_id (sess_view l m) of
             None \<Rightarrow> Hangs
           | Some i \<Rightarrow>
               if i = 0 then Panics
               else case init_session a (sess_view l m) of
                 None \<Rightarrow> Hangs
               | Some s \<Rightarrow>
                   (case find_application e u a (sess_put l s m) of (res, m) \<Rightarrow>
                    Returns (res, a, if res = TEE_SUCCESS then m
                      else set_list l (remove1 a (get_list l m)) m))))"

text \<open>The result, and the session where one was opened.\<close>

definition tee_ta_open_session ::
    "ta_env \<Rightarrow> sess_list \<Rightarrow> u8 list \<Rightarrow> TEE_Identity \<Rightarrow> u32 \<Rightarrow> ta_mgr \<Rightarrow> (tee_result \<times> addr \<times> ta_mgr) call" where
  "tee_ta_open_session e l u clnt to m =
     bind_call (tee_ta_init_session e l u m) (\<lambda>(res, a, m).
     if res \<noteq> TEE_SUCCESS then Returns (res, a, m)
     else if \<not> check_params a then Returns (TEE_ERROR_BAD_PARAMETERS, a, m)
     else case ss_ctx (mg_heap m a) of
       None \<Rightarrow> bind_call (tee_ta_close_session e l (Some a) KERN_IDENTITY m) (\<lambda>(r, m).
         Returns (TEE_ERROR_TARGET_DEAD, a, m))
     | Some c \<Rightarrow>
         if tc_panicked (mg_ctx m c)
         then bind_call (tee_ta_close_session e l (Some a) KERN_IDENTITY m) (\<lambda>(r, m).
           Returns (TEE_ERROR_TARGET_DEAD, a, m))
         else
           let m = sess_set a (\<lambda>x. x\<lparr>ss_clnt_id := clnt\<rparr>) m in
           bind_call (try_set_busy c m) (\<lambda>(ok, m).
           bind_call
             (if ok then
                (case enter_open_session e a c (set_timeout e a to m) of (res, m) \<Rightarrow>
                 bind_call (clear_busy c m) (\<lambda>m. Returns (res, m)))
              else Returns (TEE_ERROR_BUSY, m)) (\<lambda>(res, m).
           let panicked = tc_panicked (mg_ctx m c) in
           bind_call (mg_put_session l a m) (\<lambda>m.
           if panicked \<or> res \<noteq> TEE_SUCCESS
           then bind_call (tee_ta_close_session e l (Some a) KERN_IDENTITY m) (\<lambda>(r, m). Returns (res, a, m))
           else Returns (res, a, m)))))"

section \<open>Invoking sessions\<close>

definition tee_ta_invoke_command :: "ta_env \<Rightarrow> addr \<Rightarrow> client \<Rightarrow> u32 \<Rightarrow> ta_mgr \<Rightarrow> (tee_result \<times> ta_mgr) call" where
  "tee_ta_invoke_command e a clnt to m =
     (if check_client (mg_heap m a) clnt \<noteq> TEE_SUCCESS then Returns (TEE_ERROR_BAD_PARAMETERS, m)
      else if \<not> check_params a then Returns (TEE_ERROR_BAD_PARAMETERS, m)
      else case ss_ctx (mg_heap m a) of
        None \<Rightarrow> Returns (TEE_ERROR_TARGET_DEAD, m)
      | Some c \<Rightarrow>
          if tc_panicked (mg_ctx m c)
          then bind_call (destroy_ta_ctx_from_session e a c m) (\<lambda>m. Returns (TEE_ERROR_TARGET_DEAD, m))
          else bind_call (set_busy c m) (\<lambda>m.
            case enter_invoke_cmd e a c (set_timeout e a to m) of (res, m) \<Rightarrow>
            bind_call (clear_busy c m) (\<lambda>m.
            if tc_panicked (mg_ctx m c)
            then bind_call (destroy_ta_ctx_from_session e a c m) (\<lambda>m. Returns (TEE_ERROR_TARGET_DEAD, m))
            else Returns (res, m))))"

section \<open>Entry points\<close>

text \<open>Results are the return code and, for an opened session, its identifier (else 0).\<close>

definition entry_open_session :: "ta_env \<Rightarrow> u8 list \<Rightarrow> TEE_Identity \<Rightarrow> ta_mgr \<Rightarrow> (tee_result \<times> u32 \<times> ta_mgr) call" where
  "entry_open_session e u clnt m =
     (if en_params e \<noteq> TEE_SUCCESS then Returns (en_params e, 0, m)
      else bind_call (tee_ta_open_session e Nsec u clnt TEE_TIMEOUT_INFINITE m) (\<lambda>(res, a, m).
        Returns (res, if res = TEE_SUCCESS then ss_id (mg_heap m a) else 0, m)))"

definition entry_close_session :: "ta_env \<Rightarrow> u32 \<Rightarrow> u32 \<Rightarrow> ta_mgr \<Rightarrow> (tee_result \<times> ta_mgr) call" where
  "entry_close_session e i num_params m =
     (if num_params \<noteq> 0 then Returns (TEE_ERROR_BAD_PARAMETERS, m)
      else tee_ta_close_session e Nsec (tee_ta_find_session i (sess_view Nsec m)) NSAPP_IDENTITY m)"

definition entry_invoke_command :: "ta_env \<Rightarrow> u32 \<Rightarrow> ta_mgr \<Rightarrow> (tee_result \<times> ta_mgr) call" where
  "entry_invoke_command e i m =
     (if en_params e \<noteq> TEE_SUCCESS then Returns (en_params e, m)
      else bind_call (mg_get_session Nsec i True m) (\<lambda>(r, m).
        case r of
          None \<Rightarrow> Returns (TEE_ERROR_BAD_PARAMETERS, m)
        | Some a \<Rightarrow>
            bind_call (tee_ta_invoke_command e a NSAPP_IDENTITY TEE_TIMEOUT_INFINITE m) (\<lambda>(res, m).
            bind_call (mg_put_session Nsec a m) (\<lambda>m. Returns (res, m)))))"

definition entry_cancel :: "u32 \<Rightarrow> u32 \<Rightarrow> ta_mgr \<Rightarrow> (tee_result \<times> ta_mgr) call" where
  "entry_cancel i num_params m =
     (if num_params \<noteq> 0 then Returns (TEE_ERROR_BAD_PARAMETERS, m)
      else bind_call (mg_get_session Nsec i False m) (\<lambda>(r, m).
        case r of
          None \<Rightarrow> Returns (TEE_ERROR_BAD_PARAMETERS, m)
        | Some a \<Rightarrow>
            (case tee_ta_cancel_command NSAPP_IDENTITY (mg_heap m a) of (x, res) \<Rightarrow>
             bind_call (mg_put_session Nsec a (sess_set a (\<lambda>_. x) m)) (\<lambda>m. Returns (res, m)))))"

text \<open>
  System calls of the application in context \<open>c\<close>; \<open>en_out\<close> is the result of copying the
  parameters back to it.
\<close>

definition ta_identity :: "addr \<Rightarrow> ta_mgr \<Rightarrow> TEE_Identity" where
  "ta_identity c m = \<lparr>login = TEE_LOGIN_TRUSTED_APP, uuid = tc_uuid (mg_ctx m c)\<rparr>"

definition syscall_open_ta_session :: "ta_env \<Rightarrow> addr \<Rightarrow> u8 list \<Rightarrow> u32 \<Rightarrow> ta_mgr \<Rightarrow> (tee_result \<times> u32 \<times> ta_mgr) call" where
  "syscall_open_ta_session e c u to m =
     (if en_params e \<noteq> TEE_SUCCESS then Returns (en_params e, 0, m)
      else bind_call (tee_ta_open_session e (OfTa c) u (ta_identity c m) to m) (\<lambda>(res, a, m).
        let res = (if res = TEE_SUCCESS then en_out e else res) in
        Returns (res, if res = TEE_SUCCESS then ss_id (mg_heap m a) else 0, m)))"

definition syscall_close_ta_session :: "ta_env \<Rightarrow> addr \<Rightarrow> u32 \<Rightarrow> ta_mgr \<Rightarrow> (tee_result \<times> ta_mgr) call" where
  "syscall_close_ta_session e c i m =
     tee_ta_close_session e (OfTa c) (tee_ta_find_session i (sess_view (OfTa c) m)) (Client (ta_identity c m)) m"

definition syscall_invoke_ta_command :: "ta_env \<Rightarrow> addr \<Rightarrow> u32 \<Rightarrow> u32 \<Rightarrow> ta_mgr \<Rightarrow> (tee_result \<times> ta_mgr) call" where
  "syscall_invoke_ta_command e c i to m =
     bind_call (mg_get_session (OfTa c) i True m) (\<lambda>(r, m).
     case r of
       None \<Rightarrow> Returns (TEE_ERROR_BAD_PARAMETERS, m)
     | Some a \<Rightarrow>
         bind_call
           (if en_params e \<noteq> TEE_SUCCESS then Returns (en_params e, m)
            else bind_call (tee_ta_invoke_command e a (Client (ta_identity c m)) to m) (\<lambda>(res, m).
              Returns (if res = TEE_ERROR_TARGET_DEAD \<or> en_out e = TEE_SUCCESS then res else en_out e, m)))
           (\<lambda>(res, m). bind_call (mg_put_session (OfTa c) a m) (\<lambda>m. Returns (res, m))))"

section \<open>Requests\<close>

datatype request =
    OpenNs "u8 list" TEE_Identity
  | CloseNs u32 u32
  | InvokeNs u32
  | CancelNs u32 u32
  | OpenTa addr "u8 list" u32
  | CloseTa addr u32
  | InvokeTa addr u32 u32

fun mgr_exec :: "ta_env \<Rightarrow> request \<Rightarrow> ta_mgr \<Rightarrow> (tee_result \<times> ta_mgr) call" where
  "mgr_exec e (OpenNs u clnt) m = bind_call (entry_open_session e u clnt m) (\<lambda>(res, i, m). Returns (res, m))"
| "mgr_exec e (CloseNs i n) m = entry_close_session e i n m"
| "mgr_exec e (InvokeNs i) m = entry_invoke_command e i m"
| "mgr_exec e (CancelNs i n) m = entry_cancel i n m"
| "mgr_exec e (OpenTa c u to) m = bind_call (syscall_open_ta_session e c u to m) (\<lambda>(res, i, m). Returns (res, m))"
| "mgr_exec e (CloseTa c i) m = syscall_close_ta_session e c i m"
| "mgr_exec e (InvokeTa c i to) m = syscall_invoke_ta_command e c i to m"

end
