(* ===== verification/Ta_Manager_Inv.thy ===== *)
theory Ta_Manager_Inv
  imports Ta_Manager
begin

unbundle bit_operations_syntax

text \<open>
  The invariant of contexts and sessions, and what each operation of the TA manager does to a
  state that satisfies it.
\<close>

section \<open>Updates of the state\<close>

lemma bind_call_Returns_iff:
  "bind_call r f = Returns y \<longleftrightarrow> (\<exists>x. r = Returns x \<and> f x = Returns y)"
  by (cases r) auto

lemma upd_simps [simp]:
  "mg_ctxes (ctx_set c f m) = mg_ctxes m" "mg_ctx (ctx_set c f m) = (mg_ctx m)(c := f (mg_ctx m c))"
  "mg_busy (ctx_set c f m) = mg_busy m" "mg_nsec (ctx_set c f m) = mg_nsec m" "mg_heap (ctx_set c f m) = mg_heap m"
  "mg_ctxes (sess_set a g m) = mg_ctxes m" "mg_ctx (sess_set a g m) = mg_ctx m"
  "mg_busy (sess_set a g m) = mg_busy m" "mg_nsec (sess_set a g m) = mg_nsec m"
  "mg_heap (sess_set a g m) = (mg_heap m)(a := g (mg_heap m a))"
  "mg_ctxes (unlink_ctx c m) = remove1 c (mg_ctxes m)" "mg_ctx (unlink_ctx c m) = mg_ctx m"
  "mg_busy (unlink_ctx c m) = mg_busy m" "mg_nsec (unlink_ctx c m) = mg_nsec m"
  "mg_heap (unlink_ctx c m) = mg_heap m"
  by (simp_all add: ctx_set_def sess_set_def unlink_ctx_def)

lemma set_list_simps [simp]:
  "mg_ctxes (set_list l as m) = mg_ctxes m" "mg_busy (set_list l as m) = mg_busy m"
  "mg_heap (set_list l as m) = mg_heap m" "mg_ctx (set_list Nsec as m) = mg_ctx m"
  "get_list l (set_list l' as m) = (if l = l' then as else get_list l m)"
  "tc_uuid (mg_ctx (set_list l as m) c) = tc_uuid (mg_ctx m c)"
  "tc_user (mg_ctx (set_list l as m) c) = tc_user (mg_ctx m c)"
  "tc_panicked (mg_ctx (set_list l as m) c) = tc_panicked (mg_ctx m c)"
  "tc_ref_count (mg_ctx (set_list l as m) c) = tc_ref_count (mg_ctx m c)"
  "tc_is_initializing (mg_ctx (set_list l as m) c) = tc_is_initializing (mg_ctx m c)"
  by (cases l; cases l'; simp)+

lemma set_list_same [simp]: "set_list l (get_list l m) m = m"
  by (cases l) (simp_all add: ctx_set_def)

lemma get_list_simps [simp]:
  "get_list l (m\<lparr>mg_heap := h\<rparr>) = get_list l m" "get_list l (m\<lparr>mg_busy := b\<rparr>) = get_list l m"
  "get_list l (sess_set a g m) = get_list l m" "get_list l (unlink_ctx c m) = get_list l m"
  "(\<And>x. tc_open_sessions (f x) = tc_open_sessions x) \<Longrightarrow> get_list l (ctx_set c f m) = get_list l m"
  by (cases l; simp)+

lemma ctx_flags_simps [simp]:
  "ctx_flags (ctx_set c f m) d = ctx_flags m d" "ctx_flags (sess_set a g m) d = ctx_flags m d"
  "ctx_flags (set_list l as m) d = ctx_flags m d" "ctx_flags (unlink_ctx c m) d = ctx_flags m d"
  "ctx_flags (m\<lparr>mg_heap := h\<rparr>) d = ctx_flags m d"
  by (simp_all add: ctx_flags_def)

lemma sess_view_simps [simp]: "open_sessions (sess_view l m) = get_list l m" "ss_heap (sess_view l m) = mg_heap m"
  by (simp_all add: sess_view_def)

lemma view_upd_simps [simp]:
  "open_sessions (ss_upd a f s) = open_sessions s" "ss_heap (ss_upd a f s) = (ss_heap s)(a := f (ss_heap s a))"
  by (simp_all add: ss_upd_def)

lemma sess_put_simps [simp]:
  "mg_heap (sess_put l s m) = ss_heap s" "get_list l' (sess_put l s m) = (if l' = l then open_sessions s else get_list l' m)"
  "mg_ctxes (sess_put l s m) = mg_ctxes m" "mg_busy (sess_put l s m) = mg_busy m"
  "ctx_flags (sess_put l s m) d = ctx_flags m d"
  "tc_uuid (mg_ctx (sess_put l s m) c) = tc_uuid (mg_ctx m c)"
  "tc_user (mg_ctx (sess_put l s m) c) = tc_user (mg_ctx m c)"
  "tc_panicked (mg_ctx (sess_put l s m) c) = tc_panicked (mg_ctx m c)"
  "tc_ref_count (mg_ctx (sess_put l s m) c) = tc_ref_count (mg_ctx m c)"
  "tc_is_initializing (mg_ctx (sess_put l s m) c) = tc_is_initializing (mg_ctx m c)"
  by (simp_all add: sess_put_def ctx_flags_def)

section \<open>Locking and releasing a session\<close>

definition at_rest :: "tee_ta_session \<Rightarrow> bool" where
  "at_rest x \<longleftrightarrow> ss_ref_count x = 0 \<and> ss_lock_thread x = None \<and> \<not> ss_unlink x"

text \<open>A session the running thread holds: locked or with a reference only.\<close>

definition locked :: "tee_ta_session \<Rightarrow> bool" where
  "locked x \<longleftrightarrow> ss_ref_count x = 1 \<and> ss_lock_thread x = Some self \<and> \<not> ss_unlink x"

definition lock_session :: "tee_ta_session \<Rightarrow> tee_ta_session" where
  "lock_session x = x\<lparr>ss_ref_count := 1, ss_lock_thread := Some self\<rparr>"

definition unlock_session :: "tee_ta_session \<Rightarrow> tee_ta_session" where
  "unlock_session x = x\<lparr>ss_ref_count := 0, ss_lock_thread := None\<rparr>"

definition ids_ok :: "sess_list \<Rightarrow> ta_mgr \<Rightarrow> bool" where
  "ids_ok l m \<longleftrightarrow> inj_on (\<lambda>a. ss_id (mg_heap m a)) (set (get_list l m))"

lemma find_session_ids:
  "inj_on (\<lambda>a. ss_id (ss_heap s a)) (set as) \<Longrightarrow> a \<in> set as \<Longrightarrow> find_session_in s as (ss_id (ss_heap s a)) = Some a"
  by (induction as) (auto simp: inj_on_def)

lemma find_session_own:
  "ids_ok l m \<Longrightarrow> a \<in> set (get_list l m) \<Longrightarrow>
     tee_ta_find_session_nolock (ss_id (mg_heap m a)) (sess_view l m) = Some a"
  using find_session_ids [of "sess_view l m" "get_list l m" a]
  by (simp add: tee_ta_find_session_nolock_def ids_ok_def)

lemma find_session_cases:
  "tee_ta_find_session i (sess_view l m) = None \<or>
     (\<exists>a \<in> set (get_list l m). tee_ta_find_session i (sess_view l m) = Some a \<and> ss_id (mg_heap m a) = i)"
  using find_session_in_Some [of "sess_view l m" "get_list l m" i]
  by (cases "tee_ta_find_session i (sess_view l m)")
    (auto simp: tee_ta_find_session_def tee_ta_find_session_nolock_def)

lemma sess_put_heap: "open_sessions s = get_list l m \<Longrightarrow> sess_put l s m = m\<lparr>mg_heap := ss_heap s\<rparr>"
  by (simp add: sess_put_def)

lemma mg_get_session_own:
  assumes "ids_ok l m" and "a \<in> set (get_list l m)" and "at_rest (mg_heap m a)"
  shows "mg_get_session l (ss_id (mg_heap m a)) True m = Returns (Some a, sess_set a lock_session m)"
  using assms find_session_own [OF assms(1,2)]
  by (simp add: mg_get_session_def run_sess_def tee_ta_get_session_def get_session_loop_def at_rest_def
      sess_put_heap sess_set_def lock_session_def)

lemma mg_get_session_shared:
  assumes "ids_ok l m" and "a \<in> set (get_list l m)" and "at_rest (mg_heap m a)"
  shows "mg_get_session l (ss_id (mg_heap m a)) False m =
     Returns (Some a, sess_set a (\<lambda>x. x\<lparr>ss_ref_count := 1\<rparr>) m)"
  using assms find_session_own [OF assms(1,2)]
  by (simp add: mg_get_session_def run_sess_def tee_ta_get_session_def at_rest_def
      sess_put_heap sess_set_def)

lemma mg_get_session_cases:
  assumes "ids_ok l m" and "\<And>a. a \<in> set (get_list l m) \<Longrightarrow> at_rest (mg_heap m a)"
  shows "mg_get_session l i ex m = Returns (None, m) \<or>
    (\<exists>a \<in> set (get_list l m). mg_get_session l i ex m =
       Returns (Some a, sess_set a (if ex then lock_session else ss_ref_count_update (\<lambda>_. 1)) m))"
proof (cases "tee_ta_find_session i (sess_view l m)")
  case None
  then show ?thesis
    by (simp add: mg_get_session_def run_sess_def tee_ta_get_session_def tee_ta_find_session_def sess_put_def)
next
  case (Some a)
  with find_session_cases [of i l m] have a: "a \<in> set (get_list l m)" "i = ss_id (mg_heap m a)" by auto
  with mg_get_session_own [OF assms(1) a(1) assms(2)] mg_get_session_shared [OF assms(1) a(1) assms(2)]
  show ?thesis by (cases ex) auto
qed

lemma mg_put_session_held:
  assumes "ss_ref_count (mg_heap m a) = 1" and "ss_lock_thread (mg_heap m a) \<in> {None, Some self}"
  shows "mg_put_session l a m = Returns (sess_set a unlock_session m)"
proof -
  have "ss_lock_thread x = None \<Longrightarrow> x\<lparr>ss_ref_count := 0\<rparr> = unlock_session x" for x
    by (cases x) (simp add: unlock_session_def)
  then show ?thesis using assms
    by (auto simp: mg_put_session_def tee_ta_put_session_def dec_session_ref_count_def sess_put_heap
        sess_set_def) (simp add: unlock_session_def)
qed

text \<open>The state after session \<open>a\<close> of list \<open>l\<close> was unlinked; what is left of it is \<open>x\<close>.\<close>

definition gone :: "sess_list \<Rightarrow> addr \<Rightarrow> tee_ta_session \<Rightarrow> ta_mgr \<Rightarrow> ta_mgr" where
  "gone l a x m = (set_list l (remove1 a (get_list l m)) m)\<lparr>mg_heap := (mg_heap m)(a := x)\<rparr>"

lemma gone_simps [simp]:
  "mg_ctxes (gone l a x m) = mg_ctxes m" "mg_busy (gone l a x m) = mg_busy m"
  "mg_heap (gone l a x m) = (mg_heap m)(a := x)"
  "get_list l' (gone l a x m) = (if l' = l then remove1 a (get_list l m) else get_list l' m)"
  "ctx_flags (gone l a x m) d = ctx_flags m d"
  "tc_uuid (mg_ctx (gone l a x m) c) = tc_uuid (mg_ctx m c)"
  "tc_user (mg_ctx (gone l a x m) c) = tc_user (mg_ctx m c)"
  "tc_panicked (mg_ctx (gone l a x m) c) = tc_panicked (mg_ctx m c)"
  "tc_ref_count (mg_ctx (gone l a x m) c) = tc_ref_count (mg_ctx m c)"
  "tc_is_initializing (mg_ctx (gone l a x m) c) = tc_is_initializing (mg_ctx m c)"
  by (simp_all add: gone_def ctx_flags_def)

lemma destroy_session_locked:
  assumes "locked (mg_heap m a)"
  shows "destroy_session l a m = Returns (gone l a ((mg_heap m a)\<lparr>ss_unlink := True\<rparr>) m)"
  using assms
  by (simp add: destroy_session_def run_sess_def tee_ta_unlink_session_def unlink_session_loop_def locked_def
      sess_put_def gone_def)

section \<open>Entering and leaving a context\<close>

definition lock_free :: "ta_busy \<Rightarrow> bool" where
  "lock_free b \<longleftrightarrow> tee_ta_single_instance_thread b = None \<and> tee_ta_single_instance_count b = 0"

definition quiet :: "ta_busy \<Rightarrow> addr \<Rightarrow> bool" where
  "quiet b c \<longleftrightarrow> concurrent b c \<or> \<not> cx_busy (tb_ctx b c) \<and> \<not> cx_initializing (tb_ctx b c)"

definition entered :: "addr \<Rightarrow> ta_busy \<Rightarrow> ta_busy" where
  "entered c b =
     (if concurrent b c then b
      else ctx_upd c (cx_busy_update (\<lambda>_. True))
        (if single b c then b\<lparr>tee_ta_single_instance_thread := Some self, tee_ta_single_instance_count := 1\<rparr> else b))"

lemma try_set_busy_quiet:
  "lock_free (mg_busy m) \<Longrightarrow> quiet (mg_busy m) c \<Longrightarrow>
     try_set_busy c m = Returns (True, m\<lparr>mg_busy := entered c (mg_busy m)\<rparr>)"
  by (auto simp: try_set_busy_def tee_ta_try_set_busy_def lock_free_def quiet_def entered_def set_busy_lock_def
      lock_single_instance_def lock_single_instance_loop_def set_busy_locked_def set_busy_check_def
      has_single_instance_lock_def set_busy_wait_def ctx_upd_def)

lemma set_busy_quiet:
  "lock_free (mg_busy m) \<Longrightarrow> quiet (mg_busy m) c \<Longrightarrow>
     set_busy c m = Returns (m\<lparr>mg_busy := entered c (mg_busy m)\<rparr>)"
  by (simp add: set_busy_def try_set_busy_quiet)

lemma ctx_id: "\<not> cx_busy x \<Longrightarrow> \<not> cx_initializing x \<Longrightarrow> x\<lparr>cx_busy := False, cx_initializing := False\<rparr> = x"
  by (cases x) simp

lemma clear_busy_entered:
  assumes "mg_busy m = entered c b" and "lock_free b" and "quiet b c"
  shows "clear_busy c m = Returns (m\<lparr>mg_busy := b\<rparr>)"
proof -
  obtain f where b: "b = \<lparr>tb_ctx = f, tee_ta_single_instance_thread = None, tee_ta_single_instance_count = 0\<rparr>"
    using assms(2) by (cases b) (simp add: lock_free_def)
  have "\<not> concurrent b c \<Longrightarrow> f(c := (f c)\<lparr>cx_busy := False, cx_initializing := False\<rparr>) = f"
    using assms(3) ctx_id [of "f c"] by (auto simp: quiet_def b)
  then have "tee_ta_clear_busy self c (entered c b) = Ret b"
    using assms(3)
    by (auto simp: tee_ta_clear_busy_def entered_def quiet_def b ctx_upd_def unlock_single_instance_def Let_def)
  then show ?thesis by (simp add: clear_busy_def assms(1))
qed

section \<open>Closing a session\<close>

text \<open>\<open>m'\<close> is \<open>m\<close> without session \<open>a\<close> of list \<open>l\<close>; a context may have panicked in between.\<close>

definition left :: "sess_list \<Rightarrow> addr \<Rightarrow> ta_mgr \<Rightarrow> ta_mgr \<Rightarrow> bool" where
  "left l a m m' \<longleftrightarrow> mg_ctxes m' = mg_ctxes m \<and> mg_busy m' = mg_busy m \<and>
     (\<forall>l'. get_list l' m' = (if l' = l then remove1 a (get_list l m) else get_list l' m)) \<and>
     (\<forall>b. b \<noteq> a \<longrightarrow> mg_heap m' b = mg_heap m b) \<and>
     (\<forall>c. tc_uuid (mg_ctx m' c) = tc_uuid (mg_ctx m c) \<and> tc_user (mg_ctx m' c) = tc_user (mg_ctx m c) \<and>
          tc_ref_count (mg_ctx m' c) = tc_ref_count (mg_ctx m c) \<and>
          tc_is_initializing (mg_ctx m' c) = tc_is_initializing (mg_ctx m c))"

lemma enter_close_session_simps [simp]:
  "mg_ctxes (enter_close_session e a c m) = mg_ctxes m" "mg_busy (enter_close_session e a c m) = mg_busy m"
  "get_list l (enter_close_session e a c m) = get_list l m"
  "b \<noteq> a \<Longrightarrow> mg_heap (enter_close_session e a c m) b = mg_heap m b"
  "tc_uuid (mg_ctx (enter_close_session e a c m) d) = tc_uuid (mg_ctx m d)"
  "tc_user (mg_ctx (enter_close_session e a c m) d) = tc_user (mg_ctx m d)"
  "tc_ref_count (mg_ctx (enter_close_session e a c m) d) = tc_ref_count (mg_ctx m d)"
  "tc_is_initializing (mg_ctx (enter_close_session e a c m) d) = tc_is_initializing (mg_ctx m d)"
  "locked (mg_heap (enter_close_session e a c m) a) = locked (mg_heap m a)"
  by (simp_all add: enter_close_session_def user_ta_enter_def locked_def)

lemma set_timeout_simps [simp]:
  "mg_ctxes (set_timeout e a to m) = mg_ctxes m" "mg_busy (set_timeout e a to m) = mg_busy m"
  "get_list l (set_timeout e a to m) = get_list l m" "mg_ctx (set_timeout e a to m) = mg_ctx m"
  "b \<noteq> a \<Longrightarrow> mg_heap (set_timeout e a to m) b = mg_heap m b"
  "locked (mg_heap (set_timeout e a to m) a) = locked (mg_heap m a)"
  by (simp_all add: set_timeout_def set_invoke_timeout_def locked_def)

lemma lock_session_simps [simp]:
  "ss_ctx (lock_session x) = ss_ctx x" "check_client (lock_session x) c = check_client x c"
  "ss_id (lock_session x) = ss_id x" "ss_clnt_id (lock_session x) = ss_clnt_id x"
  "ss_ref_count (lock_session x) = 1" "ss_lock_thread (lock_session x) = Some self"
  by (simp_all add: lock_session_def check_client_def split: client.splits)

lemma locked_lock_session [simp]: "at_rest x \<Longrightarrow> locked (lock_session x)"
  by (simp add: at_rest_def locked_def lock_session_def)

lemma close_with_left:
  assumes ids: "ids_ok l m" "a \<in> set (get_list l m)" "at_rest (mg_heap m a)" and free: "lock_free (mg_busy m)"
    and quiet: "\<And>c. ss_ctx (mg_heap m a) = Some c \<Longrightarrow> quiet (mg_busy m) c"
    and client: "check_client (mg_heap m a) clnt = TEE_SUCCESS"
  shows "\<exists>m'. left l a m m' \<and> close_with D e l (Some a) clnt m =
    (case ss_ctx (mg_heap m a) of None \<Rightarrow> Returns (TEE_SUCCESS, m') | Some c \<Rightarrow> leave_context D c m')"
proof -
  let ?m1 = "sess_set a lock_session m"
  have get: "mg_get_session l (ss_id (mg_heap m a)) True m = Returns (Some a, ?m1)"
    by (rule mg_get_session_own [OF ids])
  have locked: "locked (mg_heap ?m1 a)" using ids(3) by simp
  note destroy = destroy_session_locked
  have left: "left l a m (gone l a x ?m1)" for x by (simp add: left_def)
  show ?thesis
  proof (cases "ss_ctx (mg_heap m a)")
    case None
    with left get client destroy [OF locked] show ?thesis by (auto simp: close_with_def)
  next
    case (Some c)
    show ?thesis
    proof (cases "tc_panicked (mg_ctx m c)")
      case True
      with Some left get client destroy [OF locked] show ?thesis by (auto simp: close_with_def)
    next
      case False
      define m2 where "m2 = enter_close_session e a c (set_timeout e a TEE_TIMEOUT_INFINITE
        (?m1\<lparr>mg_busy := entered c (mg_busy m)\<rparr>))"
      have "locked (mg_heap m2 a)" using locked by (simp add: m2_def)
      note gone = destroy [OF this, of l]
      let ?m3 = "gone l a ((mg_heap m2 a)\<lparr>ss_unlink := True\<rparr>) m2"
      have "clear_busy c ?m3 = Returns (?m3\<lparr>mg_busy := mg_busy m\<rparr>)"
        by (rule clear_busy_entered [OF _ free quiet [OF Some]]) (simp add: m2_def)
      moreover have "set_busy c ?m1 = Returns (?m1\<lparr>mg_busy := entered c (mg_busy m)\<rparr>)"
        using set_busy_quiet [of ?m1 c] free quiet [OF Some] by simp
      moreover have "left l a m (?m3\<lparr>mg_busy := mg_busy m\<rparr>)"
        by (simp add: left_def m2_def)
      ultimately show ?thesis using Some False get client gone
        by (auto simp: close_with_def m2_def [symmetric] Let_def)
    qed
  qed
qed

text \<open>A client that is not the owner changes nothing.\<close>

lemma close_with_refused:
  assumes ids: "ids_ok l m" "a \<in> set (get_list l m)" "at_rest (mg_heap m a)"
    and client: "check_client (mg_heap m a) clnt \<noteq> TEE_SUCCESS"
  shows "close_with D e l (Some a) clnt m = Returns (TEE_ERROR_BAD_PARAMETERS, m)"
proof -
  have "unlock_session (lock_session (mg_heap m a)) = mg_heap m a"
    using ids(3) by (cases "mg_heap m a") (simp add: unlock_session_def lock_session_def at_rest_def)
  then have "sess_set a unlock_session (sess_set a lock_session m) = m" by (simp add: sess_set_def)
  then show ?thesis using client mg_get_session_own [OF ids]
    by (simp add: close_with_def mg_put_session_held)
qed

section \<open>The invariant\<close>

text \<open>
  \<open>D\<close> are contexts that are being destroyed: no longer registered, but their sessions are not all
  closed yet. \<open>L\<close> are sessions that are not at rest, \<open>X\<close> those whose pointer to a context does not
  count, \<open>R\<close> ranks the applications: an application opens sessions of lower rank only.
\<close>

definition valid_list :: "addr set \<Rightarrow> ta_mgr \<Rightarrow> sess_list \<Rightarrow> bool" where
  "valid_list D m l \<longleftrightarrow> l \<in> insert Nsec (OfTa ` (set (mg_ctxes m) \<union> D))"

definition sess :: "addr set \<Rightarrow> ta_mgr \<Rightarrow> addr set" where
  "sess D m = {a. \<exists>l. valid_list D m l \<and> a \<in> set (get_list l m)}"

definition users :: "addr set \<Rightarrow> addr set \<Rightarrow> ta_mgr \<Rightarrow> addr \<Rightarrow> addr set" where
  "users D X m c = {a \<in> sess D m - X. ss_ctx (mg_heap m a) = Some c}"

definition rk :: "(u8 list \<Rightarrow> nat) \<Rightarrow> ta_mgr \<Rightarrow> addr \<Rightarrow> nat" where
  "rk R m c = R (tc_uuid (mg_ctx m c))"

definition above :: "(u8 list \<Rightarrow> nat) \<Rightarrow> ta_mgr \<Rightarrow> nat \<Rightarrow> sess_list \<Rightarrow> bool" where
  "above R m r l \<longleftrightarrow> (case l of Nsec \<Rightarrow> True | OfTa c \<Rightarrow> r < rk R m c)"

definition lists_ok :: "addr set \<Rightarrow> ta_mgr \<Rightarrow> bool" where
  "lists_ok D m \<longleftrightarrow>
     (\<forall>l. valid_list D m l \<longrightarrow> distinct (get_list l m) \<and> ids_ok l m) \<and>
     (\<forall>l l' a. valid_list D m l \<longrightarrow> valid_list D m l' \<longrightarrow> a \<in> set (get_list l m) \<longrightarrow> a \<in> set (get_list l' m) \<longrightarrow> l = l')"

definition refs_ok :: "addr set \<Rightarrow> addr set \<Rightarrow> ta_mgr \<Rightarrow> bool" where
  "refs_ok D X m \<longleftrightarrow>
     (\<forall>a c. a \<in> sess D m - X \<longrightarrow> ss_ctx (mg_heap m a) = Some c \<longrightarrow> c \<in> set (mg_ctxes m)) \<and>
     (\<forall>c. c \<in> set (mg_ctxes m) \<longrightarrow> tc_ref_count (mg_ctx m c) = card (users D X m c))"

definition ctxs_ok :: "addr set \<Rightarrow> ta_mgr \<Rightarrow> bool" where
  "ctxs_ok D m \<longleftrightarrow> distinct (mg_ctxes m) \<and> finite D \<and> D \<inter> set (mg_ctxes m) = {} \<and>
     (\<forall>c. c \<in> set (mg_ctxes m) \<longrightarrow> tc_ref_count (mg_ctx m c) = 0 \<longrightarrow> keep_alive (ctx_flags m c)) \<and>
     (\<forall>c. c \<in> set (mg_ctxes m) \<union> D \<longrightarrow> \<not> tc_user (mg_ctx m c) \<longrightarrow> tc_open_sessions (mg_ctx m c) = [])"

definition ranks_ok :: "(u8 list \<Rightarrow> nat) \<Rightarrow> addr set \<Rightarrow> ta_mgr \<Rightarrow> bool" where
  "ranks_ok R D m \<longleftrightarrow> (\<forall>l a c. valid_list D m l \<longrightarrow> a \<in> set (get_list l m) \<longrightarrow>
     ss_ctx (mg_heap m a) = Some c \<longrightarrow> above R m (rk R m c) l)"

definition mgr_inv :: "(u8 list \<Rightarrow> nat) \<Rightarrow> addr set \<Rightarrow> addr set \<Rightarrow> addr set \<Rightarrow> ta_mgr \<Rightarrow> bool" where
  "mgr_inv R D L X m \<longleftrightarrow> lists_ok D m \<and> refs_ok D X m \<and> ctxs_ok D m \<and> ranks_ok R D m \<and>
     (\<forall>a. a \<in> sess D m - L \<longrightarrow> at_rest (mg_heap m a))"

lemmas mgr_inv_defs = mgr_inv_def lists_ok_def refs_ok_def ctxs_ok_def ranks_ok_def

lemma finite_sess: "ctxs_ok D m \<Longrightarrow> finite (sess D m)"
proof -
  assume "ctxs_ok D m"
  then have "finite (insert Nsec (OfTa ` (set (mg_ctxes m) \<union> D)))" by (simp add: ctxs_ok_def)
  moreover have "sess D m \<subseteq> (\<Union>l \<in> insert Nsec (OfTa ` (set (mg_ctxes m) \<union> D)). set (get_list l m))"
    unfolding sess_def valid_list_def by blast
  ultimately show ?thesis by (meson List.finite_set finite_UN finite_subset)
qed

lemma finite_users: "ctxs_ok D m \<Longrightarrow> finite (users D X m c)"
  using finite_sess [of D m] by (simp add: users_def)

lemma sess_left:
  assumes "lists_ok D m" and "left l a m m'" and "valid_list D m l" and "a \<in> set (get_list l m)"
  shows "sess D m' = sess D m - {a}"
proof -
  have d: "valid_list D m l' \<Longrightarrow> distinct (get_list l' m)" for l'
    using assms(1) by (simp add: lists_ok_def)
  have o: "valid_list D m l' \<Longrightarrow> a \<in> set (get_list l' m) \<Longrightarrow> l' = l" for l'
    using assms by (auto simp: lists_ok_def)
  have v: "valid_list D m' l' = valid_list D m l'" for l' using assms(2) by (simp add: valid_list_def left_def)
  have "set (get_list l' m') = set (get_list l' m) - {a}" if "valid_list D m l'" for l'
    using assms(2) d [OF that] o [OF that] by (auto simp: left_def)
  then show ?thesis by (auto simp: sess_def v)
qed

text \<open>The context of the session loses a reference.\<close>

definition unref :: "addr \<Rightarrow> ta_mgr \<Rightarrow> ta_mgr" where
  "unref c m = ctx_set c (\<lambda>x. x\<lparr>tc_ref_count := tc_ref_count x - 1\<rparr>) m"

lemma unref_simps [simp]:
  "mg_ctxes (unref c m) = mg_ctxes m" "mg_busy (unref c m) = mg_busy m" "mg_heap (unref c m) = mg_heap m"
  "get_list l (unref c m) = get_list l m" "ctx_flags (unref c m) d = ctx_flags m d"
  "tc_uuid (mg_ctx (unref c m) d) = tc_uuid (mg_ctx m d)"
  "tc_is_initializing (mg_ctx (unref c m) d) = tc_is_initializing (mg_ctx m d)"
  "tc_user (mg_ctx (unref c m) d) = tc_user (mg_ctx m d)"
  "tc_open_sessions (mg_ctx (unref c m) d) = tc_open_sessions (mg_ctx m d)"
  "tc_ref_count (mg_ctx (unref c m) d) = (if d = c then tc_ref_count (mg_ctx m c) - 1 else tc_ref_count (mg_ctx m d))"
  by (simp_all add: unref_def)

lemma valid_unlink:
  "distinct (mg_ctxes m) \<Longrightarrow> c \<in> set (mg_ctxes m) \<Longrightarrow> valid_list (insert c D) (unlink_ctx c m) l = valid_list D m l"
  by (auto simp: valid_list_def)

lemma inv_cong:
  assumes "mgr_inv R D L X m"
    and "mg_ctxes m' = mg_ctxes m" "\<And>l. get_list l m' = get_list l m"
    and "\<And>c. tc_ref_count (mg_ctx m c) = 0 \<Longrightarrow> ctx_flags m' c = ctx_flags m c"
    and "\<And>c. tc_uuid (mg_ctx m' c) = tc_uuid (mg_ctx m c) \<and> tc_user (mg_ctx m' c) = tc_user (mg_ctx m c) \<and>
      tc_ref_count (mg_ctx m' c) = tc_ref_count (mg_ctx m c)"
    and heap: "\<And>a. a \<in> sess D m \<Longrightarrow> ss_ctx (mg_heap m' a) = ss_ctx (mg_heap m a) \<and>
      ss_id (mg_heap m' a) = ss_id (mg_heap m a) \<and> (a \<notin> L' \<longrightarrow> at_rest (mg_heap m' a))"
  shows "mgr_inv R D L' X m'"
proof -
  have v: "valid_list D m' l = valid_list D m l" for l using assms(2) by (simp add: valid_list_def)
  have s: "sess D m' = sess D m" using assms(3) v by (simp add: sess_def)
  have u: "users D X m' c = users D X m c" for c using heap by (auto simp: users_def s)
  have o: "tc_open_sessions (mg_ctx m' c) = tc_open_sessions (mg_ctx m c)" for c
    using assms(3) [of "OfTa c"] by simp
  have r: "above R m' n l = above R m n l" "rk R m' c = rk R m c" for n l c
    using assms(5) by (simp_all add: above_def rk_def split: sess_list.splits)
  have i: "ids_ok l m' = ids_ok l m" if "valid_list D m l" for l
  proof -
    have "ss_id (mg_heap m' a) = ss_id (mg_heap m a)" if "a \<in> set (get_list l m)" for a
      using that \<open>valid_list D m l\<close> heap [of a] by (auto simp: sess_def)
    then show ?thesis unfolding ids_ok_def assms(3) by (rule inj_on_cong)
  qed
  have c: "valid_list D m l \<Longrightarrow> a \<in> set (get_list l m) \<Longrightarrow> ss_ctx (mg_heap m' a) = ss_ctx (mg_heap m a)" for l a
    using heap [of a] by (auto simp: sess_def)
  have "lists_ok D m'" using assms(1) i by (simp add: mgr_inv_def lists_ok_def v assms(3))
  moreover have "refs_ok D X m'" using assms(1) heap by (simp add: mgr_inv_def refs_ok_def s u assms(2,5))
  moreover have "ctxs_ok D m'" using assms(1) by (simp add: mgr_inv_def ctxs_ok_def o assms(2,4,5))
  moreover have "ranks_ok R D m'" using assms(1) c by (simp add: mgr_inv_def ranks_ok_def v r assms(3))
  ultimately show ?thesis using heap by (simp add: mgr_inv_def s)
qed

lemma inv_left:
  assumes inv: "mgr_inv R D L X m" and left: "left l a m m'" and l: "valid_list D m l" "a \<in> set (get_list l m)"
  shows "lists_ok D m'" and "ranks_ok R D m'" and "b \<in> sess D m' - L \<Longrightarrow> at_rest (mg_heap m' b)"
    and "sess D m' = sess D m - {a}" and "users D X m' c = users D X m c - {a}"
proof -
  note lo = inv [unfolded mgr_inv_def, THEN conjunct1]
  show s: "sess D m' = sess D m - {a}" by (rule sess_left [OF lo left l])
  have v: "valid_list D m' l' = valid_list D m l'" for l' using left by (simp add: valid_list_def left_def)
  have g: "set (get_list l' m') \<subseteq> set (get_list l' m)" for l'
    using left set_remove1_subset [of a "get_list l m"] by (simp add: left_def)
  have na: "a \<notin> set (get_list l' m')" if "valid_list D m l'" for l' using s that v unfolding sess_def by blast
  have h: "mg_heap m' b = mg_heap m b" if "b \<noteq> a" for b using left that by (simp add: left_def)
  have ids: "ids_ok l' m'" if "valid_list D m l'" for l'
  proof -
    have "inj_on (\<lambda>a. ss_id (mg_heap m a)) (set (get_list l' m'))"
      using lo that g by (auto simp: lists_ok_def ids_ok_def intro: inj_on_subset)
    moreover have "b \<in> set (get_list l' m') \<Longrightarrow> ss_id (mg_heap m' b) = ss_id (mg_heap m b)" for b
      using h [of b] na [OF that] by (cases "b = a") auto
    ultimately show ?thesis unfolding ids_ok_def by (subst inj_on_cong) auto
  qed
  have dist: "distinct (get_list l' m')" if "valid_list D m l'" for l'
    using lo left that l(1) by (auto simp: lists_ok_def left_def)
  show "lists_ok D m'" unfolding lists_ok_def v
    using dist ids lo g unfolding lists_ok_def by blast
  have r: "above R m' n l' = above R m n l'" "rk R m' c = rk R m c" for n l' c
    using left by (simp_all add: above_def rk_def left_def split: sess_list.splits)
  have "above R m (rk R m c) l'" if "valid_list D m l'" "b \<in> set (get_list l' m')" "ss_ctx (mg_heap m' b) = Some c" for l' b c
  proof -
    have "b \<noteq> a" using na [OF that(1)] that(2) by blast
    with h that(3) have "ss_ctx (mg_heap m b) = Some c" by simp
    with inv that(1,2) g show ?thesis unfolding mgr_inv_def ranks_ok_def by blast
  qed
  then show "ranks_ok R D m'" by (simp add: ranks_ok_def v r)
  show "b \<in> sess D m' - L \<Longrightarrow> at_rest (mg_heap m' b)"
    using inv h [of b] by (auto simp: s mgr_inv_def)
  show "users D X m' c = users D X m c - {a}" using h by (auto simp: users_def s)
qed

lemma left_facts:
  assumes "left l a m m'"
  shows "mg_ctxes m' = mg_ctxes m" "ctx_flags m' c = ctx_flags m c" "tc_user (mg_ctx m' c) = tc_user (mg_ctx m c)"
    "tc_ref_count (mg_ctx m' c) = tc_ref_count (mg_ctx m c)" "tc_uuid (mg_ctx m' c) = tc_uuid (mg_ctx m c)"
    "tc_open_sessions (mg_ctx m c) = [] \<Longrightarrow> tc_open_sessions (mg_ctx m' c) = []"
  using assms by (simp_all add: left_def ctx_flags_def) (metis get_list.simps(2) remove1.simps(1))

lemma inv_left_None:
  assumes inv: "mgr_inv R D L X m" and left: "left l a m m'" and l: "valid_list D m l" "a \<in> set (get_list l m)"
    and ctx: "ss_ctx (mg_heap m a) = None"
  shows "mgr_inv R D L X m'"
proof -
  note i = inv_left [OF inv left l] and f = left_facts [OF left]
  have h: "mg_heap m' b = mg_heap m b" if "b \<noteq> a" for b using left that by (simp add: left_def)
  have "users D X m c - {a} = users D X m c" for c using ctx by (auto simp: users_def)
  then have "refs_ok D X m'" using inv h by (auto simp: mgr_inv_def refs_ok_def i(4,5) f)
  moreover have "ctxs_ok D m'" using inv f(6) by (auto simp: mgr_inv_def ctxs_ok_def f)
  ultimately show ?thesis using i by (simp add: mgr_inv_def)
qed

text \<open>A context that is not registered any more while its own sessions are open.\<close>

lemma inv_unlink:
  assumes "lists_ok D m" and refs: "\<And>b d. b \<in> sess D m - X \<Longrightarrow> ss_ctx (mg_heap m b) = Some d \<Longrightarrow> d \<in> set (mg_ctxes m)"
      "\<And>d. d \<in> set (mg_ctxes m) \<Longrightarrow> d \<noteq> c \<Longrightarrow> tc_ref_count (mg_ctx m d) = card (users D X m d)"
    and "ranks_ok R D m" "\<And>b. b \<in> sess D m - L \<Longrightarrow> at_rest (mg_heap m b)"
    and "distinct (mg_ctxes m)" "finite D" "D \<inter> set (mg_ctxes m) = {}" "c \<in> set (mg_ctxes m)"
    and "\<And>d. d \<in> set (mg_ctxes m) \<Longrightarrow> d \<noteq> c \<Longrightarrow> tc_ref_count (mg_ctx m d) = 0 \<Longrightarrow> keep_alive (ctx_flags m d)"
    and "\<And>d. d \<in> set (mg_ctxes m) \<union> D \<Longrightarrow> \<not> tc_user (mg_ctx m d) \<Longrightarrow> tc_open_sessions (mg_ctx m d) = []"
    and none: "users D X m c = {}"
  shows "mgr_inv R (insert c D) L X (unlink_ctx c m)"
proof -
  note v = valid_unlink [OF assms(6,9)]
  have s: "sess (insert c D) (unlink_ctx c m) = sess D m" by (simp add: sess_def v)
  have u: "users (insert c D) X (unlink_ctx c m) d = users D X m d" for d by (simp add: users_def s)
  have mem: "d \<in> set (remove1 c (mg_ctxes m)) \<longleftrightarrow> d \<in> set (mg_ctxes m) \<and> d \<noteq> c" for d using assms(6) by auto
  have "lists_ok (insert c D) (unlink_ctx c m)" using assms(1) by (simp add: lists_ok_def v ids_ok_def)
  moreover have "refs_ok (insert c D) X (unlink_ctx c m)"
    using refs none by (auto simp: refs_ok_def s u mem) (auto simp: users_def)
  moreover have "ctxs_ok (insert c D) (unlink_ctx c m)" using assms(6-11) by (auto simp: ctxs_ok_def mem)
  moreover have "ranks_ok R (insert c D) (unlink_ctx c m)"
    using assms(4) by (simp add: ranks_ok_def v above_def rk_def cong: sess_list.case_cong)
  ultimately show ?thesis using assms(5) by (simp add: mgr_inv_def s)
qed

lemma inv_left_Some:
  assumes inv: "mgr_inv R D L X m" and left: "left l a m m'" and l: "valid_list D m l" "a \<in> set (get_list l m)"
    and ctx: "ss_ctx (mg_heap m a) = Some c" and X: "a \<notin> X"
  shows "c \<in> set (mg_ctxes m)" and "tc_ref_count (mg_ctx m c) \<noteq> 0"
    and "tc_ref_count (mg_ctx m c) \<noteq> 1 \<or> keep_alive (ctx_flags m c) \<Longrightarrow> mgr_inv R D L X (unref c m')"
    and "tc_ref_count (mg_ctx m c) = 1 \<Longrightarrow> mgr_inv R (insert c D) L X (unlink_ctx c (unref c m'))"
proof -
  note i = inv_left [OF inv left l] and f = left_facts [OF left]
  have h: "mg_heap m' b = mg_heap m b" if "b \<noteq> a" for b using left that by (simp add: left_def)
  have a: "a \<in> users D X m c" using l ctx X by (auto simp: users_def sess_def)
  have co: "ctxs_ok D m" using inv by (simp add: mgr_inv_def)
  note fin = finite_users [OF co]
  show c: "c \<in> set (mg_ctxes m)" using inv a ctx by (auto simp: mgr_inv_def refs_ok_def users_def)
  then have n: "tc_ref_count (mg_ctx m c) = card (users D X m c)" using inv by (simp add: mgr_inv_def refs_ok_def)
  with a fin show "tc_ref_count (mg_ctx m c) \<noteq> 0" by auto
  have s: "sess D (unref c m') = sess D m'" "users D X (unref c m') d = users D X m' d" for d
    by (simp_all add: sess_def valid_list_def users_def)
  have u: "users D X m d - {a} = users D X m d" if "d \<noteq> c" for d
    using ctx that by (auto simp: users_def)
  have lo: "lists_ok D (unref c m')" using i(1) by (simp add: lists_ok_def valid_list_def ids_ok_def)
  have ra: "ranks_ok R D (unref c m')"
    using i(2) by (simp add: ranks_ok_def valid_list_def above_def rk_def cong: sess_list.case_cong)
  have ref: "\<And>b d. b \<in> sess D m - X \<Longrightarrow> ss_ctx (mg_heap m b) = Some d \<Longrightarrow> d \<in> set (mg_ctxes m)"
    and cnt: "\<And>d. d \<in> set (mg_ctxes m) \<Longrightarrow> tc_ref_count (mg_ctx m d) = card (users D X m d)"
    using inv by (simp_all add: mgr_inv_def refs_ok_def)
  have "tc_ref_count (mg_ctx (unref c m') d) = card (users D X m d - {a})" if "d \<in> set (mg_ctxes m)" for d
    using cnt [OF that] u [of d] a fin [of X c] by (cases "d = c") (simp_all add: f)
  moreover have "d \<in> set (mg_ctxes m)" if "b \<in> sess D m - {a} - X" "ss_ctx (mg_heap m' b) = Some d" for b d
    using that h [of b] ref [of b d] by auto
  ultimately have re: "refs_ok D X (unref c m')" by (simp add: refs_ok_def s i(4,5) f)
  have open0: "tc_open_sessions (mg_ctx (unref c m') d) = []"
    if "d \<in> set (mg_ctxes m) \<union> D" "\<not> tc_user (mg_ctx m d)" for d
    using co that f(6) by (auto simp: ctxs_ok_def)
  have rest: "b \<in> sess D (unref c m') - L \<Longrightarrow> at_rest (mg_heap (unref c m') b)" for b using i(3) s by simp
  show "mgr_inv R D L X (unref c m')" if "tc_ref_count (mg_ctx m c) \<noteq> 1 \<or> keep_alive (ctx_flags m c)"
  proof -
    have "ctxs_ok D (unref c m')"
      using co that open0 \<open>tc_ref_count (mg_ctx m c) \<noteq> 0\<close> by (auto simp: ctxs_ok_def f)
    then show ?thesis using lo ra re rest by (simp add: mgr_inv_def)
  qed
  show "mgr_inv R (insert c D) L X (unlink_ctx c (unref c m'))" if "tc_ref_count (mg_ctx m c) = 1"
  proof (rule inv_unlink [OF lo _ _ ra rest])
    have "users D X m c = {a}" using that n a fin by (metis card_1_singletonE singletonD)
    then show "users D X (unref c m') c = {}" by (simp add: s i(5))
    show "d \<in> set (mg_ctxes (unref c m')) \<union> D \<Longrightarrow> \<not> tc_user (mg_ctx (unref c m') d) \<Longrightarrow>
      tc_open_sessions (mg_ctx (unref c m') d) = []" for d
      using open0 [of d] by (simp add: f)
  qed (use co c re in \<open>auto simp: ctxs_ok_def refs_ok_def f\<close>)
qed

lemma inv_forget:
  assumes inv: "mgr_inv R D L X m" and "tc_open_sessions (mg_ctx m c) = []" and "c \<notin> set (mg_ctxes m)"
  shows "mgr_inv R (D - {c}) L X m"
proof -
  have v: "valid_list (D - {c}) m l \<Longrightarrow> valid_list D m l" for l
    by (cases l) (auto simp: valid_list_def)
  have w: "valid_list (D - {c}) m l" if "valid_list D m l" "a \<in> set (get_list l m)" for l a
  proof -
    from that(2) assms(2) have "l \<noteq> OfTa c" by auto
    with that(1) show ?thesis unfolding valid_list_def by blast
  qed
  have s: "sess (D - {c}) m = sess D m" unfolding sess_def using v w by metis
  have u: "users (D - {c}) X m d = users D X m d" for d unfolding users_def s ..
  have i: "lists_ok D m" "refs_ok D X m" "ctxs_ok D m" "ranks_ok R D m"
    "\<And>a. a \<in> sess D m - L \<Longrightarrow> at_rest (mg_heap m a)"
    using inv by (simp_all add: mgr_inv_def)
  have "refs_ok (D - {c}) X m" using i(2) unfolding refs_ok_def s u .
  moreover have "lists_ok (D - {c}) m" using i(1) unfolding lists_ok_def by (meson v)
  moreover have "ranks_ok R (D - {c}) m" using i(4) unfolding ranks_ok_def by (meson v)
  moreover have "ctxs_ok (D - {c}) m" using i(3) by (simp add: ctxs_ok_def) blast
  ultimately show ?thesis using i(5) by (simp add: mgr_inv_def s)
qed

section \<open>What closing keeps\<close>

definition mgr_quiet :: "ta_mgr \<Rightarrow> bool" where
  "mgr_quiet m \<longleftrightarrow> lock_free (mg_busy m) \<and> (\<forall>c. c \<in> set (mg_ctxes m) \<longrightarrow> quiet (mg_busy m) c)"

text \<open>The sessions in use belong to owners of a rank above \<open>r\<close>.\<close>

definition held_above :: "(u8 list \<Rightarrow> nat) \<Rightarrow> addr set \<Rightarrow> addr set \<Rightarrow> nat \<Rightarrow> ta_mgr \<Rightarrow> bool" where
  "held_above R D L r m \<longleftrightarrow>
     (\<forall>l b. valid_list D m l \<longrightarrow> b \<in> set (get_list l m) \<longrightarrow> b \<in> L \<longrightarrow> above R m r l)"

text \<open>
  From \<open>m\<close> to \<open>m'\<close> contexts and sessions only go away, those of \<open>P\<close> and the lists of \<open>Q\<close> stay.
\<close>

definition kept :: "addr set \<Rightarrow> (addr \<Rightarrow> bool) \<Rightarrow> (sess_list \<Rightarrow> bool) \<Rightarrow> ta_mgr \<Rightarrow> ta_mgr \<Rightarrow> bool" where
  "kept D P Q m m' \<longleftrightarrow> mg_busy m' = mg_busy m \<and> set (mg_ctxes m') \<subseteq> set (mg_ctxes m) \<and>
     (\<forall>c. tc_uuid (mg_ctx m' c) = tc_uuid (mg_ctx m c) \<and> tc_user (mg_ctx m' c) = tc_user (mg_ctx m c) \<and>
          tc_is_initializing (mg_ctx m' c) = tc_is_initializing (mg_ctx m c) \<and>
          tc_ref_count (mg_ctx m' c) \<le> tc_ref_count (mg_ctx m c)) \<and>
     (\<forall>l. set (get_list l m') \<subseteq> set (get_list l m)) \<and>
     (\<forall>d. P d \<longrightarrow> d \<in> set (mg_ctxes m) \<longrightarrow> d \<in> set (mg_ctxes m')) \<and>
     (\<forall>l. Q l \<longrightarrow> get_list l m' = get_list l m) \<and>
     sess D m' \<subseteq> sess D m \<and> (\<forall>a. a \<in> sess D m' \<longrightarrow> mg_heap m' a = mg_heap m a)"

lemma kept_trans:
  assumes "kept D P Q m m1" and "kept D P' Q' m1 m2" and "\<And>d. P'' d \<Longrightarrow> P d \<and> P' d" and "\<And>l. Q'' l \<Longrightarrow> Q l \<and> Q' l"
  shows "kept D P'' Q'' m m2"
proof -
  note k1 = assms(1) [unfolded kept_def] and k2 = assms(2) [unfolded kept_def]
  have "mg_busy m2 = mg_busy m" "set (mg_ctxes m2) \<subseteq> set (mg_ctxes m)" using k1 k2 by (simp, blast)
  moreover have "tc_uuid (mg_ctx m2 c) = tc_uuid (mg_ctx m c) \<and> tc_user (mg_ctx m2 c) = tc_user (mg_ctx m c) \<and>
      tc_is_initializing (mg_ctx m2 c) = tc_is_initializing (mg_ctx m c)" for c using k1 k2 by simp
  moreover have "tc_ref_count (mg_ctx m2 c) \<le> tc_ref_count (mg_ctx m c)" for c
    using k1 k2 by (meson order_trans)
  moreover have "set (get_list l m2) \<subseteq> set (get_list l m)" for l using k1 k2 by blast
  moreover have "P'' d \<Longrightarrow> d \<in> set (mg_ctxes m) \<Longrightarrow> d \<in> set (mg_ctxes m2)" for d using k1 k2 assms(3) by blast
  moreover have "Q'' l \<Longrightarrow> get_list l m2 = get_list l m" for l using k1 k2 assms(4) by simp
  moreover have "sess D m2 \<subseteq> sess D m" using k1 k2 by blast
  moreover have "mg_heap m2 a = mg_heap m a" if "a \<in> sess D m2" for a using k1 k2 that by (metis subsetD)
  ultimately show ?thesis unfolding kept_def by blast
qed

lemma kept_rk: "kept D P Q m m' \<Longrightarrow> rk R m' c = rk R m c" "kept D P Q m m' \<Longrightarrow> above R m' r l = above R m r l"
  by (simp_all add: kept_def rk_def above_def split: sess_list.splits)

lemma kept_valid: "kept D P Q m m' \<Longrightarrow> valid_list E m' l \<Longrightarrow> valid_list E m l"
  unfolding kept_def valid_list_def by blast

lemma kept_held: "kept D P Q m m' \<Longrightarrow> held_above R E L r m \<Longrightarrow> held_above R E L r m'"
  using kept_valid [of D P Q m m' E] kept_rk(2) [of D P Q m m' R]
  unfolding held_above_def kept_def by blast

lemma kept_quiet: "kept D P Q m m' \<Longrightarrow> mgr_quiet m \<Longrightarrow> mgr_quiet m'"
  unfolding kept_def mgr_quiet_def by auto

lemma held_above_mono: "held_above R D L r m \<Longrightarrow> r' \<le> r \<Longrightarrow> held_above R D L r' m"
  unfolding held_above_def above_def by (fastforce split: sess_list.splits)

lemma left_kept:
  assumes "mgr_inv R D L X m" "left l a m m'" "valid_list D m l" "a \<in> set (get_list l m)"
  shows "kept D (\<lambda>d. True) (\<lambda>l'. l' \<noteq> l) m m'"
proof -
  have "mg_heap m' b = mg_heap m b" if "b \<in> sess D m'" for b
    using assms(2) that inv_left(4) [OF assms] by (simp add: left_def)
  moreover have "set (get_list l' m') \<subseteq> set (get_list l' m)" for l'
    using assms(2) set_remove1_subset [of a "get_list l m"] by (simp add: left_def)
  ultimately show ?thesis using assms(2) inv_left(4) [OF assms] by (auto simp: kept_def left_def)
qed

lemma unref_kept: "kept D (\<lambda>d. True) (\<lambda>l. True) m (unref c m)"
  by (simp add: kept_def sess_def valid_list_def)

end
