(* ===== verification/Ta_Manager_Close.thy ===== *)
theory Ta_Manager_Close
  imports Ta_Manager_Inv
begin

unbundle bit_operations_syntax

text \<open>
  Closing sessions and destroying contexts end, keep the invariant and touch only what is below
  the closed session in the rank of applications.
\<close>

definition upto_rank :: "(u8 list \<Rightarrow> nat) \<Rightarrow> ta_mgr \<Rightarrow> nat \<Rightarrow> sess_list \<Rightarrow> bool" where
  "upto_rank R m r l \<longleftrightarrow> (case l of Nsec \<Rightarrow> True | OfTa d \<Rightarrow> r \<le> rk R m d)"

text \<open>What destroying the unregistered context \<open>c\<close> has to achieve.\<close>

definition destroyed :: "(u8 list \<Rightarrow> nat) \<Rightarrow> addr set \<Rightarrow> addr set \<Rightarrow> addr set \<Rightarrow> addr \<Rightarrow> ta_mgr \<Rightarrow> ta_mgr call \<Rightarrow> bool" where
  "destroyed R D L X c m r \<longleftrightarrow> (\<exists>m'. r = Returns m' \<and> mgr_inv R D L X m' \<and>
     kept D (\<lambda>d. rk R m c \<le> rk R m d) (\<lambda>l. upto_rank R m (rk R m c) l \<and> l \<noteq> OfTa c) m m')"

definition destroyable :: "(u8 list \<Rightarrow> nat) \<Rightarrow> addr set \<Rightarrow> addr set \<Rightarrow> addr set \<Rightarrow> nat \<Rightarrow> addr \<Rightarrow> ta_mgr \<Rightarrow> bool" where
  "destroyable R D L X n c m \<longleftrightarrow> mgr_inv R (insert c D) L X m \<and> mgr_quiet m \<and> c \<notin> D \<and>
     c \<notin> set (mg_ctxes m) \<and> card (sess (insert c D) m) < n \<and> held_above R (insert c D) L (rk R m c) m"

lemma unlink_kept: "kept D (\<lambda>d. d \<noteq> c) (\<lambda>l. True) m (unlink_ctx c m)"
  using set_remove1_subset [of c "mg_ctxes m"]
  by (auto simp: kept_def sess_def valid_list_def)

lemma kept_mono:
  "kept D P Q m m' \<Longrightarrow> (\<And>d. P' d \<Longrightarrow> P d) \<Longrightarrow> (\<And>l. Q' l \<Longrightarrow> Q l) \<Longrightarrow> kept D P' Q' m m'"
  unfolding kept_def by simp

lemma kept_upto: "kept D P Q m m' \<Longrightarrow> upto_rank R m' r l = upto_rank R m r l"
  by (simp add: upto_rank_def kept_rk split: sess_list.splits)

lemma close_ok:
  assumes inv: "mgr_inv R D L X m" and XL: "X \<subseteq> L" and q: "mgr_quiet m"
    and l: "valid_list D m l" "a \<in> set (get_list l m)" and aL: "a \<notin> L"
    and client: "check_client (mg_heap m a) clnt = TEE_SUCCESS"
    and held: "\<And>c. ss_ctx (mg_heap m a) = Some c \<Longrightarrow> held_above R D L (rk R m c) m"
    and Dst: "\<And>c m0. destroyable R D L X (card (sess D m)) c m0 \<Longrightarrow> destroyed R D L X c m0 (Dst c m0)"
  shows "\<exists>m'. close_with Dst e l (Some a) clnt m = Returns (TEE_SUCCESS, m') \<and> mgr_inv R D L X m' \<and>
    kept D (\<lambda>d. \<forall>c. ss_ctx (mg_heap m a) = Some c \<longrightarrow> rk R m c < rk R m d)
      (\<lambda>l'. l' \<noteq> l \<and> (\<forall>c. ss_ctx (mg_heap m a) = Some c \<longrightarrow> above R m (rk R m c) l')) m m' \<and>
    get_list l m' = remove1 a (get_list l m) \<and> a \<notin> sess D m'"
proof -
  have lo: "lists_ok D m" and co: "ctxs_ok D m" using inv by (simp_all add: mgr_inv_def)
  have ids: "ids_ok l m" using lo l(1) by (simp add: lists_ok_def)
  have as: "a \<in> sess D m" using l by (auto simp: sess_def)
  with inv aL have rest: "at_rest (mg_heap m a)" by (simp add: mgr_inv_def)
  have aX: "a \<notin> X" using aL XL by blast
  have ctx: "c \<in> set (mg_ctxes m)" if "ss_ctx (mg_heap m a) = Some c" for c
    using inv as aX that by (simp add: mgr_inv_def refs_ok_def)
  from close_with_left [OF ids l(2) rest, of clnt Dst e] q ctx client obtain m1 where left: "left l a m m1"
    and run: "close_with Dst e l (Some a) clnt m =
      (case ss_ctx (mg_heap m a) of None \<Rightarrow> Returns (TEE_SUCCESS, m1) | Some c \<Rightarrow> leave_context Dst c m1)"
    unfolding mgr_quiet_def by blast
  note k1 = left_kept [OF inv left l] and s1 = inv_left(4) [OF inv left l] and f = left_facts [OF left]
  have g1: "get_list l m1 = remove1 a (get_list l m)" using left by (simp add: left_def)
  show ?thesis
  proof (cases "ss_ctx (mg_heap m a)")
    case None
    have "kept D (\<lambda>d. \<forall>c. ss_ctx (mg_heap m a) = Some c \<longrightarrow> rk R m c < rk R m d)
      (\<lambda>l'. l' \<noteq> l \<and> (\<forall>c. ss_ctx (mg_heap m a) = Some c \<longrightarrow> above R m (rk R m c) l')) m m1"
      by (rule kept_mono [OF k1]) simp_all
    with None run inv_left_None [OF inv left l None] g1 s1 show ?thesis by auto
  next
    case (Some c)
    note i = inv_left_Some [OF inv left l Some aX]
    let ?m2 = "unref c m1"
    have k2: "kept D (\<lambda>d. True) (\<lambda>l'. l' \<noteq> l) m ?m2" by (rule kept_trans [OF k1 unref_kept]) simp_all
    have above: "above R m (rk R m c) l" using inv l Some by (auto simp: mgr_inv_def ranks_ok_def)
    have s2: "sess D ?m2 = sess D m - {a}" using s1 by (simp add: sess_def valid_list_def)
    have leave: "leave_context Dst c m1 = (if tc_ref_count (mg_ctx m c) = 1 \<and> \<not> keep_alive (ctx_flags m c)
        then bind_call (Dst c (unlink_ctx c ?m2)) (\<lambda>m. Returns (TEE_SUCCESS, m)) else Returns (TEE_SUCCESS, ?m2))"
      using i(2) by (auto simp: leave_context_def unref_def f Let_def)
    show ?thesis
    proof (cases "tc_ref_count (mg_ctx m c) = 1 \<and> \<not> keep_alive (ctx_flags m c)")
      case False
      with i(3) have "mgr_inv R D L X ?m2" by blast
      moreover have "kept D (\<lambda>d. \<forall>c. ss_ctx (mg_heap m a) = Some c \<longrightarrow> rk R m c < rk R m d)
        (\<lambda>l'. l' \<noteq> l \<and> (\<forall>c. ss_ctx (mg_heap m a) = Some c \<longrightarrow> above R m (rk R m c) l')) m ?m2"
        by (rule kept_mono [OF k2]) simp_all
      ultimately show ?thesis using False Some run leave g1 s2 by auto
    next
      case True
      let ?m0 = "unlink_ctx c ?m2"
      have cm: "c \<in> set (mg_ctxes ?m2)" "distinct (mg_ctxes ?m2)" using i(1) co by (simp_all add: f ctxs_ok_def)
      have s0: "sess (insert c D) ?m0 = sess D ?m2" by (simp add: sess_def valid_unlink [OF cm(2,1)])
      have k0: "kept D (\<lambda>d. d \<noteq> c) (\<lambda>l'. l' \<noteq> l) m ?m0" by (rule kept_trans [OF k2 unlink_kept]) simp_all
      note r0 = kept_rk [OF k0]
      have "held_above R (insert c D) L (rk R m c) ?m0"
        using kept_held [OF k2 held [OF Some]] kept_rk [OF k2]
        by (simp add: held_above_def valid_unlink [OF cm(2,1)] r0)
      moreover have "card (sess (insert c D) ?m0) < card (sess D m)"
        using as finite_sess [OF co] unfolding s0 s2 by (rule card_Diff1_less [rotated])
      moreover have "c \<notin> D" using i(1) co by (auto simp: ctxs_ok_def)
      ultimately have "destroyable R D L X (card (sess D m)) c ?m0"
        using i(4) True cm kept_quiet [OF k0 q] by (simp add: destroyable_def r0)
      from Dst [OF this] obtain m' where m': "Dst c ?m0 = Returns m'" "mgr_inv R D L X m'"
        and k': "kept D (\<lambda>d. rk R m c \<le> rk R m d) (\<lambda>l. upto_rank R m (rk R m c) l \<and> l \<noteq> OfTa c) ?m0 m'"
        by (auto simp: destroyed_def kept_upto [OF k0] r0)
      have up: "above R m (rk R m c) l' \<Longrightarrow> upto_rank R m (rk R m c) l' \<and> l' \<noteq> OfTa c" for l'
        by (cases l') (auto simp: above_def upto_rank_def)
      have "kept D (\<lambda>d. \<forall>c. ss_ctx (mg_heap m a) = Some c \<longrightarrow> rk R m c < rk R m d)
        (\<lambda>l'. l' \<noteq> l \<and> (\<forall>c. ss_ctx (mg_heap m a) = Some c \<longrightarrow> above R m (rk R m c) l')) m m'"
        by (rule kept_trans [OF k0 k']) (use Some up in auto)
      moreover have "get_list l m' = remove1 a (get_list l m)"
        using k' up [OF above] g1 by (simp add: kept_def)
      moreover have "a \<notin> sess D m'"
      proof -
        have "sess D m' \<subseteq> sess D ?m0" using k' by (simp add: kept_def)
        also have "\<dots> \<subseteq> sess D ?m2" using unlink_kept [of D c ?m2] by (simp add: kept_def)
        finally show ?thesis using s2 by blast
      qed
      ultimately show ?thesis using True Some run leave m' by auto
    qed
  qed
qed

lemma sess_mono: "D' \<subseteq> D \<Longrightarrow> sess D' m \<subseteq> sess D m"
  unfolding sess_def valid_list_def by blast

lemma kept_less:
  assumes k: "kept (insert c D) P Q m m'" and "\<And>d. P' d \<Longrightarrow> P d" and "\<And>l. Q' l \<Longrightarrow> Q l"
  shows "kept D P' Q' m m'"
proof -
  have "valid_list D m' l \<Longrightarrow> valid_list D m l" for l by (rule kept_valid [OF k])
  then have "sess D m' \<subseteq> sess D m" using k unfolding kept_def sess_def by blast
  moreover have "sess D m' \<subseteq> sess (insert c D) m'" by (rule sess_mono) blast
  ultimately show ?thesis using assms unfolding kept_def by (simp add: subset_iff)
qed

section \<open>Freeing a context\<close>

lemma destroyed_pseudo:
  assumes des: "destroyable R D L X n c m" and "\<not> tc_user (mg_ctx m c)"
  shows "destroyed R D L X c m (Returns m)"
proof -
  from assms have e: "tc_open_sessions (mg_ctx m c) = []" "c \<notin> set (mg_ctxes m)" "c \<notin> D"
    "mgr_inv R (insert c D) L X m"
    by (auto simp: destroyable_def mgr_inv_def ctxs_ok_def)
  have "insert c D - {c} = D" using e(3) by blast
  with inv_forget [OF e(4,1,2)] have "mgr_inv R D L X m" by simp
  then show ?thesis by (simp add: destroyed_def kept_def)
qed

lemma free_utc_ok:
  "X \<subseteq> L \<Longrightarrow> destroyable R D L X n c m \<Longrightarrow> destroyed R D L X c m (free_utc n e c m)"
proof (induction n arbitrary: D c m)
  case 0
  then show ?case by (simp add: destroyable_def)
next
  case (Suc n)
  note d = Suc.prems(2) [unfolded destroyable_def]
  have inv: "mgr_inv R (insert c D) L X m" and q: "mgr_quiet m" and c: "c \<notin> D" "c \<notin> set (mg_ctxes m)"
    and card: "card (sess (insert c D) m) \<le> n" and held: "held_above R (insert c D) L (rk R m c) m"
    using d by simp_all
  show ?case
  proof (cases "tc_open_sessions (mg_ctx m c)")
    case Nil
    have "mgr_inv R D L X m" using inv_forget [OF inv Nil c(2)] c(1) by simp
    then show ?thesis using Nil by (simp add: destroyed_def kept_def)
  next
    case (Cons a as)
    let ?Dst = "\<lambda>d m. if tc_user (mg_ctx m d) then free_utc n e d m else Returns m"
    have l: "valid_list (insert c D) m (OfTa c)" "a \<in> set (get_list (OfTa c) m)"
      using Cons by (simp_all add: valid_list_def)
    have "a \<notin> L" using held l unfolding held_above_def above_def by fastforce
    have below: "rk R m c' < rk R m c" if "ss_ctx (mg_heap m a) = Some c'" for c'
      using inv l that unfolding mgr_inv_def ranks_ok_def above_def by fastforce
    have Dst: "destroyed R (insert c D) L X c' m0 (?Dst c' m0)"
      if des: "destroyable R (insert c D) L X (card (sess (insert c D) m)) c' m0" for c' m0
    proof (cases "tc_user (mg_ctx m0 c')")
      case True
      have "destroyable R (insert c D) L X n c' m0" using des card by (simp add: destroyable_def)
      with Suc.IH [OF Suc.prems(1)] True show ?thesis by simp
    next
      case False
      with destroyed_pseudo [OF des] show ?thesis by simp
    qed
    have heldc: "held_above R (insert c D) L (rk R m c') m" if "ss_ctx (mg_heap m a) = Some c'" for c'
      using held_above_mono [OF held] below [OF that] by simp
    from close_ok [OF inv Suc.prems(1) q l \<open>a \<notin> L\<close>, of KERN_IDENTITY ?Dst, OF _ heldc Dst, of e]
    obtain m1 where run: "close_with ?Dst e (OfTa c) (Some a) KERN_IDENTITY m = Returns (TEE_SUCCESS, m1)"
      and inv1: "mgr_inv R (insert c D) L X m1" and k1: "kept (insert c D)
        (\<lambda>d. \<forall>c. ss_ctx (mg_heap m a) = Some c \<longrightarrow> rk R m c < rk R m d)
        (\<lambda>l'. l' \<noteq> OfTa c \<and> (\<forall>c. ss_ctx (mg_heap m a) = Some c \<longrightarrow> above R m (rk R m c) l')) m m1"
      and a1: "a \<notin> sess (insert c D) m1" by (auto simp: check_client_def)
    have fin: "finite (sess (insert c D) m)" using inv finite_sess by (simp add: mgr_inv_def)
    have "a \<in> sess (insert c D) m" using l unfolding sess_def by blast
    with k1 a1 have "sess (insert c D) m1 \<subset> sess (insert c D) m" unfolding kept_def by blast
    from psubset_card_mono [OF fin this] card have "card (sess (insert c D) m1) < n" by simp
    moreover have "c \<notin> set (mg_ctxes m1)" using k1 c(2) by (auto simp: kept_def)
    ultimately have "destroyable R D L X n c m1"
      using inv1 kept_quiet [OF k1 q] c(1) kept_held [OF k1 held] by (simp add: destroyable_def kept_rk [OF k1])
    from Suc.IH [OF Suc.prems(1) this] obtain m2 where m2: "free_utc n e c m1 = Returns m2" "mgr_inv R D L X m2"
      and k2: "kept D (\<lambda>d. rk R m c \<le> rk R m d) (\<lambda>l. upto_rank R m (rk R m c) l \<and> l \<noteq> OfTa c) m1 m2"
      by (auto simp: destroyed_def kept_upto [OF k1] kept_rk [OF k1])
    have up: "above R m (rk R m c') l" if "upto_rank R m (rk R m c) l" "ss_ctx (mg_heap m a) = Some c'" for l c'
      using that(1) below [OF that(2)] by (cases l) (auto simp: above_def upto_rank_def)
    have k1': "kept D (\<lambda>d. rk R m c \<le> rk R m d) (\<lambda>l. upto_rank R m (rk R m c) l \<and> l \<noteq> OfTa c) m m1"
      by (rule kept_less [OF k1]) (use below up in \<open>auto intro: less_le_trans\<close>)
    have "kept D (\<lambda>d. rk R m c \<le> rk R m d) (\<lambda>l. upto_rank R m (rk R m c) l \<and> l \<noteq> OfTa c) m m2"
      by (rule kept_trans [OF k1' k2]) simp_all
    then show ?thesis using Cons run m2 by (auto simp: destroyed_def)
  qed
qed

lemma destroy_context_ok:
  assumes "X \<subseteq> L" and des: "destroyable R D L X n c m"
  shows "destroyed R D L X c m (destroy_context n e c m)"
proof (cases "tc_user (mg_ctx m c)")
  case True
  with free_utc_ok [OF assms] show ?thesis by (simp add: destroy_context_def)
next
  case False
  with destroyed_pseudo [OF des] show ?thesis by (simp add: destroy_context_def)
qed

section \<open>Closing from outside\<close>

lemma card_sess: "card (sess {} m) < rounds m"
proof -
  have "sess {} m = set (all_sessions m)"
    by (auto simp: sess_def valid_list_def all_sessions_def)
  then show ?thesis using card_length [of "all_sessions m"] by (simp add: rounds_def)
qed

lemma destroyable_mono: "destroyable R D L X n c m \<Longrightarrow> n \<le> n' \<Longrightarrow> destroyable R D L X n' c m"
  by (simp add: destroyable_def)

text \<open>Closing a session that is at rest, where no session is in use.\<close>

lemma tee_ta_close_session_ok:
  assumes inv: "mgr_inv R {} {} {} m" and q: "mgr_quiet m" and l: "valid_list {} m l" "a \<in> set (get_list l m)"
    and client: "check_client (mg_heap m a) clnt = TEE_SUCCESS"
  shows "\<exists>m'. tee_ta_close_session e l (Some a) clnt m = Returns (TEE_SUCCESS, m') \<and> mgr_inv R {} {} {} m' \<and>
    kept {} (\<lambda>d. \<forall>c. ss_ctx (mg_heap m a) = Some c \<longrightarrow> rk R m c < rk R m d)
      (\<lambda>l'. l' \<noteq> l \<and> (\<forall>c. ss_ctx (mg_heap m a) = Some c \<longrightarrow> above R m (rk R m c) l')) m m' \<and>
    get_list l m' = remove1 a (get_list l m) \<and> a \<notin> sess {} m'"
  unfolding tee_ta_close_session_def
proof (rule close_ok [OF inv _ q l _ client])
  show "destroyed R {} {} {} c m0 (destroy_context (rounds m) e c m0)"
    if "destroyable R {} {} {} (card (sess {} m)) c m0" for c m0
    using destroy_context_ok destroyable_mono [OF that] card_sess [of m] by (simp add: less_imp_le)
qed (simp_all add: held_above_def)

end
