(* ===== verification/Ta_Manager_Invoke.thy ===== *)
theory Ta_Manager_Invoke
  imports Ta_Manager_Close
begin

unbundle bit_operations_syntax

text \<open>
  Destroying the context of a session in use, and invoking a session: what is kept, and what a
  panic of the application leads to.
\<close>

section \<open>Destroying the context of a session in use\<close>

lemma distinct_lists:
  assumes "lists_ok {} m" and "distinct cs" and "set cs \<subseteq> set (mg_ctxes m)"
  shows "distinct (mg_nsec m @ concat (map (\<lambda>d. tc_open_sessions (mg_ctx m d)) cs))"
  using assms(2,3)
proof (induction cs)
  case Nil
  have "distinct (get_list Nsec m)" using assms(1) by (simp add: lists_ok_def valid_list_def)
  then show ?case by simp
next
  case (Cons c cs)
  have v: "valid_list {} m Nsec" "\<And>d. d \<in> set (c # cs) \<Longrightarrow> valid_list {} m (OfTa d)"
    using Cons.prems by (auto simp: valid_list_def)
  have d: "distinct (get_list (OfTa c) m)" using assms(1) v(2) [of c] unfolding lists_ok_def by auto
  have "l = OfTa c" if "valid_list {} m l" "x \<in> set (get_list l m)" "x \<in> set (get_list (OfTa c) m)" for l x
    using assms(1) v(2) [of c] that unfolding lists_ok_def by simp
  from this [OF v(1)] this [OF v(2)] have "set (tc_open_sessions (mg_ctx m c)) \<inter> set (mg_nsec m) = {}"
    "\<And>d. d \<in> set cs \<Longrightarrow> set (tc_open_sessions (mg_ctx m c)) \<inter> set (tc_open_sessions (mg_ctx m d)) = {}"
    using Cons.prems(1) by fastforce+
  then show ?case using Cons d by auto
qed

lemma other_sessions_users:
  assumes inv: "mgr_inv R {} L {} m"
  shows "set (other_sessions a c m) = users {} {} m c - {a}" and "distinct (other_sessions a c m)"
proof -
  have co: "ctxs_ok {} m" and lo: "lists_ok {} m" using inv by (simp_all add: mgr_inv_def)
  have "x \<in> set (mg_nsec m @ concat (map (\<lambda>d. tc_open_sessions (mg_ctx m d)) (filter (\<lambda>d. tc_user (mg_ctx m d)) (mg_ctxes m))))
      \<longleftrightarrow> x \<in> sess {} m" for x
    using co by (auto simp: sess_def valid_list_def ctxs_ok_def)
  then show "set (other_sessions a c m) = users {} {} m c - {a}"
    unfolding other_sessions_def users_def by auto
  show "distinct (other_sessions a c m)" unfolding other_sessions_def
    by (intro distinct_filter distinct_lists [OF lo]) (use co in \<open>auto simp: ctxs_ok_def\<close>)
qed

lemma inv_unset_ctx:
  assumes inv: "mgr_inv R {} {a} {a} m"
  shows "mgr_inv R {} {a} {} (sess_set a (\<lambda>x. x\<lparr>ss_ctx := None\<rparr>) m)" (is "mgr_inv R {} {a} {} ?m")
proof -
  have v: "valid_list {} ?m l = valid_list {} m l" for l by (simp add: valid_list_def)
  have s: "sess {} ?m = sess {} m" by (simp add: sess_def v)
  have u: "users {} {} ?m c = users {} {a} m c" for c by (auto simp: users_def s)
  have r: "above R ?m n l = above R m n l" "rk R ?m c = rk R m c" for n l c
    by (simp_all add: above_def rk_def split: sess_list.splits)
  have i: "ids_ok l ?m = ids_ok l m" for l
    unfolding ids_ok_def by (simp, rule inj_on_cong) auto
  have "lists_ok {} ?m" using inv by (simp add: mgr_inv_def lists_ok_def v i)
  moreover have "refs_ok {} {} ?m" using inv by (auto simp: mgr_inv_def refs_ok_def s u)
  moreover have "ctxs_ok {} ?m" using inv by (simp add: mgr_inv_def ctxs_ok_def)
  moreover have "ranks_ok R {} ?m" using inv by (auto simp: mgr_inv_def ranks_ok_def v r)
  ultimately show ?thesis using inv by (simp add: mgr_inv_def s)
qed

text \<open>From \<open>m\<close> to \<open>m'\<close> contexts only lose references or go away.\<close>

definition shrunk :: "ta_mgr \<Rightarrow> ta_mgr \<Rightarrow> bool" where
  "shrunk m m' \<longleftrightarrow> mg_busy m' = mg_busy m \<and> set (mg_ctxes m') \<subseteq> set (mg_ctxes m) \<and>
     (\<forall>c. tc_uuid (mg_ctx m' c) = tc_uuid (mg_ctx m c) \<and> tc_user (mg_ctx m' c) = tc_user (mg_ctx m c) \<and>
          tc_is_initializing (mg_ctx m' c) = tc_is_initializing (mg_ctx m c) \<and>
          tc_ref_count (mg_ctx m' c) \<le> tc_ref_count (mg_ctx m c))"

lemma kept_shrunk: "kept D P Q m m' \<Longrightarrow> shrunk m m'"
  by (simp add: kept_def shrunk_def)

lemma shrunk_trans: "shrunk m m1 \<Longrightarrow> shrunk m1 m2 \<Longrightarrow> shrunk m m2"
  unfolding shrunk_def by (metis order_trans)

lemma shrunk_refl: "shrunk m m"
  by (simp add: shrunk_def)

lemma destroy_from_ok:
  assumes inv: "mgr_inv R {} {a} {} m" and q: "mgr_quiet m" and l: "valid_list {} m l" "a \<in> set (get_list l m)"
    and ctx: "ss_ctx (mg_heap m a) = Some c"
  shows "\<exists>m'. destroy_ta_ctx_from_session e a c m = Returns m' \<and> mgr_inv R {} {a} {} m' \<and> shrunk m m' \<and>
    c \<notin> set (mg_ctxes m') \<and> mg_heap m' a = (mg_heap m a)\<lparr>ss_ctx := None\<rparr> \<and> get_list l m' = get_list l m"
proof -
  let ?o = "other_sessions a c m"
  define m1 where "m1 = m\<lparr>mg_heap := (\<lambda>x. if x \<in> set ?o then (mg_heap m x)\<lparr>ss_ctx := None\<rparr> else mg_heap m x)\<rparr>"
  have m1 [simp]: "mg_ctxes m1 = mg_ctxes m" "mg_ctx m1 = mg_ctx m" "mg_busy m1 = mg_busy m" "mg_nsec m1 = mg_nsec m"
    "get_list l' m1 = get_list l' m" "ctx_flags m1 d = ctx_flags m d" for l' d by (simp_all add: m1_def)
  have h: "ss_id (mg_heap m1 b) = ss_id (mg_heap m b)" "at_rest (mg_heap m1 b) = at_rest (mg_heap m b)"
    "ss_ctx (mg_heap m1 b) = (if b \<in> set ?o then None else ss_ctx (mg_heap m b))" for b
    by (simp_all add: m1_def at_rest_def)
  note o = other_sessions_users [OF inv, of a c]
  have lo: "lists_ok {} m" and co: "ctxs_ok {} m" using inv by (simp_all add: mgr_inv_def)
  have ref: "\<And>b d. b \<in> sess {} m \<Longrightarrow> ss_ctx (mg_heap m b) = Some d \<Longrightarrow> d \<in> set (mg_ctxes m)"
    and cnt: "\<And>d. d \<in> set (mg_ctxes m) \<Longrightarrow> tc_ref_count (mg_ctx m d) = card (users {} {} m d)"
    using inv by (simp_all add: mgr_inv_def refs_ok_def)
  have as: "a \<in> sess {} m" using l by (auto simp: sess_def)
  with ctx have au: "a \<in> users {} {} m c" by (simp add: users_def)
  have c: "c \<in> set (mg_ctxes m)" using ref [OF as ctx] .
  have "1 + length ?o = tc_ref_count (mg_ctx m c)"
    using card.remove [OF finite_users [OF co] au] distinct_card [OF o(2)] cnt [OF c] by (simp add: o(1))
  then have run: "destroy_ta_ctx_from_session e a c m =
      bind_call (destroy_context (rounds m) e c (unlink_ctx c m1)) (\<lambda>m. Returns (sess_set a (\<lambda>x. x\<lparr>ss_ctx := None\<rparr>) m))"
    by (simp add: destroy_ta_ctx_from_session_def m1_def Let_def)
  have v: "valid_list {} m1 l = valid_list {} m l" for l by (simp add: valid_list_def)
  have s1: "sess {} m1 = sess {} m" by (simp add: sess_def v)
  have r: "above R m1 n l = above R m n l" "rk R m1 d = rk R m d" for n l d
    by (simp_all add: above_def rk_def split: sess_list.splits)
  have ids: "ids_ok l m1 = ids_ok l m" for l by (simp add: ids_ok_def h)
  have u1: "users {} {a} m1 d = (if d = c then {} else users {} {} m d)" for d
  proof -
    have "ss_ctx (mg_heap m1 b) = Some d \<longleftrightarrow> d \<noteq> c \<and> ss_ctx (mg_heap m b) = Some d" if "b \<in> sess {} m" "b \<noteq> a" for b
      using that by (auto simp: users_def h o(1))
    moreover have "d \<noteq> c \<Longrightarrow> ss_ctx (mg_heap m a) \<noteq> Some d" using ctx by simp
    ultimately show ?thesis unfolding users_def s1 by (cases "d = c") auto
  qed
  have inv0: "mgr_inv R (insert c {}) {a} {a} (unlink_ctx c m1)"
  proof (rule inv_unlink)
    show "lists_ok {} m1" using lo by (simp add: lists_ok_def v ids)
    show "ranks_ok R {} m1" using inv by (auto simp: mgr_inv_def ranks_ok_def v r h split: if_splits)
    show "at_rest (mg_heap m1 b)" if "b \<in> sess {} m1 - {a}" for b
      using inv that by (auto simp: mgr_inv_def s1 h)
    show "d \<in> set (mg_ctxes m1)" if "b \<in> sess {} m1 - {a}" "ss_ctx (mg_heap m1 b) = Some d" for b d
      using that ref [of b d] by (auto simp: s1 h split: if_splits)
  qed (use co c cnt u1 in \<open>auto simp: ctxs_ok_def\<close>)
  have dc: "distinct (mg_ctxes m1)" "c \<in> set (mg_ctxes m1)" using co c by (simp_all add: ctxs_ok_def)
  have k0: "shrunk m (unlink_ctx c m1)" using set_remove1_subset [of c "mg_ctxes m"] by (auto simp: shrunk_def)
  have q0: "mgr_quiet (unlink_ctx c m1)" using q set_remove1_subset [of c "mg_ctxes m"] by (auto simp: mgr_quiet_def)
  have above: "above R m (rk R m c) l'" if "valid_list {} m l'" "a \<in> set (get_list l' m)" for l'
    using inv that ctx unfolding mgr_inv_def ranks_ok_def by blast
  have rr: "rk R (unlink_ctx c m1) d = rk R m d" "above R (unlink_ctx c m1) n l' = above R m n l'"
      "upto_rank R (unlink_ctx c m1) n l' = upto_rank R m n l'" for d n l'
    by (simp_all add: rk_def above_def upto_rank_def split: sess_list.splits)
  have held: "held_above R (insert c {}) {a} (rk R m c) (unlink_ctx c m1)"
    unfolding held_above_def rr valid_unlink [OF dc] v using above by simp
  have "destroyable R {} {a} {a} (rounds m) c (unlink_ctx c m1)"
    using inv0 q0 held card_sess [of m] dc by (simp add: destroyable_def rr sess_def valid_unlink [OF dc] v)
  from destroy_context_ok [OF _ this, of e] obtain m2 where m2: "destroy_context (rounds m) e c (unlink_ctx c m1) = Returns m2"
    "mgr_inv R {} {a} {a} m2" and k2: "kept {} (\<lambda>d. rk R m c \<le> rk R m d)
      (\<lambda>l. upto_rank R m (rk R m c) l \<and> l \<noteq> OfTa c) (unlink_ctx c m1) m2"
    by (auto simp: destroyed_def rr)
  let ?m3 = "sess_set a (\<lambda>x. x\<lparr>ss_ctx := None\<rparr>) m2"
  have "upto_rank R m (rk R m c) l \<and> l \<noteq> OfTa c" using above [OF l] by (cases l) (auto simp: above_def upto_rank_def)
  with k2 have g: "get_list l m2 = get_list l m" by (simp add: kept_def)
  have "valid_list {} m2 l"
  proof (cases l)
    case (OfTa d)
    then have "rk R m c < rk R m d" "d \<in> set (mg_ctxes m)" using above [OF l] l(1) by (auto simp: above_def valid_list_def)
    then have "d \<in> set (mg_ctxes m2)" using k2 dc(1) by (simp add: kept_def) (metis less_irrefl less_imp_le in_set_remove1)
    with OfTa show ?thesis by (simp add: valid_list_def)
  qed (simp add: valid_list_def)
  then have "a \<in> sess {} m2" using g l by (auto simp: sess_def)
  with k2 have "mg_heap m2 a = mg_heap m1 a" by (simp add: kept_def)
  moreover have "a \<notin> set ?o" using o(1) by blast
  ultimately have "mg_heap m2 a = mg_heap m a" by (simp add: m1_def)
  moreover have "shrunk m ?m3" using shrunk_trans [OF k0 kept_shrunk [OF k2]] by (simp add: shrunk_def)
  moreover have "c \<notin> set (mg_ctxes m2)" using k2 dc(1) by (auto simp: kept_def)
  ultimately show ?thesis using run m2(1) inv_unset_ctx [OF m2(2)] g by auto
qed

section \<open>Flags and instances\<close>

text \<open>
  At rest every context has the flags \<open>FL\<close> of its application and is initialized; an application
  without multiple sessions has one, and one with a single instance has one context.
\<close>

definition extra :: "(u8 list \<Rightarrow> u32) \<Rightarrow> ta_mgr \<Rightarrow> bool" where
  "extra FL m \<longleftrightarrow> mgr_quiet m \<and>
     (\<forall>c. c \<in> set (mg_ctxes m) \<longrightarrow> ctx_flags m c = FL (tc_uuid (mg_ctx m c)) \<and> \<not> tc_is_initializing (mg_ctx m c)) \<and>
     (\<forall>c. c \<in> set (mg_ctxes m) \<longrightarrow> FL (tc_uuid (mg_ctx m c)) AND TA_FLAG_SINGLE_INSTANCE \<noteq> 0 \<longrightarrow>
        FL (tc_uuid (mg_ctx m c)) AND TA_FLAG_MULTI_SESSION = 0 \<longrightarrow> tc_ref_count (mg_ctx m c) \<le> 1) \<and>
     (\<forall>c d. c \<in> set (mg_ctxes m) \<longrightarrow> d \<in> set (mg_ctxes m) \<longrightarrow> tc_uuid (mg_ctx m c) = tc_uuid (mg_ctx m d) \<longrightarrow>
        FL (tc_uuid (mg_ctx m c)) AND TA_FLAG_SINGLE_INSTANCE \<noteq> 0 \<longrightarrow> c = d)"

lemma shrunk_extra:
  assumes sh: "shrunk m m'" and ex: "extra FL m"
  shows "extra FL m'"
proof -
  have f: "ctx_flags m' c = ctx_flags m c" "tc_uuid (mg_ctx m' c) = tc_uuid (mg_ctx m c)"
    "tc_is_initializing (mg_ctx m' c) = tc_is_initializing (mg_ctx m c)" "mg_busy m' = mg_busy m"
    "tc_ref_count (mg_ctx m' c) \<le> tc_ref_count (mg_ctx m c)"
    "c \<in> set (mg_ctxes m') \<Longrightarrow> c \<in> set (mg_ctxes m)" for c
    using sh by (auto simp: shrunk_def ctx_flags_def)
  have "mgr_quiet m'" using ex f(4,6) by (simp add: extra_def mgr_quiet_def)
  moreover have r: "tc_ref_count (mg_ctx m' c) \<le> 1" if "tc_ref_count (mg_ctx m c) \<le> 1" for c
    using f(5) [of c] that by simp
  ultimately show ?thesis using ex unfolding extra_def f(1-3) by (meson f(6) r)
qed

section \<open>Invoking a session\<close>

lemma enter_invoke_cmd_simps:
  "mg_ctxes (snd (enter_invoke_cmd e a c m)) = mg_ctxes m" "mg_busy (snd (enter_invoke_cmd e a c m)) = mg_busy m"
  "get_list l (snd (enter_invoke_cmd e a c m)) = get_list l m"
  "b \<noteq> a \<Longrightarrow> mg_heap (snd (enter_invoke_cmd e a c m)) b = mg_heap m b"
  "ss_ctx (mg_heap (snd (enter_invoke_cmd e a c m)) a) = ss_ctx (mg_heap m a)"
  "ss_id (mg_heap (snd (enter_invoke_cmd e a c m)) a) = ss_id (mg_heap m a)"
  "tc_uuid (mg_ctx (snd (enter_invoke_cmd e a c m)) d) = tc_uuid (mg_ctx m d)"
  "tc_user (mg_ctx (snd (enter_invoke_cmd e a c m)) d) = tc_user (mg_ctx m d)"
  "tc_ref_count (mg_ctx (snd (enter_invoke_cmd e a c m)) d) = tc_ref_count (mg_ctx m d)"
  "tc_is_initializing (mg_ctx (snd (enter_invoke_cmd e a c m)) d) = tc_is_initializing (mg_ctx m d)"
  "locked (mg_heap (snd (enter_invoke_cmd e a c m)) a) = locked (mg_heap m a)"
  by (simp_all add: enter_invoke_cmd_def user_ta_enter_def locked_def split: prod.splits)

lemma set_timeout_ids [simp]:
  "ss_ctx (mg_heap (set_timeout e a to m) b) = ss_ctx (mg_heap m b)"
  "ss_id (mg_heap (set_timeout e a to m) b) = ss_id (mg_heap m b)"
  by (simp_all add: set_timeout_def set_invoke_timeout_def)

text \<open>The state after the application was entered and left, before a panic is looked at.\<close>

definition invoked :: "ta_env \<Rightarrow> addr \<Rightarrow> addr \<Rightarrow> u32 \<Rightarrow> ta_mgr \<Rightarrow> ta_mgr" where
  "invoked e a c to m = (snd (enter_invoke_cmd e a c (set_timeout e a to (m\<lparr>mg_busy := entered c (mg_busy m)\<rparr>))))
     \<lparr>mg_busy := mg_busy m\<rparr>"

lemma invoked_ok:
  assumes inv: "mgr_inv R {} {a} {} m"
  shows "mgr_inv R {} {a} {} (invoked e a c to m)" and "shrunk m (invoked e a c to m)"
    and "ss_ctx (mg_heap (invoked e a c to m) a) = ss_ctx (mg_heap m a)"
    and "get_list l (invoked e a c to m) = get_list l m" and "valid_list {} (invoked e a c to m) l = valid_list {} m l"
    and "locked (mg_heap (invoked e a c to m) a) = locked (mg_heap m a)"
proof -
  note simps = invoked_def enter_invoke_cmd_simps ctx_flags_def
  show "mgr_inv R {} {a} {} (invoked e a c to m)"
  proof (rule inv_cong [OF inv])
    fix b assume "b \<in> sess {} m"
    then have "b \<noteq> a \<Longrightarrow> at_rest (mg_heap m b)" using inv by (simp add: mgr_inv_def)
    then show "ss_ctx (mg_heap (invoked e a c to m) b) = ss_ctx (mg_heap m b) \<and>
        ss_id (mg_heap (invoked e a c to m) b) = ss_id (mg_heap m b) \<and>
        (b \<notin> {a} \<longrightarrow> at_rest (mg_heap (invoked e a c to m) b))"
      by (cases "b = a") (simp_all add: simps)
  qed (simp_all add: simps)
qed (simp_all add: invoked_def enter_invoke_cmd_simps shrunk_def valid_list_def)

lemma invoke_eq:
  assumes inv: "mgr_inv R {} {a} {} m" and q: "mgr_quiet m" and a: "a \<in> sess {} m"
  shows "tee_ta_invoke_command e a clnt to m =
    (if check_client (mg_heap m a) clnt \<noteq> TEE_SUCCESS then Returns (TEE_ERROR_BAD_PARAMETERS, m)
     else case ss_ctx (mg_heap m a) of None \<Rightarrow> Returns (TEE_ERROR_TARGET_DEAD, m)
     | Some c \<Rightarrow>
         let m' = (if tc_panicked (mg_ctx m c) then m else invoked e a c to m) in
         if tc_panicked (mg_ctx m' c)
         then bind_call (destroy_ta_ctx_from_session e a c m') (\<lambda>m. Returns (TEE_ERROR_TARGET_DEAD, m))
         else Returns (fst (en_enter e), m'))"
proof (cases "ss_ctx (mg_heap m a)")
  case None
  then show ?thesis by (simp add: tee_ta_invoke_command_def check_params_def)
next
  case (Some c)
  have "c \<in> set (mg_ctxes m)" using inv a Some by (simp add: mgr_inv_def refs_ok_def)
  with q have b: "lock_free (mg_busy m)" "quiet (mg_busy m) c" by (simp_all add: mgr_quiet_def)
  let ?m2 = "snd (enter_invoke_cmd e a c (set_timeout e a to (m\<lparr>mg_busy := entered c (mg_busy m)\<rparr>)))"
  have "clear_busy c ?m2 = Returns (invoked e a c to m)"
    unfolding invoked_def by (rule clear_busy_entered [OF _ b]) (simp add: enter_invoke_cmd_simps)
  moreover have "\<not> tc_panicked (mg_ctx (invoked e a c to m) c) \<Longrightarrow> \<not> tc_panicked (mg_ctx m c) \<Longrightarrow>
      enter_invoke_cmd e a c (set_timeout e a to (m\<lparr>mg_busy := entered c (mg_busy m)\<rparr>)) = (fst (en_enter e), ?m2)"
    by (auto simp: enter_invoke_cmd_def user_ta_enter_def invoked_def split: prod.splits if_splits)
  ultimately show ?thesis using Some set_busy_quiet [OF b]
    by (simp add: tee_ta_invoke_command_def check_params_def Let_def split_beta)
      (metis (no_types, lifting) fst_conv)
qed

lemma invoke_ok:
  assumes inv: "mgr_inv R {} {a} {} m" and ex: "extra FL m" and l: "valid_list {} m l" "a \<in> set (get_list l m)"
    and locked: "locked (mg_heap m a)"
  shows "\<exists>res m'. tee_ta_invoke_command e a clnt to m = Returns (res, m') \<and> mgr_inv R {} {a} {} m' \<and> extra FL m' \<and>
    locked (mg_heap m' a)"
proof -
  have q: "mgr_quiet m" using ex by (simp add: extra_def)
  have a: "a \<in> sess {} m" using l by (auto simp: sess_def)
  note eq = invoke_eq [OF inv q a, of e clnt to]
  show ?thesis
  proof (cases "check_client (mg_heap m a) clnt \<noteq> TEE_SUCCESS \<or> ss_ctx (mg_heap m a) = None")
    case True
    then show ?thesis using eq inv ex locked by auto
  next
    case False
    then obtain c where c: "ss_ctx (mg_heap m a) = Some c" by auto
    define m' where "m' = (if tc_panicked (mg_ctx m c) then m else invoked e a c to m)"
    have m': "mgr_inv R {} {a} {} m'" "shrunk m m'" "ss_ctx (mg_heap m' a) = Some c" "get_list l m' = get_list l m"
      "valid_list {} m' l" "locked (mg_heap m' a)"
      using invoked_ok [OF inv, where e = e and c = c and to = to] inv c l locked by (simp_all add: m'_def shrunk_refl)
    have ex': "extra FL m'" using shrunk_extra [OF m'(2) ex] .
    then have "mgr_quiet m'" by (simp add: extra_def)
    from destroy_from_ok [OF m'(1) this m'(5) _ m'(3), of e] l(2) m'(4) obtain m2 where
      "destroy_ta_ctx_from_session e a c m' = Returns m2" "mgr_inv R {} {a} {} m2" "shrunk m' m2"
      "mg_heap m2 a = (mg_heap m' a)\<lparr>ss_ctx := None\<rparr>" by auto
    moreover from this m'(6) have "locked (mg_heap m2 a)" by (simp add: locked_def)
    ultimately show ?thesis using False c eq m' ex' shrunk_extra [OF _ ex', of m2]
      by (auto simp: m'_def [symmetric] Let_def)
  qed
qed

lemma inv_lock:
  assumes "mgr_inv R {} {} {} m"
  shows "mgr_inv R {} {a} {} (sess_set a lock_session m)"
    and "mgr_inv R {} {a} {} (sess_set a (\<lambda>x. x\<lparr>ss_ref_count := 1\<rparr>) m)"
  by (rule inv_cong [OF assms]; use assms in \<open>auto simp: mgr_inv_def\<close>)+

lemma inv_unlock:
  assumes "mgr_inv R {} {a} {} m" and "\<not> ss_unlink (mg_heap m a)"
  shows "mgr_inv R {} {} {} (sess_set a unlock_session m)"
  by (rule inv_cong [OF assms(1)]) (use assms in \<open>auto simp: mgr_inv_def unlock_session_def at_rest_def\<close>)

lemma sess_set_shrunk: "shrunk m (sess_set a f m)"
  by (simp add: shrunk_def)

end
