(* ===== verification/Ta_Manager_Open.thy ===== *)
theory Ta_Manager_Open
  imports Ta_Manager_Invoke
begin

unbundle bit_operations_syntax

text \<open>
  Opening a session: the invariant on every path, and the one path that does not return.
\<close>

section \<open>Opening a session\<close>

text \<open>A session without context at the end of a list.\<close>

lemma inv_add_session:
  assumes inv: "mgr_inv R {} {} {} m" and fresh: "a \<notin> sess {} m"
    and l: "valid_list {} m l" "\<And>c. l = OfTa c \<Longrightarrow> tc_user (mg_ctx m c)"
    and id: "ss_id x \<notin> used_ids (sess_view l m)" and x: "ss_ctx x = None"
    and s: "open_sessions s = get_list l m @ [a]" "ss_heap s = (mg_heap m)(a := x)"
  shows "mgr_inv R {} {a} {} (sess_put l s m)"
proof -
  define m' where "m' = sess_put l s m"
  have c: "mg_ctxes m' = mg_ctxes m" "ctx_flags m' d = ctx_flags m d" "tc_user (mg_ctx m' d) = tc_user (mg_ctx m d)"
    "tc_uuid (mg_ctx m' d) = tc_uuid (mg_ctx m d)" "tc_ref_count (mg_ctx m' d) = tc_ref_count (mg_ctx m d)" for d
    by (simp_all add: m'_def)
  have v: "valid_list {} m' l' = valid_list {} m l'" for l' by (simp add: valid_list_def c)
  have g: "get_list l' m' = (if l' = l then get_list l m @ [a] else get_list l' m)" for l' by (simp add: s m'_def)
  have na: "valid_list {} m l' \<Longrightarrow> a \<notin> set (get_list l' m)" for l' using fresh unfolding sess_def by blast
  have ss: "sess {} m' = insert a (sess {} m)" using l(1) by (auto simp: sess_def v g split: if_splits)
  have h: "b \<noteq> a \<Longrightarrow> mg_heap m' b = mg_heap m b" "mg_heap m' a = x" for b by (simp_all add: s m'_def)
  have hs: "mg_heap m' b = mg_heap m b" if "b \<in> sess {} m" for b using h(1) fresh that by metis
  have u: "users {} {} m' c = users {} {} m c" for c using fresh x by (auto simp: users_def ss h(2) hs)
  have r: "above R m' n l' = above R m n l'" "rk R m' c = rk R m c" for n l' c
    by (simp_all add: above_def rk_def c split: sess_list.splits)
  have i: "lists_ok {} m" "refs_ok {} {} m" "ctxs_ok {} m" "ranks_ok R {} m"
    "\<And>b. b \<in> sess {} m \<Longrightarrow> at_rest (mg_heap m b)" using inv by (simp_all add: mgr_inv_def)
  have ids: "ids_ok l' m'" if "valid_list {} m l'" for l'
  proof -
    have "inj_on (\<lambda>b. ss_id (mg_heap m b)) (set (get_list l' m))" using i(1) that by (simp add: lists_ok_def ids_ok_def)
    moreover have e: "mg_heap m' b = mg_heap m b" if "b \<in> set (get_list l' m)" for b
      using hs [of b] that \<open>valid_list {} m l'\<close> unfolding sess_def by blast
    ultimately have "inj_on (\<lambda>b. ss_id (mg_heap m' b)) (set (get_list l' m))" by (subst inj_on_cong) auto
    moreover have "ss_id x \<notin> (\<lambda>b. ss_id (mg_heap m' b)) ` set (get_list l' m)" if "l' = l"
      using id e that by (auto simp: used_ids_def)
    ultimately show ?thesis using na [OF that] by (cases "l' = l") (auto simp: ids_ok_def g h(2))
  qed
  have "lists_ok {} m'"
    using i(1) ids na l(1) unfolding lists_ok_def v g by auto
  moreover have "refs_ok {} {} m'" using i(2) x by (auto simp: refs_ok_def u ss c h(2) hs)
  moreover have "ctxs_ok {} m'"
  proof -
    have "tc_open_sessions (mg_ctx m' c) = tc_open_sessions (mg_ctx m c)" if "\<not> tc_user (mg_ctx m c)" for c
      using g [of "OfTa c"] l(2) that by (cases "l = OfTa c") auto
    then show ?thesis using i(3) by (auto simp: ctxs_ok_def c)
  qed
  moreover have "ranks_ok R {} m'"
  proof -
    have "above R m (rk R m c) l'"
      if "valid_list {} m l'" "b \<in> set (get_list l' m')" "ss_ctx (mg_heap m' b) = Some c" for l' b c
    proof -
      have "b \<noteq> a" using that(3) x h(2) by auto
      then have "b \<in> set (get_list l' m)" "ss_ctx (mg_heap m b) = Some c"
        using that h(1) g [of l'] by (auto split: if_splits)
      with i(4) that(1) show ?thesis unfolding ranks_ok_def by blast
    qed
    then show ?thesis unfolding ranks_ok_def v r by blast
  qed
  ultimately show ?thesis unfolding m'_def [symmetric] using i(5) by (auto simp: mgr_inv_def ss hs)
qed

text \<open>The session gets a context that is registered already, or a new one.\<close>

lemma inv_attach:
  assumes inv: "mgr_inv R {} {a} {} m" and l: "valid_list {} m l" "a \<in> set (get_list l m)"
    and a: "ss_ctx (mg_heap m a) = None" and c: "c \<in> set (mg_ctxes m)" and rank: "above R m (rk R m c) l"
  shows "mgr_inv R {} {a} {} (sess_set a (\<lambda>x. x\<lparr>ss_ctx := Some c\<rparr>)
    (ctx_set c (\<lambda>x. x\<lparr>tc_ref_count := tc_ref_count x + 1\<rparr>) m))"
proof -
  define m' where "m' = sess_set a (\<lambda>x. x\<lparr>ss_ctx := Some c\<rparr>)
    (ctx_set c (\<lambda>x. x\<lparr>tc_ref_count := tc_ref_count x + 1\<rparr>) m)"
  have f: "mg_ctxes m' = mg_ctxes m" "get_list l' m' = get_list l' m" "ctx_flags m' d = ctx_flags m d"
    "tc_uuid (mg_ctx m' d) = tc_uuid (mg_ctx m d)" "tc_user (mg_ctx m' d) = tc_user (mg_ctx m d)"
    "tc_open_sessions (mg_ctx m' d) = tc_open_sessions (mg_ctx m d)"
    "tc_ref_count (mg_ctx m' d) = (if d = c then tc_ref_count (mg_ctx m c) + 1 else tc_ref_count (mg_ctx m d))" for l' d
    by (simp_all add: m'_def)
  have h: "ss_ctx (mg_heap m' b) = (if b = a then Some c else ss_ctx (mg_heap m b))"
    "ss_id (mg_heap m' b) = ss_id (mg_heap m b)" "at_rest (mg_heap m' b) = at_rest (mg_heap m b)" for b
    by (simp_all add: m'_def at_rest_def)
  have v: "valid_list {} m' l' = valid_list {} m l'" for l' by (simp add: valid_list_def f)
  have s: "sess {} m' = sess {} m" by (simp add: sess_def v f)
  have r: "above R m' n l' = above R m n l'" "rk R m' d = rk R m d" for n l' d
    by (simp_all add: above_def rk_def f split: sess_list.splits)
  have as: "a \<in> sess {} m" using l by (auto simp: sess_def)
  have u: "users {} {} m' d = (if d = c then insert a (users {} {} m c) else users {} {} m d)" for d
    using as a by (auto simp: users_def s h)
  have i: "lists_ok {} m" "refs_ok {} {} m" "ctxs_ok {} m" "ranks_ok R {} m"
    "\<And>b. b \<in> sess {} m - {a} \<Longrightarrow> at_rest (mg_heap m b)" using inv by (simp_all add: mgr_inv_def)
  have "lists_ok {} m'" using i(1) by (simp add: lists_ok_def v f ids_ok_def h)
  moreover have "refs_ok {} {} m'"
  proof -
    have "a \<notin> users {} {} m c" using a by (simp add: users_def)
    then have "card (insert a (users {} {} m c)) = Suc (card (users {} {} m c))" using finite_users [OF i(3)] by simp
    then show ?thesis using i(2) c by (auto simp: refs_ok_def s u f h split: if_splits)
  qed
  moreover have "ctxs_ok {} m'" using i(3) by (auto simp: ctxs_ok_def f)
  moreover have "ranks_ok R {} m'"
  proof -
    have "l' = l" if "valid_list {} m l'" "a \<in> set (get_list l' m)" for l'
      using i(1) l that unfolding lists_ok_def by blast
    then show ?thesis using i(4) rank by (auto simp: ranks_ok_def v r f h split: if_splits)
  qed
  ultimately show ?thesis unfolding m'_def [symmetric] using i(5) by (simp add: mgr_inv_def s h)
qed

lemma inv_new_context:
  assumes inv: "mgr_inv R {} {a} {} m" and l: "valid_list {} m l" "a \<in> set (get_list l m)"
    and a: "ss_ctx (mg_heap m a) = None" and c: "c \<notin> set (mg_ctxes m)" and rank: "above R m (R u) l"
  shows "mgr_inv R {} {a} {} (new_context c u user flags a m)"
proof -
  define m' where "m' = new_context c u user flags a m"
  have f: "mg_ctxes m' = mg_ctxes m @ [c]" "mg_nsec m' = mg_nsec m" "d \<noteq> c \<Longrightarrow> mg_ctx m' d = mg_ctx m d"
    "tc_uuid (mg_ctx m' c) = u" "tc_open_sessions (mg_ctx m' c) = []" "tc_ref_count (mg_ctx m' c) = 1"
    "d \<noteq> c \<Longrightarrow> ctx_flags m' d = ctx_flags m d" for d
    by (simp_all add: m'_def new_context_def ctx_flags_def ctx_upd_def)
  have h: "ss_ctx (mg_heap m' b) = (if b = a then Some c else ss_ctx (mg_heap m b))"
    "ss_id (mg_heap m' b) = ss_id (mg_heap m b)" "at_rest (mg_heap m' b) = at_rest (mg_heap m b)" for b
    by (simp_all add: m'_def new_context_def at_rest_def)
  have nc: "l' \<noteq> OfTa c" if "valid_list {} m l'" for l' using that c by (auto simp: valid_list_def)
  have v: "valid_list {} m' l' \<longleftrightarrow> valid_list {} m l' \<or> l' = OfTa c" for l' by (auto simp: valid_list_def f)
  have g: "get_list l' m' = (if l' = OfTa c then [] else get_list l' m)" for l' by (cases l') (auto simp: f)
  have s: "sess {} m' = sess {} m" using nc by (auto simp: sess_def v g)
  have rc: "rk R m' c = R u" "d \<noteq> c \<Longrightarrow> rk R m' d = rk R m d" for d by (simp_all add: rk_def f)
  have r: "above R m' n l' = above R m n l'" if "valid_list {} m l'" for n l'
    using nc [OF that] by (cases l') (auto simp: above_def rc)
  have as: "a \<in> sess {} m" using l by (auto simp: sess_def)
  have i: "lists_ok {} m" "refs_ok {} {} m" "ctxs_ok {} m" "ranks_ok R {} m"
    "\<And>b. b \<in> sess {} m - {a} \<Longrightarrow> at_rest (mg_heap m b)" using inv by (simp_all add: mgr_inv_def)
  have ref: "d \<in> set (mg_ctxes m)" if "b \<in> sess {} m" "ss_ctx (mg_heap m b) = Some d" for b d
    using i(2) that by (simp add: refs_ok_def)
  have u: "users {} {} m' d = (if d = c then {a} else users {} {} m d)" for d
    using as a ref [of _ c] c by (auto simp: users_def s h)
  have "lists_ok {} m'"
    using i(1) nc unfolding lists_ok_def v g ids_ok_def h by (auto split: if_splits)
  moreover have "refs_ok {} {} m'"
    using i(2) ref c by (auto simp: refs_ok_def s u f h split: if_splits)
  moreover have "ctxs_ok {} m'"
  proof -
    have "\<And>d. d \<in> set (mg_ctxes m) \<Longrightarrow> d \<noteq> c" using c by blast
    then show ?thesis using i(3) c by (auto simp: ctxs_ok_def f)
  qed
  moreover have "ranks_ok R {} m'"
  proof -
    have "above R m' (rk R m' d) l'"
      if p: "valid_list {} m' l'" "b \<in> set (get_list l' m')" "ss_ctx (mg_heap m' b) = Some d" for l' b d
    proof -
      have p': "valid_list {} m l'" "b \<in> set (get_list l' m)" using p g [of l'] v by (auto split: if_splits)
      show ?thesis
      proof (cases "b = a")
        case True
        then have "l' = l" using i(1) l p' unfolding lists_ok_def by blast
        moreover have "d = c" using True p(3) by (simp add: h)
        ultimately show ?thesis using rank r [OF l(1)] rc(1) by simp
      next
        case False
        then have d: "ss_ctx (mg_heap m b) = Some d" using p(3) by (simp add: h)
        then have "d \<noteq> c" using ref [of b d] p' c by (auto simp: sess_def)
        then show ?thesis using i(4) p' d r [OF p'(1)] by (auto simp: ranks_ok_def rc)
      qed
    qed
    then show ?thesis unfolding ranks_ok_def by blast
  qed
  ultimately show ?thesis unfolding m'_def [symmetric] using i(5) by (simp add: mgr_inv_def s h)
qed

section \<open>Finding the application\<close>

text \<open>A session that was opened and not yet put: one reference, not locked.\<close>

definition opened :: "tee_ta_session \<Rightarrow> bool" where
  "opened x \<longleftrightarrow> ss_ref_count x = 1 \<and> ss_lock_thread x = None \<and> \<not> ss_unlink x"

text \<open>The context that a new session of application \<open>u\<close> shares, if any.\<close>

definition shared_ctx :: "u8 list \<Rightarrow> ta_mgr \<Rightarrow> addr option" where
  "shared_ctx u m =
     (case tee_ta_context_find u m of
        None \<Rightarrow> None
      | Some c \<Rightarrow>
          if ctx_flags m c AND TA_FLAG_SINGLE_INSTANCE \<noteq> 0 \<and>
             (ctx_flags m c AND TA_FLAG_MULTI_SESSION \<noteq> 0 \<or> tc_ref_count (mg_ctx m c) = 0)
          then Some c else None)"

lemma context_find_Some:
  "tee_ta_context_find u m = Some c \<Longrightarrow> c \<in> set (mg_ctxes m) \<and> tc_uuid (mg_ctx m c) = u"
  by (auto simp: tee_ta_context_find_def find_Some_iff)

lemma context_find_None:
  "tee_ta_context_find u m = None \<longleftrightarrow> (\<forall>c. c \<in> set (mg_ctxes m) \<longrightarrow> tc_uuid (mg_ctx m c) \<noteq> u)"
  by (auto simp: tee_ta_context_find_def find_None_iff)

lemma shared_ctx_Some:
  "shared_ctx u m = Some c \<Longrightarrow> tee_ta_context_find u m = Some c \<and> ctx_flags m c AND TA_FLAG_SINGLE_INSTANCE \<noteq> 0 \<and>
     (ctx_flags m c AND TA_FLAG_MULTI_SESSION \<noteq> 0 \<or> tc_ref_count (mg_ctx m c) = 0)"
  by (auto simp: shared_ctx_def split: option.splits if_splits)

text \<open>The state with \<open>a\<close> in context \<open>c\<close>, which was there before.\<close>

abbreviation attach :: "addr \<Rightarrow> addr \<Rightarrow> ta_mgr \<Rightarrow> ta_mgr" where
  "attach a c m \<equiv> sess_set a (\<lambda>x. x\<lparr>ss_ctx := Some c\<rparr>) (ctx_set c (\<lambda>x. x\<lparr>tc_ref_count := tc_ref_count x + 1\<rparr>) m)"

lemma find_application_shared:
  "shared_ctx u m = Some c \<Longrightarrow> find_application e u a m = (TEE_SUCCESS, attach a c m)"
  using shared_ctx_Some [of u m c]
  by (auto simp: find_application_def tee_ta_init_session_with_context_def)

text \<open>The kinds of result otherwise: nothing found, a new pseudo application, a new user application.\<close>

lemma find_application_new:
  assumes "shared_ctx u m = None"
  obtains (fail) res f where "find_application e u a m = (res, sess_set a f m)" "res \<noteq> TEE_SUCCESS"
  | (pseudo) c flags where "find_application e u a m = (TEE_SUCCESS, new_context c u False flags a m)"
      "en_pseudo e u = Some flags" "en_ctx e = Some c"
      "\<And>d. tee_ta_context_find u m = Some d \<Longrightarrow> ctx_flags m d AND TA_FLAG_SINGLE_INSTANCE = 0"
  | (user) c where "find_application e u a m = (TEE_SUCCESS, new_context c u True 0 a m)"
      "en_pseudo e u = None" "en_ctx e = Some c"
      "\<And>d. tee_ta_context_find u m = Some d \<Longrightarrow> ctx_flags m d AND TA_FLAG_SINGLE_INSTANCE = 0"
proof -
  have id: "sess_set a (\<lambda>x. x) m = m" by (simp add: sess_set_def)
  show thesis
  proof (cases "\<exists>d. tee_ta_context_find u m = Some d \<and> ctx_flags m d AND TA_FLAG_SINGLE_INSTANCE \<noteq> 0")
    case True
    with assms have "find_application e u a m = (TEE_ERROR_BUSY, sess_set a (\<lambda>x. x) m)"
      by (auto simp: id find_application_def tee_ta_init_session_with_context_def shared_ctx_def split: if_splits)
    then show thesis by (rule fail) simp
  next
    case False
    then have first: "find_application e u a m = (case tee_ta_init_pseudo_ta_session e u a m of (res, m) \<Rightarrow>
        if res \<noteq> TEE_ERROR_ITEM_NOT_FOUND then (res, m) else tee_ta_init_user_ta_session e u a m)"
      by (auto simp: find_application_def tee_ta_init_session_with_context_def split: option.splits)
    have find: "tee_ta_context_find u m = Some d \<Longrightarrow> ctx_flags m d AND TA_FLAG_SINGLE_INSTANCE = 0" for d
      using False by blast
    show thesis
    proof (cases "en_ctx e")
      case None
      have "find_application e u a m = (TEE_ERROR_OUT_OF_MEMORY, sess_set a (\<lambda>x. x) m)"
        unfolding first by (simp add: None id tee_ta_init_pseudo_ta_session_def tee_ta_init_user_ta_session_def
            split: option.splits)
      then show thesis by (rule fail) simp
    next
      case (Some c)
      show thesis
      proof (cases "en_pseudo e u")
        case None
        then have u: "find_application e u a m = tee_ta_init_user_ta_session e u a m"
          unfolding first by (simp add: tee_ta_init_pseudo_ta_session_def)
        show thesis
        proof (cases "en_load e = TEE_SUCCESS")
          case True
          with u Some None find show thesis by (intro user) (simp_all add: tee_ta_init_user_ta_session_def)
        next
          case False
          with u Some show thesis by (intro fail) (simp_all add: tee_ta_init_user_ta_session_def)
        qed
      next
        fix flags assume "en_pseudo e u = Some flags"
        with Some find show thesis by (intro pseudo) (simp_all add: first tee_ta_init_pseudo_ta_session_def)
      qed
    qed
  qed
qed

section \<open>Initializing a session\<close>

text \<open>
  What a request to open a session of application \<open>u\<close> in list \<open>l\<close> assumes: allocated memory is not
  in use, an identifier is free, and the flags found are those of the application.
\<close>

definition env_ok :: "(u8 list \<Rightarrow> u32) \<Rightarrow> ta_env \<Rightarrow> sess_list \<Rightarrow> u8 list \<Rightarrow> ta_mgr \<Rightarrow> bool" where
  "env_ok FL e l u m \<longleftrightarrow>
     (\<forall>a. en_session e = Some a \<longrightarrow> a \<notin> sess {} m) \<and> (\<forall>c. en_ctx e = Some c \<longrightarrow> c \<notin> set (mg_ctxes m)) \<and>
     \<not> UNIV - {0} \<subseteq> used_ids (sess_view l m) \<and>
     (case en_pseudo e u of None \<Rightarrow> en_flags e | Some f \<Rightarrow> f) = FL u"

text \<open>A context of a user application that was made and not entered yet.\<close>

definition unloaded :: "(u8 list \<Rightarrow> u32) \<Rightarrow> u8 list \<Rightarrow> addr \<Rightarrow> ta_mgr \<Rightarrow> bool" where
  "unloaded FL u c m \<longleftrightarrow> extra FL (unlink_ctx c m) \<and> tc_uuid (mg_ctx m c) = u \<and> tc_user (mg_ctx m c) \<and>
     tc_is_initializing (mg_ctx m c) \<and> tc_ref_count (mg_ctx m c) = 1 \<and>
     tb_ctx (mg_busy m) c = \<lparr>cx_flags = 0, cx_busy = False, cx_initializing = True\<rparr> \<and>
     (\<forall>d. d \<in> set (mg_ctxes m) \<longrightarrow> tc_uuid (mg_ctx m d) = u \<longrightarrow> FL u AND TA_FLAG_SINGLE_INSTANCE \<noteq> 0 \<longrightarrow> d = c)"

lemma extra_attach:
  assumes ex: "extra FL m" and sh: "shared_ctx u m = Some c"
  shows "extra FL (attach a c m)"
proof -
  have c: "c \<in> set (mg_ctxes m)" "tc_uuid (mg_ctx m c) = u" using shared_ctx_Some [OF sh] context_find_Some [of u m c] by auto
  then have "ctx_flags m c = FL u" using ex by (auto simp: extra_def)
  then have "FL u AND TA_FLAG_MULTI_SESSION \<noteq> 0 \<or> tc_ref_count (mg_ctx m c) = 0"
    using shared_ctx_Some [OF sh] by simp
  then have r: "tc_ref_count (mg_ctx (attach a c m) d) \<le> 1"
    if "d \<in> set (mg_ctxes m)" "FL (tc_uuid (mg_ctx m d)) AND TA_FLAG_SINGLE_INSTANCE \<noteq> 0"
      "FL (tc_uuid (mg_ctx m d)) AND TA_FLAG_MULTI_SESSION = 0" for d
    using ex c(2) that by (cases "d = c") (simp_all add: extra_def)
  have f: "mg_ctxes (attach a c m) = mg_ctxes m" "mg_busy (attach a c m) = mg_busy m"
    "ctx_flags (attach a c m) d = ctx_flags m d" "tc_uuid (mg_ctx (attach a c m) d) = tc_uuid (mg_ctx m d)"
    "tc_is_initializing (mg_ctx (attach a c m) d) = tc_is_initializing (mg_ctx m d)" for d by simp_all
  show ?thesis using ex r unfolding extra_def mgr_quiet_def f by meson
qed

lemma single_none:
  assumes "extra FL m" and "\<And>d. tee_ta_context_find u m = Some d \<Longrightarrow> ctx_flags m d AND TA_FLAG_SINGLE_INSTANCE = 0"
    and "FL u AND TA_FLAG_SINGLE_INSTANCE \<noteq> 0" and "d \<in> set (mg_ctxes m)"
  shows "tc_uuid (mg_ctx m d) \<noteq> u"
proof
  assume "tc_uuid (mg_ctx m d) = u"
  then obtain c where c: "tee_ta_context_find u m = Some c" using assms(4) context_find_None [of u m] by fastforce
  with context_find_Some [OF c] assms(1) have "ctx_flags m c = FL u" by (auto simp: extra_def)
  with assms(2) [OF c] assms(3) show False by simp
qed

lemma new_context_simps:
  "mg_ctxes (new_context c u user flags a m) = mg_ctxes m @ [c]"
  "d \<noteq> c \<Longrightarrow> mg_ctx (new_context c u user flags a m) d = mg_ctx m d"
  "mg_ctx (new_context c u user flags a m) c = \<lparr>tc_uuid = u, tc_user = user, tc_panicked = False, tc_ref_count = 1,
     tc_is_initializing = user, tc_open_sessions = []\<rparr>"
  "d \<noteq> c \<Longrightarrow> tb_ctx (mg_busy (new_context c u user flags a m)) d = tb_ctx (mg_busy m) d"
  "tb_ctx (mg_busy (new_context c u user flags a m)) c = \<lparr>cx_flags = flags, cx_busy = False, cx_initializing = user\<rparr>"
  "lock_free (mg_busy (new_context c u user flags a m)) = lock_free (mg_busy m)"
  "mg_heap (new_context c u user flags a m) = (mg_heap m)(a := (mg_heap m a)\<lparr>ss_ctx := Some c\<rparr>)"
  "l \<noteq> OfTa c \<Longrightarrow> get_list l (new_context c u user flags a m) = get_list l m"
  by (cases l; simp add: new_context_def ctx_upd_def lock_free_def)+

lemma quiet_cong: "tb_ctx b c = tb_ctx b' c \<Longrightarrow> quiet b c = quiet b' c"
  by (simp add: quiet_def)

lemma extra_new:
  assumes ex: "extra FL m" and c: "c \<notin> set (mg_ctxes m)" 
    and single: "\<And>d. tee_ta_context_find u m = Some d \<Longrightarrow> ctx_flags m d AND TA_FLAG_SINGLE_INSTANCE = 0"
  shows "flags = FL u \<Longrightarrow> extra FL (new_context c u False flags a m)"
    and "unloaded FL u c (new_context c u True 0 a m)"
proof -
  note s = new_context_simps
  have d: "d \<in> set (mg_ctxes m) \<Longrightarrow> d \<noteq> c" for d using c by blast
  have q: "quiet (mg_busy (new_context c u user flags a m)) d = quiet (mg_busy m) d" if "d \<in> set (mg_ctxes m)" for d user flags
    by (rule quiet_cong) (simp add: s d [OF that])
  have fl: "ctx_flags (new_context c u user flags a m) d = ctx_flags m d" if "d \<in> set (mg_ctxes m)" for d user flags
    by (simp add: ctx_flags_def s d [OF that])
  have one: "FL u AND TA_FLAG_SINGLE_INSTANCE = 0" if "d \<in> set (mg_ctxes m)" "tc_uuid (mg_ctx m d) = u" for d
    using single_none [OF ex single _ that(1)] that(2) by blast
  have r: "remove1 c (mg_ctxes m @ [c]) = mg_ctxes m" using c by (simp add: remove1_append)
  show "extra FL (new_context c u False flags a m)" if "flags = FL u"
  proof -
    have "ctx_flags (new_context c u False flags a m) c = FL u" by (simp add: ctx_flags_def s that)
    moreover have "quiet (mg_busy (new_context c u False flags a m)) c" by (simp add: quiet_def s)
    moreover have "c = d" if "d \<in> set (mg_ctxes m)" "tc_uuid (mg_ctx m d) = u" "FL u AND TA_FLAG_SINGLE_INSTANCE \<noteq> 0" for d
      using one that by blast
    ultimately show ?thesis using ex q fl d unfolding extra_def mgr_quiet_def
      by (auto simp: s)
  qed
  have "extra FL (unlink_ctx c (new_context c u True 0 a m))"
    using ex q fl d unfolding extra_def mgr_quiet_def by (auto simp: s r)
  then show "unloaded FL u c (new_context c u True 0 a m)"
    using one d by (auto simp: unloaded_def s)
qed

lemma inv_unadd:
  assumes inv: "mgr_inv R {} {} {} m" and fresh: "a \<notin> sess {} m" and l: "valid_list {} m l"
    and s: "open_sessions s = get_list l m @ [a]" "ss_heap s = (mg_heap m)(a := x)"
    and m1: "m1 = sess_set a f (sess_put l s m)"
  shows "mgr_inv R {} {} {} (set_list l (remove1 a (get_list l m1)) m1)"
    and "shrunk m (set_list l (remove1 a (get_list l m1)) m1)"
proof -
  have "a \<notin> set (get_list l m)" using fresh l by (auto simp: sess_def)
  then have r: "remove1 a (get_list l m1) = get_list l m" by (simp add: m1 s remove1_append)
  have h: "mg_heap m1 b = mg_heap m b" if "b \<in> sess {} m" for b using fresh that by (auto simp: m1 s)
  show "shrunk m (set_list l (remove1 a (get_list l m1)) m1)" by (simp add: shrunk_def m1)
  show "mgr_inv R {} {} {} (set_list l (remove1 a (get_list l m1)) m1)"
    by (rule inv_cong [OF inv]; use inv in \<open>simp add: r h mgr_inv_def\<close>; simp add: m1)
qed

text \<open>What a successful initialization leaves: the session with its context, which is not loaded yet if it is new.\<close>

definition initialized :: "(u8 list \<Rightarrow> nat) \<Rightarrow> (u8 list \<Rightarrow> u32) \<Rightarrow> ta_env \<Rightarrow> sess_list \<Rightarrow> u8 list \<Rightarrow> addr \<Rightarrow> addr \<Rightarrow> ta_mgr \<Rightarrow> bool" where
  "initialized R FL e l u a c m \<longleftrightarrow> mgr_inv R {} {a} {} m \<and> valid_list {} m l \<and> a \<in> set (get_list l m) \<and>
     opened (mg_heap m a) \<and> ss_ctx (mg_heap m a) = Some c \<and> c \<in> set (mg_ctxes m) \<and>
     (extra FL m \<or> unloaded FL u c m \<and> en_flags e = FL u)"

lemma init_session_ok:
  assumes inv: "mgr_inv R {} {} {} m" and ex: "extra FL m"
    and l: "valid_list {} m l" "\<And>c. l = OfTa c \<Longrightarrow> tc_user (mg_ctx m c)"
    and env: "env_ok FL e l u m" and a: "en_session e = Some a" and rank: "above R m (R u) l"
  obtains (failed) res m' where "tee_ta_init_session e l u m = Returns (res, a, m')" "res \<noteq> TEE_SUCCESS"
      "mgr_inv R {} {} {} m'" "shrunk m m'" "shared_ctx u m = None"
  | (success) c m' where "tee_ta_init_session e l u m = Returns (TEE_SUCCESS, a, m')" "initialized R FL e l u a c m'"
      "tc_panicked (mg_ctx m' c) \<longleftrightarrow> shared_ctx u m = Some c \<and> tc_panicked (mg_ctx m c)"
      "\<And>d. shared_ctx u m = Some d \<Longrightarrow> c = d"
proof -
  have fresh: "a \<notin> sess {} m" using env a by (simp add: env_ok_def)
  from new_session_id_result [of "sess_view l m"] obtain i where
    i: "new_session_id (sess_view l m) = Some i" "if i = 0 then UNIV - {0} \<subseteq> used_ids (sess_view l m)
      else i \<notin> used_ids (sess_view l m)" by blast
  with env have i0: "i \<noteq> 0" "i \<notin> used_ids (sess_view l m)" by (auto simp: env_ok_def split: if_splits)
  then obtain s x where init: "init_session a (sess_view l m) = Some s"
    and s: "open_sessions s = get_list l m @ [a]" "ss_heap s = (mg_heap m)(a := x)"
    and x: "ss_id x = i" "ss_ctx x = None" "opened x"
    using i(1) by (auto simp: init_session_def opened_def)
  define m1 where "m1 = sess_put l s m"
  have sh: "shared_ctx u m1 = shared_ctx u m" "tee_ta_context_find u m1 = tee_ta_context_find u m"
    by (simp_all add: m1_def shared_ctx_def tee_ta_context_find_def cong: option.case_cong)
  have inv1: "mgr_inv R {} {a} {} m1" unfolding m1_def
    by (rule inv_add_session [OF inv fresh l _ x(2) s]) (use i0 x in auto)
  have ex1: "extra FL m1" by (rule shrunk_extra [OF _ ex]) (simp add: shrunk_def m1_def)
  have f1: "mg_ctxes m1 = mg_ctxes m" "get_list l m1 = get_list l m @ [a]" "mg_heap m1 a = x"
    "tc_panicked (mg_ctx m1 c) = tc_panicked (mg_ctx m c)" "rk R m1 c = rk R m c" for c
    by (simp_all add: m1_def s rk_def)
  have l1: "valid_list {} m1 l" "a \<in> set (get_list l m1)" "ss_ctx (mg_heap m1 a) = None"
    using l(1) x by (simp_all add: f1 valid_list_def)
  have rank1: "above R m1 (R u) l" using rank by (simp add: above_def f1 split: sess_list.splits)
  have run: "tee_ta_init_session e l u m = (case find_application e u a m1 of (res, m') \<Rightarrow>
      Returns (res, a, if res = TEE_SUCCESS then m' else set_list l (remove1 a (get_list l m')) m'))"
    using i(1) i0(1) init a by (simp add: tee_ta_init_session_def m1_def)
  have new: "l \<noteq> OfTa c" if "c \<notin> set (mg_ctxes m)" for c using that l(1) by (auto simp: valid_list_def)
  show thesis
  proof (cases "shared_ctx u m")
    case (Some c)
    then have c: "c \<in> set (mg_ctxes m)" "tc_uuid (mg_ctx m1 c) = u"
      using shared_ctx_Some [of u m c] context_find_Some [of u m c] by (auto simp: m1_def)
    then have "above R m1 (rk R m1 c) l" using rank1 by (simp add: rk_def)
    with inv_attach [OF inv1 l1] c have "mgr_inv R {} {a} {} (attach a c m1)" by (simp add: f1)
    moreover have "valid_list {} (attach a c m1) l" using l1 by (simp add: valid_list_def)
    ultimately have "initialized R FL e l u a c (attach a c m1)"
      using l1 c x extra_attach [OF ex1, of u c] Some by (simp add: initialized_def sh f1 opened_def)
    with Some find_application_shared [of u m1 c e a] run show thesis
      by (intro success [where c = c and m' = "attach a c m1"]) (auto simp: sh f1)
  next
    case None
    with sh have "shared_ctx u m1 = None" by simp
    then show thesis
    proof (cases rule: find_application_new [where e = e and a = a])
      case (fail res f)
      note un = inv_unadd [OF inv fresh l(1) s refl, of f]
      show thesis
        by (rule failed) (use un fail run None in \<open>auto simp: m1_def\<close>)
    next
      case (pseudo c flags)
      then have c: "c \<notin> set (mg_ctxes m1)" "flags = FL u" using env by (simp_all add: env_ok_def f1)
      have "initialized R FL e l u a c (new_context c u False flags a m1)"
        using inv_new_context [OF inv1 l1 c(1) rank1] extra_new(1) [OF ex1 c(1) pseudo(4) c(2)] l1 new [of c] c(1) x
        by (simp add: initialized_def new_context_simps valid_list_def opened_def f1)
      with pseudo run None show thesis
        by (intro success [where c = c and m' = "new_context c u False flags a m1"]) (auto simp: new_context_simps)
    next
      case (user c)
      then have c: "c \<notin> set (mg_ctxes m1)" "en_flags e = FL u" using env by (simp_all add: env_ok_def f1)
      have "initialized R FL e l u a c (new_context c u True 0 a m1)"
        using inv_new_context [OF inv1 l1 c(1) rank1] extra_new(2) [OF ex1 c(1) user(4)] l1 new [of c] c x
        by (simp add: initialized_def new_context_simps valid_list_def opened_def f1)
      with user run None show thesis
        by (intro success [where c = c and m' = "new_context c u True 0 a m1"]) (auto simp: new_context_simps)
    qed
  qed
qed

section \<open>Entering the application for the first time\<close>

text \<open>The middle of \<^verbatim>\<open>tee_ta_open_session\<close>: the application is entered and left.\<close>

definition enter_open :: "ta_env \<Rightarrow> addr \<Rightarrow> addr \<Rightarrow> u32 \<Rightarrow> ta_mgr \<Rightarrow> (tee_result \<times> ta_mgr) call" where
  "enter_open e a c to m =
     bind_call (try_set_busy c m) (\<lambda>(ok, m).
       if ok then (case enter_open_session e a c (set_timeout e a to m) of (res, m) \<Rightarrow>
         bind_call (clear_busy c m) (\<lambda>m. Returns (res, m)))
       else Returns (TEE_ERROR_BUSY, m))"

lemma bind_call_assoc: "bind_call (bind_call r f) g = bind_call r (\<lambda>x. bind_call (f x) g)"
  by (cases r) auto

lemma open_eq:
  "tee_ta_open_session e l u clnt to m =
     bind_call (tee_ta_init_session e l u m) (\<lambda>(res, a, m).
     if res \<noteq> TEE_SUCCESS then Returns (res, a, m)
     else case ss_ctx (mg_heap m a) of
       None \<Rightarrow> bind_call (tee_ta_close_session e l (Some a) KERN_IDENTITY m) (\<lambda>(r, m). Returns (TEE_ERROR_TARGET_DEAD, a, m))
     | Some c \<Rightarrow>
         if tc_panicked (mg_ctx m c)
         then bind_call (tee_ta_close_session e l (Some a) KERN_IDENTITY m) (\<lambda>(r, m). Returns (TEE_ERROR_TARGET_DEAD, a, m))
         else bind_call (enter_open e a c to (sess_set a (\<lambda>x. x\<lparr>ss_clnt_id := clnt\<rparr>) m)) (\<lambda>(res, m).
           bind_call (mg_put_session l a m) (\<lambda>m'.
           if tc_panicked (mg_ctx m c) \<or> res \<noteq> TEE_SUCCESS
           then bind_call (tee_ta_close_session e l (Some a) KERN_IDENTITY m') (\<lambda>(r, m). Returns (res, a, m))
           else Returns (res, a, m'))))"
  unfolding tee_ta_open_session_def enter_open_def bind_call_assoc Let_def
  by (intro arg_cong2 [where f = bind_call] refl ext)
    (auto simp: check_params_def Let_def split: option.splits prod.splits intro!: arg_cong2 [where f = bind_call] ext)

text \<open>A context that was loaded before.\<close>

lemma enter_open_loaded:
  assumes q: "lock_free (mg_busy m)" "quiet (mg_busy m) c" and "\<not> tc_is_initializing (mg_ctx m c)"
  shows "\<exists>res. enter_open e a c to m = Returns (res, invoked e a c to m)"
proof -
  let ?m1 = "set_timeout e a to (m\<lparr>mg_busy := entered c (mg_busy m)\<rparr>)"
  have "enter_open_session e a c ?m1 = enter_invoke_cmd e a c ?m1"
    using assms(3) by (simp add: enter_open_session_def enter_invoke_cmd_def)
  moreover have "clear_busy c (snd (enter_invoke_cmd e a c ?m1)) = Returns (invoked e a c to m)"
    unfolding invoked_def by (rule clear_busy_entered [OF _ q]) (simp add: enter_invoke_cmd_simps)
  ultimately show ?thesis by (simp add: enter_open_def try_set_busy_quiet [OF q] split_beta)
qed

text \<open>A context that is loaded now.\<close>

lemma try_set_busy_new:
  "tb_ctx (mg_busy m) c = \<lparr>cx_flags = 0, cx_busy = False, cx_initializing = True\<rparr> \<Longrightarrow> lock_free (mg_busy m) \<Longrightarrow>
     try_set_busy c m = Returns (True, m\<lparr>mg_busy := ctx_upd c (\<lambda>_. \<lparr>cx_flags = 0, cx_busy = True, cx_initializing = True\<rparr>) (mg_busy m)\<rparr>)"
  by (simp add: try_set_busy_def tee_ta_try_set_busy_def set_busy_init_def set_busy_lock_def set_busy_check_def
      has_single_instance_lock_def lock_free_def self_def set_busy_wait_def ctx_upd_def)

definition first_left :: "u32 \<Rightarrow> ta_ctx" where
  "first_left f = (if f AND TA_FLAG_CONCURRENT \<noteq> 0 then \<lparr>cx_flags = f, cx_busy = True, cx_initializing = True\<rparr>
     else \<lparr>cx_flags = f, cx_busy = False, cx_initializing = False\<rparr>)"

lemma clear_busy_new:
  assumes "mg_busy m = ctx_upd c (\<lambda>_. \<lparr>cx_flags = f, cx_busy = True, cx_initializing = True\<rparr>) b"
  shows "clear_busy c m = Returns (m\<lparr>mg_busy := ctx_upd c (\<lambda>_. first_left f) b\<rparr>)"
  using assms by (simp add: clear_busy_def tee_ta_clear_busy_def first_left_def ctx_upd_def Let_def)

lemma enter_open_new:
  assumes c: "tb_ctx (mg_busy m) c = \<lparr>cx_flags = 0, cx_busy = False, cx_initializing = True\<rparr>" "lock_free (mg_busy m)"
    "tc_user (mg_ctx m c)" "tc_is_initializing (mg_ctx m c)"
  shows "\<exists>res m'. enter_open e a c to m = Returns (res, m') \<and>
    (if tc_is_initializing (mg_ctx m' c) then res \<noteq> TEE_SUCCESS \<and> mg_busy m' = ctx_upd c (\<lambda>_. first_left 0) (mg_busy m)
     else mg_busy m' = ctx_upd c (\<lambda>_. first_left (en_flags e)) (mg_busy m)) \<and>
    mg_ctxes m' = mg_ctxes m \<and> (\<forall>l. get_list l m' = get_list l m) \<and> (\<forall>b. b \<noteq> a \<longrightarrow> mg_heap m' b = mg_heap m b) \<and>
    ss_ctx (mg_heap m' a) = ss_ctx (mg_heap m a) \<and> ss_id (mg_heap m' a) = ss_id (mg_heap m a) \<and>
    opened (mg_heap m' a) = opened (mg_heap m a) \<and>
    (\<forall>d. tc_uuid (mg_ctx m' d) = tc_uuid (mg_ctx m d) \<and> tc_user (mg_ctx m' d) = tc_user (mg_ctx m d) \<and>
       tc_ref_count (mg_ctx m' d) = tc_ref_count (mg_ctx m d) \<and>
       (d \<noteq> c \<longrightarrow> tc_is_initializing (mg_ctx m' d) = tc_is_initializing (mg_ctx m d)))"
proof -
  define m1 where "m1 = set_timeout e a to
    (m\<lparr>mg_busy := ctx_upd c (\<lambda>_. \<lparr>cx_flags = 0, cx_busy = True, cx_initializing = True\<rparr>) (mg_busy m)\<rparr>)"
  have m1: "mg_busy m1 = ctx_upd c (\<lambda>_. \<lparr>cx_flags = 0, cx_busy = True, cx_initializing = True\<rparr>) (mg_busy m)"
    "mg_ctxes m1 = mg_ctxes m" "mg_ctx m1 = mg_ctx m" "get_list l m1 = get_list l m" "b \<noteq> a \<Longrightarrow> mg_heap m1 b = mg_heap m b"
    "ss_ctx (mg_heap m1 a) = ss_ctx (mg_heap m a)" "ss_id (mg_heap m1 a) = ss_id (mg_heap m a)"
    "opened (mg_heap m1 a) = opened (mg_heap m a)" for l b
    by (simp_all add: m1_def opened_def set_timeout_def set_invoke_timeout_def)
  have run: "enter_open e a c to m = (case enter_open_session e a c m1 of (res, m) \<Rightarrow>
      bind_call (clear_busy c m) (\<lambda>m. Returns (res, m)))"
    using try_set_busy_new [OF c(1,2)] by (simp add: enter_open_def m1_def)
  show ?thesis
  proof (cases "en_ldelf e \<noteq> TEE_SUCCESS \<or> en_flags e AND NOT TA_FLAGS_MASK \<noteq> 0")
    case True
    let ?res = "if en_ldelf e \<noteq> TEE_SUCCESS then en_ldelf e else TEE_ERROR_BAD_FORMAT"
    have "init_with_ldelf e c m1 = (?res, m1)" "?res \<noteq> TEE_SUCCESS" using True by (auto simp: init_with_ldelf_def)
    then have "enter_open_session e a c m1 = (?res, m1)" "?res \<noteq> TEE_SUCCESS"
      using c by (simp_all add: enter_open_session_def m1)
    then show ?thesis using run clear_busy_new [OF m1(1)] c by (simp add: m1)
  next
    case False
    define m2 where "m2 = ctx_set c (\<lambda>x. x\<lparr>tc_is_initializing := False\<rparr>)
      (m1\<lparr>mg_busy := load_flags (en_flags e) c (mg_busy m1)\<rparr>)"
    have "enter_open_session e a c m1 = user_ta_enter a c (en_enter e) m2"
      using False c by (simp add: enter_open_session_def init_with_ldelf_def m1 m2_def)
    moreover have "mg_busy (snd (user_ta_enter a c (en_enter e) m2)) =
        ctx_upd c (\<lambda>_. \<lparr>cx_flags = en_flags e, cx_busy = True, cx_initializing = True\<rparr>) (mg_busy m)"
      by (simp add: user_ta_enter_def m2_def m1 load_flags_def ctx_upd_def split: prod.splits)
    ultimately have "enter_open e a c to m = Returns (fst (user_ta_enter a c (en_enter e) m2),
      (snd (user_ta_enter a c (en_enter e) m2))\<lparr>mg_busy := ctx_upd c (\<lambda>_. first_left (en_flags e)) (mg_busy m)\<rparr>)"
      using run clear_busy_new [of "snd (user_ta_enter a c (en_enter e) m2)"] by (simp add: split_beta)
    then show ?thesis using m1 by (simp add: user_ta_enter_def m2_def opened_def split: prod.splits)
  qed
qed

lemma busy_upd_simps:
  "tb_ctx (ctx_upd c f b) d = (if d = c then f (tb_ctx b c) else tb_ctx b d)" "lock_free (ctx_upd c f b) = lock_free b"
  by (simp_all add: ctx_upd_def lock_free_def)

lemma quiet_first_left: "quiet (ctx_upd c (\<lambda>_. first_left f) b) c"
  by (simp add: quiet_def busy_upd_simps first_left_def)

lemma first_left_flags [simp]: "cx_flags (first_left f) = f"
  by (simp add: first_left_def)

lemma extra_add:
  assumes ex: "extra FL (unlink_ctx c m)" and d: "distinct (mg_ctxes m)" and q: "quiet (mg_busy m) c"
    and c: "ctx_flags m c = FL (tc_uuid (mg_ctx m c))" "\<not> tc_is_initializing (mg_ctx m c)" "tc_ref_count (mg_ctx m c) \<le> 1"
    and one: "\<And>d. d \<in> set (mg_ctxes m) \<Longrightarrow> tc_uuid (mg_ctx m d) = tc_uuid (mg_ctx m c) \<Longrightarrow>
      FL (tc_uuid (mg_ctx m c)) AND TA_FLAG_SINGLE_INSTANCE \<noteq> 0 \<Longrightarrow> d = c"
  shows "extra FL m"
proof -
  have mem: "d \<in> set (remove1 c (mg_ctxes m)) \<longleftrightarrow> d \<in> set (mg_ctxes m) \<and> d \<noteq> c" for d using d by auto
  note e = ex [unfolded extra_def mgr_quiet_def, simplified, unfolded mem]
  have q': "quiet (mg_busy m) d" "ctx_flags m d = FL (tc_uuid (mg_ctx m d))" "\<not> tc_is_initializing (mg_ctx m d)"
    "FL (tc_uuid (mg_ctx m d)) AND TA_FLAG_SINGLE_INSTANCE \<noteq> 0 \<Longrightarrow>
      FL (tc_uuid (mg_ctx m d)) AND TA_FLAG_MULTI_SESSION = 0 \<Longrightarrow> tc_ref_count (mg_ctx m d) \<le> 1"
    if "d \<in> set (mg_ctxes m)" for d
  proof -
    show "quiet (mg_busy m) d" using e q that by (cases "d = c") blast+
    show "ctx_flags m d = FL (tc_uuid (mg_ctx m d))" using e c(1) that by (cases "d = c") blast+
    show "\<not> tc_is_initializing (mg_ctx m d)" using e c(2) that by (cases "d = c") blast+
    show "FL (tc_uuid (mg_ctx m d)) AND TA_FLAG_SINGLE_INSTANCE \<noteq> 0 \<Longrightarrow>
        FL (tc_uuid (mg_ctx m d)) AND TA_FLAG_MULTI_SESSION = 0 \<Longrightarrow> tc_ref_count (mg_ctx m d) \<le> 1"
      using e c(3) that by (cases "d = c") (blast, simp only: One_nat_def, blast)
  qed
  have "d = d'" if "d \<in> set (mg_ctxes m)" "d' \<in> set (mg_ctxes m)" "tc_uuid (mg_ctx m d) = tc_uuid (mg_ctx m d')"
    "FL (tc_uuid (mg_ctx m d)) AND TA_FLAG_SINGLE_INSTANCE \<noteq> 0" for d d'
  proof (cases "d = c \<or> d' = c")
    case True
    then show ?thesis
    proof
      assume "d = c"
      then show ?thesis using one [of d'] that by metis
    next
      assume "d' = c"
      then show ?thesis using one [of d] that by metis
    qed
  next
    case False
    then show ?thesis using e [THEN conjunct2, THEN conjunct2, THEN conjunct2] that by metis
  qed
  with q' e show ?thesis unfolding extra_def mgr_quiet_def by blast
qed

lemma extra_others:
  assumes ex: "extra FL (unlink_ctx c m)" and d: "distinct (mg_ctxes m)"
    and eq: "mg_ctxes m' = mg_ctxes m" "mg_busy m' = ctx_upd c f (mg_busy m)"
      "\<And>d. d \<noteq> c \<Longrightarrow> tc_uuid (mg_ctx m' d) = tc_uuid (mg_ctx m d) \<and> tc_ref_count (mg_ctx m' d) = tc_ref_count (mg_ctx m d) \<and>
         tc_is_initializing (mg_ctx m' d) = tc_is_initializing (mg_ctx m d)"
  shows "extra FL (unlink_ctx c m')"
proof -
  have mem: "d \<in> set (remove1 c (mg_ctxes m)) \<longleftrightarrow> d \<in> set (mg_ctxes m) \<and> d \<noteq> c" for d using d by auto
  have q: "quiet (ctx_upd c f (mg_busy m)) d = quiet (mg_busy m) d" if "d \<noteq> c" for d
    using that by (intro quiet_cong) (simp add: busy_upd_simps)
  have fl: "ctx_flags m' d = ctx_flags m d" if "d \<noteq> c" for d using that by (simp add: ctx_flags_def eq busy_upd_simps)
  have lf: "lock_free (mg_busy m)" using ex by (simp add: extra_def mgr_quiet_def)
  note e = ex [unfolded extra_def mgr_quiet_def, simplified, unfolded mem]
  show ?thesis unfolding extra_def mgr_quiet_def
    using e by (simp add: eq mem busy_upd_simps q fl lf)
qed

lemma enter_open_ok:
  assumes i: "initialized R FL e l u a c m"
  shows "\<exists>res m'. enter_open e a c to (sess_set a (\<lambda>x. x\<lparr>ss_clnt_id := clnt\<rparr>) m) = Returns (res, m') \<and>
    mgr_inv R {} {a} {} m' \<and> valid_list {} m' l \<and> a \<in> set (get_list l m') \<and> opened (mg_heap m' a) \<and>
    ss_ctx (mg_heap m' a) = Some c \<and> mgr_quiet m' \<and>
    (extra FL m' \<or> res \<noteq> TEE_SUCCESS \<and> extra FL (unlink_ctx c m') \<and> ctx_flags m' c = 0 \<and>
       tc_ref_count (mg_ctx m' c) = 1)"
proof -
  define m0 where "m0 = sess_set a (\<lambda>x. x\<lparr>ss_clnt_id := clnt\<rparr>) m"
  have f0: "mg_ctxes m0 = mg_ctxes m" "mg_ctx m0 = mg_ctx m" "mg_busy m0 = mg_busy m" "get_list l' m0 = get_list l' m"
    "ctx_flags m0 d = ctx_flags m d" "ss_ctx (mg_heap m0 a) = Some c" "opened (mg_heap m0 a)" for l' d
    using i by (simp_all add: m0_def initialized_def opened_def)
  have inv: "mgr_inv R {} {a} {} m" and c: "c \<in> set (mg_ctxes m)" using i by (simp_all add: initialized_def)
  then have inv0: "mgr_inv R {} {a} {} m0" unfolding m0_def
    by (intro inv_cong [OF inv]) (auto simp: mgr_inv_def)
  have l: "valid_list {} m l" "a \<in> set (get_list l m)" using i by (simp_all add: initialized_def)
  have dist: "distinct (mg_ctxes m)" using inv by (simp add: mgr_inv_def ctxs_ok_def)
  show ?thesis unfolding m0_def [symmetric]
  proof (cases "extra FL m")
    case True
    then have ex0: "extra FL m0" by (simp add: extra_def mgr_quiet_def f0)
    then have "lock_free (mg_busy m0)" "quiet (mg_busy m0) c" "\<not> tc_is_initializing (mg_ctx m0 c)"
      using c by (simp_all add: extra_def mgr_quiet_def f0)
    from enter_open_loaded [OF this] obtain res where "enter_open e a c to m0 = Returns (res, invoked e a c to m0)" by blast
    moreover note iv = invoked_ok [OF inv0, where e = e and c = c and to = to]
    moreover have "opened (mg_heap (invoked e a c to m0) a)"
      using f0(7) by (auto simp: invoked_def enter_invoke_cmd_def user_ta_enter_def set_timeout_def set_invoke_timeout_def
          opened_def split: prod.splits)
    moreover have "extra FL (invoked e a c to m0)" using shrunk_extra [OF iv(2) ex0] .
    moreover have "valid_list {} m0 l" using l by (simp add: valid_list_def f0)
    ultimately show "\<exists>res m'. enter_open e a c to m0 = Returns (res, m') \<and>
      mgr_inv R {} {a} {} m' \<and> valid_list {} m' l \<and> a \<in> set (get_list l m') \<and> opened (mg_heap m' a) \<and>
      ss_ctx (mg_heap m' a) = Some c \<and> mgr_quiet m' \<and>
      (extra FL m' \<or> res \<noteq> TEE_SUCCESS \<and> extra FL (unlink_ctx c m') \<and> ctx_flags m' c = 0 \<and>
       tc_ref_count (mg_ctx m' c) = 1)"
      using l f0 by (auto simp: extra_def)
  next
    case False
    with i have un: "unloaded FL u c m" "en_flags e = FL u" by (simp_all add: initialized_def)
    then have ex: "extra FL (unlink_ctx c m)" and lf: "lock_free (mg_busy m)" by (simp_all add: unloaded_def extra_def mgr_quiet_def)
    have cu: "tb_ctx (mg_busy m0) c = \<lparr>cx_flags = 0, cx_busy = False, cx_initializing = True\<rparr>" "lock_free (mg_busy m0)"
      "tc_user (mg_ctx m0 c)" "tc_is_initializing (mg_ctx m0 c)" using un lf by (simp_all add: unloaded_def f0)
    from enter_open_new [OF cu, of e a to] obtain res m' where run: "enter_open e a c to m0 = Returns (res, m')"
      and busy: "if tc_is_initializing (mg_ctx m' c) then res \<noteq> TEE_SUCCESS \<and> mg_busy m' = ctx_upd c (\<lambda>_. first_left 0) (mg_busy m)
        else mg_busy m' = ctx_upd c (\<lambda>_. first_left (FL u)) (mg_busy m)"
      and cs: "mg_ctxes m' = mg_ctxes m" "\<And>l. get_list l m' = get_list l m0"
      and h: "\<And>b. b \<noteq> a \<Longrightarrow> mg_heap m' b = mg_heap m0 b" "ss_ctx (mg_heap m' a) = ss_ctx (mg_heap m0 a)"
        "ss_id (mg_heap m' a) = ss_id (mg_heap m0 a)" "opened (mg_heap m' a)"
      and t: "\<And>d. tc_uuid (mg_ctx m' d) = tc_uuid (mg_ctx m d)" "\<And>d. tc_user (mg_ctx m' d) = tc_user (mg_ctx m d)"
        "\<And>d. tc_ref_count (mg_ctx m' d) = tc_ref_count (mg_ctx m d)"
        "\<And>d. d \<noteq> c \<Longrightarrow> tc_is_initializing (mg_ctx m' d) = tc_is_initializing (mg_ctx m d)"
      unfolding f0 un(2) using f0(7) by auto
    from busy obtain f where b: "mg_busy m' = ctx_upd c (\<lambda>_. first_left f) (mg_busy m)" by (auto split: if_splits)
    have ref: "tc_ref_count (mg_ctx m c) = 1" using un(1) by (simp add: unloaded_def)
    have fl: "ctx_flags m' d = (if d = c then f else ctx_flags m d)" for d by (simp add: ctx_flags_def b busy_upd_simps)
    have q: "quiet (mg_busy m') c" by (simp add: b quiet_first_left)
    have inv': "mgr_inv R {} {a} {} m'"
    proof (rule inv_cong [OF inv0])
      fix b assume "b \<in> sess {} m0"
      then have "b \<noteq> a \<Longrightarrow> at_rest (mg_heap m0 b)" using inv0 by (simp add: mgr_inv_def)
      then show "ss_ctx (mg_heap m' b) = ss_ctx (mg_heap m0 b) \<and> ss_id (mg_heap m' b) = ss_id (mg_heap m0 b) \<and>
          (b \<notin> {a} \<longrightarrow> at_rest (mg_heap m' b))"
        using h by (cases "b = a") simp_all
    qed (use ref in \<open>auto simp: cs t f0 fl\<close>)
    have ex': "extra FL (unlink_ctx c m')" by (rule extra_others [OF ex dist cs(1) b]) (simp add: t)
    have "mgr_quiet m'" using ex' q dist by (auto simp: extra_def mgr_quiet_def cs)
    moreover have "extra FL m' \<or> res \<noteq> TEE_SUCCESS \<and> extra FL (unlink_ctx c m') \<and> ctx_flags m' c = 0 \<and>
       tc_ref_count (mg_ctx m' c) = 1"
    proof (cases "tc_is_initializing (mg_ctx m' c)")
      case True
      with busy have "res \<noteq> TEE_SUCCESS" "ctx_flags m' c = 0" by (auto simp: ctx_flags_def busy_upd_simps)
      with ex' ref t(3) show ?thesis by simp
    next
      case False
      with busy have "ctx_flags m' c = FL u" by (auto simp: ctx_flags_def busy_upd_simps)
      with un(1) False ref have "extra FL m'"
        by (intro extra_add [OF ex' _ q]) (simp_all add: cs dist t unloaded_def)
      then show ?thesis ..
    qed
    ultimately show "\<exists>res m'. enter_open e a c to m0 = Returns (res, m') \<and>
      mgr_inv R {} {a} {} m' \<and> valid_list {} m' l \<and> a \<in> set (get_list l m') \<and> opened (mg_heap m' a) \<and>
      ss_ctx (mg_heap m' a) = Some c \<and> mgr_quiet m' \<and>
      (extra FL m' \<or> res \<noteq> TEE_SUCCESS \<and> extra FL (unlink_ctx c m') \<and> ctx_flags m' c = 0 \<and>
       tc_ref_count (mg_ctx m' c) = 1)"
      using run inv' l h f0 by (auto simp: valid_list_def cs)
  qed
qed

section \<open>Opening\<close>

text \<open>A context that could not be loaded goes away with its only session.\<close>

lemma close_unloaded:
  assumes inv: "mgr_inv R {} {} {} m" "mgr_inv R {} {} {} m'" and k: "kept {} P Q m m'"
    and a: "a \<in> users {} {} m c" "a \<notin> sess {} m'" and c: "tc_ref_count (mg_ctx m c) = 1" "ctx_flags m c = 0" "c \<in> set (mg_ctxes m)"
    and ex: "extra FL (unlink_ctx c m)"
  shows "extra FL m'"
proof -
  have i: "refs_ok {} {} m" "refs_ok {} {} m'" "ctxs_ok {} m" "ctxs_ok {} m'" using inv by (simp_all add: mgr_inv_def)
  have "card (users {} {} m c) = 1" using i(1) c by (simp add: refs_ok_def)
  then have u: "users {} {} m c = {a}" using a(1) by (metis card_1_singletonE singletonD)
  have "users {} {} m' c \<subseteq> users {} {} m c" using k by (auto simp: kept_def users_def)
  moreover have "a \<notin> users {} {} m' c" using a(2) by (simp add: users_def)
  ultimately have none: "users {} {} m' c = {}" unfolding u by auto
  have "c \<notin> set (mg_ctxes m')"
  proof
    assume c': "c \<in> set (mg_ctxes m')"
    then have "tc_ref_count (mg_ctx m' c) = 0" using i(2) none by (simp add: refs_ok_def)
    then have "keep_alive (ctx_flags m' c)" using i(4) c' by (simp add: ctxs_ok_def)
    moreover have "ctx_flags m' c = 0" using k c(2) by (simp add: kept_def ctx_flags_def)
    ultimately show False by (simp add: keep_alive_def)
  qed
  moreover have "set (remove1 c (mg_ctxes m)) = set (mg_ctxes m) - {c}" using i(3) by (simp add: ctxs_ok_def)
  ultimately have "shrunk (unlink_ctx c m) m'" using k by (auto simp: kept_def shrunk_def)
  then show ?thesis using ex by (rule shrunk_extra)
qed

text \<open>Closing the new session of a panicked context waits for the reference that this thread holds itself.\<close>

lemma close_opened_hangs:
  assumes "ids_ok l m" "a \<in> set (get_list l m)" "opened (mg_heap m a)" and "ss_ctx (mg_heap m a) = Some c" "tc_panicked (mg_ctx m c)"
  shows "tee_ta_close_session e l (Some a) KERN_IDENTITY m = Hangs"
proof -
  let ?f = "\<lambda>x. x\<lparr>ss_ref_count := Suc (ss_ref_count x), ss_lock_thread := Some self\<rparr>"
  have "mg_get_session l (ss_id (mg_heap m a)) True m = Returns (Some a, sess_set a ?f m)"
    using assms(3) find_session_own [OF assms(1,2)]
    by (simp add: mg_get_session_def run_sess_def tee_ta_get_session_def get_session_loop_def opened_def
        sess_put_heap sess_set_def)
  moreover have "destroy_session l a (sess_set a ?f m) = Hangs"
    using assms(3) by (simp add: destroy_session_def run_sess_def tee_ta_unlink_session_def unlink_session_loop_def opened_def)
  ultimately show ?thesis using assms(4,5) by (simp add: tee_ta_close_session_def close_with_def check_client_def)
qed

definition opens_dead :: "ta_env \<Rightarrow> u8 list \<Rightarrow> ta_mgr \<Rightarrow> bool" where
  "opens_dead e u m \<longleftrightarrow> en_session e \<noteq> None \<and>
     (case shared_ctx u m of None \<Rightarrow> False | Some c \<Rightarrow> tc_panicked (mg_ctx m c))"

lemma open_ok:
  assumes inv: "mgr_inv R {} {} {} m" and ex: "extra FL m"
    and l: "valid_list {} m l" "\<And>c. l = OfTa c \<Longrightarrow> tc_user (mg_ctx m c)"
    and env: "env_ok FL e l u m" and rank: "above R m (R u) l"
  shows "if opens_dead e u m then tee_ta_open_session e l u clnt to m = Hangs
    else \<exists>res a m'. tee_ta_open_session e l u clnt to m = Returns (res, a, m') \<and> mgr_inv R {} {} {} m' \<and> extra FL m'"
proof (cases "en_session e")
  case None
  then show ?thesis using inv ex by (simp add: opens_dead_def open_eq tee_ta_init_session_def)
next
  case (Some a)
  show ?thesis
  proof (rule init_session_ok [OF inv ex l env Some rank])
    fix res m' assume "tee_ta_init_session e l u m = Returns (res, a, m')" "res \<noteq> TEE_SUCCESS"
      "mgr_inv R {} {} {} m'" "shrunk m m'" "shared_ctx u m = None"
    then show ?thesis using shrunk_extra [OF _ ex] by (simp add: open_eq opens_dead_def)
  next
    fix c m1 assume run1: "tee_ta_init_session e l u m = Returns (TEE_SUCCESS, a, m1)" and i: "initialized R FL e l u a c m1"
      and p: "tc_panicked (mg_ctx m1 c) \<longleftrightarrow> shared_ctx u m = Some c \<and> tc_panicked (mg_ctx m c)"
      and d: "\<And>d. shared_ctx u m = Some d \<Longrightarrow> c = d"
    have dead: "opens_dead e u m \<longleftrightarrow> tc_panicked (mg_ctx m1 c)"
      using p d Some by (auto simp: opens_dead_def split: option.splits)
    have ctx: "ss_ctx (mg_heap m1 a) = Some c" using i by (simp add: initialized_def)
    show ?thesis
    proof (cases "tc_panicked (mg_ctx m1 c)")
      case True
      have "ids_ok l m1" "a \<in> set (get_list l m1)" "opened (mg_heap m1 a)"
        using i by (auto simp: initialized_def mgr_inv_def lists_ok_def)
      from close_opened_hangs [OF this ctx True] True ctx run1 dead show ?thesis by (simp add: open_eq)
    next
      case False
      from enter_open_ok [OF i, of to clnt] obtain res m2 where
        run2: "enter_open e a c to (sess_set a (\<lambda>x. x\<lparr>ss_clnt_id := clnt\<rparr>) m1) = Returns (res, m2)"
        and inv2: "mgr_inv R {} {a} {} m2" and l2: "valid_list {} m2 l" "a \<in> set (get_list l m2)"
        and a2: "opened (mg_heap m2 a)" "ss_ctx (mg_heap m2 a) = Some c" and q2: "mgr_quiet m2"
        and ex2: "extra FL m2 \<or> res \<noteq> TEE_SUCCESS \<and> extra FL (unlink_ctx c m2) \<and> ctx_flags m2 c = 0 \<and>
          tc_ref_count (mg_ctx m2 c) = 1" by blast
      define m3 where "m3 = sess_set a unlock_session m2"
      have put: "mg_put_session l a m2 = Returns m3"
        unfolding m3_def by (rule mg_put_session_held) (use a2 in \<open>simp_all add: opened_def\<close>)
      have f3: "mg_ctxes m3 = mg_ctxes m2" "mg_ctx m3 = mg_ctx m2" "mg_busy m3 = mg_busy m2" "get_list l' m3 = get_list l' m2"
        "ctx_flags m3 d = ctx_flags m2 d" "ss_ctx (mg_heap m3 a) = Some c" for l' d
        using a2 by (simp_all add: m3_def unlock_session_def)
      have inv3: "mgr_inv R {} {} {} m3" unfolding m3_def by (rule inv_unlock [OF inv2]) (use a2 in \<open>simp add: opened_def\<close>)
      have l3: "valid_list {} m3 l" "a \<in> set (get_list l m3)" using l2 by (simp_all add: f3 valid_list_def)
      have q3: "mgr_quiet m3" using q2 by (simp add: mgr_quiet_def f3)
      have ex3: "extra FL m3 \<or> res \<noteq> TEE_SUCCESS \<and> extra FL (unlink_ctx c m3) \<and> ctx_flags m3 c = 0 \<and>
          tc_ref_count (mg_ctx m3 c) = 1"
        using ex2 by (simp add: extra_def mgr_quiet_def f3)
      from tee_ta_close_session_ok [OF inv3 q3 l3, of KERN_IDENTITY e] obtain m4 P Q where
        run4: "tee_ta_close_session e l (Some a) KERN_IDENTITY m3 = Returns (TEE_SUCCESS, m4)"
        and inv4: "mgr_inv R {} {} {} m4" and k4: "kept {} P Q m3 m4" and a4: "a \<notin> sess {} m4"
        by (auto simp: check_client_def)
      have "c \<in> set (mg_ctxes m3)" "a \<in> users {} {} m3 c"
        using inv3 l3 by (auto simp: mgr_inv_def refs_ok_def sess_def users_def f3)
      with close_unloaded [OF inv3 inv4 k4 _ a4] ex3 shrunk_extra [OF kept_shrunk [OF k4]]
      have ex4: "extra FL m4" by blast
      show ?thesis
      proof (cases "tc_panicked (mg_ctx m2 c) \<or> res \<noteq> TEE_SUCCESS")
        case True
        then show ?thesis using False dead run1 ctx run2 put run4 inv4 ex4 by (simp add: open_eq)
      next
        case noerr: False
        then show ?thesis using False dead run1 ctx run2 put inv3 ex3 by (simp add: open_eq)
      qed
    qed
  qed
qed

end
