(* ===== verification/Ta_Manager_Safe.thy ===== *)
theory Ta_Manager_Safe
  imports Ta_Manager_Open
begin

unbundle bit_operations_syntax

text \<open>
  Requests to the TA manager: every request keeps the invariant, none panics, and the only one
  that never returns is the opening of a session of a context that has panicked. A context that
  panics while it is invoked disappears with all references to it, and an application of the kind
  that has one instance has one, as long as requests run one after the other.
\<close>

section \<open>Requests that are made\<close>

text \<open>
  What is assumed of a request: system calls come from registered user applications, which open
  sessions of applications of a lower rank only, and the environment is that of \<open>env_ok\<close>.
\<close>

fun req_ok :: "(u8 list \<Rightarrow> nat) \<Rightarrow> (u8 list \<Rightarrow> u32) \<Rightarrow> ta_env \<Rightarrow> request \<Rightarrow> ta_mgr \<Rightarrow> bool" where
  "req_ok R FL e (OpenNs u clnt) m \<longleftrightarrow> env_ok FL e Nsec u m"
| "req_ok R FL e (OpenTa c u to) m \<longleftrightarrow> c \<in> set (mg_ctxes m) \<and> tc_user (mg_ctx m c) \<and> env_ok FL e (OfTa c) u m \<and> R u < rk R m c"
| "req_ok R FL e (CloseTa c i) m \<longleftrightarrow> c \<in> set (mg_ctxes m) \<and> tc_user (mg_ctx m c)"
| "req_ok R FL e (InvokeTa c i to) m \<longleftrightarrow> c \<in> set (mg_ctxes m) \<and> tc_user (mg_ctx m c)"
| "req_ok R FL e _ m \<longleftrightarrow> True"

text \<open>Requests to open a session of a context that has panicked.\<close>

fun dead_req :: "ta_env \<Rightarrow> request \<Rightarrow> ta_mgr \<Rightarrow> bool" where
  "dead_req e (OpenNs u clnt) m \<longleftrightarrow> en_params e = TEE_SUCCESS \<and> opens_dead e u m"
| "dead_req e (OpenTa c u to) m \<longleftrightarrow> en_params e = TEE_SUCCESS \<and> opens_dead e u m"
| "dead_req e _ m \<longleftrightarrow> False"

definition mgr_ok :: "(u8 list \<Rightarrow> nat) \<Rightarrow> (u8 list \<Rightarrow> u32) \<Rightarrow> ta_mgr \<Rightarrow> bool" where
  "mgr_ok R FL m \<longleftrightarrow> mgr_inv R {} {} {} m \<and> extra FL m"

definition ends_ok :: "(u8 list \<Rightarrow> nat) \<Rightarrow> (u8 list \<Rightarrow> u32) \<Rightarrow> (tee_result \<times> ta_mgr) call \<Rightarrow> bool" where
  "ends_ok R FL r \<longleftrightarrow> (case r of Returns (res, m) \<Rightarrow> mgr_ok R FL m | _ \<Rightarrow> False)"

lemma ends_ok_iff: "ends_ok R FL r \<longleftrightarrow> (\<exists>res m. r = Returns (res, m) \<and> mgr_ok R FL m)"
  by (cases r) (auto simp: ends_ok_def)

lemma ends_ok_result [simp]: "ends_ok R FL (Returns (res, m)) \<longleftrightarrow> mgr_ok R FL m"
  by (simp add: ends_ok_def)

lemma mgr_ok_lists:
  assumes "mgr_ok R FL m" and "valid_list {} m l"
  shows "ids_ok l m" and "a \<in> set (get_list l m) \<Longrightarrow> at_rest (mg_heap m a)"
  using assms by (auto simp: mgr_ok_def mgr_inv_def lists_ok_def sess_def)

section \<open>Each request\<close>

lemma close_request:
  assumes ok: "mgr_ok R FL m" and l: "valid_list {} m l"
  shows "ends_ok R FL (tee_ta_close_session e l (tee_ta_find_session i (sess_view l m)) clnt m)"
proof (cases "tee_ta_find_session i (sess_view l m)")
  case None
  then show ?thesis using ok by (simp add: tee_ta_close_session_def close_with_def)
next
  case (Some a)
  with find_session_cases [of i l m] have a: "a \<in> set (get_list l m)" by auto
  note r = mgr_ok_lists [OF ok l]
  have q: "mgr_quiet m" using ok by (simp add: mgr_ok_def extra_def)
  show ?thesis
  proof (cases "check_client (mg_heap m a) clnt = TEE_SUCCESS")
    case True
    have inv: "mgr_inv R {} {} {} m" and ex: "extra FL m" using ok by (simp_all add: mgr_ok_def)
    from tee_ta_close_session_ok [OF inv q l a True, of e] obtain m' P Q where
      "tee_ta_close_session e l (Some a) clnt m = Returns (TEE_SUCCESS, m')" "mgr_inv R {} {} {} m'" "kept {} P Q m m'"
      by blast
    with Some shrunk_extra [OF kept_shrunk ex] show ?thesis by (simp add: mgr_ok_def)
  next
    case False
    with close_with_refused [OF r(1) a r(2) [OF a]] Some ok show ?thesis by (simp add: tee_ta_close_session_def)
  qed
qed

lemma put_ok:
  assumes "mgr_inv R {} {a} {} m" and "extra FL m"
    and "ss_ref_count (mg_heap m a) = 1" "ss_lock_thread (mg_heap m a) \<in> {None, Some self}" "\<not> ss_unlink (mg_heap m a)"
  shows "\<exists>m'. mg_put_session l a m = Returns m' \<and> mgr_ok R FL m'"
  using mg_put_session_held [OF assms(3,4)] inv_unlock [OF assms(1,5)] shrunk_extra [OF sess_set_shrunk assms(2)]
  by (auto simp: mgr_ok_def)

lemma get_ok:
  assumes ok: "mgr_ok R FL m" and l: "valid_list {} m l"
  obtains (none) "mg_get_session l i ex m = Returns (None, m)"
  | (some) a m' where "mg_get_session l i ex m = Returns (Some a, m')" "mgr_inv R {} {a} {} m'" "extra FL m'"
      "valid_list {} m' l" "a \<in> set (get_list l m')" "ss_ref_count (mg_heap m' a) = 1"
      "ss_lock_thread (mg_heap m' a) = (if ex then Some self else None)" "\<not> ss_unlink (mg_heap m' a)"
proof -
  note r = mgr_ok_lists [OF ok l]
  have inv: "mgr_inv R {} {} {} m" and ex: "extra FL m" using ok by (simp_all add: mgr_ok_def)
  consider (n) "mg_get_session l i ex m = Returns (None, m)"
    | (s) a where "a \<in> set (get_list l m)"
      "mg_get_session l i ex m = Returns (Some a, sess_set a (if ex then lock_session else ss_ref_count_update (\<lambda>_. 1)) m)"
    using mg_get_session_cases [OF r, of i ex] by metis
  then show thesis
  proof cases
    case (s a)
    note a = s(1) and run = s(2)
    let ?f = "if ex then lock_session else ss_ref_count_update (\<lambda>_. 1)"
    have "mgr_inv R {} {a} {} (sess_set a ?f m)" using inv_lock [OF inv, of a] by simp
    moreover have "extra FL (sess_set a ?f m)" by (rule shrunk_extra [OF sess_set_shrunk ex])
    ultimately show thesis using run r(2) [OF a] a l
      by (intro some [OF run]) (auto simp: valid_list_def at_rest_def lock_session_def)
  qed (rule none)
qed

lemma entry_invoke_ok:
  assumes ok: "mgr_ok R FL m" and l: "valid_list {} m l"
  shows "ends_ok R FL (bind_call (mg_get_session l i True m) (\<lambda>(r, m). case r of
      None \<Rightarrow> Returns (TEE_ERROR_BAD_PARAMETERS, m)
    | Some a \<Rightarrow> bind_call (if P then Returns (q, m) else
        bind_call (tee_ta_invoke_command e a (clnt m) to m) (\<lambda>(res, m). Returns (g res, m)))
        (\<lambda>(res, m). bind_call (mg_put_session l a m) (\<lambda>m. Returns (res, m)))))"
proof (rule get_ok [OF ok l, of i True])
  assume "mg_get_session l i True m = Returns (None, m)"
  then show ?thesis using ok by simp
next
  fix a m1 assume run: "mg_get_session l i True m = Returns (Some a, m1)" and i: "mgr_inv R {} {a} {} m1" "extra FL m1"
      "valid_list {} m1 l" "a \<in> set (get_list l m1)" and h: "ss_ref_count (mg_heap m1 a) = 1"
      "ss_lock_thread (mg_heap m1 a) = (if True then Some self else None)" "\<not> ss_unlink (mg_heap m1 a)"
  then have lk: "locked (mg_heap m1 a)" by (simp add: locked_def)
  have put: "\<exists>m'. mg_put_session l a m = Returns m' \<and> mgr_ok R FL m'"
    if "mgr_inv R {} {a} {} m" "extra FL m" "locked (mg_heap m a)" for m
    by (rule put_ok [OF that(1,2)]) (use that(3) in \<open>simp_all add: locked_def\<close>)
  from invoke_ok [OF i lk, of e "clnt m1" to] obtain res m2 where
    "tee_ta_invoke_command e a (clnt m1) to m1 = Returns (res, m2)" "mgr_inv R {} {a} {} m2" "extra FL m2"
    "locked (mg_heap m2 a)" by blast
  then show ?thesis using run put [OF i(1,2) lk] put [of m2] by (cases P) auto
qed

lemma cancel_ok:
  assumes ok: "mgr_ok R FL m"
  shows "ends_ok R FL (entry_cancel i n m)"
proof (cases "n = 0")
  case True
  have l: "valid_list {} m Nsec" by (simp add: valid_list_def)
  show ?thesis
  proof (rule get_ok [OF ok l, of i False])
    assume "mg_get_session Nsec i False m = Returns (None, m)"
    then show ?thesis using ok True by (simp add: entry_cancel_def)
  next
    fix a m1 assume run: "mg_get_session Nsec i False m = Returns (Some a, m1)" and i: "mgr_inv R {} {a} {} m1" "extra FL m1"
      and h: "ss_ref_count (mg_heap m1 a) = 1" "ss_lock_thread (mg_heap m1 a) = (if False then Some self else None)"
        "\<not> ss_unlink (mg_heap m1 a)"
    obtain x res where x: "tee_ta_cancel_command NSAPP_IDENTITY (mg_heap m1 a) = (x, res)" by (metis surj_pair)
    then have e: "ss_ctx x = ss_ctx (mg_heap m1 a)" "ss_id x = ss_id (mg_heap m1 a)" "ss_ref_count x = ss_ref_count (mg_heap m1 a)"
      "ss_lock_thread x = ss_lock_thread (mg_heap m1 a)" "ss_unlink x = ss_unlink (mg_heap m1 a)"
      by (auto simp: tee_ta_cancel_command_def split: if_splits)
    have "mgr_inv R {} {a} {} (sess_set a (\<lambda>_. x) m1)"
      by (rule inv_cong [OF i(1)]) (use i(1) e in \<open>auto simp: mgr_inv_def\<close>)
    from put_ok [OF this shrunk_extra [OF sess_set_shrunk i(2)], of Nsec] e h x run True show ?thesis
      by (auto simp: entry_cancel_def)
  qed
qed (simp add: entry_cancel_def ok)

lemma bind_call_id: "bind_call r Returns = r"
  by (cases r) auto

lemma mgr_exec_ok:
  assumes ok: "mgr_ok R FL m" and req: "req_ok R FL e r m"
  shows "if dead_req e r m then mgr_exec e r m = Hangs else ends_ok R FL (mgr_exec e r m)"
proof -
  have inv: "mgr_inv R {} {} {} m" and ex: "extra FL m" using ok by (simp_all add: mgr_ok_def)
  have ns: "valid_list {} m Nsec" and ta: "c \<in> set (mg_ctxes m) \<Longrightarrow> valid_list {} m (OfTa c)" for c
    by (simp_all add: valid_list_def)
  show ?thesis
  proof (cases r)
    case (OpenNs u clnt)
    with open_ok [OF inv ex ns, of e u clnt TEE_TIMEOUT_INFINITE] req ok show ?thesis
      by (fastforce simp: entry_open_session_def above_def mgr_ok_def split: if_splits)
  next
    case (OpenTa c u to)
    with open_ok [OF inv ex ta, of c e u "ta_identity c m" to] req ok show ?thesis
      by (fastforce simp: syscall_open_ta_session_def above_def mgr_ok_def Let_def split: if_splits)
  next
    case (CloseNs i n)
    with close_request [OF ok ns] ok show ?thesis by (simp add: entry_close_session_def)
  next
    case (CloseTa c i)
    with close_request [OF ok ta] req show ?thesis by (simp add: syscall_close_ta_session_def)
  next
    case (InvokeNs i)
    with entry_invoke_ok [OF ok ns, where i = i and P = False and e = e and clnt = "\<lambda>_. NSAPP_IDENTITY" and
        to = TEE_TIMEOUT_INFINITE and g = "\<lambda>r. r"] ok show ?thesis
      by (simp add: entry_invoke_command_def bind_call_id cong: option.case_cong)
  next
    case (InvokeTa c i to)
    with entry_invoke_ok [OF ok ta, of c i "en_params e \<noteq> TEE_SUCCESS" "en_params e" e "\<lambda>m. Client (ta_identity c m)" to
        "\<lambda>res. if res = TEE_ERROR_TARGET_DEAD \<or> en_out e = TEE_SUCCESS then res else en_out e"] req show ?thesis
      by (simp add: syscall_invoke_ta_command_def)
  qed (simp add: cancel_ok [OF ok])
qed

section \<open>Sequences of requests\<close>

definition mgr_start :: ta_mgr where
  "mgr_start = \<lparr>mg_ctxes = [],
     mg_ctx = (\<lambda>_. \<lparr>tc_uuid = [], tc_user = False, tc_panicked = False, tc_ref_count = 0, tc_is_initializing = False,
       tc_open_sessions = []\<rparr>),
     mg_busy = \<lparr>tb_ctx = (\<lambda>_. \<lparr>cx_flags = 0, cx_busy = False, cx_initializing = False\<rparr>),
       tee_ta_single_instance_thread = None, tee_ta_single_instance_count = 0\<rparr>,
     mg_nsec = [],
     mg_heap = (\<lambda>_. \<lparr>ss_id = 0, ss_ctx = None, ss_clnt_id = \<lparr>login = 0, uuid = []\<rparr>, ss_cancel = False, ss_cancel_mask = False,
       ss_cancel_time = \<lparr>tm_seconds = 0, tm_millis = 0\<rparr>, ss_ref_count = 0, ss_lock_thread = None, ss_unlink = False\<rparr>)\<rparr>"

inductive mgr_reach :: "(u8 list \<Rightarrow> nat) \<Rightarrow> (u8 list \<Rightarrow> u32) \<Rightarrow> ta_mgr \<Rightarrow> bool" for R FL where
  start: "mgr_reach R FL mgr_start"
| step: "mgr_reach R FL m \<Longrightarrow> req_ok R FL e r m \<Longrightarrow> mgr_exec e r m = Returns (res, m') \<Longrightarrow> mgr_reach R FL m'"

lemma mgr_ok_start: "mgr_ok R FL mgr_start"
proof -
  have "get_list l mgr_start = []" for l by (cases l) (simp_all add: mgr_start_def)
  then show ?thesis
    by (simp add: mgr_ok_def mgr_inv_defs sess_def ids_ok_def extra_def mgr_quiet_def lock_free_def) (simp add: mgr_start_def)
qed

lemma mgr_reach_ok: "mgr_reach R FL m \<Longrightarrow> mgr_ok R FL m"
proof (induction rule: mgr_reach.induct)
  case (step m e r res m')
  then show ?case using mgr_exec_ok [of R FL m e r] by (auto split: if_splits)
qed (rule mgr_ok_start)

fun mgr_runs :: "(ta_env \<times> request) list \<Rightarrow> ta_mgr \<Rightarrow> ta_mgr call" where
  "mgr_runs [] m = Returns m"
| "mgr_runs ((e, r) # rs) m = bind_call (mgr_exec e r m) (\<lambda>(res, m). mgr_runs rs m)"

section \<open>An example\<close>

text \<open>
  Application \<open>[1]\<close> is opened from the normal world and opens a session of \<open>[2]\<close>, of which the
  normal world opens another one.
\<close>

definition demo_FL :: "u8 list \<Rightarrow> u32" where
  "demo_FL u = TA_FLAG_SINGLE_INSTANCE OR TA_FLAG_MULTI_SESSION"

definition demo_R :: "u8 list \<Rightarrow> nat" where
  "demo_R u = (if u = [1] then 1 else 0)"

definition demo_env :: "addr \<Rightarrow> addr \<Rightarrow> ta_env" where
  "demo_env a c = \<lparr>en_session = Some a, en_ctx = Some c, en_pseudo = (\<lambda>_. None), en_load = TEE_SUCCESS,
     en_ldelf = TEE_SUCCESS, en_flags = demo_FL [], en_enter = (TEE_SUCCESS, False), en_close_panics = (\<lambda>a. a = 3),
     en_time = None, en_params = TEE_SUCCESS, en_out = TEE_SUCCESS\<rparr>"

definition demo_ns :: TEE_Identity where
  "demo_ns = \<lparr>login = 0, uuid = []\<rparr>"

definition demo_open :: "(ta_env \<times> request) list" where
  "demo_open = [(demo_env 1 1, OpenNs [1] demo_ns), (demo_env 2 2, OpenTa 1 [2] 0), (demo_env 3 3, OpenNs [2] demo_ns)]"

definition demo_ctx :: "u8 list \<Rightarrow> bool \<Rightarrow> nat \<Rightarrow> addr list \<Rightarrow> tee_ta_ctx" where
  "demo_ctx u p n ss = \<lparr>tc_uuid = u, tc_user = True, tc_panicked = p, tc_ref_count = n, tc_is_initializing = False,
     tc_open_sessions = ss\<rparr>"

definition demo_sess :: "u32 \<Rightarrow> addr option \<Rightarrow> TEE_Identity \<Rightarrow> tee_ta_session" where
  "demo_sess i c cl = \<lparr>ss_id = i, ss_ctx = c, ss_clnt_id = cl, ss_cancel = False, ss_cancel_mask = True,
     ss_cancel_time = time_infinite, ss_ref_count = 0, ss_lock_thread = None, ss_unlink = False\<rparr>"

definition demo_mgr :: ta_mgr where
  "demo_mgr = mgr_start\<lparr>mg_ctxes := [1, 2],
     mg_ctx := (mg_ctx mgr_start)(1 := demo_ctx [1] False 1 [2], 2 := demo_ctx [2] False 2 []),
     mg_busy := (mg_busy mgr_start)\<lparr>tb_ctx := (tb_ctx (mg_busy mgr_start))
       (1 := \<lparr>cx_flags = demo_FL [], cx_busy = False, cx_initializing = False\<rparr>,
        2 := \<lparr>cx_flags = demo_FL [], cx_busy = False, cx_initializing = False\<rparr>)\<rparr>,
     mg_nsec := [1, 3],
     mg_heap := (mg_heap mgr_start)(1 := demo_sess 1 (Some 1) demo_ns,
       2 := demo_sess 1 (Some 2) \<lparr>login = TEE_LOGIN_TRUSTED_APP, uuid = [1]\<rparr>, 3 := demo_sess 2 (Some 2) demo_ns)\<rparr>"

lemmas demo_defs = demo_FL_def demo_R_def demo_env_def demo_ns_def demo_open_def demo_ctx_def demo_sess_def mgr_start_def

lemmas mgr_flag_defs = TA_FLAGS_MASK_def TA_FLAG_MULTI_SESSION_def TA_FLAG_SINGLE_INSTANCE_def
  TA_FLAG_INSTANCE_KEEP_ALIVE_def TA_FLAG_CONCURRENT_def TEE_TIMEOUT_INFINITE_def TEE_LOGIN_TRUSTED_APP_def

lemmas mgr_eval = entry_open_session_def entry_close_session_def syscall_open_ta_session_def ta_identity_def
  tee_ta_open_session_def tee_ta_close_session_def close_with_def tee_ta_init_session_def new_session_id_def
  tee_ta_find_session_nolock_def tee_ta_find_session_def sess_view_def init_session_def find_application_def
  tee_ta_context_find_def tee_ta_init_pseudo_ta_session_def tee_ta_init_user_ta_session_def sess_put_def
  new_context_def sess_set_def ctx_upd_def check_params_def try_set_busy_def tee_ta_try_set_busy_def
  set_busy_init_def set_busy_lock_def set_busy_check_def has_single_instance_lock_def lock_free_def self_def
  set_busy_wait_def lock_single_instance_def lock_single_instance_loop_def set_busy_locked_def
  unlock_single_instance_def tee_ta_clear_busy_def clear_busy_def enter_open_session_def init_with_ldelf_def
  user_ta_enter_def load_flags_def set_timeout_def set_invoke_timeout_def ctx_set_def mg_put_session_def
  tee_ta_put_session_def dec_session_ref_count_def ss_upd_def mg_get_session_def run_sess_def
  tee_ta_get_session_def get_session_loop_def check_client_def destroy_session_def tee_ta_unlink_session_def
  unlink_session_loop_def set_busy_def enter_close_session_def leave_context_def unlink_ctx_def ctx_flags_def
  destroy_context_def keep_alive_def tee_ta_init_session_with_context_def next_id_def Let_def

lemma demo_runs: "mgr_runs demo_open mgr_start = Returns demo_mgr"
  unfolding demo_mgr_def by (simp add: mgr_eval demo_defs mgr_flag_defs) (simp add: numeral_2_eq_2)

text \<open>A sequence of requests whose assumptions hold.\<close>

fun runs_ok :: "(u8 list \<Rightarrow> nat) \<Rightarrow> (u8 list \<Rightarrow> u32) \<Rightarrow> (ta_env \<times> request) list \<Rightarrow> ta_mgr \<Rightarrow> bool" where
  "runs_ok R FL [] m \<longleftrightarrow> True"
| "runs_ok R FL ((e, r) # rs) m \<longleftrightarrow> req_ok R FL e r m \<and> (case mgr_exec e r m of Returns (res, m') \<Rightarrow> runs_ok R FL rs m' | _ \<Rightarrow> True)"

lemma mgr_reach_runs: "runs_ok R FL rs m \<Longrightarrow> mgr_reach R FL m \<Longrightarrow> mgr_runs rs m = Returns m' \<Longrightarrow> mgr_reach R FL m'"
proof (induction rs m rule: mgr_runs.induct)
  case (2 e r rs m)
  then obtain res m1 where "mgr_exec e r m = Returns (res, m1)" "mgr_runs rs m1 = Returns m'"
    by (auto simp: bind_call_Returns_iff)
  with 2 mgr_reach.step [of R FL m e r res m1] show ?case by simp blast
qed simp

lemma sess_all: "sess {} m = set (all_sessions m)"
  by (auto simp: sess_def valid_list_def all_sessions_def)

lemma few_ids: "length (open_sessions s) < 2 ^ 32 - 1 \<Longrightarrow> \<not> UNIV - {0} \<subseteq> used_ids s"
proof
  assume less: "length (open_sessions s) < 2 ^ 32 - 1" and sub: "UNIV - {0} \<subseteq> used_ids s"
  have "card (UNIV - {0 :: u32}) = 2 ^ 32 - 1" by (simp add: card_Diff_singleton card_word)
  moreover have "card (UNIV - {0 :: u32}) \<le> card (used_ids s)" using sub by (rule card_mono [rotated]) (simp add: used_ids_def)
  moreover have "card (used_ids s) \<le> length (open_sessions s)"
    unfolding used_ids_def using card_image_le [of "set (open_sessions s)"] card_length [of "open_sessions s"] by (meson List.finite_set le_trans)
  ultimately show False using less by simp
qed

lemma env_okI:
  "(\<And>a. en_session e = Some a \<Longrightarrow> a \<notin> set (all_sessions m)) \<Longrightarrow> (\<And>c. en_ctx e = Some c \<Longrightarrow> c \<notin> set (mg_ctxes m)) \<Longrightarrow>
   length (get_list l m) < 2 ^ 32 - 1 \<Longrightarrow> (case en_pseudo e u of None \<Rightarrow> en_flags e | Some f \<Rightarrow> f) = FL u \<Longrightarrow> env_ok FL e l u m"
  using few_ids [of "sess_view l m"] by (simp add: env_ok_def sess_all)

lemma demo_reach: "mgr_reach demo_R demo_FL demo_mgr"
proof (rule mgr_reach_runs [OF _ mgr_reach.start demo_runs])
  show "runs_ok demo_R demo_FL demo_open mgr_start"
    by (simp add: env_ok_def sess_all few_ids mgr_eval demo_defs mgr_flag_defs all_sessions_def rk_def)
qed

section \<open>Properties\<close>

lemma all_sessions_distinct: "mgr_inv R {} L {} m \<Longrightarrow> distinct (all_sessions m)"
  unfolding all_sessions_def by (rule distinct_lists) (auto simp: mgr_inv_def ctxs_ok_def)

lemma users_length:
  assumes "mgr_inv R {} L {} m"
  shows "card (users {} {} m c) = length (filter (\<lambda>a. ss_ctx (mg_heap m a) = Some c) (all_sessions m))"
proof -
  have "users {} {} m c = set (filter (\<lambda>a. ss_ctx (mg_heap m a) = Some c) (all_sessions m))"
    by (auto simp: users_def sess_all)
  then show ?thesis using distinct_card [OF distinct_filter [OF all_sessions_distinct [OF assms]]] by metis
qed




text \<open>The example, with the session of the normal world closed while the application panics in it.\<close>

definition demo_dead :: ta_mgr where
  "demo_dead = demo_mgr\<lparr>mg_nsec := [1],
     mg_ctx := (mg_ctx demo_mgr)(2 := demo_ctx [2] True 1 []),
     mg_heap := (mg_heap demo_mgr)(3 := (mg_heap demo_mgr 3)
       \<lparr>ss_ref_count := 1, ss_lock_thread := Some self, ss_unlink := True\<rparr>)\<rparr>"

lemma demo_dead_runs: "mgr_runs (demo_open @ [(demo_env 4 4, CloseNs 2 0)]) mgr_start = Returns demo_dead"
  unfolding demo_dead_def demo_mgr_def
  by (simp add: mgr_eval demo_defs mgr_flag_defs)

lemma demo_dead_reach: "mgr_reach demo_R demo_FL demo_dead"
proof (rule mgr_reach_runs [OF _ mgr_reach.start demo_dead_runs])
  show "runs_ok demo_R demo_FL (demo_open @ [(demo_env 4 4, CloseNs 2 0)]) mgr_start"
    by (simp add: env_ok_def sess_all few_ids mgr_eval demo_defs mgr_flag_defs all_sessions_def rk_def)
qed


text \<open>
  C21. Single instances. As long as requests run one after the other, an application that is flagged
  single-instance has at most one context, and if it is not multi-session, at most one session.
\<close>

theorem mgr_single_instance:
  assumes "mgr_reach R FL m" and "FL u AND TA_FLAG_SINGLE_INSTANCE \<noteq> 0"
  shows "length (filter (\<lambda>c. tc_uuid (mg_ctx m c) = u) (mg_ctxes m)) \<le> 1 \<and>
    (FL u AND TA_FLAG_MULTI_SESSION = 0 \<longrightarrow>
      length (filter (\<lambda>a. case ss_ctx (mg_heap m a) of None \<Rightarrow> False | Some c \<Rightarrow> tc_uuid (mg_ctx m c) = u) (all_sessions m)) \<le> 1)"
proof -
  have inv: "mgr_inv R {} {} {} m" and ex: "extra FL m" using mgr_reach_ok [OF assms(1)] by (simp_all add: mgr_ok_def)
  let ?cs = "filter (\<lambda>c. tc_uuid (mg_ctx m c) = u) (mg_ctxes m)"
  have one: "c = d" if "c \<in> set ?cs" "d \<in> set ?cs" for c d
    using ex assms(2) that unfolding extra_def set_filter mem_Collect_eq by metis
  have "distinct ?cs" using inv by (simp add: mgr_inv_def ctxs_ok_def)
  then have len: "length ?cs \<le> 1" using one by (metis card_le_Suc0_iff_eq List.finite_set distinct_card One_nat_def)
  have ctx: "c \<in> set ?cs" if "a \<in> set (all_sessions m)" "ss_ctx (mg_heap m a) = Some c" "tc_uuid (mg_ctx m c) = u" for a c
    using inv that by (auto simp: mgr_inv_def refs_ok_def sess_all)
  have "length (filter (\<lambda>a. case ss_ctx (mg_heap m a) of None \<Rightarrow> False | Some c \<Rightarrow> tc_uuid (mg_ctx m c) = u) (all_sessions m)) \<le> 1"
    if single: "FL u AND TA_FLAG_MULTI_SESSION = 0"
  proof (cases ?cs)
    case Nil
    then have "filter (\<lambda>a. case ss_ctx (mg_heap m a) of None \<Rightarrow> False | Some c \<Rightarrow> tc_uuid (mg_ctx m c) = u) (all_sessions m) = []"
      using ctx by (auto simp: filter_empty_conv split: option.splits)
    then show ?thesis by simp
  next
    case (Cons c cs)
    have "c \<in> set ?cs" unfolding Cons by simp
    then have c: "c \<in> set (mg_ctxes m)" "tc_uuid (mg_ctx m c) = u" by simp_all
    have "filter (\<lambda>a. case ss_ctx (mg_heap m a) of None \<Rightarrow> False | Some c \<Rightarrow> tc_uuid (mg_ctx m c) = u) (all_sessions m) =
        filter (\<lambda>a. ss_ctx (mg_heap m a) = Some c) (all_sessions m)"
    proof (rule filter_cong [OF refl])
      fix a assume a: "a \<in> set (all_sessions m)"
      show "(case ss_ctx (mg_heap m a) of None \<Rightarrow> False | Some c \<Rightarrow> tc_uuid (mg_ctx m c) = u) = (ss_ctx (mg_heap m a) = Some c)"
      proof (cases "ss_ctx (mg_heap m a)")
        case (Some d)
        have "d = c" if "tc_uuid (mg_ctx m d) = u" by (rule one [OF ctx [OF a Some that] \<open>c \<in> set ?cs\<close>])
        with Some c(2) show ?thesis by auto
      qed simp
    qed
    moreover have "tc_ref_count (mg_ctx m c) \<le> 1" using ex c assms(2) single by (auto simp: extra_def)
    ultimately show ?thesis using inv c(1) users_length [OF inv, of c] by (simp add: mgr_inv_def refs_ok_def)
  qed
  with len show ?thesis by blast
qed

theorem mgr_single_instance_witness:
  "demo_FL [2] AND TA_FLAG_SINGLE_INSTANCE \<noteq> 0 \<and> length (filter (\<lambda>c. tc_uuid (mg_ctx demo_mgr c) = [2]) (mg_ctxes demo_mgr)) \<le> 1"
proof -
  have "demo_FL [2] AND TA_FLAG_SINGLE_INSTANCE \<noteq> 0" by (simp add: demo_FL_def mgr_flag_defs)
  with mgr_single_instance [OF demo_reach this] show ?thesis by blast
qed

text \<open>
  C20. Panics are contained. When an application panics while a session of it is invoked, or had
  panicked before, the client is told so, the context is gone afterwards, and no open session, be it
  of another client, refers to it any more.
\<close>

theorem mgr_panic_contained:
  assumes "mgr_reach R FL m" and "en_params e = TEE_SUCCESS"
    and "tee_ta_find_session i (sess_view Nsec m) = Some a" "check_client (mg_heap m a) NSAPP_IDENTITY = TEE_SUCCESS"
    and "ss_ctx (mg_heap m a) = Some c" "tc_user (mg_ctx m c)" "snd (en_enter e) \<or> tc_panicked (mg_ctx m c)"
  shows "\<exists>m'. mgr_exec e (InvokeNs i) m = Returns (TEE_ERROR_TARGET_DEAD, m') \<and> c \<notin> set (mg_ctxes m') \<and>
    (\<forall>b \<in> set (all_sessions m'). ss_ctx (mg_heap m' b) \<noteq> Some c) \<and> a \<in> set (mg_nsec m')"
proof -
  have ok: "mgr_ok R FL m" by (rule mgr_reach_ok [OF assms(1)])
  have l: "valid_list {} m Nsec" by (simp add: valid_list_def)
  have a: "a \<in> set (get_list Nsec m)" "i = ss_id (mg_heap m a)" using find_session_cases [of i Nsec m] assms(3) by auto
  note r = mgr_ok_lists [OF ok l]
  define m1 where "m1 = sess_set a lock_session m"
  have get: "mg_get_session Nsec i True m = Returns (Some a, m1)"
    unfolding m1_def a(2) by (rule mg_get_session_own [OF r(1) a(1) r(2) [OF a(1)]])
  have inv: "mgr_inv R {} {} {} m" and ex: "extra FL m" using ok by (simp_all add: mgr_ok_def)
  have inv1: "mgr_inv R {} {a} {} m1" unfolding m1_def by (rule inv_lock [OF inv])
  have ex1: "extra FL m1" unfolding m1_def by (rule shrunk_extra [OF sess_set_shrunk ex])
  have h1: "check_client (mg_heap m1 a) NSAPP_IDENTITY = TEE_SUCCESS" "ss_ctx (mg_heap m1 a) = Some c" "mg_ctx m1 = mg_ctx m"
      "locked (mg_heap m1 a)" "valid_list {} m1 Nsec" "a \<in> set (get_list Nsec m1)"
    using assms(4,5) r(2) [OF a(1)] a(1) by (simp_all add: m1_def valid_list_def)
  define m2 where "m2 = (if tc_panicked (mg_ctx m1 c) then m1 else invoked e a c TEE_TIMEOUT_INFINITE m1)"
  have p: "tc_panicked (mg_ctx m2 c)"
    using assms(6,7) h1(3) by (auto simp: m2_def invoked_def enter_invoke_cmd_def user_ta_enter_def split: prod.splits)
  note iv = invoked_ok [OF inv1, where e = e and c = c and to = TEE_TIMEOUT_INFINITE]
  have "mg_nsec (invoked e a c TEE_TIMEOUT_INFINITE m1) = mg_nsec m1" using iv(4) [of Nsec] by simp
  then have m2: "mgr_inv R {} {a} {} m2" "shrunk m1 m2" "ss_ctx (mg_heap m2 a) = Some c" "a \<in> set (get_list Nsec m2)"
      "valid_list {} m2 Nsec" "locked (mg_heap m2 a)"
    using iv inv1 h1
    by (simp_all add: m2_def shrunk_refl)
  have "mgr_quiet m1" using ex1 by (simp add: extra_def)
  moreover have "a \<in> sess {} m1" using h1(5,6) by (auto simp: sess_def)
  ultimately have run: "tee_ta_invoke_command e a NSAPP_IDENTITY TEE_TIMEOUT_INFINITE m1 =
      bind_call (destroy_ta_ctx_from_session e a c m2) (\<lambda>m. Returns (TEE_ERROR_TARGET_DEAD, m))"
    using invoke_eq [OF inv1, of e NSAPP_IDENTITY TEE_TIMEOUT_INFINITE] h1(1,2) p by (simp add: m2_def [symmetric] Let_def)
  have "mgr_quiet m2" using shrunk_extra [OF m2(2) ex1] by (simp add: extra_def)
  from destroy_from_ok [OF m2(1) this m2(5,4,3), of e] obtain m3 where
    d: "destroy_ta_ctx_from_session e a c m2 = Returns m3" "mgr_inv R {} {a} {} m3" "c \<notin> set (mg_ctxes m3)"
      "mg_heap m3 a = (mg_heap m2 a)\<lparr>ss_ctx := None\<rparr>" "get_list Nsec m3 = get_list Nsec m2" by blast
  have "mg_put_session Nsec a m3 = Returns (sess_set a unlock_session m3)"
    by (rule mg_put_session_held) (use m2(6) d(4) in \<open>simp_all add: locked_def\<close>)
  moreover have "ss_ctx (mg_heap (sess_set a unlock_session m3) b) \<noteq> Some c"
    if "b \<in> set (all_sessions (sess_set a unlock_session m3))" for b
  proof -
    have "all_sessions (sess_set a unlock_session m3) = all_sessions m3" by (simp add: all_sessions_def)
    with that d(2,3) have "ss_ctx (mg_heap m3 b) \<noteq> Some c" by (auto simp: mgr_inv_def refs_ok_def sess_all)
    then show ?thesis by (auto simp: unlock_session_def)
  qed
  ultimately show ?thesis using get run d m2(4) assms(2) by (auto simp: entry_invoke_command_def)
qed

theorem mgr_panic_contained_witness:
  "\<exists>m'. mgr_exec ((demo_env 4 4)\<lparr>en_enter := (TEE_SUCCESS, True)\<rparr>) (InvokeNs 2) demo_mgr = Returns (TEE_ERROR_TARGET_DEAD, m') \<and>
    2 \<notin> set (mg_ctxes m')"
proof -
  have "tee_ta_find_session 2 (sess_view Nsec demo_mgr) = Some 3" "check_client (mg_heap demo_mgr 3) NSAPP_IDENTITY = TEE_SUCCESS"
    "ss_ctx (mg_heap demo_mgr 3) = Some 2" "tc_user (mg_ctx demo_mgr 2)"
    by (simp_all add: demo_mgr_def demo_defs mgr_eval mgr_flag_defs)
  from mgr_panic_contained [OF demo_reach _ this, of "(demo_env 4 4)\<lparr>en_enter := (TEE_SUCCESS, True)\<rparr>"]
  show ?thesis by (auto simp: demo_env_def)
qed

text \<open>
  Two instances. A session that is initialized while the only context of its application is not
  loaded yet, its flags being zero, gets a second context, whatever the flags of the application will
  be: the first one is not recognized as a single instance.
\<close>

theorem mgr_second_instance:
  assumes "tee_ta_context_find u m = Some c" "ctx_flags m c = 0"
    and "en_session e = Some a" "en_ctx e = Some d" "en_pseudo e u = None" "en_load e = TEE_SUCCESS"
    and "length (get_list l m) < 2 ^ 32 - 1" "d \<notin> set (mg_ctxes m)"
  shows "\<exists>m'. tee_ta_init_session e l u m = Returns (TEE_SUCCESS, a, m') \<and> mg_ctxes m' = mg_ctxes m @ [d] \<and>
    tc_uuid (mg_ctx m' c) = u \<and> tc_uuid (mg_ctx m' d) = u \<and> c \<noteq> d \<and> ss_ctx (mg_heap m' a) = Some d"
proof -
  have "\<not> UNIV - {0} \<subseteq> used_ids (sess_view l m)" using few_ids [of "sess_view l m"] assms(7) by simp
  with new_session_id_result [of "sess_view l m"] obtain i where i: "new_session_id (sess_view l m) = Some i" "i \<noteq> 0"
    by (auto split: if_splits)
  then obtain s where s: "init_session a (sess_view l m) = Some s" by (simp add: init_session_def)
  define m1 where "m1 = sess_put l s m"
  have "tee_ta_context_find u m1 = Some c" "ctx_flags m1 c = 0" using assms(1,2) by (simp_all add: m1_def tee_ta_context_find_def)
  then have find: "find_application e u a m1 = (TEE_SUCCESS, new_context d u True 0 a m1)"
    using assms(4-6) by (simp add: find_application_def tee_ta_init_session_with_context_def tee_ta_init_pseudo_ta_session_def
        tee_ta_init_user_ta_session_def)
  have c: "c \<in> set (mg_ctxes m)" "tc_uuid (mg_ctx m c) = u" using context_find_Some [OF assms(1)] by simp_all
  then have "c \<noteq> d" using assms(8) by blast
  then show ?thesis using i s assms(3) find c
    by (simp add: tee_ta_init_session_def m1_def [symmetric] new_context_simps) (simp add: m1_def)
qed

theorem mgr_second_instance_witness:
  "\<exists>m m'. tee_ta_init_session (demo_env 1 1) Nsec [1] mgr_start = Returns (TEE_SUCCESS, 1, m) \<and>
    tee_ta_init_session (demo_env 2 2) Nsec [1] m = Returns (TEE_SUCCESS, 2, m') \<and> mg_ctxes m' = [1, 2]"
proof -
  obtain m where m: "tee_ta_init_session (demo_env 1 1) Nsec [1] mgr_start = Returns (TEE_SUCCESS, 1, m)"
    "tee_ta_context_find [1] m = Some 1" "ctx_flags m 1 = 0" "mg_nsec m = [1]" "mg_ctxes m = [1]"
    by (simp add: mgr_eval demo_defs mgr_flag_defs)
  from mgr_second_instance [OF m(2,3), of "demo_env 2 2" 2 2 Nsec] m show ?thesis
    by (auto simp: demo_env_def)
qed

end
