(* ===== verification/Entry_Std.thy ===== *)
theory Entry_Std
  imports Entry_Refs Ta_Manager_Safe
begin

unbundle bit_operations_syntax

text \<open>
  Messages from the normal world as a whole, \<^verbatim>\<open>core/arch/arm/tee/entry_std.c\<close>: the TA manager and
  the shared memory together. Messages are handled one after the other. The field \<^verbatim>\<open>ret_origin\<close> of
  the argument, which is written only, and the fields that no function here uses are left out;
  \<^verbatim>\<open>num_params\<close> is the length of the list of parameters.
\<close>

section \<open>Entry points\<close>

record optee_msg_arg =
  arg_cmd :: u32
  arg_session :: u32
  arg_ret :: tee_result
  arg_params :: "optee_msg_param list"

definition OPTEE_MSG_CMD_OPEN_SESSION :: u32 where "OPTEE_MSG_CMD_OPEN_SESSION = 0"
definition OPTEE_MSG_CMD_INVOKE_COMMAND :: u32 where "OPTEE_MSG_CMD_INVOKE_COMMAND = 1"
definition OPTEE_MSG_CMD_CLOSE_SESSION :: u32 where "OPTEE_MSG_CMD_CLOSE_SESSION = 2"
definition OPTEE_MSG_CMD_CANCEL :: u32 where "OPTEE_MSG_CMD_CANCEL = 3"
definition OPTEE_MSG_CMD_REGISTER_SHM :: u32 where "OPTEE_MSG_CMD_REGISTER_SHM = 4"
definition OPTEE_MSG_CMD_UNREGISTER_SHM :: u32 where "OPTEE_MSG_CMD_UNREGISTER_SHM = 5"
definition OPTEE_SMC_RETURN_OK :: u32 where "OPTEE_SMC_RETURN_OK = 0"
definition OPTEE_SMC_RETURN_EBADCMD :: u32 where "OPTEE_SMC_RETURN_EBADCMD = 5"

text \<open>
  The parameters as the application leaves them: \<open>vals\<close> are its values of \<^verbatim>\<open>struct utee_params\<close> at the
  end of the call, \<open>None\<close> if it was not entered or panicked.
\<close>

definition app_answer :: "u64 list option \<Rightarrow> tee_ta_param \<Rightarrow> tee_ta_param" where
  "app_answer vals ta = (case vals of None \<Rightarrow> ta | Some vals \<Rightarrow> update_from_utee_param vals ta)"

text \<open>The parts of \<^verbatim>\<open>entry_open_session\<close> and \<^verbatim>\<open>entry_invoke_command\<close> between copying in and copying out.\<close>

definition open_part ::
    "ta_env \<Rightarrow> u64 list option \<Rightarrow> u8 list \<Rightarrow> TEE_Identity \<Rightarrow> tee_ta_param \<Rightarrow> ta_mgr \<times> u32 \<Rightarrow>
      (tee_result \<times> tee_ta_param option \<times> ta_mgr \<times> u32) call" where
  "open_part te vals u clnt ta mi =
     bind_call (tee_ta_open_session te Nsec u clnt TEE_TIMEOUT_INFINITE (fst mi)) (\<lambda>(res, a, m).
       Returns (res, Some (app_answer vals ta), m, if res = TEE_SUCCESS then ss_id (mg_heap m a) else 0))"

definition invoke_part ::
    "ta_env \<Rightarrow> u64 list option \<Rightarrow> u32 \<Rightarrow> tee_ta_param \<Rightarrow> ta_mgr \<Rightarrow> (tee_result \<times> tee_ta_param option \<times> ta_mgr) call" where
  "invoke_part te vals i ta m =
     bind_call (mg_get_session Nsec i True m) (\<lambda>(r, m).
       case r of
         None \<Rightarrow> Returns (TEE_ERROR_BAD_PARAMETERS, None, m)
       | Some a \<Rightarrow>
           bind_call (tee_ta_invoke_command te a NSAPP_IDENTITY TEE_TIMEOUT_INFINITE m) (\<lambda>(res, m).
           bind_call (mg_put_session Nsec a m) (\<lambda>m. Returns (res, Some (app_answer vals ta), m))))"

text \<open>
  The messages with parameters; \<open>junk\<close> is what the uninitialized \<^verbatim>\<open>param\<close> of \<^verbatim>\<open>entry_open_session\<close> holds.
  \<open>None\<close>: an array is read past its end.
\<close>

definition open_message ::
    "ta_env \<Rightarrow> shm_env \<Rightarrow> u64 list option \<Rightarrow> tee_ta_param \<Rightarrow> optee_msg_arg \<Rightarrow> ta_mgr \<Rightarrow> shm_state \<Rightarrow>
      (optee_msg_arg \<times> ta_mgr \<times> shm_state) call option" where
  "open_message te e vals junk arg m s =
     (case get_open_session_meta (arg_params arg) of
        Inl res \<Rightarrow> Some (Returns (arg\<lparr>arg_session := 0, arg_ret := res\<rparr>, m, s))
      | Inr (u, clnt) \<Rightarrow>
          map_option (\<lambda>r. bind_call r (\<lambda>(res, ps, (m, i), s).
              Returns (arg\<lparr>arg_session := i, arg_ret := res, arg_params := take 2 (arg_params arg) @ ps\<rparr>, m, s)))
            (entry_with_params e (open_part te vals u clnt) junk (drop 2 (arg_params arg)) (m, 0) s))"

definition invoke_message ::
    "ta_env \<Rightarrow> shm_env \<Rightarrow> u64 list option \<Rightarrow> optee_msg_arg \<Rightarrow> ta_mgr \<Rightarrow> shm_state \<Rightarrow> (optee_msg_arg \<times> ta_mgr \<times> shm_state) call option" where
  "invoke_message te e vals arg m s =
     map_option (\<lambda>r. bind_call r (\<lambda>(res, ps, m, s). Returns (arg\<lparr>arg_ret := res, arg_params := ps\<rparr>, m, s)))
       (entry_with_params e (invoke_part te vals (arg_session arg)) zero_param (arg_params arg) m s)"

definition tee_entry_std ::
    "ta_env \<Rightarrow> shm_env \<Rightarrow> u64 list option \<Rightarrow> tee_ta_param \<Rightarrow> optee_msg_arg \<Rightarrow> ta_mgr \<Rightarrow> shm_state \<Rightarrow>
      (u32 \<times> optee_msg_arg \<times> ta_mgr \<times> shm_state) call option" where
  "tee_entry_std te e vals junk arg m s =
     (let ok = map_option (\<lambda>r. bind_call r (\<lambda>x. Returns (OPTEE_SMC_RETURN_OK, x)));
          n = of_nat (length (arg_params arg)) in
      if arg_cmd arg = OPTEE_MSG_CMD_OPEN_SESSION then ok (open_message te e vals junk arg m s)
      else if arg_cmd arg = OPTEE_MSG_CMD_CLOSE_SESSION then
        ok (Some (bind_call (entry_close_session te (arg_session arg) n m) (\<lambda>(res, m). Returns (arg\<lparr>arg_ret := res\<rparr>, m, s))))
      else if arg_cmd arg = OPTEE_MSG_CMD_INVOKE_COMMAND then ok (invoke_message te e vals arg m s)
      else if arg_cmd arg = OPTEE_MSG_CMD_CANCEL then
        ok (Some (bind_call (entry_cancel (arg_session arg) n m) (\<lambda>(res, m). Returns (arg\<lparr>arg_ret := res\<rparr>, m, s))))
      else if arg_cmd arg = OPTEE_MSG_CMD_REGISTER_SHM then
        ok (Some (bind_call (of_outcome (register_shm e (arg_params arg) s)) (\<lambda>(res, s). Returns (arg\<lparr>arg_ret := res\<rparr>, m, s))))
      else if arg_cmd arg = OPTEE_MSG_CMD_UNREGISTER_SHM then
        ok (Some (bind_call (unregister_shm (arg_params arg) s) (\<lambda>(res, s). Returns (arg\<lparr>arg_ret := res\<rparr>, m, s))))
      else Some (Returns (OPTEE_SMC_RETURN_EBADCMD, arg, m, s)))"

section \<open>Parameters and sessions\<close>

lemma app_answer_same: "same_mobjs ta (app_answer vals ta)"
  by (cases vals) (simp_all add: app_answer_def update_same_mobjs, simp add: same_mobjs_def)

interpretation open_client: params_client "open_part te vals u clnt" for te vals u clnt
  by unfold_locales (auto simp: open_part_def bind_call_Returns_iff app_answer_same)

interpretation invoke_client: params_client "invoke_part te vals i" for te vals i
  by unfold_locales (auto simp: invoke_part_def bind_call_Returns_iff app_answer_same split: option.splits)

text \<open>The parts do to the TA manager what the entry points of \<^theory_text>\<open>Ta_Manager\<close> do.\<close>

lemma open_part_mgr:
  assumes "en_params te = TEE_SUCCESS"
  shows "entry_open_session te u clnt m = bind_call (open_part te vals u clnt ta (m, i)) (\<lambda>(res, out, m, i). Returns (res, i, m))"
  using assms
  by (cases "tee_ta_open_session te Nsec u clnt TEE_TIMEOUT_INFINITE m") (auto simp: open_part_def entry_open_session_def)

lemma invoke_part_mgr:
  assumes "en_params te = TEE_SUCCESS"
  shows "entry_invoke_command te i m = bind_call (invoke_part te vals i ta m) (\<lambda>(res, out, m). Returns (res, m))"
proof (cases "mg_get_session Nsec i True m")
  case (Returns x)
  obtain r m1 where x: "x = (r, m1)" by (metis surj_pair)
  show ?thesis
  proof (cases r)
    case (Some a)
    show ?thesis
    proof (cases "tee_ta_invoke_command te a NSAPP_IDENTITY TEE_TIMEOUT_INFINITE m1")
      case inv: (Returns y)
      obtain res m2 where y: "y = (res, m2)" by (metis surj_pair)
      show ?thesis using Returns x Some inv y assms
        by (cases "mg_put_session Nsec a m2") (simp_all add: invoke_part_def entry_invoke_command_def)
    qed (use Returns x Some assms in \<open>simp_all add: invoke_part_def entry_invoke_command_def\<close>)
  qed (use Returns x assms in \<open>simp add: invoke_part_def entry_invoke_command_def\<close>)
qed (use assms in \<open>simp_all add: invoke_part_def entry_invoke_command_def\<close>)

section \<open>Messages return\<close>

definition core_ok :: "(u8 list \<Rightarrow> nat) \<Rightarrow> (u8 list \<Rightarrow> u32) \<Rightarrow> (paddr_t \<Rightarrow> bool) \<Rightarrow> ta_mgr \<Rightarrow> shm_state \<Rightarrow> bool" where
  "core_ok R FL N m s \<longleftrightarrow> mgr_ok R FL m \<and> shm_rest N s"

text \<open>The parameters handed to an application: not too many, and with nothing but a type as attribute.\<close>

definition params_ok :: "optee_msg_param list \<Rightarrow> bool" where
  "params_ok ps \<longleftrightarrow> length ps \<le> TEE_NUM_PARAMS \<and> list_all plain ps"

text \<open>
  What is assumed of a message: the environment of the TA manager is that of \<open>env_ok\<close>, and no
  session of a context that has panicked is opened. \<open>en_params\<close>, the result of copying parameters,
  is not used here, where they are copied.
\<close>

definition msg_ok :: "(u8 list \<Rightarrow> u32) \<Rightarrow> ta_env \<Rightarrow> optee_msg_arg \<Rightarrow> ta_mgr \<Rightarrow> bool" where
  "msg_ok FL te arg m \<longleftrightarrow> en_params te = TEE_SUCCESS \<and>
     (arg_cmd arg = OPTEE_MSG_CMD_INVOKE_COMMAND \<longrightarrow> params_ok (arg_params arg)) \<and>
     (arg_cmd arg = OPTEE_MSG_CMD_OPEN_SESSION \<longrightarrow> params_ok (drop 2 (arg_params arg)) \<and>
       (case get_open_session_meta (arg_params arg) of
          Inl _ \<Rightarrow> True
        | Inr (u, clnt) \<Rightarrow> env_ok FL te Nsec u m \<and> \<not> opens_dead te u m))"

lemma invoke_message_ok:
  assumes ok: "mgr_ok R FL m" and room: "refs_room s" and ps: "params_ok (arg_params arg)" and te: "en_params te = TEE_SUCCESS"
  shows "\<exists>arg' m'. invoke_message te e vals arg m s = Some (Returns (arg', m', s)) \<and> mgr_ok R FL m'"
proof -
  let ?run = "invoke_part te vals (arg_session arg)"
  have mg: "\<exists>res out m'. ?run ta m = Returns (res, out, m') \<and> mgr_ok R FL m'" for ta
  proof -
    have "ends_ok R FL (entry_invoke_command te (arg_session arg) m)"
      using mgr_exec_ok [OF ok, of te "InvokeNs (arg_session arg)"] by simp
    then show ?thesis unfolding invoke_part_mgr [OF te, of _ _ vals ta] ends_ok_iff by (auto simp: bind_call_Returns_iff)
  qed
  from ps have p: "length (arg_params arg) \<le> TEE_NUM_PARAMS" "list_all plain (arg_params arg)" by (simp_all add: params_ok_def)
  obtain res ta f where "entry_with_params e ?run zero_param (arg_params arg) m s =
      Some (bind_call (if res \<noteq> TEE_SUCCESS then Returns (res, None, m) else ?run ta m) (\<lambda>(res, out, m). Returns (res, f out, m, s)))"
    using room p by (rule invoke_client.balanced)
  then show ?thesis using mg [of ta] ok by (cases "res = TEE_SUCCESS") (auto simp: invoke_message_def)
qed

lemma open_message_ok:
  assumes ok: "mgr_ok R FL m" and room: "refs_room s" and ps: "params_ok (drop 2 (arg_params arg))" and te: "en_params te = TEE_SUCCESS"
    and meta: "get_open_session_meta (arg_params arg) = Inr (u, clnt)" and env: "env_ok FL te Nsec u m" "\<not> opens_dead te u m"
  shows "\<exists>arg' m'. open_message te e vals junk arg m s = Some (Returns (arg', m', s)) \<and> mgr_ok R FL m'"
proof -
  let ?run = "open_part te vals u clnt"
  have mg: "\<exists>res out m' i. ?run ta (m, 0) = Returns (res, out, m', i) \<and> mgr_ok R FL m'" for ta
  proof -
    have "ends_ok R FL (mgr_exec te (OpenNs u clnt) m)"
      using mgr_exec_ok [OF ok, of te "OpenNs u clnt"] env by simp
    then show ?thesis unfolding ends_ok_iff mgr_exec.simps open_part_mgr [OF te, of _ _ _ vals ta 0]
      by (auto simp: bind_call_Returns_iff)
  qed
  from ps have p: "length (drop 2 (arg_params arg)) \<le> TEE_NUM_PARAMS" "list_all plain (drop 2 (arg_params arg))"
    by (simp_all add: params_ok_def)
  obtain res ta f where "entry_with_params e ?run junk (drop 2 (arg_params arg)) (m, 0) s =
      Some (bind_call (if res \<noteq> TEE_SUCCESS then Returns (res, None, (m, 0)) else ?run ta (m, 0)) (\<lambda>(res, out, m). Returns (res, f out, m, s)))"
    using room p by (rule open_client.balanced)
  then show ?thesis using mg [of ta] ok meta by (cases "res = TEE_SUCCESS") (auto simp: open_message_def)
qed

lemma tee_entry_std_ok:
  assumes ok: "core_ok R FL N m s" and env: "shm_env_ok N e" and msg: "msg_ok FL te arg m"
  shows "\<exists>rv arg' m' s'. tee_entry_std te e vals junk arg m s = Some (Returns (rv, arg', m', s')) \<and> core_ok R FL N m' s'"
proof -
  have mg: "mgr_ok R FL m" and sh: "shm_rest N s" using ok by (simp_all add: core_ok_def)
  note room = shm_rest_room [OF sh]
  have te: "en_params te = TEE_SUCCESS" using msg by (simp add: msg_ok_def)
  let ?i = "arg_session arg" and ?n = "of_nat (length (arg_params arg)) :: u32"
  note d = tee_entry_std_def Let_def core_ok_def
  consider (op) "arg_cmd arg = OPTEE_MSG_CMD_OPEN_SESSION" | (iv) "arg_cmd arg = OPTEE_MSG_CMD_INVOKE_COMMAND"
    | (cl) "arg_cmd arg = OPTEE_MSG_CMD_CLOSE_SESSION" | (ca) "arg_cmd arg = OPTEE_MSG_CMD_CANCEL"
    | (re) "arg_cmd arg = OPTEE_MSG_CMD_REGISTER_SHM" | (un) "arg_cmd arg = OPTEE_MSG_CMD_UNREGISTER_SHM"
    | (other) "arg_cmd arg \<notin> {OPTEE_MSG_CMD_OPEN_SESSION, OPTEE_MSG_CMD_INVOKE_COMMAND, OPTEE_MSG_CMD_CLOSE_SESSION,
        OPTEE_MSG_CMD_CANCEL, OPTEE_MSG_CMD_REGISTER_SHM, OPTEE_MSG_CMD_UNREGISTER_SHM}" by blast
  then show ?thesis
  proof cases
    case op
    show ?thesis
    proof (cases "get_open_session_meta (arg_params arg)")
      case (Inl res)
      then show ?thesis using op ok by (simp add: d open_message_def)
    next
      case (Inr x)
      obtain u clnt where x: "x = (u, clnt)" by (metis surj_pair)
      have "params_ok (drop 2 (arg_params arg))" "env_ok FL te Nsec u m" "\<not> opens_dead te u m"
        using msg op Inr x by (simp_all add: msg_ok_def)
      with open_message_ok [OF mg room this(1) te _ this(2,3)] Inr x obtain arg' m' where
        "open_message te e vals junk arg m s = Some (Returns (arg', m', s))" "mgr_ok R FL m'" by blast
      then show ?thesis using op sh by (simp add: d)
    qed
  next
    case iv
    have "params_ok (arg_params arg)" using msg iv by (simp add: msg_ok_def)
    from invoke_message_ok [OF mg room this te] obtain arg' m' where
      "invoke_message te e vals arg m s = Some (Returns (arg', m', s))" "mgr_ok R FL m'" by blast
    then show ?thesis using iv sh by (simp add: d OPTEE_MSG_CMD_OPEN_SESSION_def OPTEE_MSG_CMD_INVOKE_COMMAND_def OPTEE_MSG_CMD_CLOSE_SESSION_def)
  next
    case cl
    have "ends_ok R FL (entry_close_session te ?i ?n m)" using mgr_exec_ok [OF mg, of te "CloseNs ?i ?n"] by simp
    then show ?thesis using cl sh by (auto simp: d ends_ok_iff OPTEE_MSG_CMD_OPEN_SESSION_def OPTEE_MSG_CMD_CLOSE_SESSION_def)
  next
    case ca
    have "ends_ok R FL (entry_cancel ?i ?n m)" by (rule cancel_ok [OF mg])
    then show ?thesis using ca sh
      by (auto simp: d ends_ok_iff OPTEE_MSG_CMD_OPEN_SESSION_def OPTEE_MSG_CMD_CLOSE_SESSION_def OPTEE_MSG_CMD_INVOKE_COMMAND_def OPTEE_MSG_CMD_CANCEL_def)
  next
    case re
    from register_shm_rest [OF env sh, of "arg_params arg"] show ?thesis using re mg
      by (auto simp: d OPTEE_MSG_CMD_OPEN_SESSION_def OPTEE_MSG_CMD_CLOSE_SESSION_def OPTEE_MSG_CMD_INVOKE_COMMAND_def
          OPTEE_MSG_CMD_CANCEL_def OPTEE_MSG_CMD_REGISTER_SHM_def)
  next
    case un
    from unregister_shm_rest [OF sh, of "arg_params arg"] show ?thesis using un mg
      by (auto simp: d OPTEE_MSG_CMD_OPEN_SESSION_def OPTEE_MSG_CMD_CLOSE_SESSION_def OPTEE_MSG_CMD_INVOKE_COMMAND_def
          OPTEE_MSG_CMD_CANCEL_def OPTEE_MSG_CMD_REGISTER_SHM_def OPTEE_MSG_CMD_UNREGISTER_SHM_def)
  qed (use ok in \<open>simp add: d\<close>)
qed

section \<open>Properties\<close>

definition shm_start :: shm_state where
  "shm_start = \<lparr>reg_shm_list = [], rs_heap = (\<lambda>_. demo_rs), tee_mm_shm = [], shm_mobj_refc = 1\<rparr>"

text \<open>The states that messages lead to; the non-secure memory \<open>N\<close> does not change.\<close>

inductive core_reach :: "(u8 list \<Rightarrow> nat) \<Rightarrow> (u8 list \<Rightarrow> u32) \<Rightarrow> (paddr_t \<Rightarrow> bool) \<Rightarrow> ta_mgr \<Rightarrow> shm_state \<Rightarrow> bool" for R FL N where
  start: "core_reach R FL N mgr_start shm_start"
| message: "core_reach R FL N m s \<Longrightarrow> shm_env_ok N e \<Longrightarrow> msg_ok FL te arg m \<Longrightarrow>
    tee_entry_std te e vals junk arg m s = Some (Returns (rv, arg', m', s')) \<Longrightarrow> core_reach R FL N m' s'"

lemma core_reach_ok: "core_reach R FL N m s \<Longrightarrow> core_ok R FL N m s"
proof (induction rule: core_reach.induct)
  case start
  show ?case by (simp add: core_ok_def mgr_ok_start shm_rest_def shm_inv_def shm_start_def)
next
  case (message m s e te arg vals junk rv arg' m' s')
  from tee_entry_std_ok [OF message.IH message.hyps(2,3), of vals junk] message.hyps(4) show ?case by auto
qed


text \<open>The message that registers shared memory.\<close>

definition demo_message :: "u32 \<Rightarrow> optee_msg_param list \<Rightarrow> optee_msg_arg" where
  "demo_message cmd ps = \<lparr>arg_cmd = cmd, arg_session = 1, arg_ret = TEE_SUCCESS, arg_params = ps\<rparr>"

lemma demo_core_reach:
  "\<exists>s a. core_reach demo_R demo_FL (\<lambda>p. p < 0x100000) mgr_start s \<and> reg_shm_list s = [a]"
proof -
  let ?arg = "demo_message OPTEE_MSG_CMD_REGISTER_SHM [demo_register]"
  obtain s1 where reg: "register_shm demo_shm_env [demo_register] shm_start = Ret (TEE_SUCCESS, s1)" using demo_registers by blast
  from demo_shm_env_ok have "\<exists>a. reg_shm_list s1 = [a]"
  proof (cases rule: register_shm_cases [where params = "[demo_register]" and s = shm_start])
    case (registered p a s0)
    then show ?thesis using reg by (auto simp: added_def shm_start_def mobj_reg_shm_unguard_def)
  qed (use reg in simp)
  moreover have "tee_entry_std (demo_env 1 1) demo_shm_env None zero_param ?arg mgr_start shm_start =
      Some (Returns (OPTEE_SMC_RETURN_OK, ?arg, mgr_start, s1))"
    using reg by (simp add: tee_entry_std_def demo_message_def Let_def OPTEE_MSG_CMD_OPEN_SESSION_def OPTEE_MSG_CMD_CLOSE_SESSION_def
        OPTEE_MSG_CMD_INVOKE_COMMAND_def OPTEE_MSG_CMD_CANCEL_def OPTEE_MSG_CMD_REGISTER_SHM_def)
  moreover have "msg_ok demo_FL (demo_env 1 1) ?arg mgr_start"
    by (simp add: msg_ok_def demo_message_def demo_env_def OPTEE_MSG_CMD_OPEN_SESSION_def OPTEE_MSG_CMD_INVOKE_COMMAND_def
        OPTEE_MSG_CMD_REGISTER_SHM_def)
  ultimately show ?thesis using core_reach.message [OF core_reach.start demo_shm_env_ok] by blast
qed



lemma demo_params_ok: "params_ok [demo_rmem]"
  by (simp add: params_ok_def plain_def demo_rmem_def TEE_NUM_PARAMS_def OPTEE_MSG_ATTR_TYPE_MASK_def OPTEE_MSG_ATTR_TYPE_RMEM_INPUT_def)




text \<open>
  C36. More than four parameters are refused, but only after the fact: the clean-up of the refused
  message goes through as many entries of the array of saved attributes as the message has
  parameters and reads past its end.
\<close>

theorem invoke_too_many_params:
  assumes "TEE_NUM_PARAMS < length (arg_params arg)" and "arg_cmd arg = OPTEE_MSG_CMD_INVOKE_COMMAND"
  shows "tee_entry_std te e vals junk arg m s = None"
proof -
  have "cleanup_loop zero_attr us n k s = None" if "n \<le> TEE_NUM_PARAMS" "TEE_NUM_PARAMS < n + k" for us n k
    using that
  proof (induction k arbitrary: n)
    case (Suc k)
    then show ?case by (cases "n = TEE_NUM_PARAMS") (auto simp: zero_attr_def is_tmem_def is_rmem_def)
  qed simp
  from this [of 0 "length (arg_params arg)"] assms show ?thesis
    by (simp add: tee_entry_std_def Let_def OPTEE_MSG_CMD_OPEN_SESSION_def OPTEE_MSG_CMD_INVOKE_COMMAND_def
        OPTEE_MSG_CMD_CLOSE_SESSION_def invoke_message_def entry_with_params_def copy_in_params_def cleanup_shm_refs_def)
qed

theorem invoke_too_many_params_witness:
  "tee_entry_std (demo_env 1 1) demo_shm_env None zero_param (demo_message OPTEE_MSG_CMD_INVOKE_COMMAND (replicate 5 demo_rmem))
    mgr_start demo_shm = None"
  by (rule invoke_too_many_params) (simp_all add: demo_message_def TEE_NUM_PARAMS_def)

text \<open>
  A client in the normal world cannot pass for a trusted application: the identity that an open
  message yields never has the login method of applications.
\<close>

theorem open_session_login:
  assumes "get_open_session_meta params = Inr (u, clnt)"
  shows "login clnt \<noteq> TEE_LOGIN_TRUSTED_APP"
  using assms by (auto simp: get_open_session_meta_def TEE_LOGIN_TRUSTED_APP_def Let_def split: list.splits if_splits)

definition demo_meta :: "u64 \<Rightarrow> optee_msg_param" where
  "demo_meta lg = \<lparr>mp_attr = OPTEE_MSG_ATTR_META OR OPTEE_MSG_ATTR_TYPE_VALUE_INPUT, mp_a = 0, mp_b = 0, mp_c = lg\<rparr>"

theorem open_session_login_witness:
  "\<exists>u clnt. get_open_session_meta [demo_meta 0, demo_meta 1] = Inr (u, clnt) \<and> login clnt \<noteq> TEE_LOGIN_TRUSTED_APP"
proof -
  obtain u clnt where "get_open_session_meta [demo_meta 0, demo_meta 1] = Inr (u, clnt)"
    by (simp add: get_open_session_meta_def demo_meta_def Let_def)
  with open_session_login [OF this] show ?thesis by blast
qed

text \<open>
  C37. Temporary references to lists of pages leak. An invoke message with such a parameter makes an
  object with one reference; cleaning up compares the whole attribute, which has the bit
  \<^verbatim>\<open>OPTEE_MSG_ATTR_NONCONTIG\<close>, with the plain types and does not give the reference back, and as the object
  stays guarded, unregistering it by its cookie is refused for ever.
\<close>

theorem noncontig_param_leaks:
  assumes "shm_env_ok N e" and "mp_attr p = OPTEE_MSG_ATTR_TYPE_TMEM_INPUT OR OPTEE_MSG_ATTR_NONCONTIG" and "mp_a p \<noteq> 0"
    and "msg_param_mobj_from_noncontig e (mp_a p) (mp_b p) (mp_c p) False s = Ret (Some a, s1)"
    and "arg_params arg = [p]"
  shows "\<exists>r. invoke_message te e vals arg m s =
      Some (bind_call r (\<lambda>(arg', m'). Returns (arg', m', s1))) \<and>
    a \<in> set (reg_shm_list s1) \<and> unregister_shm [p] s1 = Returns (TEE_ERROR_BAD_PARAMETERS, s1)"
proof -
  let ?run = "invoke_part te vals (arg_session arg)"
  have at: "mp_attr p = 0x209" using assms(2) by (simp add: OPTEE_MSG_ATTR_TYPE_TMEM_INPUT_def OPTEE_MSG_ATTR_NONCONTIG_def)
  have z: "tp_u zero_param = [null_u, null_u, null_u, null_u]" "zero_attr = [0, 0, 0, 0]"
    by (simp_all add: zero_param_def zero_attr_def TEE_NUM_PARAMS_def replicate_four)
  have ad: "added N (mp_c p) s a s1" using assms(1)
    by (cases rule: noncontig_cases [where buf_ptr = "mp_a p" and sz = "mp_b p" and ck = "mp_c p" and s = s]) (use assms(4) in auto)
  obtain ta where "copy_in_params e [p] zero_param zero_attr s = Ret (TEE_SUCCESS, ta, [0x209, 0, 0, 0], s1)"
    using assms(3,4) at
    by (simp add: copy_in_params_def copy_in_one_def set_tmem_param_def z Let_def is_value_def is_tmem_def cs_mem_def cs_type_def
        OPTEE_MSG_ATTR_META_def OPTEE_MSG_ATTR_TYPE_MASK_def OPTEE_MSG_ATTR_NONCONTIG_def TEE_NUM_PARAMS_def)
  moreover have "cleanup_shm_refs [0x209, 0, 0, 0] ta' (Suc 0) s1 = Some (Ret s1)" for ta'
    by (simp add: cleanup_shm_refs_def is_tmem_def is_rmem_def)
  ultimately have run: "entry_with_params e ?run zero_param [p] m s = Some (bind_call (?run ta m) (\<lambda>(res, out, m).
      Returns (res, case out of None \<Rightarrow> [p] | Some ta \<Rightarrow> copy_out_param ta [0x209, 0, 0, 0] [p], m, s1)))"
    by (cases "?run ta m") (auto simp: entry_with_params_def)
  have "invoke_message te e vals arg m s =
    Some (bind_call (bind_call (?run ta m) (\<lambda>(res, out, m). Returns (arg\<lparr>arg_ret := res,
      arg_params := (case out of None \<Rightarrow> [p] | Some ta \<Rightarrow> copy_out_param ta [0x209, 0, 0, 0] [p])\<rparr>, m))) (\<lambda>(arg', m'). Returns (arg', m', s1)))"
    using run assms(5) by (cases "?run ta m") (auto simp: invoke_message_def)
  moreover have "a \<in> set (reg_shm_list s1)" "unregister_shm [p] s1 = Returns (TEE_ERROR_BAD_PARAMETERS, s1)"
    using ad by (simp_all add: added_def unregister_shm_def mobj_reg_shm_release_by_cookie_def release_claim_def reg_shm_find_unlocked_def)
  ultimately show ?thesis by blast
qed

theorem noncontig_param_leaks_witness:
  "\<exists>p a s1 r. invoke_message (demo_env 1 1) demo_shm_env None (demo_message OPTEE_MSG_CMD_INVOKE_COMMAND [p]) mgr_start shm_start =
      Some (bind_call r (\<lambda>(arg', m'). Returns (arg', m', s1))) \<and>
    a \<in> set (reg_shm_list s1) \<and> unregister_shm [p] s1 = Returns (TEE_ERROR_BAD_PARAMETERS, s1)"
proof -
  let ?p = "\<lparr>mp_attr = OPTEE_MSG_ATTR_TYPE_TMEM_INPUT OR OPTEE_MSG_ATTR_NONCONTIG, mp_a = 0x1000, mp_b = 0x2000, mp_c = 7\<rparr>"
  let ?arg = "demo_message OPTEE_MSG_CMD_INVOKE_COMMAND [?p]"
  from demo_noncontig [of shm_start] obtain a s1 where
    r: "msg_param_mobj_from_noncontig demo_shm_env (mp_a ?p) (mp_b ?p) (mp_c ?p) False shm_start = Ret (Some a, s1)" by auto
  have "mp_attr ?p = OPTEE_MSG_ATTR_TYPE_TMEM_INPUT OR OPTEE_MSG_ATTR_NONCONTIG" "mp_a ?p \<noteq> 0" "arg_params ?arg = [?p]"
    by (simp_all add: demo_message_def)
  from noncontig_param_leaks [OF demo_shm_env_ok this(1,2) r this(3), of "demo_env 1 1" None mgr_start] show ?thesis by blast
qed

end
