(* ===== verification/Storage_Obj.thy ===== *)
theory Storage_Obj
  imports Prelude
begin

unbundle bit_operations_syntax

text \<open>
  Persistent objects and their handles: the registry of open objects \<^verbatim>\<open>core/tee/tee_pobj.c\<close>, the lists of
  handles of applications \<^verbatim>\<open>core/tee/tee_obj.c\<close> and the system calls on them
  \<^verbatim>\<open>core/tee/tee_svc_storage.c\<close>. File systems and the attributes of objects enter by their results, and the
  calls of the file systems are logged.
\<close>

section \<open>Data\<close>

definition TEE_DATA_FLAG_ACCESS_READ :: u32 where "TEE_DATA_FLAG_ACCESS_READ = 0x1"
definition TEE_DATA_FLAG_ACCESS_WRITE :: u32 where "TEE_DATA_FLAG_ACCESS_WRITE = 0x2"
definition TEE_DATA_FLAG_ACCESS_WRITE_META :: u32 where "TEE_DATA_FLAG_ACCESS_WRITE_META = 0x4"
definition TEE_DATA_FLAG_SHARE_READ :: u32 where "TEE_DATA_FLAG_SHARE_READ = 0x10"
definition TEE_DATA_FLAG_SHARE_WRITE :: u32 where "TEE_DATA_FLAG_SHARE_WRITE = 0x20"
definition TEE_DATA_FLAG_OVERWRITE :: u32 where "TEE_DATA_FLAG_OVERWRITE = 0x400"
definition TEE_HANDLE_FLAG_PERSISTENT :: u32 where "TEE_HANDLE_FLAG_PERSISTENT = 0x10000"
definition TEE_HANDLE_FLAG_INITIALIZED :: u32 where "TEE_HANDLE_FLAG_INITIALIZED = 0x20000"
definition TEE_OBJECT_ID_MAX_LEN :: nat where "TEE_OBJECT_ID_MAX_LEN = 64"
definition TEE_TYPE_DATA :: u32 where "TEE_TYPE_DATA = 0xA00000BF"
definition TEE_DATA_MAX_POSITION :: int where "TEE_DATA_MAX_POSITION = 0xFFFFFFFF"

datatype fops = ree_fs_ops | rpmb_fs_ops

definition tee_svc_storage_file_ops :: "u32 \<Rightarrow> fops option" where
  "tee_svc_storage_file_ops storage_id =
     (if storage_id = 1 \<or> storage_id = 0x80000000 then Some ree_fs_ops
      else if storage_id = 0x80000100 then Some rpmb_fs_ops else None)"

record tee_pobj =
  po_refcnt :: u32
  po_uuid :: "u8 list"
  po_obj_id :: "u8 list"
  po_flags :: u32
  po_temporary :: bool
  po_fops :: fops

type_synonym po_key = "u8 list \<times> u8 list \<times> fops"

definition pobj_key :: "tee_pobj \<Rightarrow> po_key" where
  "pobj_key x = (po_obj_id x, po_uuid x, po_fops x)"

text \<open>A handle; the fields of its \<^verbatim>\<open>TEE_ObjectInfo\<close> that the functions here use come first.\<close>

record tee_obj =
  ob_handleFlags :: u32
  ob_dataSize :: u32
  ob_dataPosition :: u32
  ob_busy :: bool
  ob_ds_pos :: size_t
  ob_pobj :: "addr option"
  ob_flags :: u32

text \<open>An enumerator of the objects of an application.\<close>

record tee_storage_enum =
  en_dir :: "addr option"
  en_fops :: "fops option"

text \<open>The calls of the operations \<^verbatim>\<open>struct tee_file_operations\<close> of a file system, on the file of an object or on a directory.\<close>

datatype fs_call =
    FsOpen po_key
  | FsCreate po_key bool
  | FsClose po_key
  | FsRead po_key size_t size_t
  | FsWrite po_key size_t size_t
  | FsRename po_key po_key
  | FsRemove po_key
  | FsTruncate po_key size_t
  | FsOpendir fops "u8 list"
  | FsReaddir fops "addr option"
  | FsClosedir fops "addr option"

text \<open>The open objects, and the handles and enumerators of each application, by the address of its context.\<close>

record storage =
  tee_pobjs :: "addr list"
  po_heap :: "addr \<Rightarrow> tee_pobj"
  st_objects :: "addr \<Rightarrow> addr list"
  ob_heap :: "addr \<Rightarrow> tee_obj"
  storage_enums :: "addr \<Rightarrow> addr list"
  en_heap :: "addr \<Rightarrow> tee_storage_enum"
  st_uuid :: "addr \<Rightarrow> u8 list"
  tee_svc_uref_base :: addr
  fs_log :: "fs_call list"

text \<open>
  What a system call finds: memory, access rights to the memory of the application, the results of the
  file system and of the functions for attributes. \<open>fs_head\<close> is the result of reading the head of a file, the number of
  bytes read and the size of the attributes in it.
\<close>

record st_env =
  sv_pobj :: "addr option"
  sv_malloc :: bool
  sv_obj :: "addr option"
  sv_name_malloc :: bool
  sv_name_null :: bool
  sv_access :: tee_result
  sv_buffer :: tee_result
  sv_copy_out :: tee_result
  fs_open :: "tee_result + size_t"
  fs_head :: "tee_result \<times> size_t \<times> u32"
  sv_set_type :: tee_result
  sv_attr_malloc :: bool
  fs_attr :: "tee_result \<times> size_t"
  sv_from_binary :: tee_result
  sv_attrs :: "tee_result \<times> size_t"
  fs_create :: tee_result
  fs_remove :: tee_result
  fs_rename :: tee_result
  fs_read :: "tee_result \<times> size_t"
  fs_write :: tee_result
  fs_truncate :: tee_result
  fs_opendir :: "tee_result + addr"
  fs_readdir :: "tee_result + u8 list"

definition po_set :: "addr \<Rightarrow> (tee_pobj \<Rightarrow> tee_pobj) \<Rightarrow> storage \<Rightarrow> storage" where
  "po_set a f s = s\<lparr>po_heap := (po_heap s)(a := f (po_heap s a))\<rparr>"

definition ob_set :: "addr \<Rightarrow> (tee_obj \<Rightarrow> tee_obj) \<Rightarrow> storage \<Rightarrow> storage" where
  "ob_set a f s = s\<lparr>ob_heap := (ob_heap s)(a := f (ob_heap s a))\<rparr>"

definition en_set :: "addr \<Rightarrow> (tee_storage_enum \<Rightarrow> tee_storage_enum) \<Rightarrow> storage \<Rightarrow> storage" where
  "en_set a f s = s\<lparr>en_heap := (en_heap s)(a := f (en_heap s a))\<rparr>"

definition fs_do :: "fs_call \<Rightarrow> storage \<Rightarrow> storage" where
  "fs_do c s = s\<lparr>fs_log := fs_log s @ [c]\<rparr>"

text \<open>The file of a handle.\<close>

definition file_of :: "storage \<Rightarrow> addr \<Rightarrow> po_key" where
  "file_of s o' = pobj_key (po_heap s (the (ob_pobj (ob_heap s o'))))"

lemma po_set_simps [simp]:
  "tee_pobjs (po_set a f s) = tee_pobjs s" "po_heap (po_set a f s) = (po_heap s)(a := f (po_heap s a))"
  "st_objects (po_set a f s) = st_objects s" "ob_heap (po_set a f s) = ob_heap s" "st_uuid (po_set a f s) = st_uuid s"
  "storage_enums (po_set a f s) = storage_enums s" "en_heap (po_set a f s) = en_heap s" "fs_log (po_set a f s) = fs_log s"
  "tee_svc_uref_base (po_set a f s) = tee_svc_uref_base s"
  by (simp_all add: po_set_def)

lemma ob_set_simps [simp]:
  "tee_pobjs (ob_set a g s) = tee_pobjs s" "po_heap (ob_set a g s) = po_heap s"
  "st_objects (ob_set a g s) = st_objects s" "ob_heap (ob_set a g s) = (ob_heap s)(a := g (ob_heap s a))"
  "st_uuid (ob_set a g s) = st_uuid s"
  "storage_enums (ob_set a g s) = storage_enums s" "en_heap (ob_set a g s) = en_heap s" "fs_log (ob_set a g s) = fs_log s"
  "tee_svc_uref_base (ob_set a g s) = tee_svc_uref_base s"
  by (simp_all add: ob_set_def)

lemma en_set_simps [simp]:
  "tee_pobjs (en_set a k s) = tee_pobjs s" "po_heap (en_set a k s) = po_heap s"
  "st_objects (en_set a k s) = st_objects s" "ob_heap (en_set a k s) = ob_heap s" "st_uuid (en_set a k s) = st_uuid s"
  "storage_enums (en_set a k s) = storage_enums s" "en_heap (en_set a k s) = (en_heap s)(a := k (en_heap s a))"
  "fs_log (en_set a k s) = fs_log s" "tee_svc_uref_base (en_set a k s) = tee_svc_uref_base s"
  by (simp_all add: en_set_def)

lemma fs_do_simps [simp]:
  "tee_pobjs (fs_do c s) = tee_pobjs s" "po_heap (fs_do c s) = po_heap s"
  "st_objects (fs_do c s) = st_objects s" "ob_heap (fs_do c s) = ob_heap s" "st_uuid (fs_do c s) = st_uuid s"
  "storage_enums (fs_do c s) = storage_enums s" "en_heap (fs_do c s) = en_heap s" "fs_log (fs_do c s) = fs_log s @ [c]"
  "tee_svc_uref_base (fs_do c s) = tee_svc_uref_base s"
  by (simp_all add: fs_do_def)

section \<open>Open objects\<close>

definition tee_pobj_check_access :: "u32 \<Rightarrow> u32 \<Rightarrow> tee_result" where
  "tee_pobj_check_access oflags nflags =
     (if oflags AND TEE_DATA_FLAG_ACCESS_WRITE_META \<noteq> 0 \<or> nflags AND TEE_DATA_FLAG_ACCESS_WRITE_META \<noteq> 0
      then TEE_ERROR_ACCESS_CONFLICT
      else if (oflags AND TEE_DATA_FLAG_ACCESS_READ \<noteq> 0 \<or> nflags AND TEE_DATA_FLAG_ACCESS_READ \<noteq> 0) \<and>
        \<not> (nflags AND TEE_DATA_FLAG_SHARE_READ \<noteq> 0 \<and> oflags AND TEE_DATA_FLAG_SHARE_READ \<noteq> 0)
      then TEE_ERROR_ACCESS_CONFLICT
      else if nflags AND TEE_DATA_FLAG_SHARE_READ \<noteq> oflags AND TEE_DATA_FLAG_SHARE_READ
      then TEE_ERROR_ACCESS_CONFLICT
      else if (oflags AND TEE_DATA_FLAG_ACCESS_WRITE \<noteq> 0 \<or> nflags AND TEE_DATA_FLAG_ACCESS_WRITE \<noteq> 0) \<and>
        \<not> (nflags AND TEE_DATA_FLAG_SHARE_WRITE \<noteq> 0 \<and> oflags AND TEE_DATA_FLAG_SHARE_WRITE \<noteq> 0)
      then TEE_ERROR_ACCESS_CONFLICT
      else if nflags AND TEE_DATA_FLAG_SHARE_WRITE \<noteq> oflags AND TEE_DATA_FLAG_SHARE_WRITE
      then TEE_ERROR_ACCESS_CONFLICT
      else TEE_SUCCESS)"

text \<open>The loop of \<^verbatim>\<open>tee_pobj_get\<close> goes on after a match, so the last one counts.\<close>

definition tee_pobj_get ::
    "st_env \<Rightarrow> u8 list \<Rightarrow> u8 list \<Rightarrow> u32 \<Rightarrow> bool \<Rightarrow> fops \<Rightarrow> storage \<Rightarrow> tee_result \<times> addr option \<times> storage" where
  "tee_pobj_get e uuid obj_id flags temporary fops s =
     (case find (\<lambda>a. pobj_key (po_heap s a) = (obj_id, uuid, fops)) (rev (tee_pobjs s)) of
        Some a \<Rightarrow>
          if temporary \<noteq> po_temporary (po_heap s a) then (TEE_ERROR_ACCESS_CONFLICT, None, s)
          else let res = tee_pobj_check_access (po_flags (po_heap s a)) flags in
            if res = TEE_SUCCESS then (res, Some a, po_set a (\<lambda>x. x\<lparr>po_refcnt := po_refcnt x + 1\<rparr>) s)
            else (res, None, s)
      | None \<Rightarrow>
          (case sv_pobj e of
             None \<Rightarrow> (TEE_ERROR_OUT_OF_MEMORY, None, s)
           | Some a \<Rightarrow>
               if \<not> sv_malloc e then (TEE_ERROR_OUT_OF_MEMORY, None, s)
               else (TEE_SUCCESS, Some a, s\<lparr>tee_pobjs := tee_pobjs s @ [a], po_heap := (po_heap s)(a :=
                 \<lparr>po_refcnt = 1, po_uuid = uuid, po_obj_id = obj_id, po_flags = flags, po_temporary = temporary, po_fops = fops\<rparr>)\<rparr>)))"

definition tee_pobj_release :: "addr option \<Rightarrow> storage \<Rightarrow> tee_result \<times> storage" where
  "tee_pobj_release obj s =
     (case obj of
        None \<Rightarrow> (TEE_ERROR_BAD_PARAMETERS, s)
      | Some a \<Rightarrow>
          let s = po_set a (\<lambda>x. x\<lparr>po_refcnt := po_refcnt x - 1\<rparr>) s in
          (TEE_SUCCESS, if po_refcnt (po_heap s a) = 0 then s\<lparr>tee_pobjs := remove1 a (tee_pobjs s)\<rparr> else s))"

text \<open>\<open>sv_name_null\<close> says whether the pointer to the new identifier is null, \<open>sv_name_malloc\<close> whether there is memory for it.\<close>

definition tee_pobj_rename :: "st_env \<Rightarrow> addr \<Rightarrow> u8 list \<Rightarrow> storage \<Rightarrow> tee_result \<times> storage" where
  "tee_pobj_rename e a obj_id s =
     (if sv_name_null e then (TEE_ERROR_BAD_PARAMETERS, s)
      else if po_refcnt (po_heap s a) \<noteq> 1 then (TEE_ERROR_BAD_STATE, s)
      else if \<not> sv_name_malloc e then (TEE_ERROR_OUT_OF_MEMORY, s)
      else (TEE_SUCCESS, po_set a (\<lambda>x. x\<lparr>po_obj_id := obj_id\<rparr>) s))"

section \<open>Handles\<close>

definition tee_obj_add :: "addr \<Rightarrow> addr \<Rightarrow> storage \<Rightarrow> storage" where
  "tee_obj_add ta o' s = s\<lparr>st_objects := (st_objects s)(ta := st_objects s ta @ [o'])\<rparr>"

text \<open>
  Applications name handles and enumerators by 32-bit offsets from \<^verbatim>\<open>tee_svc_uref_base\<close>. The address
  computed from an offset is passed to \<^verbatim>\<open>tee_obj_get\<close> as a \<^verbatim>\<open>uint32_t\<close>. The assertion that the offset fits, which holds
  where the heap is part of the core's image, is left out.
\<close>

definition tee_svc_kaddr_to_uref :: "storage \<Rightarrow> addr \<Rightarrow> u32" where
  "tee_svc_kaddr_to_uref s kaddr = of_nat (kaddr - tee_svc_uref_base s)"

definition tee_svc_uref_to_vaddr :: "storage \<Rightarrow> u32 \<Rightarrow> addr" where
  "tee_svc_uref_to_vaddr s uref = tee_svc_uref_base s + unat uref"

definition tee_obj_get :: "addr \<Rightarrow> u32 \<Rightarrow> storage \<Rightarrow> addr option" where
  "tee_obj_get ta uref s =
     (let obj_id = take_bit 32 (tee_svc_uref_to_vaddr s uref) in find (\<lambda>o'. obj_id = o') (st_objects s ta))"

definition is_persistent :: "tee_obj \<Rightarrow> bool" where
  "is_persistent x \<longleftrightarrow> ob_handleFlags x AND TEE_HANDLE_FLAG_PERSISTENT \<noteq> 0"

definition tee_obj_close :: "addr \<Rightarrow> addr \<Rightarrow> storage \<Rightarrow> storage" where
  "tee_obj_close ta o' s =
     (let s = s\<lparr>st_objects := (st_objects s)(ta := remove1 o' (st_objects s ta))\<rparr> in
      if is_persistent (ob_heap s o')
      then snd (tee_pobj_release (ob_pobj (ob_heap s o')) (fs_do (FsClose (file_of s o')) s)) else s)"

lemma release_handles [simp]:
  "st_objects (snd (tee_pobj_release p s)) = st_objects s" "ob_heap (snd (tee_pobj_release p s)) = ob_heap s"
  "st_uuid (snd (tee_pobj_release p s)) = st_uuid s"
  by (simp_all add: tee_pobj_release_def Let_def split: option.splits)

lemma close_objects [simp]:
  "st_objects (tee_obj_close ta o' s) = (st_objects s)(ta := remove1 o' (st_objects s ta))"
  "ob_heap (tee_obj_close ta o' s) = ob_heap s" "st_uuid (tee_obj_close ta o' s) = st_uuid s"
  by (simp_all add: tee_obj_close_def Let_def)

function tee_obj_close_all :: "addr \<Rightarrow> storage \<Rightarrow> storage" where
  "tee_obj_close_all ta s = (case st_objects s ta of [] \<Rightarrow> s | o' # os \<Rightarrow> tee_obj_close_all ta (tee_obj_close ta o' s))"
  by pat_completeness auto

termination
  by (relation "measure (\<lambda>(ta, s). length (st_objects s ta))") auto

declare tee_obj_close_all.simps [simp del]

definition tee_svc_storage_remove_corrupt_obj :: "addr \<Rightarrow> addr \<Rightarrow> storage \<Rightarrow> storage" where
  "tee_svc_storage_remove_corrupt_obj ta o' s = tee_obj_close ta o' (fs_do (FsRemove (file_of s o')) s)"

text \<open>\<^verbatim>\<open>tee_obj_verify\<close>, which the repository declares and never calls.\<close>

definition tee_obj_verify :: "st_env \<Rightarrow> addr \<Rightarrow> addr \<Rightarrow> storage \<Rightarrow> tee_result \<times> storage" where
  "tee_obj_verify e ta o' s =
     (let f = file_of s o'; res = (case fs_open e of Inl res \<Rightarrow> res | Inr n \<Rightarrow> TEE_SUCCESS); s = fs_do (FsOpen f) s;
          s = (if res = TEE_ERROR_CORRUPT_OBJECT then tee_obj_close ta o' (fs_do (FsRemove f) s) else s) in
      (res, fs_do (FsClose f) s))"

section \<open>System calls\<close>

definition sizeof_head :: size_t where "sizeof_head = 24"

text \<open>
  \<^verbatim>\<open>tee_svc_storage_read_head\<close> of handle \<open>x\<close>, whose object has file \<open>f\<close>. The log has a read only where the code reaches it.
\<close>

definition read_attrs :: "st_env \<Rightarrow> po_key \<Rightarrow> u32 \<Rightarrow> storage \<Rightarrow> tee_result \<times> storage" where
  "read_attrs e f attr_size s =
     (if attr_size = 0 then (TEE_SUCCESS, s)
      else if \<not> sv_attr_malloc e then (TEE_ERROR_OUT_OF_MEMORY, s)
      else case fs_attr e of (res, bytes) \<Rightarrow>
        (if res = TEE_ERROR_OUT_OF_MEMORY then res
         else if res \<noteq> TEE_SUCCESS \<or> bytes \<noteq> ucast attr_size then TEE_ERROR_CORRUPT_OBJECT else TEE_SUCCESS,
         fs_do (FsRead f sizeof_head (ucast attr_size)) s))"

definition tee_svc_storage_read_head :: "st_env \<Rightarrow> po_key \<Rightarrow> tee_obj \<Rightarrow> storage \<Rightarrow> tee_result \<times> tee_obj \<times> storage" where
  "tee_svc_storage_read_head e f x s =
     (let s = fs_do (FsOpen f) s in
      case fs_open e of
        Inl res \<Rightarrow> (res, x, s)
      | Inr size' \<Rightarrow>
          (case fs_head e of (res, bytes, attr_size) \<Rightarrow>
           let s = fs_do (FsRead f 0 sizeof_head) s in
           if res \<noteq> TEE_SUCCESS then (res, x, s)
           else case add_overflow sizeof_head (ucast attr_size) of (ov, tmp) \<Rightarrow>
           if ov then (TEE_ERROR_OVERFLOW, x, s)
           else if size' < tmp then (TEE_ERROR_CORRUPT_OBJECT, x, s)
           else if bytes \<noteq> sizeof_head then (TEE_ERROR_BAD_FORMAT, x, s)
           else if sv_set_type e \<noteq> TEE_SUCCESS then (sv_set_type e, x, s)
           else
             let x = x\<lparr>ob_ds_pos := tmp\<rparr> in
             case read_attrs e f attr_size s of (res, s) \<Rightarrow>
             if res \<noteq> TEE_SUCCESS then (res, x, s)
             else if sv_from_binary e \<noteq> TEE_SUCCESS then (sv_from_binary e, x, s)
             else (TEE_SUCCESS, x\<lparr>ob_dataSize := ucast (size' - sizeof_head - ucast attr_size)\<rparr>, s)))"

definition no_format :: "tee_result \<Rightarrow> tee_result" where
  "no_format res = (if res = TEE_ERROR_NO_DATA \<or> res = TEE_ERROR_BAD_FORMAT then TEE_ERROR_CORRUPT_OBJECT else res)"

definition new_obj :: "u32 \<Rightarrow> addr \<Rightarrow> tee_obj" where
  "new_obj flags po = \<lparr>ob_handleFlags = TEE_HANDLE_FLAG_PERSISTENT OR TEE_HANDLE_FLAG_INITIALIZED, ob_dataSize = 0,
     ob_dataPosition = 0, ob_busy = False, ob_ds_pos = 0, ob_pobj = Some po, ob_flags = flags\<rparr>"

text \<open>The result and the reference to the handle, where one is given to the application.\<close>

definition syscall_storage_obj_open ::
    "st_env \<Rightarrow> addr \<Rightarrow> u32 \<Rightarrow> u8 list \<Rightarrow> u32 \<Rightarrow> storage \<Rightarrow> tee_result \<times> u32 option \<times> storage" where
  "syscall_storage_obj_open e ta storage_id object_id flags s =
     (case tee_svc_storage_file_ops storage_id of
        None \<Rightarrow> (TEE_ERROR_ITEM_NOT_FOUND, None, s)
      | Some fops \<Rightarrow>
          if TEE_OBJECT_ID_MAX_LEN < length object_id then (TEE_ERROR_BAD_PARAMETERS, None, s)
          else if sv_access e \<noteq> TEE_SUCCESS then (no_format (sv_access e), None, s)
          else case tee_pobj_get e (st_uuid s ta) object_id flags False fops s of
            (res, None, s) \<Rightarrow> (no_format res, None, s)
          | (res, Some po, s) \<Rightarrow>
              (case sv_obj e of
                 None \<Rightarrow> (TEE_ERROR_OUT_OF_MEMORY, None, snd (tee_pobj_release (Some po) s))
               | Some o' \<Rightarrow>
                   let s = tee_obj_add ta o' (ob_set o' (\<lambda>_. new_obj flags po) s) in
                   (case tee_svc_storage_read_head e (file_of s o') (ob_heap s o') s of (res, x, s) \<Rightarrow>
                    let s = ob_set o' (\<lambda>_. x) s in
                    if res = TEE_ERROR_CORRUPT_OBJECT then (res, None, tee_svc_storage_remove_corrupt_obj ta o' s)
                    else if res \<noteq> TEE_SUCCESS then (no_format res, None, tee_obj_close ta o' s)
                    else if sv_copy_out e \<noteq> TEE_SUCCESS then (no_format (sv_copy_out e), None, tee_obj_close ta o' s)
                    else (TEE_SUCCESS, Some (tee_svc_kaddr_to_uref s o'), s))))"

text \<open>
  \<open>sv_attrs\<close> is the result of setting the type and copying the attributes of \<^verbatim>\<open>attr_o\<close> in
  \<^verbatim>\<open>tee_svc_storage_init_file\<close>, with their size.
\<close>

definition tee_svc_storage_init_file :: "st_env \<Rightarrow> u32 \<Rightarrow> po_key \<Rightarrow> tee_obj \<Rightarrow> storage \<Rightarrow> tee_result \<times> tee_obj \<times> storage" where
  "tee_svc_storage_init_file e len f x s =
     (case sv_attrs e of (res, attr_size) \<Rightarrow>
      if res \<noteq> TEE_SUCCESS then (res, x, s)
      else let x = x\<lparr>ob_ds_pos := sizeof_head + attr_size\<rparr> in
        (fs_create e, if fs_create e = TEE_SUCCESS then x\<lparr>ob_dataSize := len\<rparr> else x,
         fs_do (FsCreate f (ob_flags x AND TEE_DATA_FLAG_OVERWRITE \<noteq> 0)) s))"

text \<open>The end of \<^verbatim>\<open>syscall_storage_obj_create\<close> after an error with object \<open>po\<close>; \<open>o'\<close> says whether the handle was allocated.\<close>

definition create_err :: "addr \<Rightarrow> bool \<Rightarrow> tee_result \<Rightarrow> storage \<Rightarrow> tee_result \<times> u32 option \<times> storage" where
  "create_err po o' res s =
     (let f = pobj_key (po_heap s po); res = no_format res;
          s = (if res = TEE_ERROR_CORRUPT_OBJECT then fs_do (FsRemove f) s else s);
          s = (if o' then fs_do (FsClose f) s else s) in
      (res, None, snd (tee_pobj_release (Some po) s)))"

definition create_file ::
    "st_env \<Rightarrow> addr \<Rightarrow> u32 \<Rightarrow> size_t \<Rightarrow> addr \<Rightarrow> addr \<Rightarrow> storage \<Rightarrow> tee_result \<times> u32 option \<times> storage" where
  "create_file e ta flags len po o' s =
     (case tee_svc_storage_init_file e (ucast len) (pobj_key (po_heap s po)) (new_obj flags po) s of (res, x, s) \<Rightarrow>
      if res \<noteq> TEE_SUCCESS then create_err po True res s
      else let s = tee_obj_add ta o' (ob_set o' (\<lambda>_. x) s) in
        if sv_copy_out e \<noteq> TEE_SUCCESS then (sv_copy_out e, None, tee_obj_close ta o' s)
        else (TEE_SUCCESS, Some (tee_svc_kaddr_to_uref s o'), s))"

text \<open>\<open>attr\<close> is the reference to the object with the attributes; \<open>data\<close> says whether the pointer is not null.\<close>

definition syscall_storage_obj_create ::
    "st_env \<Rightarrow> addr \<Rightarrow> u32 \<Rightarrow> u8 list \<Rightarrow> u32 \<Rightarrow> u32 option \<Rightarrow> bool \<Rightarrow> size_t \<Rightarrow> storage \<Rightarrow> tee_result \<times> u32 option \<times> storage" where
  "syscall_storage_obj_create e ta storage_id object_id flags attr data len s =
     (case tee_svc_storage_file_ops storage_id of
        None \<Rightarrow> (TEE_ERROR_ITEM_NOT_FOUND, None, s)
      | Some fops \<Rightarrow>
          if TEE_OBJECT_ID_MAX_LEN < length object_id then (TEE_ERROR_BAD_PARAMETERS, None, s)
          else if sv_access e \<noteq> TEE_SUCCESS then (no_format (sv_access e), None, s)
          else case tee_pobj_get e (st_uuid s ta) object_id flags True fops s of
            (res, None, s) \<Rightarrow> (no_format res, None, s)
          | (res, Some po, s) \<Rightarrow>
              let buf = (if len = 0 then TEE_SUCCESS else if data then sv_buffer e else TEE_ERROR_BAD_PARAMETERS) in
              if buf \<noteq> TEE_SUCCESS then create_err po False buf s
              else case sv_obj e of
                None \<Rightarrow> create_err po False TEE_ERROR_OUT_OF_MEMORY s
              | Some o' \<Rightarrow>
                  if (case attr of None \<Rightarrow> False | Some a \<Rightarrow> tee_obj_get ta a s = None)
                  then create_err po True TEE_ERROR_BAD_PARAMETERS s
                  else create_file e ta flags len po o' s)"

definition syscall_storage_obj_del :: "st_env \<Rightarrow> addr \<Rightarrow> u32 \<Rightarrow> storage \<Rightarrow> tee_result \<times> storage" where
  "syscall_storage_obj_del e ta obj s =
     (case tee_obj_get ta obj s of
        None \<Rightarrow> (TEE_ERROR_BAD_PARAMETERS, s)
      | Some o' \<Rightarrow>
          if ob_flags (ob_heap s o') AND TEE_DATA_FLAG_ACCESS_WRITE_META = 0 then (TEE_ERROR_ACCESS_CONFLICT, s)
          else if ob_pobj (ob_heap s o') = None then (TEE_ERROR_BAD_STATE, s)
          else (fs_remove e, tee_obj_close ta o' (fs_do (FsRemove (file_of s o')) s)))"

definition rename_file :: "st_env \<Rightarrow> addr \<Rightarrow> addr \<Rightarrow> u8 list \<Rightarrow> storage \<Rightarrow> tee_result \<times> storage" where
  "rename_file e p po object_id s =
     (let s = fs_do (FsRename (pobj_key (po_heap s p)) (pobj_key (po_heap s po))) s in
      if fs_rename e \<noteq> TEE_SUCCESS then (fs_rename e, s) else tee_pobj_rename e p object_id s)"

definition syscall_storage_obj_rename :: "st_env \<Rightarrow> addr \<Rightarrow> u32 \<Rightarrow> u8 list \<Rightarrow> storage \<Rightarrow> tee_result \<times> storage" where
  "syscall_storage_obj_rename e ta obj object_id s =
     (if TEE_OBJECT_ID_MAX_LEN < length object_id then (TEE_ERROR_BAD_PARAMETERS, s)
      else case tee_obj_get ta obj s of
        None \<Rightarrow> (TEE_ERROR_BAD_PARAMETERS, s)
      | Some o' \<Rightarrow>
          let x = ob_heap s o' in
          if \<not> is_persistent x \<or> ob_flags x AND TEE_DATA_FLAG_ACCESS_WRITE_META = 0 then (TEE_ERROR_BAD_STATE, s)
          else case ob_pobj x of
            None \<Rightarrow> (TEE_ERROR_BAD_STATE, s)
          | Some p \<Rightarrow>
              if sv_access e \<noteq> TEE_SUCCESS then (sv_access e, s)
              else case tee_pobj_get e (st_uuid s ta) object_id TEE_DATA_FLAG_ACCESS_WRITE_META False (po_fops (po_heap s p)) s of
                (res, None, s) \<Rightarrow> (res, s)
              | (res, Some po, s) \<Rightarrow>
                  (case rename_file e p po object_id s of (res, s) \<Rightarrow> (res, snd (tee_pobj_release (Some po) s))))"

text \<open>\<^verbatim>\<open>syscall_cryp_obj_alloc\<close> makes transient objects, which share the list of handles.\<close>

definition syscall_cryp_obj_alloc :: "st_env \<Rightarrow> addr \<Rightarrow> u32 \<Rightarrow> storage \<Rightarrow> tee_result \<times> u32 option \<times> storage" where
  "syscall_cryp_obj_alloc e ta obj_type s =
     (if obj_type = TEE_TYPE_DATA then (TEE_ERROR_NOT_SUPPORTED, None, s)
      else case sv_obj e of
        None \<Rightarrow> (TEE_ERROR_OUT_OF_MEMORY, None, s)
      | Some o' \<Rightarrow>
          if sv_set_type e \<noteq> TEE_SUCCESS then (sv_set_type e, None, s)
          else let s = tee_obj_add ta o' (ob_set o' (\<lambda>_. \<lparr>ob_handleFlags = 0, ob_dataSize = 0, ob_dataPosition = 0,
                 ob_busy = False, ob_ds_pos = 0, ob_pobj = None, ob_flags = 0\<rparr>) s) in
            if sv_copy_out e \<noteq> TEE_SUCCESS then (sv_copy_out e, None, tee_obj_close ta o' s)
            else (TEE_SUCCESS, Some (tee_svc_kaddr_to_uref s o'), s))"

definition syscall_cryp_obj_close :: "addr \<Rightarrow> u32 \<Rightarrow> storage \<Rightarrow> tee_result \<times> storage" where
  "syscall_cryp_obj_close ta obj s =
     (case tee_obj_get ta obj s of
        None \<Rightarrow> (TEE_ERROR_BAD_PARAMETERS, s)
      | Some o' \<Rightarrow> if ob_busy (ob_heap s o') then (TEE_ERROR_ITEM_NOT_FOUND, s) else (TEE_SUCCESS, tee_obj_close ta o' s))"

section \<open>Data\<close>

text \<open>
  The common beginning of the calls on the data of an object: the handle, that it is persistent, and
  that it was opened with the access \<open>need\<close>.
\<close>

definition data_handle :: "addr \<Rightarrow> u32 \<Rightarrow> u32 \<Rightarrow> storage \<Rightarrow> tee_result + addr" where
  "data_handle ta obj need s =
     (case tee_obj_get ta obj s of
        None \<Rightarrow> Inl TEE_ERROR_BAD_PARAMETERS
      | Some o' \<Rightarrow>
          if \<not> is_persistent (ob_heap s o') then Inl TEE_ERROR_BAD_STATE
          else if ob_flags (ob_heap s o') AND need = 0 then Inl TEE_ERROR_ACCESS_CONFLICT
          else Inr o')"

text \<open>\<^verbatim>\<open>dataPosition\<close> and \<^verbatim>\<open>dataSize\<close> have 32 bits, \<^verbatim>\<open>size_t\<close> has 64. The result and the number of bytes read.\<close>

definition syscall_storage_obj_read :: "st_env \<Rightarrow> addr \<Rightarrow> u32 \<Rightarrow> size_t \<Rightarrow> storage \<Rightarrow> tee_result \<times> u64 \<times> storage" where
  "syscall_storage_obj_read e ta obj len s =
     (case data_handle ta obj TEE_DATA_FLAG_ACCESS_READ s of
        Inl res \<Rightarrow> (res, 0, s)
      | Inr o' \<Rightarrow>
          let x = ob_heap s o' in
          if fst (add_overflow (ucast (ob_dataPosition x)) len) then (TEE_ERROR_OVERFLOW, 0, s)
          else if sv_buffer e \<noteq> TEE_SUCCESS then (sv_buffer e, 0, s)
          else if fst (add_overflow (ob_ds_pos x) (ucast (ob_dataPosition x))) then (TEE_ERROR_OVERFLOW, 0, s)
          else case fs_read e of (res, bytes) \<Rightarrow>
            let s = fs_do (FsRead (file_of s o') (ob_ds_pos x + ucast (ob_dataPosition x)) len) s in
            if res = TEE_ERROR_CORRUPT_OBJECT then (res, 0, tee_svc_storage_remove_corrupt_obj ta o' s)
            else if res \<noteq> TEE_SUCCESS then (res, 0, s)
            else (sv_copy_out e, if sv_copy_out e = TEE_SUCCESS then bytes else 0, ob_set o' (\<lambda>x. x\<lparr>ob_dataPosition := ucast (ucast (ob_dataPosition x) + bytes)\<rparr>) s))"

definition syscall_storage_obj_write :: "st_env \<Rightarrow> addr \<Rightarrow> u32 \<Rightarrow> size_t \<Rightarrow> storage \<Rightarrow> tee_result \<times> storage" where
  "syscall_storage_obj_write e ta obj len s =
     (case data_handle ta obj TEE_DATA_FLAG_ACCESS_WRITE s of
        Inl res \<Rightarrow> (res, s)
      | Inr o' \<Rightarrow>
          let x = ob_heap s o' in
          if fst (add_overflow (ucast (ob_dataPosition x)) len) then (TEE_ERROR_OVERFLOW, s)
          else if sv_buffer e \<noteq> TEE_SUCCESS then (sv_buffer e, s)
          else if fst (add_overflow (ob_ds_pos x) (ucast (ob_dataPosition x))) then (TEE_ERROR_ACCESS_CONFLICT, s)
          else
            let s = fs_do (FsWrite (file_of s o') (ob_ds_pos x + ucast (ob_dataPosition x)) len) s in
            if fs_write e \<noteq> TEE_SUCCESS then (fs_write e, s)
            else let pos = ucast (ucast (ob_dataPosition x) + len) in
            (TEE_SUCCESS, ob_set o' (\<lambda>x. x\<lparr>ob_dataPosition := pos, ob_dataSize := max (ob_dataSize x) pos\<rparr>) s))"

definition syscall_storage_obj_trunc :: "st_env \<Rightarrow> addr \<Rightarrow> u32 \<Rightarrow> size_t \<Rightarrow> storage \<Rightarrow> tee_result \<times> storage" where
  "syscall_storage_obj_trunc e ta obj len s =
     (case data_handle ta obj TEE_DATA_FLAG_ACCESS_WRITE s of
        Inl res \<Rightarrow> (res, s)
      | Inr o' \<Rightarrow>
          (case sv_attrs e of (res, attr_size) \<Rightarrow>
           if res \<noteq> TEE_SUCCESS then (res, s)
           else case add_overflow sizeof_head attr_size of (o1, off) \<Rightarrow>
           if o1 then (TEE_ERROR_OVERFLOW, s)
           else case add_overflow len off of (o2, off) \<Rightarrow>
           if o2 then (TEE_ERROR_OVERFLOW, s)
           else
           let s = fs_do (FsTruncate (file_of s o') off) s in
           if fs_truncate e = TEE_SUCCESS then (TEE_SUCCESS, ob_set o' (\<lambda>x. x\<lparr>ob_dataSize := ucast len\<rparr>) s)
           else if fs_truncate e = TEE_ERROR_CORRUPT_OBJECT
           then (TEE_ERROR_CORRUPT_OBJECT, tee_svc_storage_remove_corrupt_obj ta o' s)
           else (TEE_ERROR_GENERIC, s)))"

text \<open>The sums of a 32-bit position and a 32-bit offset do not overflow \<^verbatim>\<open>tee_fs_off_t\<close>, which has 64 bits.\<close>

definition syscall_storage_obj_seek :: "addr \<Rightarrow> u32 \<Rightarrow> cint \<Rightarrow> u32 \<Rightarrow> storage \<Rightarrow> tee_result \<times> storage" where
  "syscall_storage_obj_seek ta obj offset whence s =
     (case tee_obj_get ta obj s of
        None \<Rightarrow> (TEE_ERROR_BAD_PARAMETERS, s)
      | Some o' \<Rightarrow>
          let x = ob_heap s o' in
          if \<not> is_persistent x then (TEE_ERROR_BAD_STATE, s)
          else if whence \<notin> {0, 1, 2} then (TEE_ERROR_BAD_PARAMETERS, s)
          else
            let new_pos = max 0 (if whence = 0 then sint offset else if whence = 1 then uint (ob_dataPosition x) + sint offset
              else uint (ob_dataSize x) + sint offset) in
            if TEE_DATA_MAX_POSITION < new_pos then (TEE_ERROR_BAD_PARAMETERS, s)
            else (TEE_SUCCESS, ob_set o' (\<lambda>x. x\<lparr>ob_dataPosition := word_of_int new_pos\<rparr>) s))"

section \<open>Enumerators\<close>

definition tee_svc_storage_get_enum :: "addr \<Rightarrow> u32 \<Rightarrow> storage \<Rightarrow> addr option" where
  "tee_svc_storage_get_enum ta uref s =
     (let enum_id = take_bit 32 (tee_svc_uref_to_vaddr s uref) in find (\<lambda>a. enum_id = a) (storage_enums s ta))"

definition tee_svc_close_enum :: "addr \<Rightarrow> addr \<Rightarrow> storage \<Rightarrow> storage" where
  "tee_svc_close_enum ta a s =
     (let s = s\<lparr>storage_enums := (storage_enums s)(ta := remove1 a (storage_enums s ta))\<rparr>;
          s = (case en_fops (en_heap s a) of None \<Rightarrow> s | Some fops \<Rightarrow> fs_do (FsClosedir fops (en_dir (en_heap s a))) s) in
      en_set a (\<lambda>x. x\<lparr>en_dir := None, en_fops := None\<rparr>) s)"

text \<open>\<open>out\<close> says whether the pointer for the reference is not null. The enumerator stays listed where the reference cannot be written.\<close>

definition syscall_storage_alloc_enum :: "st_env \<Rightarrow> addr \<Rightarrow> bool \<Rightarrow> storage \<Rightarrow> tee_result \<times> u32 option \<times> storage" where
  "syscall_storage_alloc_enum e ta out s =
     (if \<not> out then (TEE_ERROR_BAD_PARAMETERS, None, s)
      else case sv_obj e of
        None \<Rightarrow> (TEE_ERROR_OUT_OF_MEMORY, None, s)
      | Some a \<Rightarrow>
          let s = en_set a (\<lambda>_. \<lparr>en_dir = None, en_fops = None\<rparr>) s;
              s = s\<lparr>storage_enums := (storage_enums s)(ta := storage_enums s ta @ [a])\<rparr> in
          (sv_copy_out e, if sv_copy_out e = TEE_SUCCESS then Some (tee_svc_kaddr_to_uref s a) else None, s))"

definition syscall_storage_free_enum :: "addr \<Rightarrow> u32 \<Rightarrow> storage \<Rightarrow> tee_result \<times> storage" where
  "syscall_storage_free_enum ta obj_enum s =
     (case tee_svc_storage_get_enum ta obj_enum s of
        None \<Rightarrow> (TEE_ERROR_BAD_PARAMETERS, s)
      | Some a \<Rightarrow> (TEE_SUCCESS, tee_svc_close_enum ta a s))"

text \<open>The function ends in the assertion that there is no directory.\<close>

definition syscall_storage_reset_enum :: "addr \<Rightarrow> u32 \<Rightarrow> storage \<Rightarrow> (tee_result \<times> storage) outcome" where
  "syscall_storage_reset_enum ta obj_enum s =
     (case tee_svc_storage_get_enum ta obj_enum s of
        None \<Rightarrow> Ret (TEE_ERROR_BAD_PARAMETERS, s)
      | Some a \<Rightarrow>
          let s = (case en_fops (en_heap s a) of
                None \<Rightarrow> s
              | Some fops \<Rightarrow> en_set a (\<lambda>x. x\<lparr>en_fops := None, en_dir := None\<rparr>) (fs_do (FsClosedir fops (en_dir (en_heap s a))) s)) in
          if en_dir (en_heap s a) = None then Ret (TEE_SUCCESS, s) else Panic)"

text \<open>
  A directory that is open is closed first, through \<^verbatim>\<open>e->fops\<close>, which must not be null; the reference to it through
  a null pointer is an abort, as a panic is.
\<close>

definition syscall_storage_start_enum :: "st_env \<Rightarrow> addr \<Rightarrow> u32 \<Rightarrow> u32 \<Rightarrow> storage \<Rightarrow> (tee_result \<times> storage) outcome" where
  "syscall_storage_start_enum e ta obj_enum storage_id s =
     (case tee_svc_storage_get_enum ta obj_enum s of
        None \<Rightarrow> Ret (TEE_ERROR_BAD_PARAMETERS, s)
      | Some a \<Rightarrow>
          bind_outcome
            (case en_dir (en_heap s a) of
               None \<Rightarrow> Ret s
             | Some d \<Rightarrow>
                 (case en_fops (en_heap s a) of
                    None \<Rightarrow> Panic
                  | Some fops \<Rightarrow> Ret (en_set a (\<lambda>x. x\<lparr>en_dir := None\<rparr>) (fs_do (FsClosedir fops (Some d)) s))))
            (\<lambda>s. case tee_svc_storage_file_ops storage_id of
               None \<Rightarrow> Ret (TEE_ERROR_ITEM_NOT_FOUND, s)
             | Some fops \<Rightarrow>
                 let s = fs_do (FsOpendir fops (st_uuid s ta)) (en_set a (\<lambda>x. x\<lparr>en_fops := Some fops\<rparr>) s) in
                 (case fs_opendir e of
                    Inl res \<Rightarrow> Ret (res, s)
                  | Inr d \<Rightarrow> Ret (TEE_SUCCESS, en_set a (\<lambda>x. x\<lparr>en_dir := Some d\<rparr>) s))))"

text \<open>
  \<^verbatim>\<open>ree_fs_readdir_rpc\<close> writes into its directory at once, so a null pointer aborts; \<^verbatim>\<open>rpmb_fs_readdir\<close> checks it.
  \<open>fs_readdir\<close> is the result for a directory that is open.
\<close>

definition readdir :: "st_env \<Rightarrow> fops \<Rightarrow> addr option \<Rightarrow> (tee_result + u8 list) outcome" where
  "readdir e fops d =
     (case d of
        Some d \<Rightarrow> Ret (fs_readdir e)
      | None \<Rightarrow> (case fops of ree_fs_ops \<Rightarrow> Panic | rpmb_fs_ops \<Rightarrow> Ret (Inl TEE_ERROR_GENERIC)))"

text \<open>
  \<^verbatim>\<open>tee_svc_storage_set_enum\<close>, for an object that only this call sees: its file, or the error. The application receives
  the identifier and the size of its data.
\<close>

definition tee_svc_storage_set_enum :: "st_env \<Rightarrow> u8 list \<Rightarrow> u8 list \<Rightarrow> fops \<Rightarrow> tee_result + po_key" where
  "tee_svc_storage_set_enum e uuid oid fops =
     (if TEE_OBJECT_ID_MAX_LEN < length oid then Inl TEE_ERROR_CORRUPT_OBJECT
      else if \<not> sv_malloc e then Inl TEE_ERROR_OUT_OF_MEMORY else Inr (oid, uuid, fops))"

definition next_enum_obj :: "st_env \<Rightarrow> u8 list \<Rightarrow> u8 list \<Rightarrow> fops \<Rightarrow> storage \<Rightarrow> tee_result \<times> (u8 list \<times> u32) option \<times> storage" where
  "next_enum_obj e uuid oid fops s =
     (if sv_obj e = None \<or> sv_pobj e = None then (TEE_ERROR_OUT_OF_MEMORY, None, s)
      else case tee_svc_storage_set_enum e uuid oid fops of
        Inl res \<Rightarrow> (res, None, s)
      | Inr f \<Rightarrow>
          (case tee_svc_storage_read_head e f (new_obj TEE_DATA_FLAG_SHARE_READ (the (sv_pobj e))) s of (res, x, s) \<Rightarrow>
           let s = fs_do (FsClose f) s in
           if res \<noteq> TEE_SUCCESS then (res, None, s) else (sv_copy_out e, Some (oid, ob_dataSize x), s)))"

definition syscall_storage_next_enum ::
    "st_env \<Rightarrow> addr \<Rightarrow> u32 \<Rightarrow> storage \<Rightarrow> (tee_result \<times> (u8 list \<times> u32) option \<times> storage) outcome" where
  "syscall_storage_next_enum e ta obj_enum s =
     (case tee_svc_storage_get_enum ta obj_enum s of
        None \<Rightarrow> Ret (TEE_ERROR_BAD_PARAMETERS, None, s)
      | Some a \<Rightarrow>
          if sv_access e \<noteq> TEE_SUCCESS then Ret (sv_access e, None, s)
          else if sv_buffer e \<noteq> TEE_SUCCESS then Ret (sv_buffer e, None, s)
          else case en_fops (en_heap s a) of
            None \<Rightarrow> Ret (TEE_ERROR_ITEM_NOT_FOUND, None, s)
          | Some fops \<Rightarrow>
              bind_outcome (readdir e fops (en_dir (en_heap s a)))
                (\<lambda>d. let s = fs_do (FsReaddir fops (en_dir (en_heap s a))) s in
                  case d of
                    Inl res \<Rightarrow> Ret (res, None, s)
                  | Inr oid \<Rightarrow> Ret (next_enum_obj e (st_uuid s ta) oid fops s)))"

lemma close_enum_simps [simp]:
  "storage_enums (tee_svc_close_enum ta a s) = (storage_enums s)(ta := remove1 a (storage_enums s ta))"
  "en_heap (tee_svc_close_enum ta a s) = (en_heap s)(a := (en_heap s a)\<lparr>en_dir := None, en_fops := None\<rparr>)"
  "tee_pobjs (tee_svc_close_enum ta a s) = tee_pobjs s" "po_heap (tee_svc_close_enum ta a s) = po_heap s"
  "st_objects (tee_svc_close_enum ta a s) = st_objects s" "ob_heap (tee_svc_close_enum ta a s) = ob_heap s"
  by (simp_all add: tee_svc_close_enum_def Let_def split: option.split)

function tee_svc_storage_close_all_enum :: "addr \<Rightarrow> storage \<Rightarrow> storage" where
  "tee_svc_storage_close_all_enum ta s =
     (case storage_enums s ta of [] \<Rightarrow> s | a # as \<Rightarrow> tee_svc_storage_close_all_enum ta (tee_svc_close_enum ta a s))"
  by pat_completeness auto

termination
  by (relation "measure (\<lambda>(ta, s). length (storage_enums s ta))") auto

declare tee_svc_storage_close_all_enum.simps [simp del]

section \<open>Requests\<close>

text \<open>The last one is the end of the application: \<^verbatim>\<open>free_utc\<close> closes the handles and the enumerators.\<close>

datatype st_request =
    StOpen u32 "u8 list" u32
  | StCreate u32 "u8 list" u32 "u32 option" bool size_t
  | StDel u32
  | StRename u32 "u8 list"
  | StAlloc u32
  | StClose u32
  | StRead u32 size_t
  | StWrite u32 size_t
  | StTrunc u32 size_t
  | StSeek u32 cint u32
  | StAllocEnum bool
  | StFreeEnum u32
  | StResetEnum u32
  | StStartEnum u32 u32
  | StNextEnum u32
  | StEnd

fun st_exec :: "st_env \<Rightarrow> addr \<Rightarrow> st_request \<Rightarrow> storage \<Rightarrow> (tee_result \<times> storage) outcome" where
  "st_exec e ta (StOpen sid oid flags) s = (case syscall_storage_obj_open e ta sid oid flags s of (res, h, s) \<Rightarrow> Ret (res, s))"
| "st_exec e ta (StCreate sid oid flags attr data len) s =
     (case syscall_storage_obj_create e ta sid oid flags attr data len s of (res, h, s) \<Rightarrow> Ret (res, s))"
| "st_exec e ta (StDel obj) s = Ret (syscall_storage_obj_del e ta obj s)"
| "st_exec e ta (StRename obj oid) s = Ret (syscall_storage_obj_rename e ta obj oid s)"
| "st_exec e ta (StAlloc typ) s = (case syscall_cryp_obj_alloc e ta typ s of (res, h, s) \<Rightarrow> Ret (res, s))"
| "st_exec e ta (StClose obj) s = Ret (syscall_cryp_obj_close ta obj s)"
| "st_exec e ta (StRead obj len) s = (case syscall_storage_obj_read e ta obj len s of (res, n, s) \<Rightarrow> Ret (res, s))"
| "st_exec e ta (StWrite obj len) s = Ret (syscall_storage_obj_write e ta obj len s)"
| "st_exec e ta (StTrunc obj len) s = Ret (syscall_storage_obj_trunc e ta obj len s)"
| "st_exec e ta (StSeek obj off wh) s = Ret (syscall_storage_obj_seek ta obj off wh s)"
| "st_exec e ta (StAllocEnum out) s = (case syscall_storage_alloc_enum e ta out s of (res, h, s) \<Rightarrow> Ret (res, s))"
| "st_exec e ta (StFreeEnum en) s = Ret (syscall_storage_free_enum ta en s)"
| "st_exec e ta (StResetEnum en) s = syscall_storage_reset_enum ta en s"
| "st_exec e ta (StStartEnum en sid) s = syscall_storage_start_enum e ta en sid s"
| "st_exec e ta (StNextEnum en) s = bind_outcome (syscall_storage_next_enum e ta en s) (\<lambda>(res, r, s). Ret (res, s))"
| "st_exec e ta StEnd s = Ret (TEE_SUCCESS, tee_svc_storage_close_all_enum ta (tee_obj_close_all ta s))"

end
