(* ===== verification/Storage_Safe.thy ===== *)
theory Storage_Safe
  imports Storage_Obj
begin

unbundle bit_operations_syntax

text \<open>
  The invariant of open objects and handles: reference counts are exact on every path, including the
  failing ones, and handles that are open at the same time have compatible access rights.
\<close>

section \<open>Compatible flags\<close>

definition ok_flags :: "u32 \<Rightarrow> u32 \<Rightarrow> bool" where
  "ok_flags a b \<longleftrightarrow> tee_pobj_check_access a b = TEE_SUCCESS"

lemma ok_flags_iff:
  "ok_flags a b \<longleftrightarrow>
     a AND TEE_DATA_FLAG_ACCESS_WRITE_META = 0 \<and> b AND TEE_DATA_FLAG_ACCESS_WRITE_META = 0 \<and>
     a AND TEE_DATA_FLAG_SHARE_READ = b AND TEE_DATA_FLAG_SHARE_READ \<and>
     a AND TEE_DATA_FLAG_SHARE_WRITE = b AND TEE_DATA_FLAG_SHARE_WRITE \<and>
     (a AND TEE_DATA_FLAG_ACCESS_READ \<noteq> 0 \<or> b AND TEE_DATA_FLAG_ACCESS_READ \<noteq> 0 \<longrightarrow> a AND TEE_DATA_FLAG_SHARE_READ \<noteq> 0) \<and>
     (a AND TEE_DATA_FLAG_ACCESS_WRITE \<noteq> 0 \<or> b AND TEE_DATA_FLAG_ACCESS_WRITE \<noteq> 0 \<longrightarrow> a AND TEE_DATA_FLAG_SHARE_WRITE \<noteq> 0)"
  by (auto simp: ok_flags_def tee_pobj_check_access_def)

lemma ok_flags_sym: "ok_flags a b \<Longrightarrow> ok_flags b a"
  by (auto simp: ok_flags_iff)

lemma ok_flags_common: "ok_flags c a \<Longrightarrow> ok_flags c b \<Longrightarrow> ok_flags a b"
  by (auto simp: ok_flags_iff)

definition agree :: "u32 \<Rightarrow> u32 \<Rightarrow> bool" where
  "agree a b \<longleftrightarrow> a = b \<or> ok_flags a b"

lemma agree_ok: "agree c a \<Longrightarrow> ok_flags c b \<Longrightarrow> ok_flags b a"
  by (metis agree_def ok_flags_common ok_flags_sym)

section \<open>Invariant\<close>

definition open_objs :: "storage \<Rightarrow> addr set" where
  "open_objs s = {o'. \<exists>ta. o' \<in> set (st_objects s ta)}"

definition handles :: "storage \<Rightarrow> addr \<Rightarrow> addr set" where
  "handles s p = {o' \<in> open_objs s. is_persistent (ob_heap s o') \<and> ob_pobj (ob_heap s o') = Some p}"

text \<open>A system call may hold one more reference, to object \<open>q\<close> with flags \<open>f\<close>, for a handle it is about to open.\<close>

definition pending :: "(addr \<times> u32) option \<Rightarrow> addr \<Rightarrow> nat" where
  "pending pend p = (case pend of None \<Rightarrow> 0 | Some (q, f) \<Rightarrow> if q = p then 1 else 0)"

definition ref_ok :: "(addr \<times> u32) option \<Rightarrow> storage \<Rightarrow> addr \<Rightarrow> bool" where
  "ref_ok pend s p \<longleftrightarrow> finite (handles s p) \<and>
     po_refcnt (po_heap s p) = of_nat (card (handles s p) + pending pend p) \<and>
     0 < card (handles s p) + pending pend p \<and> card (handles s p) + pending pend p < 2 ^ 32 \<and>
     (\<forall>h. h \<in> handles s p \<longrightarrow> agree (po_flags (po_heap s p)) (ob_flags (ob_heap s h))) \<and>
     (\<forall>h h'. h \<in> handles s p \<longrightarrow> h' \<in> handles s p \<longrightarrow> h \<noteq> h' \<longrightarrow> ok_flags (ob_flags (ob_heap s h)) (ob_flags (ob_heap s h'))) \<and>
     (\<forall>f. pend = Some (p, f) \<longrightarrow> agree (po_flags (po_heap s p)) f \<and>
        (\<forall>h. h \<in> handles s p \<longrightarrow> ok_flags f (ob_flags (ob_heap s h))))"

definition obj_lists_ok :: "storage \<Rightarrow> bool" where
  "obj_lists_ok s \<longleftrightarrow> distinct (tee_pobjs s) \<and> (\<forall>ta. distinct (st_objects s ta)) \<and>
     (\<forall>ta ta' o'. o' \<in> set (st_objects s ta) \<longrightarrow> o' \<in> set (st_objects s ta') \<longrightarrow> ta = ta') \<and>
     (\<forall>o'. o' \<in> open_objs s \<longrightarrow> is_persistent (ob_heap s o') \<longrightarrow> (\<exists>p. ob_pobj (ob_heap s o') = Some p \<and> p \<in> set (tee_pobjs s))) \<and>
     (\<forall>o'. o' \<in> open_objs s \<longrightarrow> \<not> is_persistent (ob_heap s o') \<longrightarrow> ob_pobj (ob_heap s o') = None)"

definition st_inv :: "(addr \<times> u32) option \<Rightarrow> storage \<Rightarrow> bool" where
  "st_inv pend s \<longleftrightarrow> obj_lists_ok s \<and> (\<forall>p. p \<in> set (tee_pobjs s) \<longrightarrow> ref_ok pend s p) \<and>
     (\<forall>p f. pend = Some (p, f) \<longrightarrow> p \<in> set (tee_pobjs s))"

lemma handles_cong: "st_objects s' = st_objects s \<Longrightarrow> ob_heap s' = ob_heap s \<Longrightarrow> handles s' = handles s"
  by (simp add: handles_def open_objs_def fun_eq_iff)

lemma handles_unlisted: "obj_lists_ok s \<Longrightarrow> p \<notin> set (tee_pobjs s) \<Longrightarrow> handles s p = {}"
  by (fastforce simp: handles_def obj_lists_ok_def)

lemma refcnt_Suc:
  assumes "ref_ok pend s p"
  shows "po_refcnt (po_heap s p) - 1 = of_nat (card (handles s p) + pending pend p - 1)"
    and "po_refcnt (po_heap s p) - 1 = 0 \<longleftrightarrow> card (handles s p) + pending pend p = 1"
proof -
  from assms obtain k where k: "card (handles s p) + pending pend p = Suc k" "po_refcnt (po_heap s p) = of_nat (Suc k)" "Suc k < 2 ^ 32"
    unfolding ref_ok_def by (metis gr0_implies_Suc)
  then have m: "po_refcnt (po_heap s p) - 1 = of_nat k" by simp
  then show "po_refcnt (po_heap s p) - 1 = of_nat (card (handles s p) + pending pend p - 1)" by (simp only: k(1) diff_Suc_1)
  have "unat (of_nat k :: u32) = k" using k(3) by (simp add: unat_of_nat)
  then have "(of_nat k :: u32) = 0 \<longleftrightarrow> k = 0" by (cases "k = 0") auto
  then show "po_refcnt (po_heap s p) - 1 = 0 \<longleftrightarrow> card (handles s p) + pending pend p = 1" by (simp only: m k(1) One_nat_def nat.inject)
qed

lemma release_ok:
  assumes inv: "st_inv (Some (p, f)) s"
  shows "st_inv None (snd (tee_pobj_release (Some p) s))"
proof -
  let ?s = "snd (tee_pobj_release (Some p) s)"
  have p: "p \<in> set (tee_pobjs s)" and ok: "obj_lists_ok s" "\<And>q. q \<in> set (tee_pobjs s) \<Longrightarrow> ref_ok (Some (p, f)) s q"
    using inv by (auto simp: st_inv_def)
  note r = refcnt_Suc [OF ok(2) [OF p]]
  have h: "handles ?s = handles s" by (rule handles_cong) simp_all
  have dead: "tee_pobjs ?s = (if handles s p = {} then remove1 p (tee_pobjs s) else tee_pobjs s)"
    and heap: "po_heap ?s = (po_heap s)(p := (po_heap s p)\<lparr>po_refcnt := po_refcnt (po_heap s p) - 1\<rparr>)"
    using r(2) ok(2) [OF p] by (auto simp: tee_pobj_release_def Let_def pending_def ref_ok_def)
  have op: "open_objs ?s = open_objs s" by (simp add: open_objs_def)
  have "\<exists>q. ob_pobj (ob_heap s o') = Some q \<and> q \<in> set (tee_pobjs ?s)" if o': "o' \<in> open_objs s" "is_persistent (ob_heap s o')" for o'
  proof -
    from ok(1) o' obtain q where q: "ob_pobj (ob_heap s o') = Some q" "q \<in> set (tee_pobjs s)" by (auto simp: obj_lists_ok_def)
    have "handles s p = {} \<Longrightarrow> q \<noteq> p" using q(1) o' by (auto simp: handles_def)
    then show ?thesis using q dead by auto
  qed
  then have "obj_lists_ok ?s" using ok(1) dead op by (simp add: obj_lists_ok_def)
  moreover have "ref_ok None ?s q" if q: "q \<in> set (tee_pobjs ?s)" for q
  proof (cases "q = p")
    case True
    then have ne: "handles s p \<noteq> {}" using q dead ok(1) by (auto simp: obj_lists_ok_def split: if_splits)
    then have "0 < card (handles s p)" using ok(2) [OF p] by (simp add: ref_ok_def card_gt_0_iff)
    then show ?thesis using True ok(2) [OF p] r(1) by (simp add: ref_ok_def h heap pending_def)
  next
    case False
    have "q \<in> set (tee_pobjs s)" using q dead set_remove1_subset [of p "tee_pobjs s"] by (auto split: if_splits)
    from ok(2) [OF this] False show ?thesis by (simp add: ref_ok_def h heap pending_def)
  qed
  ultimately show ?thesis by (simp add: st_inv_def)
qed

section \<open>Taking references\<close>

text \<open>What is assumed of memory: new addresses are not in use, and there are not four billion handles.\<close>

definition st_env_ok :: "st_env \<Rightarrow> storage \<Rightarrow> bool" where
  "st_env_ok e s \<longleftrightarrow> (\<forall>a. sv_pobj e = Some a \<longrightarrow> a \<notin> set (tee_pobjs s)) \<and> (\<forall>a. sv_obj e = Some a \<longrightarrow> a \<notin> open_objs s) \<and>
     (\<forall>p. card (handles s p) + 1 < 2 ^ 32)"

definition keys_ok :: "storage \<Rightarrow> bool" where
  "keys_ok s \<longleftrightarrow> inj_on (\<lambda>a. pobj_key (po_heap s a)) (set (tee_pobjs s))"

lemma keys_mono:
  assumes "keys_ok s" and "set (tee_pobjs s') \<subseteq> set (tee_pobjs s)"
    and "\<And>a. a \<in> set (tee_pobjs s') \<Longrightarrow> pobj_key (po_heap s' a) = pobj_key (po_heap s a)"
  shows "keys_ok s'"
  using inj_on_subset [OF _ assms(2)] assms(1,3) unfolding keys_ok_def by (auto cong: inj_on_cong)

text \<open>Handles of an application are for objects with its name.\<close>

definition own_ok :: "storage \<Rightarrow> bool" where
  "own_ok s \<longleftrightarrow> (\<forall>ta o' p. o' \<in> set (st_objects s ta) \<longrightarrow> is_persistent (ob_heap s o') \<longrightarrow> ob_pobj (ob_heap s o') = Some p \<longrightarrow>
     po_uuid (po_heap s p) = st_uuid s ta)"

lemma own_mono:
  assumes "own_ok s" and "\<And>ta. set (st_objects s' ta) \<subseteq> set (st_objects s ta)" and "st_uuid s' = st_uuid s"
    and "\<And>ta o' p. o' \<in> set (st_objects s' ta) \<Longrightarrow> is_persistent (ob_heap s' o') \<Longrightarrow> ob_pobj (ob_heap s' o') = Some p \<Longrightarrow>
      is_persistent (ob_heap s o') \<and> ob_pobj (ob_heap s o') = Some p \<and> po_uuid (po_heap s' p) = po_uuid (po_heap s p)"
  shows "own_ok s'"
  unfolding own_ok_def assms(3)
proof (intro allI impI)
  fix ta o' p
  assume o': "o' \<in> set (st_objects s' ta)" and "is_persistent (ob_heap s' o')" "ob_pobj (ob_heap s' o') = Some p"
  from assms(4) [OF this] subsetD [OF assms(2) o'] assms(1) show "po_uuid (po_heap s' p) = st_uuid s ta" by (simp add: own_ok_def)
qed

lemma find_key:
  "find (\<lambda>a. pobj_key (po_heap s a) = k) (rev (tee_pobjs s)) = None \<longleftrightarrow> k \<notin> (\<lambda>a. pobj_key (po_heap s a)) ` set (tee_pobjs s)"
  by (auto simp: find_None_iff)

lemma get_cases:
  assumes inv: "st_inv None s" and env: "st_env_ok e s"
  obtains (fail) res where "tee_pobj_get e uuid oid flags tmp fops s = (res, None, s)" "res \<noteq> TEE_SUCCESS"
  | (got) p s' where "tee_pobj_get e uuid oid flags tmp fops s = (TEE_SUCCESS, Some p, s')" "st_inv (Some (p, flags)) s'"
      "st_objects s' = st_objects s" "ob_heap s' = ob_heap s" "st_uuid s' = st_uuid s" "keys_ok s \<Longrightarrow> keys_ok s'"
      "own_ok s \<Longrightarrow> own_ok s'"
      "pobj_key (po_heap s' p) = (oid, uuid, fops)" "\<And>q. q \<in> set (tee_pobjs s) \<Longrightarrow> pobj_key (po_heap s' q) = pobj_key (po_heap s q)"
      "p \<in> set (tee_pobjs s) \<Longrightarrow> flags AND TEE_DATA_FLAG_ACCESS_WRITE_META = 0"
      "p \<notin> set (tee_pobjs s) \<Longrightarrow> tee_pobjs s' = tee_pobjs s @ [p]"
      "\<And>q. q \<in> set (tee_pobjs s) \<Longrightarrow> q \<noteq> p \<Longrightarrow> po_heap s' q = po_heap s q"
proof (cases "find (\<lambda>a. pobj_key (po_heap s a) = (oid, uuid, fops)) (rev (tee_pobjs s))")
  case (Some p)
  then have p: "p \<in> set (tee_pobjs s)" "pobj_key (po_heap s p) = (oid, uuid, fops)" by (auto simp: find_Some_iff rev_nth)
  show thesis
  proof (cases "tmp = po_temporary (po_heap s p) \<and> ok_flags (po_flags (po_heap s p)) flags")
    case False
    then show thesis using Some
      by (intro fail [of "if tmp = po_temporary (po_heap s p) then tee_pobj_check_access (po_flags (po_heap s p)) flags else TEE_ERROR_ACCESS_CONFLICT"])
        (auto simp: tee_pobj_get_def Let_def ok_flags_def)
  next
    case True
    let ?s = "po_set p (\<lambda>x. x\<lparr>po_refcnt := po_refcnt x + 1\<rparr>) s"
    have h: "handles ?s = handles s" by (rule handles_cong) simp_all
    have "ref_ok (Some (p, flags)) ?s q" if q: "q \<in> set (tee_pobjs s)" for q
    proof -
      have r: "ref_ok None s q" using inv q by (simp add: st_inv_def)
      have c: "card (handles s q) + 1 < 2 ^ 32" using env by (simp add: st_env_ok_def)
      show ?thesis
      proof (cases "q = p")
        case eq: True
        have "ok_flags flags (ob_flags (ob_heap s h))" if "h \<in> handles s p" for h
          using r that True agree_ok [of "po_flags (po_heap s p)" "ob_flags (ob_heap s h)" flags] by (simp add: ref_ok_def eq)
        then show ?thesis using r c True by (simp add: ref_ok_def h pending_def agree_def eq)
      next
        case False
        then show ?thesis using r by (simp add: ref_ok_def h pending_def)
      qed
    qed
    then have i: "st_inv (Some (p, flags)) ?s" using inv p(1) by (simp add: st_inv_def obj_lists_ok_def open_objs_def)
    have run: "tee_pobj_get e uuid oid flags tmp fops s = (TEE_SUCCESS, Some p, ?s)"
      using Some True by (simp add: tee_pobj_get_def Let_def ok_flags_def)
    have k: "pobj_key (po_heap ?s q) = pobj_key (po_heap s q)" for q by (simp add: pobj_key_def)
    have "keys_ok s \<Longrightarrow> keys_ok ?s" by (erule keys_mono) (simp_all add: k del: po_set_simps(2))
    moreover have "own_ok s \<Longrightarrow> own_ok ?s" by (erule own_mono) simp_all
    ultimately show thesis using p True by (intro got [OF run i]) (simp_all add: k ok_flags_iff del: po_set_simps(2), simp)
  qed
next
  case None
  show thesis
  proof (cases "sv_malloc e \<and> sv_pobj e \<noteq> None")
    case False
    then show thesis using None by (intro fail [of TEE_ERROR_OUT_OF_MEMORY]) (auto simp: tee_pobj_get_def split: option.splits)
  next
    case True
    then obtain p where p: "sv_pobj e = Some p" by blast
    let ?s = "s\<lparr>tee_pobjs := tee_pobjs s @ [p], po_heap := (po_heap s)(p :=
       \<lparr>po_refcnt = 1, po_uuid = uuid, po_obj_id = oid, po_flags = flags, po_temporary = tmp, po_fops = fops\<rparr>)\<rparr>"
    have h: "handles ?s = handles s" by (rule handles_cong) simp_all
    have n: "p \<notin> set (tee_pobjs s)" using env p by (simp add: st_env_ok_def)
    have z: "handles s p = {}" using inv n by (intro handles_unlisted) (simp_all add: st_inv_def)
    have "ref_ok (Some (p, flags)) ?s q" if q: "q \<in> set (tee_pobjs ?s)" for q
    proof (cases "q = p")
      case True
      then show ?thesis by (simp add: ref_ok_def h z pending_def agree_def)
    next
      case False
      then have "ref_ok None s q" using inv q by (auto simp: st_inv_def)
      then show ?thesis using False by (simp add: ref_ok_def h pending_def)
    qed
    then have "st_inv (Some (p, flags)) ?s" using inv n by (auto simp: st_inv_def obj_lists_ok_def open_objs_def)
    moreover have "keys_ok s \<Longrightarrow> keys_ok ?s" using None n unfolding find_key keys_ok_def
      by (auto simp: inj_on_def pobj_key_def)
    moreover have "own_ok s \<Longrightarrow> own_ok ?s"
    proof (erule own_mono)
      fix ta o' q
      assume "o' \<in> set (st_objects ?s ta)" "is_persistent (ob_heap ?s o')" "ob_pobj (ob_heap ?s o') = Some q"
      then have "o' \<in> handles s q" by (auto simp: handles_def open_objs_def)
      then have "q \<noteq> p" using z by auto
      then show "is_persistent (ob_heap s o') \<and> ob_pobj (ob_heap s o') = Some q \<and> po_uuid (po_heap ?s q) = po_uuid (po_heap s q)"
        using \<open>is_persistent (ob_heap ?s o')\<close> \<open>ob_pobj (ob_heap ?s o') = Some q\<close> by simp
    qed simp_all
    ultimately show thesis using None True p n
      by (intro got [of p ?s]) (auto simp: tee_pobj_get_def pobj_key_def)
  qed
qed

section \<open>Opening and closing handles\<close>

lemma handles_add:
  assumes "o' \<notin> open_objs s" and "is_persistent x" and "ob_pobj x = Some p"
  shows "handles (tee_obj_add ta o' (ob_set o' (\<lambda>_. x) s)) q = (if q = p then insert o' (handles s q) else handles s q)"
    and "open_objs (tee_obj_add ta o' (ob_set o' (\<lambda>_. x) s)) = insert o' (open_objs s)"
  using assms by (auto simp: handles_def open_objs_def tee_obj_add_def split: if_splits)

lemma add_ok:
  assumes inv: "st_inv (Some (p, ob_flags x)) s" and new: "o' \<notin> open_objs s" and x: "is_persistent x" "ob_pobj x = Some p"
  shows "st_inv None (tee_obj_add ta o' (ob_set o' (\<lambda>_. x) s))" (is "st_inv None ?s")
proof -
  note h = handles_add [OF new x, of ta]
  have ok: "obj_lists_ok s" "p \<in> set (tee_pobjs s)" "\<And>q. q \<in> set (tee_pobjs s) \<Longrightarrow> ref_ok (Some (p, ob_flags x)) s q"
    using inv by (auto simp: st_inv_def)
  have st: "tee_pobjs ?s = tee_pobjs s" "po_heap ?s = po_heap s" "ob_heap ?s = (ob_heap s)(o' := x)"
    "st_objects ?s = (st_objects s)(ta := st_objects s ta @ [o'])"
    by (simp_all add: tee_obj_add_def)
  have no: "o' \<notin> set (st_objects s ta')" for ta' using new by (auto simp: open_objs_def)
  have "obj_lists_ok ?s" using ok(1,2) no x unfolding obj_lists_ok_def h(2) st by (auto split: if_splits)
  moreover have "ref_ok None ?s q" if q: "q \<in> set (tee_pobjs s)" for q
  proof -
    have n: "o' \<notin> handles s q" using new by (simp add: handles_def)
    then have same: "ob_heap ?s k = ob_heap s k" if "k \<in> handles s q" for k using that by (auto simp: st)
    show ?thesis
    proof (cases "q = p")
      case True
      with ok(3) [OF ok(2)] n same show ?thesis
        by (auto simp: ref_ok_def h(1) pending_def st(2,3) intro: ok_flags_sym)
    next
      case False
      with ok(3) [OF q] n same show ?thesis by (auto simp: ref_ok_def h(1) pending_def st(2,3))
    qed
  qed
  ultimately show ?thesis by (simp add: st_inv_def st)
qed

text \<open>Removing a handle from the list of its application leaves its reference pending.\<close>

definition unlist :: "addr \<Rightarrow> addr \<Rightarrow> storage \<Rightarrow> storage" where
  "unlist ta o' s = s\<lparr>st_objects := (st_objects s)(ta := remove1 o' (st_objects s ta))\<rparr>"

lemma handles_unlist:
  assumes "obj_lists_ok s" and "o' \<in> set (st_objects s ta)"
  shows "open_objs (unlist ta o' s) = open_objs s - {o'}" and "handles (unlist ta o' s) q = handles s q - {o'}"
proof -
  have d: "distinct (st_objects s ta)" "\<And>ta'. o' \<in> set (st_objects s ta') \<Longrightarrow> ta' = ta" using assms by (auto simp: obj_lists_ok_def)
  have "x \<in> set (st_objects (unlist ta o' s) ta') \<longleftrightarrow> x \<in> set (st_objects s ta') \<and> x \<noteq> o'" for x ta'
    using d by (cases "ta' = ta") (auto simp: unlist_def)
  then show o: "open_objs (unlist ta o' s) = open_objs s - {o'}" by (auto simp: open_objs_def)
  show "handles (unlist ta o' s) q = handles s q - {o'}" unfolding handles_def o by (auto simp: unlist_def)
qed

lemma unlist_ok:
  assumes inv: "st_inv None s" and o': "o' \<in> set (st_objects s ta)"
  shows "st_inv (if is_persistent (ob_heap s o') then Some (the (ob_pobj (ob_heap s o')), ob_flags (ob_heap s o')) else None) (unlist ta o' s)"
    (is "st_inv ?pend ?s")
proof -
  have ok: "obj_lists_ok s" "\<And>q. q \<in> set (tee_pobjs s) \<Longrightarrow> ref_ok None s q" using inv by (auto simp: st_inv_def)
  note h = handles_unlist [OF ok(1) o']
  have st: "tee_pobjs ?s = tee_pobjs s" "po_heap ?s = po_heap s" "ob_heap ?s = ob_heap s" by (simp_all add: unlist_def)
  have op: "o' \<in> open_objs s" using o' by (auto simp: open_objs_def)
  have l: "obj_lists_ok ?s" using ok(1) unfolding obj_lists_ok_def h(1) st
    by (auto simp: unlist_def dest: in_set_remove1 [THEN iffD1] notin_set_remove1 split: if_splits)
  have r: "ref_ok ?pend ?s q" if q: "q \<in> set (tee_pobjs s)" for q
  proof (cases "o' \<in> handles s q")
    case True
    then have p: "is_persistent (ob_heap s o')" "ob_pobj (ob_heap s o') = Some q" by (auto simp: handles_def)
    have "card (handles s q - {o'}) + 1 = card (handles s q)" using True ok(2) [OF q] by (simp add: ref_ok_def card_Suc_Diff1 del: card_Diff_insert)
    then show ?thesis using True p ok(2) [OF q] by (auto simp: ref_ok_def h(2) st pending_def)
  next
    case False
    then have "is_persistent (ob_heap s o') \<Longrightarrow> ob_pobj (ob_heap s o') \<noteq> Some q" using op by (auto simp: handles_def)
    moreover have "is_persistent (ob_heap s o') \<Longrightarrow> ob_pobj (ob_heap s o') \<noteq> None" using ok(1) op by (auto simp: obj_lists_ok_def)
    ultimately show ?thesis using False ok(2) [OF q] by (auto simp: ref_ok_def h(2) st pending_def)
  qed
  have "is_persistent (ob_heap s o') \<Longrightarrow> the (ob_pobj (ob_heap s o')) \<in> set (tee_pobjs s)"
    using ok(1) op by (fastforce simp: obj_lists_ok_def)
  then show ?thesis using l r by (simp add: st_inv_def st)
qed

text \<open>The log, the enumerators and the names of applications play no part.\<close>

lemma st_inv_cong:
  assumes "tee_pobjs s' = tee_pobjs s" "po_heap s' = po_heap s" "st_objects s' = st_objects s" "ob_heap s' = ob_heap s"
  shows "st_inv pend s' = st_inv pend s" and "keys_ok s' = keys_ok s" and "st_uuid s' = st_uuid s \<Longrightarrow> own_ok s' = own_ok s"
proof -
  have h: "handles s' = handles s" "open_objs s' = open_objs s"
    using handles_cong [OF assms(3,4)] assms by (simp_all only: open_objs_def)
  show "st_inv pend s' = st_inv pend s" unfolding st_inv_def obj_lists_ok_def ref_ok_def by (simp only: assms h)
  show "keys_ok s' = keys_ok s" unfolding keys_ok_def by (simp only: assms)
  show "own_ok s' = own_ok s" if "st_uuid s' = st_uuid s" unfolding own_ok_def by (simp only: assms that)
qed

lemma fs_do_invs [simp]: "st_inv pend (fs_do c s) = st_inv pend s" "keys_ok (fs_do c s) = keys_ok s" "own_ok (fs_do c s) = own_ok s"
  by (rule st_inv_cong; simp)+

lemma close_unlist:
  "tee_obj_close ta o' s =
     (if is_persistent (ob_heap s o')
      then snd (tee_pobj_release (ob_pobj (ob_heap s o')) (fs_do (FsClose (file_of (unlist ta o' s) o')) (unlist ta o' s)))
      else unlist ta o' s)"
  by (simp add: tee_obj_close_def unlist_def Let_def)

lemma obj_close_ok:
  assumes inv: "st_inv None s" and o': "o' \<in> set (st_objects s ta)"
  shows "st_inv None (tee_obj_close ta o' s)"
proof (cases "is_persistent (ob_heap s o')")
  case True
  have "o' \<in> open_objs s" using o' by (auto simp: open_objs_def)
  with True inv obtain p where p: "ob_pobj (ob_heap s o') = Some p" by (auto simp: st_inv_def obj_lists_ok_def)
  have "st_inv (Some (p, ob_flags (ob_heap s o'))) (unlist ta o' s)" using unlist_ok [OF inv o'] True p by simp
  then show ?thesis unfolding close_unlist using True p by (simp add: release_ok)
next
  case False
  then show ?thesis using unlist_ok [OF inv o'] by (simp add: close_unlist)
qed

section \<open>Requests keep the invariant\<close>

lemma ob_set_ok:
  assumes "ob_handleFlags (f (ob_heap s a)) = ob_handleFlags (ob_heap s a)" "ob_pobj (f (ob_heap s a)) = ob_pobj (ob_heap s a)"
    "ob_flags (f (ob_heap s a)) = ob_flags (ob_heap s a)"
  shows "st_inv pend (ob_set a f s) = st_inv pend s"
proof -
  have p: "is_persistent (ob_heap (ob_set a f s) k) = is_persistent (ob_heap s k)"
    "ob_pobj (ob_heap (ob_set a f s) k) = ob_pobj (ob_heap s k)" "ob_flags (ob_heap (ob_set a f s) k) = ob_flags (ob_heap s k)" for k
    using assms by (simp_all add: is_persistent_def)
  have o: "open_objs (ob_set a f s) = open_objs s" by (simp add: open_objs_def)
  then have h: "handles (ob_set a f s) q = handles s q" for q unfolding handles_def by (simp only: p o)
  show ?thesis unfolding st_inv_def obj_lists_ok_def ref_ok_def by (simp only: p o h ob_set_simps(1-3))
qed

lemma release_keys:
  assumes "keys_ok s"
  shows "keys_ok (snd (tee_pobj_release p s))"
  by (rule keys_mono [OF assms])
    (auto simp: tee_pobj_release_def Let_def pobj_key_def split: option.splits if_splits dest: subsetD [OF set_remove1_subset])

lemma release_own: "own_ok s \<Longrightarrow> own_ok (snd (tee_pobj_release p s))"
  by (erule own_mono) (auto simp: tee_pobj_release_def Let_def split: option.splits if_splits)

lemma close_own: "own_ok s \<Longrightarrow> own_ok (tee_obj_close ta o' s)"
  unfolding close_unlist
  by (auto intro!: release_own) (erule own_mono; auto simp: unlist_def dest: subsetD [OF set_remove1_subset] split: if_splits)+

lemma close_keys: "keys_ok s \<Longrightarrow> keys_ok (tee_obj_close ta o' s)"
  unfolding tee_obj_close_def Let_def by (auto intro!: release_keys) (auto simp: keys_ok_def)

lemma obj_get_Some: "tee_obj_get ta obj s = Some o' \<Longrightarrow> o' \<in> set (st_objects s ta)"
  by (auto simp: tee_obj_get_def find_Some_iff Let_def)

definition st_ok :: "storage \<Rightarrow> bool" where
  "st_ok s \<longleftrightarrow> st_inv None s \<and> keys_ok s \<and> own_ok s"

lemma close_st_ok: "st_ok s \<Longrightarrow> o' \<in> set (st_objects s ta) \<Longrightarrow> st_ok (tee_obj_close ta o' s)"
  by (simp add: st_ok_def obj_close_ok close_keys close_own)

lemma ob_set_st_ok:
  assumes "st_ok s" "ob_handleFlags (f (ob_heap s a)) = ob_handleFlags (ob_heap s a)" "ob_pobj (f (ob_heap s a)) = ob_pobj (ob_heap s a)"
    "ob_flags (f (ob_heap s a)) = ob_flags (ob_heap s a)"
  shows "st_ok (ob_set a f s)"
proof -
  have k: "is_persistent (ob_heap (ob_set a f s) o') = is_persistent (ob_heap s o')"
    "ob_pobj (ob_heap (ob_set a f s) o') = ob_pobj (ob_heap s o')" for o'
    using assms(2,3) by (simp_all add: is_persistent_def)
  have "own_ok s" using assms(1) by (simp add: st_ok_def)
  then have "own_ok (ob_set a f s)" unfolding own_ok_def k by (simp only: ob_set_simps)
  then show ?thesis using assms ob_set_ok [of f s a None] by (simp add: st_ok_def keys_ok_def)
qed

lemma st_ok_cong:
  assumes "tee_pobjs s' = tee_pobjs s" "po_heap s' = po_heap s" "st_objects s' = st_objects s" "ob_heap s' = ob_heap s"
    and "st_uuid s' = st_uuid s"
  shows "st_ok s' = st_ok s"
  unfolding st_ok_def st_inv_cong [OF assms(1-4)] st_inv_cong(3) [OF assms] ..

lemma fs_do_ok [simp]: "st_ok (fs_do c s) = st_ok s"
  by (rule st_ok_cong) simp_all

text \<open>What reading the head of a file keeps of the state, and of the handle.\<close>

lemma read_head_keeps:
  assumes "tee_svc_storage_read_head e f x s = (res, x', s')"
  shows "tee_pobjs s' = tee_pobjs s" "po_heap s' = po_heap s" "st_objects s' = st_objects s" "ob_heap s' = ob_heap s"
    "storage_enums s' = storage_enums s" "en_heap s' = en_heap s"
    "st_uuid s' = st_uuid s" "ob_handleFlags x' = ob_handleFlags x" "ob_pobj x' = ob_pobj x" "ob_flags x' = ob_flags x"
  using assms by (auto simp: tee_svc_storage_read_head_def read_attrs_def Let_def split: sum.splits prod.splits if_splits)

text \<open>The handle that is opened with a pending reference.\<close>

lemma add_st_ok:
  assumes "st_inv (Some (p, flags)) s" "keys_ok s" "own_ok s" "po_uuid (po_heap s p) = st_uuid s ta" "o' \<notin> open_objs s"
    and x: "ob_handleFlags x = TEE_HANDLE_FLAG_PERSISTENT OR TEE_HANDLE_FLAG_INITIALIZED" "ob_pobj x = Some p" "ob_flags x = flags"
  shows "st_ok (tee_obj_add ta o' (ob_set o' (\<lambda>_. x) s))" and "o' \<in> set (st_objects (tee_obj_add ta o' (ob_set o' (\<lambda>_. x) s)) ta)"
proof -
  have "is_persistent x" using x(1) by (simp add: is_persistent_def TEE_HANDLE_FLAG_PERSISTENT_def TEE_HANDLE_FLAG_INITIALIZED_def)
  moreover have "own_ok (tee_obj_add ta o' (ob_set o' (\<lambda>_. x) s))"
    using assms(3-) by (auto simp: own_ok_def tee_obj_add_def open_objs_def)
  ultimately show "st_ok (tee_obj_add ta o' (ob_set o' (\<lambda>_. x) s))" using add_ok [of p x s o' ta] assms
    by (simp add: st_ok_def keys_ok_def tee_obj_add_def)
qed (simp add: tee_obj_add_def)

lemma obj_open_ok:
  assumes ok: "st_ok s" and env: "st_env_ok e s"
  shows "st_ok (snd (snd (syscall_storage_obj_open e ta sid oid flags s)))"
proof (cases "tee_svc_storage_file_ops sid = None \<or> TEE_OBJECT_ID_MAX_LEN < length oid \<or> sv_access e \<noteq> TEE_SUCCESS")
  case True
  then show ?thesis using ok by (auto simp: syscall_storage_obj_open_def split: option.splits)
next
  case False
  then obtain fops where f: "tee_svc_storage_file_ops sid = Some fops" by auto
  have inv: "st_inv None s" "keys_ok s" "own_ok s" using ok by (simp_all add: st_ok_def)
  from inv(1) env show ?thesis
  proof (cases rule: get_cases [where uuid = "st_uuid s ta" and oid = oid and flags = flags and tmp = False and fops = fops])
    case (fail res)
    then show ?thesis using False f ok by (simp add: syscall_storage_obj_open_def)
  next
    case (got p s1)
    show ?thesis
    proof (cases "sv_obj e")
      case None
      then show ?thesis using False f got(1) release_ok [OF got(2)] release_keys [OF got(6) [OF inv(2)]] release_own [OF got(7) [OF inv(3)]]
        by (simp add: syscall_storage_obj_open_def st_ok_def)
    next
      case (Some o')
      have new: "o' \<notin> open_objs s1" using env Some got(3) by (simp add: st_env_ok_def open_objs_def)
      have own: "po_uuid (po_heap s1 p) = st_uuid s1 ta" using got(5,8) by (simp add: pobj_key_def)
      let ?s2 = "tee_obj_add ta o' (ob_set o' (\<lambda>_. new_obj flags p) s1)"
      have s2: "st_ok ?s2" "o' \<in> set (st_objects ?s2 ta)"
        by (intro add_st_ok [OF got(2) got(6) [OF inv(2)] got(7) [OF inv(3)] own new]; simp add: new_obj_def)+
      obtain res x s3 where r: "tee_svc_storage_read_head e (file_of ?s2 o') (ob_heap ?s2 o') ?s2 = (res, x, s3)" by (metis surj_pair)
      note k = read_head_keeps [OF r]
      have "st_ok s3" using s2(1) st_ok_cong [OF k(1-4,7)] by simp
      then have s3: "st_ok (ob_set o' (\<lambda>_. x) s3)" "o' \<in> set (st_objects (ob_set o' (\<lambda>_. x) s3) ta)"
        using k s2(2) by (simp_all add: ob_set_st_ok)
      have rm: "st_ok (tee_obj_close ta o' (fs_do c (ob_set o' (\<lambda>_. x) s3)))" for c
        by (rule close_st_ok) (use s3 in simp_all)
      show ?thesis using False f got(1) Some r s3 rm close_st_ok [OF s3]
        by (simp add: syscall_storage_obj_open_def tee_svc_storage_remove_corrupt_obj_def Let_def)
    qed
  qed
qed

lemma create_err_ok:
  assumes "st_inv (Some (p, flags)) s" "keys_ok s" "own_ok s"
  shows "st_ok (snd (snd (create_err p b res s)))"
  using assms release_ok [of p flags] release_keys release_own by (simp add: create_err_def st_ok_def Let_def)

lemma create_file_ok:
  assumes inv: "st_inv (Some (p, flags)) s" "keys_ok s" "own_ok s" and own: "po_uuid (po_heap s p) = st_uuid s ta"
    and new: "o' \<notin> open_objs s"
  shows "st_ok (snd (snd (create_file e ta flags len p o' s)))"
proof -
  obtain res x s1 where x: "tee_svc_storage_init_file e (ucast len) (pobj_key (po_heap s p)) (new_obj flags p) s = (res, x, s1)" by (metis surj_pair)
  then have xf: "ob_handleFlags x = TEE_HANDLE_FLAG_PERSISTENT OR TEE_HANDLE_FLAG_INITIALIZED" "ob_pobj x = Some p" "ob_flags x = flags"
    and s1: "st_inv (Some (p, flags)) s1" "keys_ok s1" "own_ok s1" "po_uuid (po_heap s1 p) = st_uuid s1 ta" "o' \<notin> open_objs s1"
    using inv own new by (auto simp: tee_svc_storage_init_file_def new_obj_def open_objs_def Let_def split: prod.splits if_splits)
  note s2 = add_st_ok [OF s1 xf]
  show ?thesis using x s2(1) close_st_ok [OF s2] create_err_ok [OF s1(1-3)] by (simp add: create_file_def Let_def)
qed

lemma create_ok:
  assumes ok: "st_ok s" and env: "st_env_ok e s"
  shows "st_ok (snd (snd (syscall_storage_obj_create e ta sid oid flags attr data len s)))"
proof (cases "tee_svc_storage_file_ops sid = None \<or> TEE_OBJECT_ID_MAX_LEN < length oid \<or> sv_access e \<noteq> TEE_SUCCESS")
  case True
  then show ?thesis using ok by (auto simp: syscall_storage_obj_create_def split: option.splits)
next
  case False
  then obtain fops where f: "tee_svc_storage_file_ops sid = Some fops" by auto
  have inv: "st_inv None s" "keys_ok s" "own_ok s" using ok by (simp_all add: st_ok_def)
  from inv(1) env show ?thesis
  proof (cases rule: get_cases [where uuid = "st_uuid s ta" and oid = oid and flags = flags and tmp = True and fops = fops])
    case (fail res)
    then show ?thesis using False f ok by (simp add: syscall_storage_obj_create_def)
  next
    case (got p s1)
    note keys = got(6) [OF inv(2)] got(7) [OF inv(3)]
    have own: "po_uuid (po_heap s1 p) = st_uuid s1 ta" using got(5,8) by (simp add: pobj_key_def)
    show ?thesis
    proof (cases "sv_obj e")
      case None
      then show ?thesis using False f got(1) create_err_ok [OF got(2) keys] by (simp add: syscall_storage_obj_create_def Let_def)
    next
      case (Some o')
      have new: "o' \<notin> open_objs s1" using env Some got(3) by (simp add: st_env_ok_def open_objs_def)
      have "st_ok (snd (snd (create_file e ta flags l p o' s1)))" for l by (rule create_file_ok [OF got(2) keys own new])
      then show ?thesis using False f got(1) create_err_ok [OF got(2) keys] Some
        by (simp add: syscall_storage_obj_create_def Let_def)
    qed
  qed
qed

lemma close_log_ok: "st_ok s \<Longrightarrow> o' \<in> set (st_objects s ta) \<Longrightarrow> st_ok (tee_obj_close ta o' (fs_do c s))"
  by (rule close_st_ok) simp_all

lemma del_ok: "st_ok s \<Longrightarrow> st_ok (snd (syscall_storage_obj_del e ta obj s))"
  by (auto simp: syscall_storage_obj_del_def close_log_ok obj_get_Some split: option.splits)

lemma cryp_close_ok: "st_ok s \<Longrightarrow> st_ok (snd (syscall_cryp_obj_close ta obj s))"
  by (auto simp: syscall_cryp_obj_close_def close_st_ok obj_get_Some split: option.splits)

lemma data_handle_Inr: "data_handle ta obj need s = Inr o' \<Longrightarrow> o' \<in> set (st_objects s ta)"
  by (auto simp: data_handle_def obj_get_Some split: option.splits if_splits)

lemma data_ok:
  assumes "st_ok s"
  shows "st_ok (snd (snd (syscall_storage_obj_read e ta obj len s)))" and "st_ok (snd (syscall_storage_obj_write e ta obj len s))"
    and "st_ok (snd (syscall_storage_obj_trunc e ta obj len s))" and "st_ok (snd (syscall_storage_obj_seek ta obj off wh s))"
  using assms
  by (auto simp: syscall_storage_obj_read_def syscall_storage_obj_write_def syscall_storage_obj_trunc_def syscall_storage_obj_seek_def
      tee_svc_storage_remove_corrupt_obj_def Let_def close_st_ok data_handle_Inr obj_get_Some intro!: ob_set_st_ok split: sum.split prod.split option.split)

lemma close_all_ok:
  "st_ok s \<Longrightarrow> st_ok (tee_obj_close_all ta s) \<and> st_objects (tee_obj_close_all ta s) = (st_objects s)(ta := [])"
proof (induction "length (st_objects s ta)" arbitrary: s)
  case 0
  then show ?case by (simp add: tee_obj_close_all.simps [of ta s] fun_upd_idem)
next
  case (Suc n)
  then obtain o' os where l: "st_objects s ta = o' # os" by (cases "st_objects s ta") auto
  have "st_ok (tee_obj_close ta o' s)" by (rule close_st_ok) (use Suc.prems l in simp_all)
  from Suc.hyps(1) [OF _ this] Suc.hyps(2) l show ?case by (simp add: tee_obj_close_all.simps [of ta s])
qed

end
