(* ===== verification/Storage_Calls.thy ===== *)
theory Storage_Calls
  imports Storage_Safe
begin

unbundle bit_operations_syntax

text \<open>
  Every system call on persistent objects and enumerators keeps the invariant of the theory before, and
  what follows from it for any sequence of calls of any applications.
\<close>

section \<open>Renaming\<close>

lemma po_rename_inv:
  defines "f \<equiv> \<lambda>oid x. x\<lparr>po_obj_id := oid\<rparr>"
  shows "st_inv pend (po_set p (f oid) s) = st_inv pend s" and "own_ok (po_set p (f oid) s) = own_ok s"
proof -
  have k: "po_refcnt (po_heap (po_set p (f oid) s) q) = po_refcnt (po_heap s q)" "po_flags (po_heap (po_set p (f oid) s) q) = po_flags (po_heap s q)"
    "po_uuid (po_heap (po_set p (f oid) s) q) = po_uuid (po_heap s q)" for q
    by (simp_all add: f_def)
  have h: "handles (po_set p (f oid) s) = handles s" "open_objs (po_set p (f oid) s) = open_objs s"
    by (rule handles_cong; simp) (simp add: open_objs_def)
  show "st_inv pend (po_set p (f oid) s) = st_inv pend s" unfolding st_inv_def obj_lists_ok_def ref_ok_def
    by (simp only: k h po_set_simps(1,3,4))
  show "own_ok (po_set p (f oid) s) = own_ok s" unfolding own_ok_def by (simp only: k po_set_simps(3-5))
qed

text \<open>The reserved name goes over from object \<open>q\<close> to object \<open>p\<close>.\<close>

lemma swap_keys:
  assumes keys: "keys_ok s" and l: "tee_pobjs s = l @ [q]" "p \<in> set l" "q \<notin> set l"
    and key: "pobj_key (po_heap s q) = (oid, po_uuid (po_heap s p), po_fops (po_heap s p))"
    and s': "tee_pobjs s' = l" "\<And>a. a \<in> set l \<Longrightarrow> pobj_key (po_heap s' a) = (if a = p then pobj_key (po_heap s q) else pobj_key (po_heap s a))"
  shows "keys_ok s'"
proof -
  have inj: "a = b" if "pobj_key (po_heap s a) = pobj_key (po_heap s b)" "a \<in> insert q (set l)" "b \<in> insert q (set l)" for a b
    using keys that by (auto simp: keys_ok_def l(1) inj_on_def)
  show ?thesis unfolding keys_ok_def s'(1)
  proof (rule inj_onI)
    fix a b
    assume ab: "a \<in> set l" "b \<in> set l" "pobj_key (po_heap s' a) = pobj_key (po_heap s' b)"
    then show "a = b" using inj [of a b] inj [of q b] inj [of a q] l(3) by (auto simp: s'(2) split: if_splits)
  qed
qed

lemma rename_ok:
  assumes ok: "st_ok s" and env: "st_env_ok e s"
  shows "st_ok (snd (syscall_storage_obj_rename e ta obj oid s))"
proof (cases "tee_obj_get ta obj s")
  case None
  then show ?thesis using ok by (simp add: syscall_storage_obj_rename_def)
next
  case (Some o')
  let ?x = "ob_heap s o'"
  show ?thesis
  proof (cases "TEE_OBJECT_ID_MAX_LEN < length oid \<or> \<not> is_persistent ?x \<or> ob_flags ?x AND TEE_DATA_FLAG_ACCESS_WRITE_META = 0 \<or>
      ob_pobj ?x = None \<or> sv_access e \<noteq> TEE_SUCCESS")
    case True
    then show ?thesis using ok Some by (auto simp: syscall_storage_obj_rename_def Let_def split: option.splits)
  next
    case False
    then obtain p where p: "ob_pobj ?x = Some p" by auto
    have o': "o' \<in> set (st_objects s ta)" using Some by (rule obj_get_Some)
    have inv: "st_inv None s" "keys_ok s" "own_ok s" using ok by (simp_all add: st_ok_def)
    have listed: "p \<in> set (tee_pobjs s)" using inv(1) o' False p by (fastforce simp: st_inv_def obj_lists_ok_def open_objs_def)
    have uuid: "po_uuid (po_heap s p) = st_uuid s ta" using inv(3) o' False p by (simp add: own_ok_def)
    from inv(1) env show ?thesis
    proof (cases rule: get_cases [where uuid = "st_uuid s ta" and oid = oid and flags = TEE_DATA_FLAG_ACCESS_WRITE_META
          and tmp = False and fops = "po_fops (po_heap s p)"])
      case (fail res)
      then show ?thesis using ok Some False p by (simp add: syscall_storage_obj_rename_def Let_def)
    next
      case (got q s1)
      have new: "q \<notin> set (tee_pobjs s)" using got(10) by (auto simp: TEE_DATA_FLAG_ACCESS_WRITE_META_def)
      then have l: "tee_pobjs s1 = tee_pobjs s @ [q]" and pq: "q \<noteq> p" using got(11) listed by auto
      have same: "po_heap s1 p = po_heap s p" using got(12) [OF listed] pq by blast
      have "handles s1 q = {}" using handles_unlisted [of s q] inv(1) new handles_cong [OF got(3,4)] by (simp add: st_inv_def)
      then have one: "po_refcnt (po_heap s1 q) = 1" using got(2) l by (simp add: st_inv_def ref_ok_def pending_def)
      obtain res s2 where r: "rename_file e p q oid s1 = (res, s2)" by (metis surj_pair)
      have run: "snd (syscall_storage_obj_rename e ta obj oid s) = snd (tee_pobj_release (Some q) s2)"
        using Some False p got(1) r by (simp add: syscall_storage_obj_rename_def Let_def)
      from r consider (no) c where "s2 = fs_do c s1" | (yes) c where "s2 = po_set p (\<lambda>x. x\<lparr>po_obj_id := oid\<rparr>) (fs_do c s1)"
        by (auto simp: rename_file_def tee_pobj_rename_def Let_def split: if_splits)
      then show ?thesis
      proof cases
        case no
        then show ?thesis unfolding run
          using release_ok [OF got(2)] release_ok [of q TEE_DATA_FLAG_ACCESS_WRITE_META s2] release_keys [of s2] release_own [of s2] got(2) got(6) [OF inv(2)] got(7) [OF inv(3)]
          by (simp add: st_ok_def)
      next
        case yes
        have i: "st_inv (Some (q, TEE_DATA_FLAG_ACCESS_WRITE_META)) s2" "own_ok s2"
          unfolding yes po_rename_inv using got(2) got(7) [OF inv(3)] by simp_all
        have rel: "tee_pobjs (snd (tee_pobj_release (Some q) s2)) = tee_pobjs s"
          using one pq l new by (simp add: yes tee_pobj_release_def Let_def remove1_append)
        have "keys_ok (snd (tee_pobj_release (Some q) s2))"
          by (rule swap_keys [OF got(6) [OF inv(2)] l listed new, of oid])
            (use rel same uuid got(8) pq new in \<open>auto simp: yes pobj_key_def tee_pobj_release_def Let_def\<close>)
        then show ?thesis unfolding run st_ok_def using release_ok [OF i(1)] release_own [OF i(2)] by blast
      qed
    qed
  qed
qed

section \<open>Transient objects\<close>

lemma add_transient_ok:
  assumes ok: "st_ok s" and new: "o' \<notin> open_objs s" and x: "\<not> is_persistent x" "ob_pobj x = None"
  shows "st_ok (tee_obj_add ta o' (ob_set o' (\<lambda>_. x) s))" (is "st_ok ?s")
proof -
  have st: "tee_pobjs ?s = tee_pobjs s" "po_heap ?s = po_heap s" "ob_heap ?s = (ob_heap s)(o' := x)" "st_uuid ?s = st_uuid s"
    "st_objects ?s = (st_objects s)(ta := st_objects s ta @ [o'])"
    by (simp_all add: tee_obj_add_def)
  have op: "open_objs ?s = insert o' (open_objs s)" by (auto simp: open_objs_def st split: if_splits)
  have h: "handles ?s p = handles s p" for p using new x unfolding handles_def op by (auto simp: st)
  have no: "o' \<notin> set (st_objects s t)" for t using new by (auto simp: open_objs_def)
  have "obj_lists_ok ?s" using ok no x unfolding st_ok_def st_inv_def obj_lists_ok_def op st by (auto split: if_splits)
  moreover have "ref_ok None ?s p" if "p \<in> set (tee_pobjs s)" for p
  proof -
    have same: "ob_heap ?s k = ob_heap s k" if "k \<in> handles s p" for k using that new by (auto simp: st handles_def)
    have "ref_ok None s p" using ok that by (simp add: st_ok_def st_inv_def)
    then show ?thesis using same by (simp add: ref_ok_def h st(2) pending_def)
  qed
  moreover have "own_ok ?s" using ok no x by (auto simp: st_ok_def own_ok_def st)
  ultimately show ?thesis using ok by (simp add: st_ok_def st_inv_def keys_ok_def st)
qed

lemma obj_alloc_ok:
  assumes ok: "st_ok s" and env: "st_env_ok e s"
  shows "st_ok (snd (snd (syscall_cryp_obj_alloc e ta typ s)))"
proof (cases "sv_obj e")
  case None
  then show ?thesis using ok by (simp add: syscall_cryp_obj_alloc_def)
next
  case (Some o')
  let ?x = "\<lparr>ob_handleFlags = 0, ob_dataSize = 0, ob_dataPosition = 0, ob_busy = False, ob_ds_pos = 0, ob_pobj = None, ob_flags = 0\<rparr>"
  have "o' \<notin> open_objs s" using env Some by (simp add: st_env_ok_def)
  then have s1: "st_ok (tee_obj_add ta o' (ob_set o' (\<lambda>_. ?x) s))" by (rule add_transient_ok [OF ok]) (simp_all add: is_persistent_def)
  have "o' \<in> set (st_objects (tee_obj_add ta o' (ob_set o' (\<lambda>_. ?x) s)) ta)" by (simp add: tee_obj_add_def)
  from close_st_ok [OF s1 this] s1 Some ok show ?thesis by (simp add: syscall_cryp_obj_alloc_def Let_def)
qed

lemma obj_verify_ok: "st_ok s \<Longrightarrow> o' \<in> set (st_objects s ta) \<Longrightarrow> st_ok (snd (tee_obj_verify e ta o' s))"
  by (auto simp: tee_obj_verify_def Let_def intro!: close_st_ok)

section \<open>Enumerators\<close>

text \<open>An enumerator with a directory knows the file system of the directory.\<close>

definition en_ok :: "storage \<Rightarrow> bool" where
  "en_ok s \<longleftrightarrow> (\<forall>ta a. a \<in> set (storage_enums s ta) \<longrightarrow> en_dir (en_heap s a) \<noteq> None \<longrightarrow> en_fops (en_heap s a) \<noteq> None)"

lemma en_ok_no_dir: "en_ok s \<Longrightarrow> a \<in> set (storage_enums s ta) \<Longrightarrow> en_fops (en_heap s a) = None \<Longrightarrow> en_dir (en_heap s a) = None"
  unfolding en_ok_def by metis

lemma en_ok_cong: "storage_enums s' = storage_enums s \<Longrightarrow> en_heap s' = en_heap s \<Longrightarrow> en_ok s' = en_ok s"
  by (simp only: en_ok_def)

lemma en_set_ok:
  assumes "en_ok s" and "en_dir (f (en_heap s a)) \<noteq> None \<Longrightarrow> en_fops (f (en_heap s a)) \<noteq> None"
  shows "en_ok (en_set a f s)"
  using assms by (simp add: en_ok_def)

lemma en_set_st_ok [simp]: "st_ok (en_set a f s) = st_ok s" "st_ok (s\<lparr>storage_enums := l\<rparr>) = st_ok s"
  by (rule st_ok_cong; simp)+

lemma get_enum_Some: "tee_svc_storage_get_enum ta en s = Some a \<Longrightarrow> a \<in> set (storage_enums s ta)"
  by (auto simp: tee_svc_storage_get_enum_def find_Some_iff Let_def)

lemma close_enum_ok:
  assumes "st_ok s" and "en_ok s"
  shows "st_ok (tee_svc_close_enum ta a s)" and "en_ok (tee_svc_close_enum ta a s)"
proof -
  have "st_uuid (tee_svc_close_enum ta a s) = st_uuid s" by (simp add: tee_svc_close_enum_def Let_def split: option.split)
  then show "st_ok (tee_svc_close_enum ta a s)" using assms(1) st_ok_cong [of "tee_svc_close_enum ta a s" s] by simp
  show "en_ok (tee_svc_close_enum ta a s)" using assms(2)
    by (auto simp: en_ok_def dest: subsetD [OF set_remove1_subset] split: if_splits)
qed

lemma close_all_enum_ok:
  "st_ok s \<Longrightarrow> en_ok s \<Longrightarrow> st_ok (tee_svc_storage_close_all_enum ta s) \<and> en_ok (tee_svc_storage_close_all_enum ta s) \<and>
     st_objects (tee_svc_storage_close_all_enum ta s) = st_objects s \<and>
     storage_enums (tee_svc_storage_close_all_enum ta s) = (storage_enums s)(ta := [])"
proof (induction "length (storage_enums s ta)" arbitrary: s)
  case 0
  then show ?case by (simp add: tee_svc_storage_close_all_enum.simps [of ta s] fun_upd_idem)
next
  case (Suc n)
  then obtain a as where l: "storage_enums s ta = a # as" by (cases "storage_enums s ta") auto
  from Suc.hyps(1) [OF _ close_enum_ok [OF Suc.prems]] Suc.hyps(2) l show ?case
    by (simp add: tee_svc_storage_close_all_enum.simps [of ta s])
qed

lemma enum_calls_ok:
  assumes "st_ok s" and "en_ok s"
  shows "st_ok (snd (snd (syscall_storage_alloc_enum e ta out s)))" "en_ok (snd (snd (syscall_storage_alloc_enum e ta out s)))"
    and "st_ok (snd (syscall_storage_free_enum ta en s))" "en_ok (snd (syscall_storage_free_enum ta en s))"
  using assms close_enum_ok [OF assms]
  by (auto simp: syscall_storage_alloc_enum_def syscall_storage_free_enum_def Let_def en_ok_def split: option.split if_splits)

lemma reset_enum_ok:
  assumes "st_ok s" and "en_ok s"
  obtains res s' where "syscall_storage_reset_enum ta en s = Ret (res, s')" "st_ok s'" "en_ok s'"
proof (cases "tee_svc_storage_get_enum ta en s")
  case None
  then show thesis using that assms by (simp add: syscall_storage_reset_enum_def)
next
  case (Some a)
  show thesis
  proof (cases "en_fops (en_heap s a)")
    case None
    then have "en_dir (en_heap s a) = None" by (rule en_ok_no_dir [OF assms(2) get_enum_Some [OF Some]])
    then show thesis using that assms Some None by (simp add: syscall_storage_reset_enum_def)
  next
    case fops: (Some fops)
    show thesis
    proof (rule that)
      show "syscall_storage_reset_enum ta en s = Ret (TEE_SUCCESS, en_set a (\<lambda>x. x\<lparr>en_fops := None, en_dir := None\<rparr>)
          (fs_do (FsClosedir fops (en_dir (en_heap s a))) s))"
        using Some fops by (simp add: syscall_storage_reset_enum_def)
    qed (use assms in \<open>auto intro!: en_set_ok simp: en_ok_def\<close>)
  qed
qed

lemma start_enum_ok:
  assumes "st_ok s" and "en_ok s"
  obtains res s' where "syscall_storage_start_enum e ta en sid s = Ret (res, s')" "st_ok s'" "en_ok s'"
proof (cases "tee_svc_storage_get_enum ta en s")
  case None
  then show thesis using that assms by (simp add: syscall_storage_start_enum_def)
next
  case (Some a)
  define closed where "closed = (case en_dir (en_heap s a) of None \<Rightarrow> s
     | Some d \<Rightarrow> en_set a (\<lambda>x. x\<lparr>en_dir := None\<rparr>) (fs_do (FsClosedir (the (en_fops (en_heap s a))) (Some d)) s))"
  have en: "en_fops (en_heap s a) \<noteq> None" if "en_dir (en_heap s a) = Some d" for d
    using en_ok_no_dir [OF assms(2) get_enum_Some [OF Some]] that by auto
  have c: "st_ok closed" "en_ok closed" using assms by (auto simp: closed_def en_ok_def split: option.split)
  have o: "en_ok (fs_do c (en_set a (\<lambda>x. x\<lparr>en_fops := Some f\<rparr>) closed))" for c f using c(2) by (auto simp: en_ok_def)
  have run: "syscall_storage_start_enum e ta en sid s = (case tee_svc_storage_file_ops sid of
      None \<Rightarrow> Ret (TEE_ERROR_ITEM_NOT_FOUND, closed)
    | Some fops \<Rightarrow>
        let s = fs_do (FsOpendir fops (st_uuid closed ta)) (en_set a (\<lambda>x. x\<lparr>en_fops := Some fops\<rparr>) closed) in
        (case fs_opendir e of Inl res \<Rightarrow> Ret (res, s) | Inr d \<Rightarrow> Ret (TEE_SUCCESS, en_set a (\<lambda>x. x\<lparr>en_dir := Some d\<rparr>) s)))"
    using Some en by (auto simp: syscall_storage_start_enum_def closed_def split: option.split)
  show thesis
  proof (cases "tee_svc_storage_file_ops sid")
    case None
    then show thesis using that c run by simp
  next
    case (Some fops)
    then show thesis using that c o run by (cases "fs_opendir e") (auto simp: Let_def en_set_ok)
  qed
qed

lemma next_obj_frame:
  assumes "next_enum_obj e u oid fops s = (res, r, s')"
  shows "st_ok s' = st_ok s" and "en_ok s' = en_ok s"
proof -
  have "tee_pobjs s' = tee_pobjs s \<and> po_heap s' = po_heap s \<and> st_objects s' = st_objects s \<and> ob_heap s' = ob_heap s \<and>
    st_uuid s' = st_uuid s \<and> storage_enums s' = storage_enums s \<and> en_heap s' = en_heap s"
    using assms by (auto simp: next_enum_obj_def Let_def split: if_splits sum.splits prod.splits dest: read_head_keeps)
  then show "st_ok s' = st_ok s" "en_ok s' = en_ok s" using st_ok_cong [of s' s] en_ok_cong [of s' s] by blast+
qed

lemma fs_do_en_ok [simp]: "en_ok (fs_do c s) = en_ok s"
  by (rule en_ok_cong) simp_all

lemma next_enum_ok:
  assumes ok: "st_ok s" "en_ok s" and run: "syscall_storage_next_enum e ta en s = Ret (res, r, s')"
  shows "st_ok s' \<and> en_ok s'"
proof (cases "tee_svc_storage_get_enum ta en s = None \<or> sv_access e \<noteq> TEE_SUCCESS \<or> sv_buffer e \<noteq> TEE_SUCCESS \<or>
    en_fops (en_heap s (the (tee_svc_storage_get_enum ta en s))) = None")
  case True
  then show ?thesis using run ok by (auto simp: syscall_storage_next_enum_def split: option.splits if_splits)
next
  case False
  then obtain a f where a: "tee_svc_storage_get_enum ta en s = Some a" "en_fops (en_heap s a) = Some f" by auto
  let ?s = "fs_do (FsReaddir f (en_dir (en_heap s a))) s"
  from run False a obtain d where "readdir e f (en_dir (en_heap s a)) = Ret d"
    "(case d of Inl res \<Rightarrow> Ret (res, None, ?s) | Inr oid \<Rightarrow> Ret (next_enum_obj e (st_uuid ?s ta) oid f ?s)) = Ret (res, r, s')"
    by (auto simp: syscall_storage_next_enum_def Let_def)
  then show ?thesis using ok next_obj_frame [of e "st_uuid ?s ta" _ f ?s] by (cases d) auto
qed

section \<open>Calls of the file system\<close>

text \<open>The calls on files of the application with name \<open>u\<close>.\<close>

fun own_call :: "u8 list \<Rightarrow> fs_call \<Rightarrow> bool" where
  "own_call u (FsOpen f) \<longleftrightarrow> fst (snd f) = u"
| "own_call u (FsCreate f ow) \<longleftrightarrow> fst (snd f) = u"
| "own_call u (FsClose f) \<longleftrightarrow> fst (snd f) = u"
| "own_call u (FsRead f pos len) \<longleftrightarrow> fst (snd f) = u"
| "own_call u (FsWrite f pos len) \<longleftrightarrow> fst (snd f) = u"
| "own_call u (FsRename f f') \<longleftrightarrow> fst (snd f) = u \<and> fst (snd f') = u"
| "own_call u (FsRemove f) \<longleftrightarrow> fst (snd f) = u"
| "own_call u (FsTruncate f len) \<longleftrightarrow> fst (snd f) = u"
| "own_call u (FsOpendir fops v) \<longleftrightarrow> v = u"
| "own_call u (FsReaddir fops d) \<longleftrightarrow> True"
| "own_call u (FsClosedir fops d) \<longleftrightarrow> True"

definition calls_own :: "u8 list \<Rightarrow> storage \<Rightarrow> storage \<Rightarrow> bool" where
  "calls_own u s s' \<longleftrightarrow> st_uuid s' = st_uuid s \<and> (\<exists>l. fs_log s' = fs_log s @ l \<and> list_all (own_call u) l)"

text \<open>A call on objects leaves the enumerators alone.\<close>

definition obj_step :: "u8 list \<Rightarrow> storage \<Rightarrow> storage \<Rightarrow> bool" where
  "obj_step u s s' \<longleftrightarrow> calls_own u s s' \<and> storage_enums s' = storage_enums s \<and> en_heap s' = en_heap s"

named_theorems obj_step_intros

lemma calls_own_cong: "fs_log s' = fs_log s1 \<Longrightarrow> st_uuid s' = st_uuid s1 \<Longrightarrow> calls_own u s s' = calls_own u s s1"
  by (simp add: calls_own_def)

lemma calls_own_refl: "calls_own u s s"
  by (simp add: calls_own_def)

lemma calls_own_fs_do: "calls_own u s s' \<Longrightarrow> own_call u c \<Longrightarrow> calls_own u s (fs_do c s')"
  by (auto simp: calls_own_def)

lemma obj_step_refl [obj_step_intros]: "obj_step u s s"
  by (simp add: obj_step_def calls_own_refl)

lemma obj_step_fs_do [obj_step_intros]: "obj_step u s s' \<Longrightarrow> own_call u c \<Longrightarrow> obj_step u s (fs_do c s')"
  by (simp add: obj_step_def calls_own_fs_do)

lemma obj_step_trans: "obj_step u s s1 \<Longrightarrow> obj_step u s1 s2 \<Longrightarrow> obj_step u s s2"
  by (auto simp: obj_step_def calls_own_def)

lemma obj_step_cong:
  assumes "fs_log s' = fs_log s1" "st_uuid s' = st_uuid s1" "storage_enums s' = storage_enums s1" "en_heap s' = en_heap s1"
  shows "obj_step u s s' = obj_step u s s1"
  unfolding obj_step_def calls_own_def by (simp only: assms)

lemma release_log [simp]: "fs_log (snd (tee_pobj_release p s)) = fs_log s"
  "storage_enums (snd (tee_pobj_release p s)) = storage_enums s" "en_heap (snd (tee_pobj_release p s)) = en_heap s"
  by (simp_all add: tee_pobj_release_def Let_def split: option.split)

lemma add_frame [simp]:
  "storage_enums (tee_obj_add ta o' s) = storage_enums s" "en_heap (tee_obj_add ta o' s) = en_heap s"
  "st_uuid (tee_obj_add ta o' s) = st_uuid s" "fs_log (tee_obj_add ta o' s) = fs_log s" "po_heap (tee_obj_add ta o' s) = po_heap s"
  "ob_heap (tee_obj_add ta o' s) = ob_heap s"
  by (simp_all add: tee_obj_add_def)

lemma obj_step_sets [simp]:
  "obj_step u s (ob_set a f s') = obj_step u s s'" "obj_step u s (po_set a g s') = obj_step u s s'"
  "obj_step u s (tee_obj_add ta o' s') = obj_step u s s'" "obj_step u s (snd (tee_pobj_release p s')) = obj_step u s s'"
  by (rule obj_step_cong; simp)+

lemma obj_step_close [obj_step_intros]:
  assumes "obj_step u s s'" and "is_persistent (ob_heap s' o') \<Longrightarrow> fst (snd (file_of s' o')) = u"
  shows "obj_step u s (tee_obj_close ta o' s')"
proof -
  have "obj_step u s (s'\<lparr>st_objects := l\<rparr>)" for l using assms(1) obj_step_cong [of "s'\<lparr>st_objects := l\<rparr>" s'] by simp
  then show ?thesis using assms(2) by (auto simp: tee_obj_close_def Let_def file_of_def intro!: obj_step_fs_do)
qed

lemma get_step:
  assumes "tee_pobj_get e v oid flags tmp f s = (res, p, s')"
  shows "obj_step u s s'" and "p = Some q \<Longrightarrow> pobj_key (po_heap s' q) = (oid, v, f)" and "ob_heap s' = ob_heap s"
    and "\<And>a. po_uuid (po_heap s a) = v \<Longrightarrow> po_uuid (po_heap s' a) = v"
proof -
  have "obj_step u s (s\<lparr>tee_pobjs := l, po_heap := h\<rparr>)" for l h
    using obj_step_refl [of u s] obj_step_cong [of "s\<lparr>tee_pobjs := l, po_heap := h\<rparr>" s] by simp
  then show "obj_step u s s'" using assms obj_step_refl [of u s] by (auto simp: tee_pobj_get_def Let_def split: option.splits if_splits)
  show "p = Some q \<Longrightarrow> pobj_key (po_heap s' q) = (oid, v, f)" using assms
    by (auto simp: tee_pobj_get_def Let_def find_Some_iff pobj_key_def split: option.splits if_splits)
  show "ob_heap s' = ob_heap s" using assms by (auto simp: tee_pobj_get_def Let_def split: option.splits if_splits)
  show "po_uuid (po_heap s' a) = v" if "po_uuid (po_heap s a) = v" for a
    using assms that by (auto simp: tee_pobj_get_def Let_def split: option.splits if_splits)
qed

lemma read_head_step:
  assumes "tee_svc_storage_read_head e f x s = (res, x', s')" and "fst (snd f) = u"
  shows "obj_step u s s'"
  using assms by (auto simp: tee_svc_storage_read_head_def read_attrs_def Let_def intro!: obj_step_intros split: sum.splits prod.splits if_splits)

text \<open>The file of a handle belongs to the application.\<close>

lemma own_file:
  assumes ok: "st_ok s" and o': "o' \<in> set (st_objects s ta)" and p: "is_persistent (ob_heap s o') \<or> ob_pobj (ob_heap s o') \<noteq> None"
  shows "fst (snd (file_of s o')) = st_uuid s ta"
proof -
  have op: "o' \<in> open_objs s" using o' by (auto simp: open_objs_def)
  have l: "obj_lists_ok s" "own_ok s" using ok by (simp_all add: st_ok_def st_inv_def)
  have pers: "is_persistent (ob_heap s o')" using l(1) op p by (auto simp: obj_lists_ok_def)
  then obtain q where "ob_pobj (ob_heap s o') = Some q" using l(1) op by (auto simp: obj_lists_ok_def)
  then show ?thesis using l(2) o' pers by (simp add: own_ok_def file_of_def pobj_key_def)
qed

lemma open_step:
  "obj_step (st_uuid s ta) s (snd (snd (syscall_storage_obj_open e ta sid oid flags s)))"
proof (cases "tee_svc_storage_file_ops sid = None \<or> TEE_OBJECT_ID_MAX_LEN < length oid \<or> sv_access e \<noteq> TEE_SUCCESS")
  case True
  then show ?thesis by (auto simp: syscall_storage_obj_open_def obj_step_refl split: option.splits)
next
  case False
  then obtain f where f: "tee_svc_storage_file_ops sid = Some f" by auto
  obtain res p s1 where g: "tee_pobj_get e (st_uuid s ta) oid flags False f s = (res, p, s1)" by (metis surj_pair)
  note s1 = get_step [OF g]
  show ?thesis
  proof (cases "p = None \<or> sv_obj e = None")
    case True
    then show ?thesis using False f g s1(1) by (auto simp: syscall_storage_obj_open_def split: option.split)
  next
    case some: False
    then obtain q o' where q: "p = Some q" "sv_obj e = Some o'" by auto
    let ?s2 = "tee_obj_add ta o' (ob_set o' (\<lambda>_. new_obj flags q) s1)"
    have fl: "fst (snd (file_of ?s2 o')) = st_uuid s ta" using s1(2) [OF q(1)] by (simp add: file_of_def new_obj_def)
    obtain res x s3 where r: "tee_svc_storage_read_head e (file_of ?s2 o') (ob_heap ?s2 o') ?s2 = (res, x, s3)" by (metis surj_pair)
    note k = read_head_keeps [OF r]
    have "obj_step (st_uuid s ta) s ?s2" using s1(1) by simp
    then have s3: "obj_step (st_uuid s ta) s (ob_set o' (\<lambda>_. x) s3)" using obj_step_trans [OF _ read_head_step [OF r fl]] by simp
    have "fst (snd (file_of (ob_set o' (\<lambda>_. x) s3) o')) = st_uuid s ta" using fl k by (simp add: file_of_def)
    then have "obj_step (st_uuid s ta) s (tee_obj_close ta o' (ob_set o' (\<lambda>_. x) s3))"
      "obj_step (st_uuid s ta) s (tee_svc_storage_remove_corrupt_obj ta o' (ob_set o' (\<lambda>_. x) s3))"
      unfolding tee_svc_storage_remove_corrupt_obj_def using s3
      by (auto intro!: obj_step_close obj_step_fs_do simp: file_of_def)
    then show ?thesis using False f g q r s3 by (simp add: syscall_storage_obj_open_def Let_def)
  qed
qed

lemma create_err_step:
  "obj_step u s s' \<Longrightarrow> fst (snd (pobj_key (po_heap s' p))) = u \<Longrightarrow> obj_step u s (snd (snd (create_err p b res s')))"
  by (auto simp: create_err_def Let_def intro!: obj_step_intros)

lemma create_file_step:
  assumes "obj_step u s s1" and "fst (snd (pobj_key (po_heap s1 p))) = u"
  shows "obj_step u s (snd (snd (create_file e ta flags len p o' s1)))"
  using assms
  by (auto simp: create_file_def tee_svc_storage_init_file_def Let_def file_of_def new_obj_def intro!: obj_step_intros create_err_step split: prod.split)

lemma create_step:
  "obj_step (st_uuid s ta) s (snd (snd (syscall_storage_obj_create e ta sid oid flags attr data len s)))"
proof (cases "tee_svc_storage_file_ops sid = None \<or> TEE_OBJECT_ID_MAX_LEN < length oid \<or> sv_access e \<noteq> TEE_SUCCESS")
  case True
  then show ?thesis by (auto simp: syscall_storage_obj_create_def obj_step_refl split: option.splits)
next
  case False
  then obtain f where f: "tee_svc_storage_file_ops sid = Some f" by auto
  obtain res p s1 where g: "tee_pobj_get e (st_uuid s ta) oid flags True f s = (res, p, s1)" by (metis surj_pair)
  note s1 = get_step [OF g]
  show ?thesis
  proof (cases p)
    case None
    then show ?thesis using False f g s1(1) by (simp add: syscall_storage_obj_create_def)
  next
    case (Some q)
    have "fst (snd (pobj_key (po_heap s1 q))) = st_uuid s ta" using s1(2) [OF Some] by simp
    note st = create_err_step [OF s1(1) this] create_file_step [OF s1(1) this]
    then show ?thesis using False f g Some by (auto simp: syscall_storage_obj_create_def Let_def split: option.split)
  qed
qed

lemma rename_step:
  assumes ok: "st_ok s"
  shows "obj_step (st_uuid s ta) s (snd (syscall_storage_obj_rename e ta obj oid s))"
proof (cases "tee_obj_get ta obj s")
  case None
  then show ?thesis by (simp add: syscall_storage_obj_rename_def obj_step_refl)
next
  case (Some o')
  let ?x = "ob_heap s o'"
  show ?thesis
  proof (cases "TEE_OBJECT_ID_MAX_LEN < length oid \<or> \<not> is_persistent ?x \<or> ob_flags ?x AND TEE_DATA_FLAG_ACCESS_WRITE_META = 0 \<or>
      ob_pobj ?x = None \<or> sv_access e \<noteq> TEE_SUCCESS")
    case True
    then show ?thesis using Some by (auto simp: syscall_storage_obj_rename_def obj_step_refl Let_def split: option.splits)
  next
    case False
    then obtain p where p: "ob_pobj ?x = Some p" by auto
    have uuid: "po_uuid (po_heap s p) = st_uuid s ta" using own_file [OF ok obj_get_Some [OF Some]] False p
      by (simp add: file_of_def pobj_key_def)
    obtain res q s1 where g: "tee_pobj_get e (st_uuid s ta) oid TEE_DATA_FLAG_ACCESS_WRITE_META False (po_fops (po_heap s p)) s = (res, q, s1)"
      by (metis surj_pair)
    note s1 = get_step [OF g]
    show ?thesis
    proof (cases q)
      case None
      then show ?thesis using Some False p g s1(1) by (simp add: syscall_storage_obj_rename_def Let_def)
    next
      case q: (Some q')
      have "obj_step (st_uuid s ta) s (snd (rename_file e p q' oid s1))"
        using s1(1) s1(2) [OF q] s1(4) [OF uuid]
        by (auto simp: rename_file_def tee_pobj_rename_def Let_def pobj_key_def intro!: obj_step_fs_do)
      then show ?thesis using Some False p g q by (cases "rename_file e p q' oid s1") (simp add: syscall_storage_obj_rename_def Let_def)
    qed
  qed
qed

lemma own_close_step:
  assumes "st_ok s" and "o' \<in> set (st_objects s ta)" and "obj_step (st_uuid s ta) s s'"
    and "po_heap s' = po_heap s" and "ob_heap s' = ob_heap s"
  shows "obj_step (st_uuid s ta) s (tee_obj_close ta o' s')"
  using assms own_file [OF assms(1,2)] by (auto simp: file_of_def intro!: obj_step_close)

lemma close_all_step:
  "st_ok s \<Longrightarrow> obj_step (st_uuid s ta) s (tee_obj_close_all ta s)"
proof (induction "length (st_objects s ta)" arbitrary: s)
  case 0
  then show ?case by (simp add: tee_obj_close_all.simps [of ta s] obj_step_refl)
next
  case (Suc n)
  then obtain o' os where l: "st_objects s ta = o' # os" by (cases "st_objects s ta") auto
  have o': "o' \<in> set (st_objects s ta)" using l by simp
  have one: "obj_step (st_uuid s ta) s (tee_obj_close ta o' s)" by (rule own_close_step [OF Suc.prems o' obj_step_refl]) simp_all
  have "obj_step (st_uuid s ta) (tee_obj_close ta o' s) (tee_obj_close_all ta (tee_obj_close ta o' s))"
    using Suc.hyps(1) [of "tee_obj_close ta o' s"] Suc.hyps(2) l close_st_ok [OF Suc.prems o'] by simp
  from obj_step_trans [OF one this] show ?case by (simp add: tee_obj_close_all.simps [of ta s] l)
qed

lemma small_calls_step:
  assumes ok: "st_ok s"
  shows "obj_step (st_uuid s ta) s (snd (syscall_storage_obj_del e ta obj s))"
    and "obj_step (st_uuid s ta) s (snd (syscall_cryp_obj_close ta obj s))"
    and "obj_step (st_uuid s ta) s (snd (snd (syscall_cryp_obj_alloc e ta typ s)))"
proof -
  have "obj_step (st_uuid s ta) s (tee_obj_close ta o' (fs_do (FsRemove (file_of s o')) s))"
    if "tee_obj_get ta obj s = Some o'" "ob_pobj (ob_heap s o') \<noteq> None" for o'
    using own_file [OF ok obj_get_Some [OF that(1)]] that(2)
    by (intro own_close_step [OF ok obj_get_Some [OF that(1)]]) (auto intro!: obj_step_intros)
  then show "obj_step (st_uuid s ta) s (snd (syscall_storage_obj_del e ta obj s))"
    by (auto simp: syscall_storage_obj_del_def obj_step_refl split: option.split)
  show "obj_step (st_uuid s ta) s (snd (syscall_cryp_obj_close ta obj s))"
    by (auto simp: syscall_cryp_obj_close_def obj_step_refl split: option.split intro!: own_close_step [OF ok obj_get_Some])
  show "obj_step (st_uuid s ta) s (snd (snd (syscall_cryp_obj_alloc e ta typ s)))"
    by (auto simp: syscall_cryp_obj_alloc_def obj_step_refl is_persistent_def Let_def split: option.split intro!: obj_step_close)
qed

lemma data_step:
  assumes ok: "st_ok s"
  shows "obj_step (st_uuid s ta) s (snd (snd (syscall_storage_obj_read e ta obj len s)))"
    and "obj_step (st_uuid s ta) s (snd (syscall_storage_obj_write e ta obj len s))"
    and "obj_step (st_uuid s ta) s (snd (syscall_storage_obj_trunc e ta obj len s))"
    and "obj_step (st_uuid s ta) s (snd (syscall_storage_obj_seek ta obj off wh s))"
proof -
  have f: "fst (snd (file_of s o')) = st_uuid s ta" if "data_handle ta obj need s = Inr o'" for o' need
    by (rule own_file [OF ok data_handle_Inr [OF that]]) (use that in \<open>auto simp: data_handle_def split: option.splits if_splits\<close>)
  have g: "file_of (fs_do c t) o' = file_of t o'" for c t o' by (simp add: file_of_def)
  note defs = syscall_storage_obj_read_def syscall_storage_obj_write_def syscall_storage_obj_trunc_def syscall_storage_obj_seek_def
      tee_svc_storage_remove_corrupt_obj_def Let_def f g obj_step_refl
  show "obj_step (st_uuid s ta) s (snd (snd (syscall_storage_obj_read e ta obj len s)))"
    by (auto simp: defs intro!: obj_step_intros own_close_step [OF ok data_handle_Inr] split: sum.split prod.split)
  show "obj_step (st_uuid s ta) s (snd (syscall_storage_obj_write e ta obj len s))"
    by (auto simp: defs intro!: obj_step_intros split: sum.split prod.split)
  show "obj_step (st_uuid s ta) s (snd (syscall_storage_obj_trunc e ta obj len s))"
    by (auto simp: defs intro!: obj_step_intros own_close_step [OF ok data_handle_Inr] split: sum.split prod.split)
  show "obj_step (st_uuid s ta) s (snd (syscall_storage_obj_seek ta obj off wh s))"
    by (auto simp: defs split: option.split)
qed

section \<open>Any sequence of requests\<close>

lemma calls_own_sets [simp]:
  "calls_own u s (en_set a f s') = calls_own u s s'" "calls_own u s (s'\<lparr>storage_enums := l\<rparr>) = calls_own u s s'"
  by (rule calls_own_cong; simp)+

lemma close_enum_calls: "calls_own u s s' \<Longrightarrow> calls_own u s (tee_svc_close_enum ta a s')"
  by (auto simp: tee_svc_close_enum_def Let_def intro!: calls_own_fs_do split: option.split)

lemma close_all_enum_calls: "calls_own u s s' \<Longrightarrow> calls_own u s (tee_svc_storage_close_all_enum ta s')"
proof (induction "length (storage_enums s' ta)" arbitrary: s')
  case 0
  then show ?case by (simp add: tee_svc_storage_close_all_enum.simps [of ta s'])
next
  case (Suc n)
  then obtain a as where l: "storage_enums s' ta = a # as" by (cases "storage_enums s' ta") auto
  from Suc.hyps(1) [OF _ close_enum_calls [OF Suc.prems]] Suc.hyps(2) l show ?case
    by (simp add: tee_svc_storage_close_all_enum.simps [of ta s'])
qed

lemma enum_calls_calls:
  "calls_own (st_uuid s ta) s (snd (snd (syscall_storage_alloc_enum e ta out s)))"
  "calls_own (st_uuid s ta) s (snd (syscall_storage_free_enum ta en s))"
  "syscall_storage_reset_enum ta en s = Ret (res, s') \<Longrightarrow> calls_own (st_uuid s ta) s s'"
  "syscall_storage_start_enum e ta en sid s = Ret (res, s') \<Longrightarrow> calls_own (st_uuid s ta) s s'"
  by (auto simp: syscall_storage_alloc_enum_def syscall_storage_free_enum_def syscall_storage_reset_enum_def syscall_storage_start_enum_def
      Let_def calls_own_refl intro!: close_enum_calls calls_own_fs_do split: option.splits if_splits sum.splits)

lemma next_enum_calls:
  assumes "syscall_storage_next_enum e ta en s = Ret (res, r, s')"
  shows "calls_own (st_uuid s ta) s s'"
proof -
  have obj: "calls_own (st_uuid s ta) s s2" if "next_enum_obj e (st_uuid s ta) oid f (fs_do (FsReaddir f d) s) = (res, r, s2)" for oid f d res r s2
  proof -
    have *: "calls_own (st_uuid s ta) s (fs_do (FsReaddir f d) s)" by (simp add: calls_own_fs_do calls_own_refl)
    have "calls_own (st_uuid s ta) s (fs_do (FsClose (oid, st_uuid s ta, f)) s3)"
      if "tee_svc_storage_read_head e (oid, st_uuid s ta, f) x (fs_do (FsReaddir f d) s) = (res, x', s3)" for x res x' s3
      using read_head_step [OF that, of "st_uuid s ta"] * by (intro calls_own_fs_do) (auto simp: obj_step_def calls_own_def)
    then show ?thesis using that *
      by (auto simp: next_enum_obj_def tee_svc_storage_set_enum_def Let_def split: if_splits prod.splits)
  qed
  have rd: "calls_own (st_uuid s ta) s (fs_do (FsReaddir f d) s)" for f d by (simp add: calls_own_fs_do calls_own_refl)
  show ?thesis
  proof (cases "tee_svc_storage_get_enum ta en s = None \<or> sv_access e \<noteq> TEE_SUCCESS \<or> sv_buffer e \<noteq> TEE_SUCCESS \<or>
      en_fops (en_heap s (the (tee_svc_storage_get_enum ta en s))) = None")
    case True
    then show ?thesis using assms by (auto simp: syscall_storage_next_enum_def calls_own_refl split: option.splits if_splits)
  next
    case False
    then obtain a f where a: "tee_svc_storage_get_enum ta en s = Some a" "en_fops (en_heap s a) = Some f" by auto
    let ?s = "fs_do (FsReaddir f (en_dir (en_heap s a))) s"
    from assms False a obtain d where
      "(case d of Inl res \<Rightarrow> Ret (res, None, ?s) | Inr oid \<Rightarrow> Ret (next_enum_obj e (st_uuid ?s ta) oid f ?s)) = Ret (res, r, s')"
      by (auto simp: syscall_storage_next_enum_def Let_def)
    then show ?thesis using rd obj by (cases d) auto
  qed
qed

lemma obj_stepD: "obj_step u s s' \<Longrightarrow> en_ok s \<Longrightarrow> en_ok s' \<and> calls_own u s s'"
  using en_ok_cong [of s' s] by (simp add: obj_step_def)

lemma st_exec_ok:
  assumes ok: "st_ok s" "en_ok s" and env: "st_env_ok e s" and run: "st_exec e ta req s = Ret (res, s')"
  shows "st_ok s' \<and> en_ok s' \<and> calls_own (st_uuid s ta) s s'"
proof (cases req)
  case (StOpen sid oid flags)
  with run open_step [THEN obj_stepD, OF ok(2), of e ta sid oid flags] obj_open_ok [OF ok(1) env, of ta sid oid flags] show ?thesis
    by (auto split: prod.splits)
next
  case (StCreate sid oid flags attr data len)
  with run create_step [THEN obj_stepD, OF ok(2), of e ta sid oid flags attr data len] create_ok [OF ok(1) env, of ta sid oid flags attr data len]
  show ?thesis by (auto split: prod.splits)
next
  case (StDel obj)
  with run small_calls_step(1) [OF ok(1), THEN obj_stepD, OF ok(2), of e ta obj] del_ok [OF ok(1), of e ta obj] show ?thesis by auto
next
  case (StRename obj oid)
  with run rename_step [OF ok(1), THEN obj_stepD, OF ok(2), of e ta obj oid] rename_ok [OF ok(1) env, of ta obj oid] show ?thesis by auto
next
  case (StAlloc ty)
  with run small_calls_step(3) [OF ok(1), THEN obj_stepD, OF ok(2), of e ta ty] obj_alloc_ok [OF ok(1) env, of ta ty] show ?thesis
    by (auto split: prod.splits)
next
  case (StClose obj)
  with run small_calls_step(2) [OF ok(1), THEN obj_stepD, OF ok(2), of ta obj] cryp_close_ok [OF ok(1), of ta obj] show ?thesis by auto
next
  case (StRead obj len)
  with run data_step(1) [OF ok(1), THEN obj_stepD, OF ok(2), of e ta obj len] data_ok(1) [OF ok(1), of e ta obj len] show ?thesis
    by (auto split: prod.splits)
next
  case (StWrite obj len)
  with run data_step(2) [OF ok(1), THEN obj_stepD, OF ok(2), of e ta obj len] data_ok(2) [OF ok(1), of e ta obj len] show ?thesis by auto
next
  case (StTrunc obj len)
  with run data_step(3) [OF ok(1), THEN obj_stepD, OF ok(2), of e ta obj len] data_ok(3) [OF ok(1), of e ta obj len] show ?thesis by auto
next
  case (StSeek obj off wh)
  with run data_step(4) [OF ok(1), THEN obj_stepD, OF ok(2), of ta obj off wh] data_ok(4) [OF ok(1), of ta obj off wh] show ?thesis by auto
next
  case (StAllocEnum out)
  with run enum_calls_ok(1,2) [OF ok, of e ta out] enum_calls_calls(1) [of s ta e out] show ?thesis by (auto split: prod.splits)
next
  case (StFreeEnum en)
  with run enum_calls_ok(3,4) [OF ok, of ta en] enum_calls_calls(2) [of s ta en] show ?thesis by auto
next
  case (StResetEnum en)
  with run enum_calls_calls(3) [of ta en s] show ?thesis by (cases rule: reset_enum_ok [OF ok, of ta en]) auto
next
  case (StStartEnum en sid)
  with run enum_calls_calls(4) [of e ta en sid s] show ?thesis by (cases rule: start_enum_ok [OF ok, of e ta en sid]) auto
next
  case (StNextEnum en)
  with run next_enum_ok [OF ok] next_enum_calls show ?thesis by (auto split: prod.splits)
next
  case StEnd
  then have "s' = tee_svc_storage_close_all_enum ta (tee_obj_close_all ta s)" using run by simp
  moreover have "st_ok (tee_obj_close_all ta s)" using close_all_ok [OF ok(1)] by simp
  moreover note close_all_step [OF ok(1), THEN obj_stepD, OF ok(2), of ta]
  ultimately show ?thesis using close_all_enum_ok close_all_enum_calls by blast
qed

text \<open>
  Applications start with no handles; their requests come in any order. Loading an application gives its context
  a name.
\<close>

inductive st_reach :: "storage \<Rightarrow> bool" where
  st_start: "tee_pobjs s = [] \<Longrightarrow> st_objects s = (\<lambda>ta. []) \<Longrightarrow> storage_enums s = (\<lambda>ta. []) \<Longrightarrow> st_reach s"
| st_load: "st_reach s \<Longrightarrow> st_objects s ta = [] \<Longrightarrow> st_reach (s\<lparr>st_uuid := (st_uuid s)(ta := u)\<rparr>)"
| st_step: "st_reach s \<Longrightarrow> st_env_ok e s \<Longrightarrow> st_exec e ta req s = Ret (res, s') \<Longrightarrow> st_reach s'"

lemma st_reach_ok: "st_reach s \<Longrightarrow> st_ok s \<and> en_ok s"
proof (induction rule: st_reach.induct)
  case (st_start s)
  then show ?case by (simp add: st_ok_def st_inv_def obj_lists_ok_def keys_ok_def own_ok_def en_ok_def open_objs_def)
next
  case (st_load s ta u)
  let ?s = "s\<lparr>st_uuid := (st_uuid s)(ta := u)\<rparr>"
  have "st_inv None ?s" "keys_ok ?s" using st_load st_inv_cong [of ?s s] by (simp_all add: st_ok_def)
  moreover have "own_ok ?s" using st_load by (auto simp: own_ok_def st_ok_def)
  ultimately show ?case using st_load en_ok_cong [of ?s s] by (simp add: st_ok_def)
next
  case (st_step s e ta req res s')
  then show ?case using st_exec_ok by blast
qed

end
