(* ===== verification/Storage_Top.thy ===== *)
theory Storage_Top
  imports Storage_Calls
begin

unbundle bit_operations_syntax

text \<open>
  What the system calls for persistent objects guarantee, and where they fall short: exact reference
  counts, compatible access rights, isolation of applications, the panics that remain, and three behaviours that
  differ from what the code says it does.
\<close>

section \<open>An example\<close>

definition demo_storage :: storage where
  "demo_storage = \<lparr>tee_pobjs = [], po_heap = (\<lambda>_. \<lparr>po_refcnt = 0, po_uuid = [], po_obj_id = [], po_flags = 0, po_temporary = False, po_fops = ree_fs_ops\<rparr>),
     st_objects = (\<lambda>_. []), ob_heap = (\<lambda>_. new_obj 0 0), storage_enums = (\<lambda>_. []),
     en_heap = (\<lambda>_. \<lparr>en_dir = None, en_fops = None\<rparr>), st_uuid = (\<lambda>_. [7]), tee_svc_uref_base = 0, fs_log = []\<rparr>"

text \<open>A system call that goes well, with new memory at addresses \<open>p\<close> and \<open>o'\<close> and an empty file.\<close>

definition demo_st_env :: "addr \<Rightarrow> addr \<Rightarrow> st_env" where
  "demo_st_env p o' = \<lparr>sv_pobj = Some p, sv_malloc = True, sv_obj = Some o', sv_name_malloc = True, sv_name_null = False,
     sv_access = TEE_SUCCESS, sv_buffer = TEE_SUCCESS, sv_copy_out = TEE_SUCCESS, fs_open = Inr 24, fs_head = (TEE_SUCCESS, 24, 0),
     sv_set_type = TEE_SUCCESS, sv_attr_malloc = True, fs_attr = (TEE_SUCCESS, 0), sv_from_binary = TEE_SUCCESS, sv_attrs = (TEE_SUCCESS, 0),
     fs_create = TEE_SUCCESS, fs_remove = TEE_SUCCESS, fs_rename = TEE_SUCCESS, fs_read = (TEE_SUCCESS, 0), fs_write = TEE_SUCCESS,
     fs_truncate = TEE_SUCCESS, fs_opendir = Inl TEE_ERROR_ITEM_NOT_FOUND, fs_readdir = Inl TEE_ERROR_ITEM_NOT_FOUND\<rparr>"

definition demo_obj_open :: "addr \<Rightarrow> storage \<Rightarrow> storage" where
  "demo_obj_open o' s = snd (snd (syscall_storage_obj_open (demo_st_env 1 o') 0 1 [5] 0x11 s))"

definition demo_two :: storage where
  "demo_two = demo_obj_open 12 (demo_obj_open 11 demo_storage)"

lemmas demo_st_simps = demo_obj_open_def demo_storage_def demo_st_env_def syscall_storage_obj_open_def tee_svc_storage_file_ops_def
  TEE_OBJECT_ID_MAX_LEN_def tee_pobj_get_def tee_svc_storage_read_head_def read_attrs_def sizeof_head_def add_overflow_def
  tee_obj_add_def new_obj_def Let_def tee_pobj_check_access_def pobj_key_def file_of_def
  TEE_DATA_FLAG_ACCESS_READ_def TEE_DATA_FLAG_ACCESS_WRITE_def TEE_DATA_FLAG_ACCESS_WRITE_META_def TEE_DATA_FLAG_SHARE_READ_def
  TEE_DATA_FLAG_SHARE_WRITE_def

lemma demo_one:
  "st_objects (demo_obj_open 11 demo_storage) = (\<lambda>ta. if ta = 0 then [11] else [])" "tee_pobjs (demo_obj_open 11 demo_storage) = [1]"
  by (simp_all add: demo_st_simps fun_eq_iff)

lemma demo_two_objects:
  "st_objects demo_two = (\<lambda>ta. if ta = 0 then [11, 12] else [])" "tee_pobjs demo_two = [1]"
  by (simp_all add: demo_two_def demo_st_simps fun_eq_iff)

lemma demo_two_heap:
  "ob_heap demo_two 11 = (new_obj 0x11 1)\<lparr>ob_ds_pos := 24\<rparr>" "ob_heap demo_two 12 = (new_obj 0x11 1)\<lparr>ob_ds_pos := 24\<rparr>"
  by (simp_all add: demo_two_def demo_st_simps)

lemma st_env_okI:
  assumes "open_objs s \<subseteq> set l" "length l < 100" "p \<notin> set (tee_pobjs s) \<or> sv_pobj e \<noteq> Some p" "o' \<notin> set l"
    "sv_pobj e = Some p" "sv_obj e = Some o'"
  shows "st_env_ok e s"
proof -
  have "card (handles s q) \<le> card (set l)" for q by (rule card_mono) (use assms(1) in \<open>auto simp: handles_def\<close>)
  then have "card (handles s q) + 1 < 2 ^ 32" for q
    using assms(2) card_length [of l] order_trans [of "card (handles s q)" "card (set l)" "length l"] by (simp add: less_le_trans [of _ 101])
  then show ?thesis using assms by (auto simp: st_env_ok_def)
qed

lemma demo_start: "st_reach demo_storage" "st_env_ok (demo_st_env 1 11) demo_storage"
proof -
  show "st_reach demo_storage" by (rule st_start) (simp_all add: demo_storage_def)
  show "st_env_ok (demo_st_env 1 11) demo_storage"
    by (rule st_env_okI [of _ "[]" 1 _ 11]) (auto simp: open_objs_def demo_storage_def demo_st_env_def)
qed

lemma demo_exec: "st_exec (demo_st_env 1 11) 0 (StOpen 1 [5] 0x11) demo_storage = Ret (TEE_SUCCESS, demo_obj_open 11 demo_storage)"
  by (simp add: demo_st_simps)

lemma demo_two_reach: "st_reach demo_two"
proof -
  have one: "st_reach (demo_obj_open 11 demo_storage)" by (rule st_step [OF demo_start demo_exec])
  let ?e = "(demo_st_env 1 12)\<lparr>sv_pobj := Some 2\<rparr>"
  have "st_env_ok ?e (demo_obj_open 11 demo_storage)"
    by (rule st_env_okI [of _ "[11]" 2 _ 12]) (auto simp: open_objs_def demo_one demo_st_env_def split: if_splits)
  moreover have "st_exec ?e 0 (StOpen 1 [5] 0x11) (demo_obj_open 11 demo_storage) = Ret (TEE_SUCCESS, demo_two)"
    by (simp add: demo_two_def demo_st_simps)
  ultimately show ?thesis by (rule st_step [OF one])
qed

section \<open>Guarantees\<close>

text \<open>
  C8. Handles that are open at the same time on the same object, by whatever applications, agree on
  sharing: none has the right to change the object itself, and where one may read (write), both allow sharing for reading (writing).
\<close>

theorem storage_handles_compatible:
  assumes "st_reach s" and "o1 \<in> set (st_objects s t1)" and "o2 \<in> set (st_objects s t2)" and "o1 \<noteq> o2"
    and "is_persistent (ob_heap s o1)" and "is_persistent (ob_heap s o2)" and "file_of s o1 = file_of s o2"
  shows "let f1 = ob_flags (ob_heap s o1); f2 = ob_flags (ob_heap s o2) in
     f1 AND TEE_DATA_FLAG_ACCESS_WRITE_META = 0 \<and> f2 AND TEE_DATA_FLAG_ACCESS_WRITE_META = 0 \<and>
     (f1 AND TEE_DATA_FLAG_ACCESS_READ \<noteq> 0 \<or> f2 AND TEE_DATA_FLAG_ACCESS_READ \<noteq> 0 \<longrightarrow>
       f1 AND TEE_DATA_FLAG_SHARE_READ \<noteq> 0 \<and> f2 AND TEE_DATA_FLAG_SHARE_READ \<noteq> 0) \<and>
     (f1 AND TEE_DATA_FLAG_ACCESS_WRITE \<noteq> 0 \<or> f2 AND TEE_DATA_FLAG_ACCESS_WRITE \<noteq> 0 \<longrightarrow>
       f1 AND TEE_DATA_FLAG_SHARE_WRITE \<noteq> 0 \<and> f2 AND TEE_DATA_FLAG_SHARE_WRITE \<noteq> 0)"
proof -
  have l: "obj_lists_ok s" "\<And>p. p \<in> set (tee_pobjs s) \<Longrightarrow> ref_ok None s p" "keys_ok s"
    using st_reach_ok [OF assms(1)] by (auto simp: st_ok_def st_inv_def)
  have op: "o1 \<in> open_objs s" "o2 \<in> open_objs s" using assms(2,3) by (auto simp: open_objs_def)
  then obtain p q where pq: "ob_pobj (ob_heap s o1) = Some p" "p \<in> set (tee_pobjs s)" "ob_pobj (ob_heap s o2) = Some q" "q \<in> set (tee_pobjs s)"
    using l(1) assms(5,6) unfolding obj_lists_ok_def by metis
  have "p = q" using l(3) pq assms(7) by (auto simp: keys_ok_def file_of_def inj_on_def)
  then have "o1 \<in> handles s p" "o2 \<in> handles s p" using op pq assms(5,6) by (simp_all add: handles_def)
  then have "ok_flags (ob_flags (ob_heap s o1)) (ob_flags (ob_heap s o2))" using l(2) [OF pq(2)] assms(4) by (simp add: ref_ok_def)
  then show ?thesis by (auto simp: ok_flags_iff)
qed

theorem storage_handles_compatible_witness:
  "file_of demo_two 11 = file_of demo_two 12 \<and> ob_flags (ob_heap demo_two 11) = 0x11 \<and>
   (0x11 :: u32) AND TEE_DATA_FLAG_ACCESS_WRITE_META = 0 \<and> (0x11 :: u32) AND TEE_DATA_FLAG_SHARE_READ \<noteq> 0"
proof -
  have p: "is_persistent (ob_heap demo_two 11)" "is_persistent (ob_heap demo_two 12)"
    by (simp_all add: demo_two_heap new_obj_def is_persistent_def TEE_HANDLE_FLAG_PERSISTENT_def TEE_HANDLE_FLAG_INITIALIZED_def)
  have f: "file_of demo_two 11 = file_of demo_two 12" by (simp add: file_of_def demo_two_heap new_obj_def)
  have m: "11 \<in> set (st_objects demo_two 0)" "12 \<in> set (st_objects demo_two 0)" by (simp_all add: demo_two_objects)
  from storage_handles_compatible [OF demo_two_reach m _ p f] f show ?thesis
    by (simp add: demo_two_heap new_obj_def Let_def TEE_DATA_FLAG_ACCESS_READ_def)
qed

text \<open>
  C15. Reference counts are exact. In every reachable state an open object has as many references as
  there are handles for it, at least one, and no two open objects have the same file: no object is freed under a
  handle or stays open without one.
\<close>

theorem storage_refcounts_exact:
  assumes "st_reach s" and "p \<in> set (tee_pobjs s)"
  shows "unat (po_refcnt (po_heap s p)) = card (handles s p) \<and> handles s p \<noteq> {} \<and>
    inj_on (\<lambda>a. pobj_key (po_heap s a)) (set (tee_pobjs s))"
proof -
  have r: "ref_ok None s p" "keys_ok s" using st_reach_ok [OF assms(1)] assms(2) by (simp_all add: st_ok_def st_inv_def)
  then have c: "po_refcnt (po_heap s p) = of_nat (card (handles s p))" "0 < card (handles s p)" "card (handles s p) < 2 ^ 32"
    by (simp_all add: ref_ok_def pending_def)
  then have "unat (po_refcnt (po_heap s p)) = card (handles s p)" by (simp only: unat_of_nat) simp
  then show ?thesis using c(2) r(2) by (auto simp: keys_ok_def)
qed

theorem storage_refcounts_exact_witness:
  "unat (po_refcnt (po_heap demo_two 1)) = 2 \<and> card (handles demo_two 1) = 2"
proof -
  have "unat (po_refcnt (po_heap demo_two 1)) = 2" by (simp add: demo_two_def demo_st_simps)
  moreover from storage_refcounts_exact [OF demo_two_reach, of 1] have "unat (po_refcnt (po_heap demo_two 1)) = card (handles demo_two 1)"
    by (simp add: demo_two_objects)
  ultimately show ?thesis by simp
qed

text \<open>
  C7. Applications are isolated. Whatever a trusted application asks for, the calls of the file systems
  that follow are all for files of that application, and it opens directories only with its own name.
\<close>

theorem storage_isolation:
  assumes "st_reach s" and "st_env_ok e s" and "st_exec e ta req s = Ret (res, s')"
  shows "\<exists>l. fs_log s' = fs_log s @ l \<and> list_all (own_call (st_uuid s ta)) l"
  using st_exec_ok [OF _ _ assms(2,3)] st_reach_ok [OF assms(1)] by (auto simp: calls_own_def)

theorem storage_isolation_witness:
  "\<exists>l. fs_log (demo_obj_open 11 demo_storage) = l \<and> list_all (own_call [7]) l"
  using storage_isolation [OF demo_start demo_exec] by (simp add: demo_storage_def)

lemma panic_Ret_iff: "m = Panic \<longleftrightarrow> (\<forall>x. m \<noteq> Ret x)"
  by (cases m) auto

lemma next_enum_panic:
  "syscall_storage_next_enum e ta en s = Panic \<longleftrightarrow>
     (\<exists>a. tee_svc_storage_get_enum ta en s = Some a \<and> sv_access e = TEE_SUCCESS \<and> sv_buffer e = TEE_SUCCESS \<and>
       en_fops (en_heap s a) = Some ree_fs_ops \<and> en_dir (en_heap s a) = None)"
  by (auto simp: syscall_storage_next_enum_def readdir_def Let_def split: option.split fops.splits sum.splits)

text \<open>
  C16. Exactly one request can stop the core. The assertion at the end of resetting an enumerator holds in
  every reachable state and starting one never calls through a null pointer, but asking for the next object of an
  enumerator without a directory reads the directory of the REE file system through a null pointer. That state is
  reached when starting the enumerator fails, for instance for an application without objects.
\<close>

theorem storage_panics:
  assumes "st_reach s"
  shows "st_exec e ta req s = Panic \<longleftrightarrow>
    (\<exists>en a. req = StNextEnum en \<and> tee_svc_storage_get_enum ta en s = Some a \<and> sv_access e = TEE_SUCCESS \<and>
      sv_buffer e = TEE_SUCCESS \<and> en_fops (en_heap s a) = Some ree_fs_ops \<and> en_dir (en_heap s a) = None)"
proof -
  have ok: "st_ok s" "en_ok s" using st_reach_ok [OF assms] by simp_all
  show ?thesis
  proof (cases req)
    case (StResetEnum en)
    then show ?thesis by (cases rule: reset_enum_ok [OF ok, of ta en]) auto
  next
    case (StStartEnum en sid)
    then show ?thesis by (cases rule: start_enum_ok [OF ok, of e ta en sid]) auto
  next
    case (StNextEnum en)
    have "st_exec e ta req s = Panic \<longleftrightarrow> syscall_storage_next_enum e ta en s = Panic"
      unfolding StNextEnum by (cases "syscall_storage_next_enum e ta en s") auto
    then show ?thesis using next_enum_panic [of e ta en s] StNextEnum by auto
  qed (auto split: prod.split)
qed

definition demo_enum :: storage where
  "demo_enum = demo_storage\<lparr>storage_enums := (\<lambda>ta. [])(0 := [11]),
     en_heap := (en_heap demo_storage)(11 := \<lparr>en_dir = None, en_fops = Some ree_fs_ops\<rparr>),
     fs_log := [FsOpendir ree_fs_ops [7]]\<rparr>"

theorem storage_panics_witness:
  "(\<exists>s1. st_exec (demo_st_env 1 11) 0 (StAllocEnum True) demo_storage = Ret (TEE_SUCCESS, s1) \<and>
     st_exec (demo_st_env 1 11) 0 (StStartEnum 11 1) s1 = Ret (TEE_ERROR_ITEM_NOT_FOUND, demo_enum)) \<and>
   st_exec (demo_st_env 1 11) 0 (StNextEnum 11) demo_enum = Panic"
proof -
  let ?s1 = "demo_storage\<lparr>storage_enums := (\<lambda>ta. [])(0 := [11]),
     en_heap := (en_heap demo_storage)(11 := \<lparr>en_dir = None, en_fops = None\<rparr>)\<rparr>"
  have e: "st_env_ok (demo_st_env 1 11) ?s1" "open_objs ?s1 = open_objs demo_storage"
    by (rule st_env_okI [of _ "[]" 1 _ 11]) (auto simp: open_objs_def demo_storage_def demo_st_env_def)
  have a: "st_exec (demo_st_env 1 11) 0 (StAllocEnum True) demo_storage = Ret (TEE_SUCCESS, ?s1)"
    by (simp add: syscall_storage_alloc_enum_def demo_st_env_def demo_storage_def en_set_def Let_def)
  have b: "st_exec (demo_st_env 1 11) 0 (StStartEnum 11 1) ?s1 = Ret (TEE_ERROR_ITEM_NOT_FOUND, demo_enum)"
    by (simp add: syscall_storage_start_enum_def tee_svc_storage_get_enum_def tee_svc_uref_to_vaddr_def tee_svc_storage_file_ops_def
        demo_st_env_def demo_storage_def demo_enum_def en_set_def fs_do_def Let_def)
  have "st_reach demo_enum" by (rule st_step [OF st_step [OF demo_start a] e(1) b])
  from storage_panics [OF this, of "demo_st_env 1 11" 0 "StNextEnum 11"] a b show ?thesis
    by (simp add: tee_svc_storage_get_enum_def tee_svc_uref_to_vaddr_def demo_st_env_def demo_storage_def demo_enum_def)
qed

section \<open>Where the code falls short\<close>

lemma get_find:
  assumes "tee_pobj_get e u oid flags tmp f s = (TEE_SUCCESS, Some p, s')"
  shows "find (\<lambda>a. pobj_key (po_heap s' a) = (oid, u, f)) (rev (tee_pobjs s')) = Some p \<and> po_temporary (po_heap s' p) = tmp"
proof (cases "find (\<lambda>a. pobj_key (po_heap s a) = (oid, u, f)) (rev (tee_pobjs s))")
  case None
  with assms show ?thesis by (auto simp: tee_pobj_get_def pobj_key_def split: option.splits if_splits)
next
  case (Some a)
  with assms have s': "p = a" "s' = po_set a (\<lambda>x. x\<lparr>po_refcnt := po_refcnt x + 1\<rparr>) s" "po_temporary (po_heap s a) = tmp"
    by (auto simp: tee_pobj_get_def Let_def split: if_splits)
  have "pobj_key (po_heap s' b) = pobj_key (po_heap s b)" for b by (simp add: s' pobj_key_def)
  then show ?thesis using Some s' by simp
qed

lemma no_format_success [simp]: "no_format res = TEE_SUCCESS \<longleftrightarrow> res = TEE_SUCCESS"
  by (simp add: no_format_def)

lemma create_err_fails [simp]: "r \<noteq> TEE_SUCCESS \<Longrightarrow> create_err q b r s \<noteq> (TEE_SUCCESS, h, s')"
  by (simp add: create_err_def Let_def)

lemma created_file:
  assumes "create_file e ta flags len q o' s2 = (TEE_SUCCESS, h, s1)"
  shows "tee_pobjs s1 = tee_pobjs s2 \<and> po_heap s1 = po_heap s2 \<and> st_uuid s1 = st_uuid s2"
proof -
  obtain res x s3 where i: "tee_svc_storage_init_file e (ucast len) (pobj_key (po_heap s2 q)) (new_obj flags q) s2 = (res, x, s3)"
    by (metis surj_pair)
  then have "tee_pobjs s3 = tee_pobjs s2 \<and> po_heap s3 = po_heap s2 \<and> st_uuid s3 = st_uuid s2"
    by (auto simp: tee_svc_storage_init_file_def Let_def split: prod.splits if_splits)
  then show ?thesis using assms i by (auto simp: create_file_def tee_obj_add_def Let_def split: if_splits)
qed

lemma get_success: "tee_pobj_get e u oid flags tmp f s = (res, p, s') \<Longrightarrow> res = TEE_SUCCESS \<longleftrightarrow> p \<noteq> None"
  by (cases "find (\<lambda>a. pobj_key (po_heap s a) = (oid, u, f)) (rev (tee_pobjs s))"; cases "sv_pobj e")
    (auto simp: tee_pobj_get_def Let_def split: if_splits dest!: sym [of "Some _"])

lemma created:
  assumes run: "syscall_storage_obj_create e ta sid oid flags attr data len s = (TEE_SUCCESS, h, s1)"
  shows "\<exists>f q s2. tee_svc_storage_file_ops sid = Some f \<and> \<not> TEE_OBJECT_ID_MAX_LEN < length oid \<and>
    tee_pobj_get e (st_uuid s ta) oid flags True f s = (TEE_SUCCESS, Some q, s2) \<and>
    tee_pobjs s1 = tee_pobjs s2 \<and> po_heap s1 = po_heap s2 \<and> st_uuid s1 = st_uuid s2"
proof -
  have "tee_svc_storage_file_ops sid \<noteq> None" using run by (cases "tee_svc_storage_file_ops sid") (simp_all add: syscall_storage_obj_create_def)
  then obtain f where f1: "tee_svc_storage_file_ops sid = Some f" by auto
  have f2: "\<not> TEE_OBJECT_ID_MAX_LEN < length oid"
  proof
    assume "TEE_OBJECT_ID_MAX_LEN < length oid"
    then show False using run f1 by (simp add: syscall_storage_obj_create_def)
  qed
  have f3: "sv_access e = TEE_SUCCESS"
  proof (rule ccontr)
    assume "sv_access e \<noteq> TEE_SUCCESS"
    then show False using run f1 f2 by (simp add: syscall_storage_obj_create_def)
  qed
  note f = f1 f2 f3
  obtain res p s2 where g: "tee_pobj_get e (st_uuid s ta) oid flags True f s = (res, p, s2)" by (metis surj_pair)
  note gs = get_success [OF g]
  have "p \<noteq> None"
  proof
    assume "p = None"
    then show False using run f g gs by (simp add: syscall_storage_obj_create_def)
  qed
  then obtain q where q: "p = Some q" by auto
  let ?buf = "if len = 0 then TEE_SUCCESS else if data then sv_buffer e else TEE_ERROR_BAD_PARAMETERS"
  have run': "(if ?buf \<noteq> TEE_SUCCESS then create_err q False ?buf s2
      else case sv_obj e of None \<Rightarrow> create_err q False TEE_ERROR_OUT_OF_MEMORY s2
        | Some o' \<Rightarrow> if (case attr of None \<Rightarrow> False | Some a \<Rightarrow> tee_obj_get ta a s2 = None)
            then create_err q True TEE_ERROR_BAD_PARAMETERS s2 else create_file e ta flags len q o' s2) = (TEE_SUCCESS, h, s1)"
    using run f g q unfolding syscall_storage_obj_create_def Let_def by simp
  have "?buf = TEE_SUCCESS"
  proof (rule ccontr)
    assume "?buf \<noteq> TEE_SUCCESS"
    then show False using run' create_err_fails [of ?buf q False s2 h s1] by (simp only: if_True simp_thms)
  qed
  with run' obtain o' where "create_file e ta flags len q o' s2 = (TEE_SUCCESS, h, s1)"
    by (cases "sv_obj e"; cases "case attr of None \<Rightarrow> False | Some a \<Rightarrow> tee_obj_get ta a s2 = None") simp_all
  from created_file [OF this] show ?thesis using f g q gs by auto
qed



text \<open>
  C40. The data position of a handle wraps. The check before a write adds the position and the length as 64-bit
  numbers, but the position has 32 bits: a write over the limit succeeds, and the handle continues from the
  sum modulo \<open>2 ^ 32\<close>, at the beginning of the data.
\<close>

theorem storage_position_wraps:
  assumes "data_handle ta obj TEE_DATA_FLAG_ACCESS_WRITE s = Inr o'" and "sv_buffer e = TEE_SUCCESS" and "fs_write e = TEE_SUCCESS"
    and "unat (ob_dataPosition (ob_heap s o')) + unat len < 2 ^ 64"
    and "unat (ob_ds_pos (ob_heap s o')) + unat (ob_dataPosition (ob_heap s o')) < 2 ^ 64"
  shows "\<exists>s'. syscall_storage_obj_write e ta obj len s = (TEE_SUCCESS, s') \<and>
    unat (ob_dataPosition (ob_heap s' o')) = (unat (ob_dataPosition (ob_heap s o')) + unat len) mod 2 ^ 32"
proof -
  let ?pos = "ob_dataPosition (ob_heap s o')"
  have u: "unat (ucast ?pos :: size_t) = unat ?pos" using unat_lt2p [of ?pos] by (intro unat_ucast_no_trunc) simp
  have ov: "\<not> fst (add_overflow (ucast ?pos) len)" "\<not> fst (add_overflow (ob_ds_pos (ob_heap s o')) (ucast ?pos))"
    using assms(4,5) u by (simp_all add: add_overflow_def)
  have "unat (ucast ?pos + len :: size_t) = unat ?pos + unat len" using assms(4) u by (subst unat_add_no_wrap) simp_all
  then have "unat (ucast (ucast ?pos + len :: size_t) :: u32) = (unat ?pos + unat len) mod 2 ^ 32" by (simp add: unat_ucast_mod)
  then show ?thesis using assms(1-3) ov by (simp add: syscall_storage_obj_write_def Let_def)
qed

definition demo_high :: storage where
  "demo_high = demo_storage\<lparr>st_objects := (\<lambda>ta. [11]), ob_heap := (\<lambda>a. (new_obj 0x22 1)\<lparr>ob_dataPosition := 0xFFFFFFF0\<rparr>)\<rparr>"

theorem storage_position_wraps_witness:
  "\<exists>s'. syscall_storage_obj_write (demo_st_env 1 12) 0 11 0x20 demo_high = (TEE_SUCCESS, s') \<and>
    unat (ob_dataPosition (ob_heap s' 11)) = 0x10"
proof -
  have "data_handle 0 11 TEE_DATA_FLAG_ACCESS_WRITE demo_high = Inr 11"
    by (simp add: data_handle_def tee_obj_get_def tee_svc_uref_to_vaddr_def demo_high_def demo_storage_def new_obj_def is_persistent_def
        TEE_HANDLE_FLAG_PERSISTENT_def TEE_HANDLE_FLAG_INITIALIZED_def TEE_DATA_FLAG_ACCESS_WRITE_def Let_def)
  from storage_position_wraps [OF this, of "demo_st_env 1 12" "0x20"] show ?thesis
    by (simp add: demo_st_env_def demo_high_def new_obj_def)
qed

text \<open>
  The address of a handle comes back from its 32-bit reference exactly if it is below 4 GiB, as
  \<^verbatim>\<open>tee_obj_get\<close> takes the address itself as a 32-bit number.
\<close>

lemma tee_obj_get_uref:
  assumes "o' \<in> set (st_objects s ta)" and "tee_svc_uref_base s \<le> o'" and "o' - tee_svc_uref_base s < 2 ^ 32"
  shows "tee_obj_get ta (tee_svc_kaddr_to_uref s o') s = Some o' \<longleftrightarrow> o' < 2 ^ 32"
proof -
  define d where "d = o' - tee_svc_uref_base s"
  then have "o' = tee_svc_uref_base s + d" "d < 2 ^ 32" using assms(2,3) by simp_all
  then have v: "tee_svc_uref_to_vaddr s (tee_svc_kaddr_to_uref s o') = o'"
    by (simp add: tee_svc_uref_to_vaddr_def tee_svc_kaddr_to_uref_def unat_of_nat)
  have "find (\<lambda>x. k = x) l = (if k \<in> set l then Some k else None)" for k :: nat and l by (induction l) auto
  moreover have "take_bit 32 o' = o' \<longleftrightarrow> o' < 2 ^ 32" by (rule take_bit_nat_eq_self_iff)
  ultimately show ?thesis using assms(1) by (cases "o' < 2 ^ 32") (auto simp: tee_obj_get_def v Let_def)
qed

text \<open>
  Renaming an object renames its file first. When there is then no memory for the new name, the call fails, but the
  file has the new name while the handle keeps the old one.
\<close>

lemma rename_keeps_old_name:
  assumes "st_reach s" and "st_env_ok e s" and "tee_obj_get ta obj s = Some o'" and "length oid \<le> TEE_OBJECT_ID_MAX_LEN"
    and x: "is_persistent (ob_heap s o')" "ob_flags (ob_heap s o') AND TEE_DATA_FLAG_ACCESS_WRITE_META \<noteq> 0" "ob_pobj (ob_heap s o') = Some p"
    and "sv_access e = TEE_SUCCESS" and "fs_rename e = TEE_SUCCESS" and "\<not> sv_name_null e" and "\<not> sv_name_malloc e"
    and one: "po_refcnt (po_heap s p) = 1"
    and get: "tee_pobj_get e (st_uuid s ta) oid TEE_DATA_FLAG_ACCESS_WRITE_META False (po_fops (po_heap s p)) s = (TEE_SUCCESS, Some q, s1)"
  shows "\<exists>s'. syscall_storage_obj_rename e ta obj oid s = (TEE_ERROR_OUT_OF_MEMORY, s') \<and>
    fs_log s' = fs_log s @ [FsRename (file_of s o') (oid, st_uuid s ta, po_fops (po_heap s p))] \<and> file_of s' o' = file_of s o'"
proof -
  have ok: "st_ok s" "st_inv None s" using st_reach_ok [OF assms(1)] by (simp_all add: st_ok_def)
  have "o' \<in> open_objs s" using obj_get_Some [OF assms(3)] by (auto simp: open_objs_def)
  then have listed: "p \<in> set (tee_pobjs s)" using ok(2) x(1,3) by (fastforce simp: st_inv_def obj_lists_ok_def)
  from ok(2) assms(2) show ?thesis
  proof (cases rule: get_cases [where uuid = "st_uuid s ta" and oid = oid and flags = TEE_DATA_FLAG_ACCESS_WRITE_META
        and tmp = False and fops = "po_fops (po_heap s p)"])
    case (fail res)
    then show ?thesis using get by simp
  next
    case (got q' s1')
    have s1: "q' = q" "s1' = s1" using got(1) get by simp_all
    have "q \<noteq> p" using got(10) listed by (auto simp: s1 TEE_DATA_FLAG_ACCESS_WRITE_META_def)
    then have same: "po_heap s1 p = po_heap s p" using got(12) [OF listed] by (simp add: s1)
    have log: "fs_log s1 = fs_log s" using get by (auto simp: tee_pobj_get_def Let_def split: option.splits if_splits)
    have key: "pobj_key (po_heap s1 q) = (oid, st_uuid s ta, po_fops (po_heap s p))" using got(8) by (simp add: s1)
    let ?s2 = "fs_do (FsRename (pobj_key (po_heap s1 p)) (pobj_key (po_heap s1 q))) s1"
    have run: "syscall_storage_obj_rename e ta obj oid s = (TEE_ERROR_OUT_OF_MEMORY, snd (tee_pobj_release (Some q) ?s2))"
      using assms(3,4,8-11) x one get same
      by (simp add: syscall_storage_obj_rename_def rename_file_def tee_pobj_rename_def Let_def)
    have "po_heap (snd (tee_pobj_release (Some q) ?s2)) p = po_heap s p"
      using \<open>q \<noteq> p\<close> same by (simp add: tee_pobj_release_def Let_def)
    then show ?thesis using run log key same x(3) got(4) by (simp add: file_of_def s1)
  qed
qed

end
