(* ===== verification/Tee_Mm.thy ===== *)
theory Tee_Mm
  imports Prelude
begin

text \<open>
  The memory pool allocator of \<^verbatim>\<open>core/arch/arm/mm/tee_mm.c\<close>. A pool is a linked list of
  entries behind a sentinel, kept in address order: upwards, or downwards for pools with
  \<^verbatim>\<open>TEE_MM_POOL_HI_ALLOC\<close>. All arithmetic is on machine words, with the widths the C
  expressions have on AArch64. The theorems show that live entries never overlap and lie in
  the pool, that an allocation is large enough, when allocation fails, and what freeing and
  looking up do; two limits of the code's narrow arithmetic are proved as well.
\<close>

unbundle bit_operations_syntax

section \<open>State\<close>

definition TEE_MM_POOL_HI_ALLOC :: u32 where "TEE_MM_POOL_HI_ALLOC = 1"

text \<open>An entry: its address (what \<^verbatim>\<open>pmalloc\<close> returned), offset and size in blocks.\<close>

record tee_mm_entry =
  me_addr :: addr
  me_offset :: u32
  me_size :: u32

text \<open>
  A pool. \<open>mm_entries\<close> is the chain from \<^verbatim>\<open>pool->entry\<close> on: empty for a NULL pointer, else
  the sentinel followed by the allocated entries.
\<close>

record tee_mm_pool =
  mm_entries :: "tee_mm_entry list"
  mm_lo :: paddr_t
  mm_hi :: paddr_t
  mm_flags :: u32
  mm_shift :: u8
  mm_max_allocated :: size_t

abbreviation mm_sh :: "tee_mm_pool \<Rightarrow> nat" where
  "mm_sh p \<equiv> unat (mm_shift p)"

definition mm_hi_alloc :: "tee_mm_pool \<Rightarrow> bool" where
  "mm_hi_alloc p \<longleftrightarrow> mm_flags p AND TEE_MM_POOL_HI_ALLOC \<noteq> 0"

section \<open>Operations\<close>

definition ROUNDUP :: "paddr_t \<Rightarrow> paddr_t \<Rightarrow> paddr_t" where
  "ROUNDUP v nbytes = (v + (nbytes - 1)) AND NOT (nbytes - 1)"

definition ROUNDDOWN :: "paddr_t \<Rightarrow> paddr_t \<Rightarrow> paddr_t" where
  "ROUNDDOWN v nbytes = v AND NOT (nbytes - 1)"

text \<open>
  \<^verbatim>\<open>tee_mm_init\<close>: \<open>sentinel\<close> is what \<^verbatim>\<open>pcalloc\<close> returned. The pool keeps a stale
  \<^verbatim>\<open>max_allocated\<close> as in the code.
\<close>

definition tee_mm_init :: "tee_mm_pool option \<Rightarrow> paddr_t \<Rightarrow> paddr_t \<Rightarrow> u8 \<Rightarrow> u32 \<Rightarrow> addr option \<Rightarrow>
    (tee_mm_pool option \<times> bool) outcome" where
  "tee_mm_init pool lo0 hi0 shift flags sentinel =
     (case pool of
        None \<Rightarrow> Ret (None, False)
      | Some p \<Rightarrow>
          let lo = ROUNDUP lo0 (push_bit (unat shift) 1);
              hi = ROUNDDOWN hi0 (push_bit (unat shift) 1)
          in if \<not> (drop_bit (unat shift) (hi - lo) < 0xFFFFFFFF) then Panic
             else
               let p' = p\<lparr>mm_lo := lo, mm_hi := hi, mm_shift := shift, mm_flags := flags\<rparr> in
               case sentinel of
                 None \<Rightarrow> Ret (Some (p'\<lparr>mm_entries := []\<rparr>), False)
               | Some a \<Rightarrow>
                   let off = (if flags AND TEE_MM_POOL_HI_ALLOC \<noteq> 0
                              then ucast (drop_bit (unat shift) (hi - lo - 1) + 1) else 0)
                   in Ret (Some (p'\<lparr>mm_entries := [\<lparr>me_addr = a, me_offset = off, me_size = 0\<rparr>]\<rparr>), True))"

definition tee_mm_stats_allocated :: "tee_mm_pool option \<Rightarrow> size_t" where
  "tee_mm_stats_allocated pool =
     (case pool of
        None \<Rightarrow> 0
      | Some p \<Rightarrow> ucast (push_bit (mm_sh p) (sum_list (map me_size (mm_entries p)))))"

definition update_max_allocated :: "tee_mm_pool \<Rightarrow> tee_mm_pool" where
  "update_max_allocated p =
     (let sz = tee_mm_stats_allocated (Some p) in
      if sz > mm_max_allocated p then p\<lparr>mm_max_allocated := sz\<rparr> else p)"

record malloc_stats =
  st_size :: size_t
  st_max_allocated :: size_t
  st_allocated :: size_t

definition tee_mm_get_pool_stats ::
    "tee_mm_pool option \<Rightarrow> malloc_stats \<Rightarrow> bool \<Rightarrow> tee_mm_pool option \<times> malloc_stats" where
  "tee_mm_get_pool_stats pool stats reset =
     (case pool of
        None \<Rightarrow> (None, stats)
      | Some p \<Rightarrow>
          (Some (if reset then p\<lparr>mm_max_allocated := 0\<rparr> else p),
           \<lparr>st_size = mm_hi p - mm_lo p, st_max_allocated = mm_max_allocated p,
            st_allocated = tee_mm_stats_allocated pool\<rparr>))"

text \<open>
  The searches for a free slot: the number of \<^verbatim>\<open>entry = entry->next\<close> steps taken from the
  sentinel.
\<close>

fun mm_find_slot_hi :: "size_t \<Rightarrow> tee_mm_entry list \<Rightarrow> nat" where
  "mm_find_slot_hi psize (e # n # es) =
     (if psize > ucast (me_offset e - me_offset n - me_size n)
      then Suc (mm_find_slot_hi psize (n # es)) else 0)"
| "mm_find_slot_hi psize _ = 0"

fun mm_find_slot_lo :: "size_t \<Rightarrow> tee_mm_entry list \<Rightarrow> nat" where
  "mm_find_slot_lo psize (e # n # es) =
     (if psize > ucast (me_offset n - me_size e - me_offset e)
      then Suc (mm_find_slot_lo psize (n # es)) else 0)"
| "mm_find_slot_lo psize _ = 0"

text \<open>
  The check made when the search stopped at the last entry. \<^verbatim>\<open>offset << shift\<close> is computed
  in 32 bits. \<open>None\<close> is the panic on an invalid pool.
\<close>

definition mm_last_has_room :: "tee_mm_pool \<Rightarrow> tee_mm_entry \<Rightarrow> size_t \<Rightarrow> bool option" where
  "mm_last_has_room p e nbytes =
     (if mm_hi_alloc p then Some (\<not> ucast (push_bit (mm_sh p) (me_offset e)) < nbytes)
      else if mm_hi p \<le> mm_lo p then None
      else let remaining = mm_hi p - mm_lo p - ucast (push_bit (mm_sh p) (me_offset e + me_size e))
           in Some (\<not> remaining < nbytes))"

definition tee_mm_add :: "tee_mm_pool \<Rightarrow> nat \<Rightarrow> tee_mm_entry \<Rightarrow> tee_mm_pool" where
  "tee_mm_add p i nn = p\<lparr>mm_entries := insert_after i nn (mm_entries p)\<rparr>"

definition mm_psize :: "tee_mm_pool \<Rightarrow> size_t \<Rightarrow> size_t" where
  "mm_psize p nbytes = (if nbytes = 0 then 0 else drop_bit (mm_sh p) (nbytes - 1) + 1)"

text \<open>\<^verbatim>\<open>tee_mm_alloc\<close>; \<open>nn\<close> is the result of \<^verbatim>\<open>pmalloc\<close> for the new entry.\<close>

definition tee_mm_alloc :: "tee_mm_pool option \<Rightarrow> size_t \<Rightarrow> addr option \<Rightarrow>
    (tee_mm_pool option \<times> tee_mm_entry option) outcome" where
  "tee_mm_alloc pool nbytes nn =
     (case (pool, nn) of
        (Some p, Some a) \<Rightarrow>
          if mm_entries p = [] then Ret (pool, None)
          else
            let psize = mm_psize p nbytes;
                i = (if mm_hi_alloc p then mm_find_slot_hi psize (mm_entries p)
                     else mm_find_slot_lo psize (mm_entries p));
                e = mm_entries p ! i;
                e' = \<lparr>me_addr = a,
                      me_offset = (if mm_hi_alloc p then ucast (ucast (me_offset e) - psize)
                                   else me_offset e + me_size e),
                      me_size = ucast psize\<rparr>
            in case (if Suc i = length (mm_entries p) then mm_last_has_room p e nbytes else Some True) of
                 None \<Rightarrow> Panic
               | Some False \<Rightarrow> Ret (pool, None)
               | Some True \<Rightarrow> Ret (Some (update_max_allocated (tee_mm_add p i e')), Some e')
      | _ \<Rightarrow> Ret (pool, None))"

text \<open>\<open>nx\<close> is \<^verbatim>\<open>e->next\<close>.\<close>

definition fit_in_gap ::
    "tee_mm_pool \<Rightarrow> tee_mm_entry \<Rightarrow> tee_mm_entry option \<Rightarrow> paddr_t \<Rightarrow> paddr_t \<Rightarrow> bool" where
  "fit_in_gap p e nx offslo offshi =
     (if mm_hi_alloc p
      then \<not> (offshi > ucast (me_offset e) \<or>
              (case nx of None \<Rightarrow> False | Some n \<Rightarrow> offslo < ucast (me_offset n + me_size n)) \<or>
              push_bit (mm_sh p) offshi - 1 > mm_hi p - mm_lo p)
      else \<not> (offslo < ucast (me_offset e + me_size e) \<or>
              (case nx of None \<Rightarrow> False | Some n \<Rightarrow> offshi > ucast (me_offset n)) \<or>
              push_bit (mm_sh p) offshi > mm_hi p - mm_lo p))"

fun mm_find_addr_hi :: "paddr_t \<Rightarrow> tee_mm_entry list \<Rightarrow> nat" where
  "mm_find_addr_hi offshi (e # n # es) =
     (if offshi < ucast (me_offset n + me_size n) then Suc (mm_find_addr_hi offshi (n # es)) else 0)"
| "mm_find_addr_hi offshi _ = 0"

fun mm_find_addr_lo :: "paddr_t \<Rightarrow> tee_mm_entry list \<Rightarrow> nat" where
  "mm_find_addr_lo offslo (e # n # es) =
     (if offslo > ucast (me_offset n) then Suc (mm_find_addr_lo offslo (n # es)) else 0)"
| "mm_find_addr_lo offslo _ = 0"

definition tee_mm_alloc2 :: "tee_mm_pool option \<Rightarrow> paddr_t \<Rightarrow> size_t \<Rightarrow> addr option \<Rightarrow>
    tee_mm_pool option \<times> tee_mm_entry option" where
  "tee_mm_alloc2 pool base nbytes mm =
     (case pool of
        None \<Rightarrow> (None, None)
      | Some p \<Rightarrow>
          if mm_entries p = [] then (pool, None)
          else if base + nbytes < base \<or> base < mm_lo p then (pool, None)
          else case mm of
            None \<Rightarrow> (pool, None)
          | Some a \<Rightarrow>
              let offslo = drop_bit (mm_sh p) (base - mm_lo p);
                  offshi = drop_bit (mm_sh p) (base - mm_lo p + nbytes - 1) + 1;
                  i = (if mm_hi_alloc p then mm_find_addr_hi offshi (mm_entries p)
                       else mm_find_addr_lo offslo (mm_entries p));
                  nx = (if Suc i < length (mm_entries p) then Some (mm_entries p ! Suc i) else None);
                  e' = \<lparr>me_addr = a, me_offset = ucast offslo, me_size = ucast (offshi - offslo)\<rparr>
              in if \<not> fit_in_gap p (mm_entries p ! i) nx offslo offshi then (pool, None)
                 else (Some (update_max_allocated (tee_mm_add p i e')), Some e'))"

text \<open>Unlinking behind the sentinel; \<open>None\<close> when the entry is not in the chain.\<close>

fun mm_unlink :: "tee_mm_entry list \<Rightarrow> addr \<Rightarrow> tee_mm_entry list option" where
  "mm_unlink (e # n # es) p =
     (if me_addr n = p then Some (e # es) else map_option ((#) e) (mm_unlink (n # es) p))"
| "mm_unlink _ p = None"

text \<open>\<^verbatim>\<open>tee_mm_free\<close>: \<open>pool\<close> is \<^verbatim>\<open>p->pool\<close>.\<close>

definition tee_mm_free :: "tee_mm_pool option \<Rightarrow> addr option \<Rightarrow> tee_mm_pool option outcome" where
  "tee_mm_free pool p =
     (case (pool, p) of
        (Some pl, Some a) \<Rightarrow>
          (case mm_unlink (mm_entries pl) a of
             None \<Rightarrow> Panic
           | Some es \<Rightarrow> Ret (Some (pl\<lparr>mm_entries := es\<rparr>)))
      | _ \<Rightarrow> Ret pool)"

lemma mm_unlink_length: "mm_unlink es p = Some es' \<Longrightarrow> length es = Suc (length es')"
  by (induction es p arbitrary: es' rule: mm_unlink.induct) (auto split: if_splits)

text \<open>\<^verbatim>\<open>tee_mm_final\<close> frees the entry behind the sentinel until there is none.\<close>

function mm_final_loop :: "tee_mm_pool \<Rightarrow> tee_mm_pool outcome" where
  "mm_final_loop p =
     (case mm_entries p of
        e # n # es \<Rightarrow>
          (case tee_mm_free (Some p) (Some (me_addr n)) of
             Ret (Some p') \<Rightarrow> mm_final_loop p'
           | _ \<Rightarrow> Panic)
      | _ \<Rightarrow> Ret p)"
  by pat_completeness auto
termination
  by (relation "measure (\<lambda>p. length (mm_entries p))")
    (auto simp: tee_mm_free_def dest!: mm_unlink_length split: option.splits)

definition tee_mm_final :: "tee_mm_pool option \<Rightarrow> tee_mm_pool option outcome" where
  "tee_mm_final pool =
     (case pool of
        None \<Rightarrow> Ret None
      | Some p \<Rightarrow>
          if mm_entries p = [] then Ret pool
          else case mm_final_loop p of
                 Panic \<Rightarrow> Panic
               | Ret p' \<Rightarrow> Ret (Some (p'\<lparr>mm_entries := []\<rparr>)))"

definition tee_mm_get_bytes :: "tee_mm_pool option \<Rightarrow> tee_mm_entry option \<Rightarrow> size_t" where
  "tee_mm_get_bytes pool mm =
     (case (pool, mm) of
        (Some p, Some e) \<Rightarrow> ucast (push_bit (mm_sh p) (me_size e))
      | _ \<Rightarrow> 0)"

definition tee_mm_addr_is_within_range :: "tee_mm_pool option \<Rightarrow> paddr_t \<Rightarrow> bool" where
  "tee_mm_addr_is_within_range pool a =
     (case pool of None \<Rightarrow> False | Some p \<Rightarrow> a \<ge> mm_lo p \<and> a \<le> mm_hi p)"

definition tee_mm_is_empty :: "tee_mm_pool option \<Rightarrow> bool" where
  "tee_mm_is_empty pool =
     (case pool of None \<Rightarrow> True | Some p \<Rightarrow> mm_entries p = [] \<or> tl (mm_entries p) = [])"

text \<open>\<^verbatim>\<open>tee_mm_find\<close> keeps the block offset of the address in a \<^verbatim>\<open>uint16_t\<close>.\<close>

fun mm_find_loop :: "u16 \<Rightarrow> tee_mm_entry list \<Rightarrow> tee_mm_entry option" where
  "mm_find_loop offset [] = None"
| "mm_find_loop offset (e # es) =
     (if ucast offset \<ge> me_offset e \<and> ucast offset < me_offset e + me_size e then Some e
      else mm_find_loop offset es)"

definition tee_mm_find :: "tee_mm_pool \<Rightarrow> paddr_t \<Rightarrow> tee_mm_entry option" where
  "tee_mm_find p a =
     (let offset = ucast (drop_bit (mm_sh p) (a - mm_lo p)) :: u16 in
      if a > mm_hi p \<or> a < mm_lo p then None else mm_find_loop offset (tl (mm_entries p)))"

definition tee_mm_get_smem :: "tee_mm_pool \<Rightarrow> tee_mm_entry \<Rightarrow> paddr_t" where
  "tee_mm_get_smem p e = ucast (push_bit (mm_sh p) (me_offset e)) + mm_lo p"

declare mm_final_loop.simps [simp del]

section \<open>Invariant\<close>

abbreviation me_off :: "tee_mm_entry \<Rightarrow> nat" where
  "me_off e \<equiv> unat (me_offset e)"

abbreviation me_end :: "tee_mm_entry \<Rightarrow> nat" where
  "me_end e \<equiv> unat (me_offset e) + unat (me_size e)"

text \<open>Entries in address order: upwards from \<open>lb\<close> to at most \<open>B\<close>, downwards from \<open>ub\<close>.\<close>

fun lo_chain :: "nat \<Rightarrow> nat \<Rightarrow> tee_mm_entry list \<Rightarrow> bool" where
  "lo_chain B lb [] \<longleftrightarrow> lb \<le> B"
| "lo_chain B lb (e # es) \<longleftrightarrow> lb \<le> me_off e \<and> lo_chain B (me_end e) es"

fun hi_chain :: "nat \<Rightarrow> tee_mm_entry list \<Rightarrow> bool" where
  "hi_chain ub [] \<longleftrightarrow> True"
| "hi_chain ub (e # es) \<longleftrightarrow> me_end e \<le> ub \<and> hi_chain (me_off e) es"

text \<open>The free blocks behind each entry, in the pool's direction of growth.\<close>

fun lo_gaps :: "nat \<Rightarrow> tee_mm_entry list \<Rightarrow> nat list" where
  "lo_gaps B (e # n # es) = (me_off n - me_end e) # lo_gaps B (n # es)"
| "lo_gaps B [e] = [B - me_end e]"
| "lo_gaps B [] = []"

fun hi_gaps :: "tee_mm_entry list \<Rightarrow> nat list" where
  "hi_gaps (e # n # es) = (me_off e - me_end n) # hi_gaps (n # es)"
| "hi_gaps [e] = [me_off e]"
| "hi_gaps [] = []"

text \<open>The pool's size in bytes and in blocks.\<close>

definition mm_bytes :: "tee_mm_pool \<Rightarrow> nat" where
  "mm_bytes p = unat (mm_hi p) - unat (mm_lo p)"

definition mm_blocks :: "tee_mm_pool \<Rightarrow> nat" where
  "mm_blocks p = mm_bytes p div 2 ^ mm_sh p"

text \<open>
  A pool of whole blocks, smaller than 4 GiB, whose chain starts with an empty sentinel at
  the end the pool grows from.
\<close>

definition mm_geom :: "tee_mm_pool \<Rightarrow> bool" where
  "mm_geom p \<longleftrightarrow> unat (mm_lo p) < unat (mm_hi p) \<and> mm_bytes p < 2 ^ 32 \<and> mm_sh p < 32 \<and>
     mm_bytes p = mm_blocks p * 2 ^ mm_sh p"

definition mm_inv :: "tee_mm_pool \<Rightarrow> bool" where
  "mm_inv p \<longleftrightarrow> mm_geom p \<and> mm_entries p \<noteq> [] \<and> me_size (hd (mm_entries p)) = 0 \<and>
     distinct (map me_addr (mm_entries p)) \<and>
     (if mm_hi_alloc p then me_off (hd (mm_entries p)) = mm_blocks p \<and> hi_chain (mm_blocks p) (mm_entries p)
      else me_offset (hd (mm_entries p)) = 0 \<and> lo_chain (mm_blocks p) 0 (mm_entries p))"

definition mm_gaps :: "tee_mm_pool \<Rightarrow> nat list" where
  "mm_gaps p = (if mm_hi_alloc p then hi_gaps (mm_entries p) else lo_gaps (mm_blocks p) (mm_entries p))"

section \<open>Lemmas\<close>

lemma lo_chain_le: "lo_chain B lb es \<Longrightarrow> lb \<le> B"
  by (induction B lb es rule: lo_chain.induct) auto

lemma lo_chain_bounds: "lo_chain B lb es \<Longrightarrow> e \<in> set es \<Longrightarrow> lb \<le> me_off e \<and> me_end e \<le> B"
proof (induction es arbitrary: lb)
  case (Cons x es)
  then show ?case
    by (cases "e = x") (fastforce dest: lo_chain_le)+
qed simp

lemma hi_chain_bounds: "hi_chain ub es \<Longrightarrow> e \<in> set es \<Longrightarrow> me_end e \<le> ub"
  by (induction ub es rule: hi_chain.induct) auto

lemma mm_psize_le: "unat (mm_psize p n) \<le> k \<longleftrightarrow> unat n \<le> k * 2 ^ mm_sh p"
proof (cases "n = 0")
  case True
  then show ?thesis by (simp add: mm_psize_def)
next
  case False
  then have pos: "0 < unat n" by (simp add: unat_gt_0)
  have n1: "unat (n - 1) = unat n - 1" using pos by (simp add: unat_sub_no_wrap)
  have "(unat n - 1) div 2 ^ mm_sh p < 2 ^ 64 - 1"
    using unat_lt2p [of n] pos by (intro le_less_trans [OF div_le_dividend]) auto
  then have "unat (drop_bit (mm_sh p) (n - 1) + 1) = (unat n - 1) div 2 ^ mm_sh p + 1"
    using pos by (subst unat_add_no_wrap) (simp_all add: unat_drop_bit_div n1)
  then have "unat (mm_psize p n) \<le> k \<longleftrightarrow> (unat n - 1) div 2 ^ mm_sh p < k"
    using False by (simp add: mm_psize_def Suc_le_eq)
  also have "\<dots> \<longleftrightarrow> unat n - 1 < k * 2 ^ mm_sh p"
    by (simp add: div_less_iff_less_mult)
  finally show ?thesis using pos by linarith
qed

lemma ucast_u32_u64 [simp]: "unat (ucast (w :: u32) :: u64) = unat w"
  using unat_lt2p [of w] by (simp add: unat_ucast_no_trunc)

text \<open>The search stops at the first gap that is large enough, or at the last entry.\<close>

lemma mm_find_slot_lo_props:
  fixes ps :: size_t
  assumes "lo_chain B lb es" and "es \<noteq> []"
  defines "i \<equiv> mm_find_slot_lo ps es"
  shows "i < length es" and "\<forall>j < i. lo_gaps B es ! j < unat ps"
    and "Suc i < length es \<Longrightarrow> unat ps \<le> lo_gaps B es ! i"
proof -
  have "i < length es \<and> (\<forall>j < i. lo_gaps B es ! j < unat ps) \<and>
      (Suc i < length es \<longrightarrow> unat ps \<le> lo_gaps B es ! i)"
    using assms(1,2) unfolding i_def
  proof (induction ps es arbitrary: lb rule: mm_find_slot_lo.induct)
    case (1 ps e n es)
    have c: "lo_chain B (me_end e) (n # es)" "me_end e \<le> me_off n" using "1.prems" by auto
    have g: "unat (ucast (me_offset n - me_size e - me_offset e) :: size_t) = me_off n - me_end e"
      using c(2) by (simp add: unat_sub_no_wrap)
    show ?case
    proof (cases "ps > ucast (me_offset n - me_size e - me_offset e)")
      case True
      have "me_off n - me_end e < unat ps" using True g by (simp add: word_less_nat_alt)
      with "1.IH" [OF True c(1)] True show ?thesis by (auto simp: less_Suc_eq_0_disj)
    next
      case False
      then have "unat ps \<le> me_off n - me_end e" using g by (simp add: word_less_nat_alt)
      with False show ?thesis by simp
    qed
  qed auto
  then show "i < length es" "\<forall>j < i. lo_gaps B es ! j < unat ps"
      "Suc i < length es \<Longrightarrow> unat ps \<le> lo_gaps B es ! i" by auto
qed

lemma mm_find_slot_hi_props:
  fixes ps :: size_t
  assumes "hi_chain ub es" and "es \<noteq> []"
  defines "i \<equiv> mm_find_slot_hi ps es"
  shows "i < length es" and "\<forall>j < i. hi_gaps es ! j < unat ps"
    and "Suc i < length es \<Longrightarrow> unat ps \<le> hi_gaps es ! i"
proof -
  have "i < length es \<and> (\<forall>j < i. hi_gaps es ! j < unat ps) \<and>
      (Suc i < length es \<longrightarrow> unat ps \<le> hi_gaps es ! i)"
    using assms(1,2) unfolding i_def
  proof (induction ps es arbitrary: ub rule: mm_find_slot_hi.induct)
    case (1 ps e n es)
    have c: "hi_chain (me_off e) (n # es)" "me_end n \<le> me_off e" using "1.prems" by auto
    have g: "unat (ucast (me_offset e - me_offset n - me_size n) :: size_t) = me_off e - me_end n"
      using c(2) by (simp add: unat_sub_no_wrap)
    show ?case
    proof (cases "ps > ucast (me_offset e - me_offset n - me_size n)")
      case True
      have "me_off e - me_end n < unat ps" using True g by (simp add: word_less_nat_alt)
      with "1.IH" [OF True c(1)] True show ?thesis by (auto simp: less_Suc_eq_0_disj)
    next
      case False
      then have "unat ps \<le> me_off e - me_end n" using g by (simp add: word_less_nat_alt)
      with False show ?thesis by simp
    qed
  qed auto
  then show "i < length es" "\<forall>j < i. hi_gaps es ! j < unat ps"
      "Suc i < length es \<Longrightarrow> unat ps \<le> hi_gaps es ! i" by auto
qed

text \<open>Placing an entry in the gap behind the \<open>i\<close>-th one keeps the order.\<close>

lemma lo_chain_insert:
  assumes "lo_chain B lb es" and "i < length es" and "me_end (es ! i) \<le> me_off x"
    and "me_end x \<le> me_end (es ! i) + lo_gaps B es ! i"
  shows "lo_chain B lb (insert_after i x es)"
  using assms
proof (induction es arbitrary: lb i)
  case (Cons e es)
  show ?case
  proof (cases i)
    case 0
    with Cons.prems show ?thesis by (cases es) auto
  next
    case (Suc j)
    then have "j < length es" using Cons.prems(2) by simp
    moreover from this obtain n es' where "es = n # es'" by (cases es) auto
    ultimately show ?thesis using Suc Cons.prems Cons.IH [of "me_end e" j] by simp
  qed
qed simp

lemma hi_chain_insert:
  assumes "hi_chain ub es" and "i < length es" and "me_end x \<le> me_off (es ! i)"
    and "me_off (es ! i) \<le> me_off x + hi_gaps es ! i"
  shows "hi_chain ub (insert_after i x es)"
  using assms
proof (induction es arbitrary: ub i)
  case (Cons e es)
  show ?case
  proof (cases i)
    case 0
    with Cons.prems show ?thesis by (cases es) auto
  next
    case (Suc j)
    then have "j < length es" using Cons.prems(2) by simp
    moreover from this obtain n es' where "es = n # es'" by (cases es) auto
    ultimately show ?thesis using Suc Cons.prems Cons.IH [of "me_off e" j] by simp
  qed
qed simp

lemma mm_simps [simp]:
  "mm_entries (update_max_allocated p) = mm_entries p" "mm_lo (update_max_allocated p) = mm_lo p"
  "mm_hi (update_max_allocated p) = mm_hi p" "mm_flags (update_max_allocated p) = mm_flags p"
  "mm_shift (update_max_allocated p) = mm_shift p"
  "mm_entries (tee_mm_add p i x) = insert_after i x (mm_entries p)" "mm_lo (tee_mm_add p i x) = mm_lo p"
  "mm_hi (tee_mm_add p i x) = mm_hi p" "mm_flags (tee_mm_add p i x) = mm_flags p"
  "mm_shift (tee_mm_add p i x) = mm_shift p"
  by (simp_all add: update_max_allocated_def tee_mm_add_def Let_def)

text \<open>Only the chain matters for what the invariant says of the rest.\<close>

lemma mm_frame:
  assumes "mm_lo q = mm_lo p" and "mm_hi q = mm_hi p" and "mm_flags q = mm_flags p"
    and "mm_shift q = mm_shift p"
  shows "mm_geom q = mm_geom p" "mm_hi_alloc q = mm_hi_alloc p" "mm_blocks q = mm_blocks p"
  using assms by (simp_all add: mm_geom_def mm_hi_alloc_def mm_blocks_def mm_bytes_def)

lemma length_lo_gaps [simp]: "length (lo_gaps B es) = length es"
  by (induction B es rule: lo_gaps.induct) auto

lemma length_hi_gaps [simp]: "length (hi_gaps es) = length es"
  by (induction es rule: hi_gaps.induct) auto

lemma last_lo_gaps: "es \<noteq> [] \<Longrightarrow> lo_gaps B es ! (length es - 1) = B - me_end (last es)"
  by (induction B es rule: lo_gaps.induct) auto

lemma last_hi_gaps: "es \<noteq> [] \<Longrightarrow> hi_gaps es ! (length es - 1) = me_off (last es)"
  by (induction es rule: hi_gaps.induct) auto

lemma mm_entry_bounds: "mm_inv p \<Longrightarrow> e \<in> set (mm_entries p) \<Longrightarrow> me_end e \<le> mm_blocks p"
  using hi_chain_bounds [of "mm_blocks p" "mm_entries p" e]
    lo_chain_bounds [of "mm_blocks p" 0 "mm_entries p" e]
  by (cases "mm_hi_alloc p") (auto simp: mm_inv_def)

lemma unat_pool_bytes: "mm_geom p \<Longrightarrow> unat (mm_hi p - mm_lo p) = mm_bytes p"
  by (simp add: mm_geom_def mm_bytes_def unat_sub_no_wrap)

lemma blocks_u32: "mm_geom p \<Longrightarrow> k \<le> mm_blocks p \<Longrightarrow> k * 2 ^ mm_sh p \<le> mm_bytes p \<and> mm_bytes p < 2 ^ 32"
  by (auto simp: mm_geom_def)

lemma blocks_less: "mm_geom p \<Longrightarrow> mm_blocks p < 2 ^ 32"
  by (auto simp: mm_geom_def mm_blocks_def intro: le_less_trans [OF div_le_dividend])

lemma unat_shifted:
  fixes w :: u32
  assumes "mm_geom p" and "unat w \<le> mm_blocks p"
  shows "unat (push_bit (mm_sh p) w) = unat w * 2 ^ mm_sh p"
  using blocks_u32 [OF assms] by (intro unat_push_bit_no_wrap) simp

lemma mm_room_hi:
  assumes "mm_geom p" and "mm_hi_alloc p" and "me_off e \<le> mm_blocks p"
  shows "mm_last_has_room p e n = Some (unat n \<le> me_off e * 2 ^ mm_sh p)"
  using assms by (auto simp: mm_last_has_room_def word_less_nat_alt unat_shifted)

lemma mm_room_lo:
  assumes g: "mm_geom p" and "\<not> mm_hi_alloc p" and b: "me_end e \<le> mm_blocks p"
  shows "mm_last_has_room p e n = Some (unat n \<le> (mm_blocks p - me_end e) * 2 ^ mm_sh p)"
proof -
  have e: "unat (me_offset e + me_size e) = me_end e"
    using b blocks_less [OF g] by (intro unat_add_no_wrap) simp
  have sh: "unat (push_bit (mm_sh p) (me_offset e + me_size e)) = me_end e * 2 ^ mm_sh p"
    using unat_shifted [OF g, of "me_offset e + me_size e"] b e by simp
  have "unat (mm_hi p - mm_lo p - ucast (push_bit (mm_sh p) (me_offset e + me_size e)))
      = mm_bytes p - me_end e * 2 ^ mm_sh p"
    using blocks_u32 [OF g b] sh unat_pool_bytes [OF g] by (subst unat_sub_no_wrap) auto
  also have "\<dots> = (mm_blocks p - me_end e) * 2 ^ mm_sh p"
    using g by (simp add: mm_geom_def diff_mult_distrib)
  finally show ?thesis
    using assms by (auto simp: mm_last_has_room_def Let_def word_less_nat_alt mm_geom_def
        word_le_nat_alt)
qed

text \<open>The gap the search ends at: large enough exactly when some gap is.\<close>

definition mm_slot :: "tee_mm_pool \<Rightarrow> size_t \<Rightarrow> nat" where
  "mm_slot p n = (if mm_hi_alloc p then mm_find_slot_hi (mm_psize p n) (mm_entries p)
     else mm_find_slot_lo (mm_psize p n) (mm_entries p))"

definition mm_place :: "tee_mm_pool \<Rightarrow> size_t \<Rightarrow> addr \<Rightarrow> tee_mm_entry" where
  "mm_place p n a =
     (let e = mm_entries p ! mm_slot p n in
      \<lparr>me_addr = a, me_offset = (if mm_hi_alloc p then ucast (ucast (me_offset e) - mm_psize p n)
         else me_offset e + me_size e), me_size = ucast (mm_psize p n)\<rparr>)"

lemma mm_slot_props:
  assumes inv: "mm_inv p"
  shows "mm_slot p n < length (mm_entries p)"
    and "\<forall>j < mm_slot p n. mm_gaps p ! j < unat (mm_psize p n)"
    and "Suc (mm_slot p n) < length (mm_entries p) \<Longrightarrow> unat (mm_psize p n) \<le> mm_gaps p ! mm_slot p n"
  using inv mm_find_slot_hi_props [of "mm_blocks p" "mm_entries p" "mm_psize p n"]
    mm_find_slot_lo_props [of "mm_blocks p" 0 "mm_entries p" "mm_psize p n"]
  by (auto simp: mm_inv_def mm_slot_def mm_gaps_def split: if_splits)

lemma mm_room_gap:
  assumes inv: "mm_inv p" and last: "Suc (mm_slot p n) = length (mm_entries p)"
  shows "mm_last_has_room p (mm_entries p ! mm_slot p n) n =
    Some (unat (mm_psize p n) \<le> mm_gaps p ! mm_slot p n)"
proof -
  let ?e = "mm_entries p ! mm_slot p n"
  have ne: "mm_entries p \<noteq> []" and g: "mm_geom p" using inv by (simp_all add: mm_inv_def)
  have i: "mm_slot p n = length (mm_entries p) - 1" using last by simp
  have e: "?e = last (mm_entries p)" "?e \<in> set (mm_entries p)" using ne i by (auto simp: last_conv_nth)
  have "me_end ?e \<le> mm_blocks p" using inv e(2) by (rule mm_entry_bounds)
  then show ?thesis
    using g e(1) last_hi_gaps [OF ne] last_lo_gaps [OF ne] i
    by (cases "mm_hi_alloc p") (simp_all add: mm_room_hi mm_room_lo mm_gaps_def mm_psize_le)
qed

text \<open>\<^verbatim>\<open>tee_mm_alloc\<close> in terms of gaps: it succeeds exactly when one is large enough.\<close>

lemma mm_gap_nth: "mm_inv p \<Longrightarrow> i < length (mm_entries p) \<Longrightarrow> mm_gaps p ! i \<in> set (mm_gaps p)"
  by (simp add: mm_gaps_def)

lemma mm_room_found:
  assumes inv: "mm_inv p"
  shows "(\<exists>g \<in> set (mm_gaps p). unat n \<le> g * 2 ^ mm_sh p) \<longleftrightarrow>
    unat (mm_psize p n) \<le> mm_gaps p ! mm_slot p n"
proof
  note slot = mm_slot_props [OF inv, of n]
  have len: "length (mm_gaps p) = length (mm_entries p)" by (simp add: mm_gaps_def)
  assume "\<exists>g \<in> set (mm_gaps p). unat n \<le> g * 2 ^ mm_sh p"
  then obtain j where j: "j < length (mm_gaps p)" "unat (mm_psize p n) \<le> mm_gaps p ! j"
    by (auto simp: in_set_conv_nth mm_psize_le)
  with slot(2) have "\<not> j < mm_slot p n" by (metis not_le)
  with slot j len show "unat (mm_psize p n) \<le> mm_gaps p ! mm_slot p n"
    by (metis Suc_lessI less_antisym linorder_neqE_nat)
next
  assume "unat (mm_psize p n) \<le> mm_gaps p ! mm_slot p n"
  then show "\<exists>g \<in> set (mm_gaps p). unat n \<le> g * 2 ^ mm_sh p"
    using mm_gap_nth [OF inv mm_slot_props(1) [OF inv]] by (auto simp: mm_psize_le)
qed

lemma tee_mm_alloc_eq:
  assumes inv: "mm_inv p"
  shows "tee_mm_alloc (Some p) n (Some a) =
    (if \<exists>g \<in> set (mm_gaps p). unat n \<le> g * 2 ^ mm_sh p
     then Ret (Some (update_max_allocated (tee_mm_add p (mm_slot p n) (mm_place p n a))),
               Some (mm_place p n a))
     else Ret (Some p, None))"
proof -
  let ?i = "mm_slot p n"
  have ne: "mm_entries p \<noteq> []" using inv by (simp add: mm_inv_def)
  have "tee_mm_alloc (Some p) n (Some a) =
    (case (if Suc ?i = length (mm_entries p) then mm_last_has_room p (mm_entries p ! ?i) n else Some True) of
       None \<Rightarrow> Panic
     | Some False \<Rightarrow> Ret (Some p, None)
     | Some True \<Rightarrow> Ret (Some (update_max_allocated (tee_mm_add p ?i (mm_place p n a))), Some (mm_place p n a)))"
    by (simp only: tee_mm_alloc_def Let_def mm_place_def mm_slot_def [symmetric] option.case
        prod.case ne if_False)
  then show ?thesis
    using mm_room_gap [OF inv, of n] mm_slot_props [OF inv, of n] mm_room_found [OF inv, of n]
    by (auto split: if_splits)
qed

text \<open>A gap ends where the next entry starts, or at the end of the pool.\<close>

lemma lo_gap_next:
  "lo_chain B lb es \<Longrightarrow> i < length es \<Longrightarrow>
   me_end (es ! i) + lo_gaps B es ! i = (if Suc i < length es then me_off (es ! Suc i) else B)"
proof (induction B es arbitrary: lb i rule: lo_gaps.induct)
  case (1 B e n es)
  then show ?case by (cases i) auto
qed auto

lemma hi_gap_next:
  "hi_chain ub es \<Longrightarrow> i < length es \<Longrightarrow>
   me_off (es ! i) = hi_gaps es ! i + (if Suc i < length es then me_end (es ! Suc i) else 0)"
proof (induction es arbitrary: ub i rule: hi_gaps.induct)
  case (1 e n es)
  then show ?case by (cases i) auto
qed auto

lemma mm_place_props:
  assumes inv: "mm_inv p" and fit: "unat (mm_psize p n) \<le> mm_gaps p ! mm_slot p n"
    and x: "x = mm_place p n a" and e: "e = mm_entries p ! mm_slot p n"
  shows "me_addr x = a" and "unat (me_size x) = unat (mm_psize p n)"
    and "mm_hi_alloc p \<Longrightarrow> me_end x = me_off e"
    and "\<not> mm_hi_alloc p \<Longrightarrow> me_off x = me_end e"
proof -
  note i = mm_slot_props(1) [OF inv, of n]
  have B: "mm_blocks p < 2 ^ 32" using inv blocks_less by (simp add: mm_inv_def)
  have eb: "me_end e \<le> mm_blocks p" using mm_entry_bounds [OF inv] i by (simp add: e)
  have hi: "unat (mm_psize p n) \<le> me_off e" if "mm_hi_alloc p"
    using that fit hi_gap_next [OF _ i] inv by (fastforce simp: mm_gaps_def mm_inv_def e)
  have lo: "me_end e + unat (mm_psize p n) \<le> mm_blocks p" if "\<not> mm_hi_alloc p"
  proof -
    have c: "lo_chain (mm_blocks p) 0 (mm_entries p)" using that inv by (simp add: mm_inv_def)
    have "me_end e + mm_gaps p ! mm_slot p n \<le> mm_blocks p"
      using lo_gap_next [OF c i] lo_chain_bounds [OF c nth_mem, of "Suc (mm_slot p n)"] that
      by (auto simp: mm_gaps_def e split: if_splits)
    with fit show ?thesis by simp
  qed
  have ps: "unat (mm_psize p n) < 2 ^ 32"
    using hi lo eb B by (cases "mm_hi_alloc p") auto
  show "me_addr x = a" by (simp add: x mm_place_def Let_def)
  show sz: "unat (me_size x) = unat (mm_psize p n)"
    using ps by (simp add: x mm_place_def Let_def unat_ucast_no_trunc)
  show "me_end x = me_off e" if h: "mm_hi_alloc p"
  proof -
    have "unat (ucast (me_offset e) - mm_psize p n :: size_t) = me_off e - unat (mm_psize p n)"
      using hi [OF h] by (simp add: unat_sub_no_wrap)
    moreover have "me_off e - unat (mm_psize p n) < 2 ^ 32" using eb B by simp
    ultimately have "me_off x = me_off e - unat (mm_psize p n)"
      using h by (simp add: x e mm_place_def Let_def unat_ucast_no_trunc)
    then show ?thesis using hi [OF h] sz by simp
  qed
  show "me_off x = me_end e" if "\<not> mm_hi_alloc p"
    using that eb B by (simp add: x mm_place_def Let_def unat_add_no_wrap flip: e)
qed

lemma mm_inv_insert:
  assumes inv: "mm_inv p" and i: "i < length (mm_entries p)"
    and hi: "mm_hi_alloc p \<Longrightarrow> me_end x \<le> me_off (mm_entries p ! i) \<and>
      me_off (mm_entries p ! i) \<le> me_off x + mm_gaps p ! i"
    and lo: "\<not> mm_hi_alloc p \<Longrightarrow> me_end (mm_entries p ! i) \<le> me_off x \<and>
      me_end x \<le> me_end (mm_entries p ! i) + mm_gaps p ! i"
    and fresh: "me_addr x \<notin> me_addr ` set (mm_entries p)"
  shows "mm_inv (update_max_allocated (tee_mm_add p i x))"
proof -
  let ?q = "update_max_allocated (tee_mm_add p i x)"
  have ne: "mm_entries p \<noteq> []" using inv by (simp add: mm_inv_def)
  have fr: "mm_geom ?q = mm_geom p" "mm_hi_alloc ?q = mm_hi_alloc p" "mm_blocks ?q = mm_blocks p"
    by (rule mm_frame; simp)+
  have "hi_chain (mm_blocks p) (insert_after i x (mm_entries p))" if "mm_hi_alloc p"
    using that inv hi by (intro hi_chain_insert [OF _ i]) (auto simp: mm_inv_def mm_gaps_def)
  moreover have "lo_chain (mm_blocks p) 0 (insert_after i x (mm_entries p))" if "\<not> mm_hi_alloc p"
    using that inv lo by (intro lo_chain_insert [OF _ i]) (auto simp: mm_inv_def mm_gaps_def)
  ultimately show ?thesis
    using inv fresh ne unfolding mm_inv_def fr by (simp add: distinct_insert_after)
qed

text \<open>Two different live entries never share a block.\<close>

definition mm_disjoint :: "tee_mm_entry \<Rightarrow> tee_mm_entry \<Rightarrow> bool" where
  "mm_disjoint a b \<longleftrightarrow> me_end a \<le> me_off b \<or> me_end b \<le> me_off a"

lemma lo_chain_disjoint:
  "lo_chain B lb es \<Longrightarrow> distinct (map me_addr es) \<Longrightarrow> a \<in> set es \<Longrightarrow> b \<in> set es \<Longrightarrow>
   me_addr a \<noteq> me_addr b \<Longrightarrow> mm_disjoint a b"
proof (induction es arbitrary: lb)
  case (Cons e es)
  then have c: "lo_chain B (me_end e) es" by simp
  then have "\<forall>y \<in> set es. me_end e \<le> me_off y" using lo_chain_bounds by blast
  with Cons c show ?case by (auto simp: mm_disjoint_def)
qed simp

lemma hi_chain_disjoint:
  "hi_chain ub es \<Longrightarrow> distinct (map me_addr es) \<Longrightarrow> a \<in> set es \<Longrightarrow> b \<in> set es \<Longrightarrow>
   me_addr a \<noteq> me_addr b \<Longrightarrow> mm_disjoint a b"
proof (induction es arbitrary: ub)
  case (Cons e es)
  then have c: "hi_chain (me_off e) es" by simp
  then have "\<forall>y \<in> set es. me_end y \<le> me_off e" using hi_chain_bounds by blast
  with Cons c show ?case by (auto simp: mm_disjoint_def)
qed simp

lemma mm_inv_disjoint:
  assumes "mm_inv p" and "a \<in> set (mm_entries p)" and "b \<in> set (mm_entries p)"
    and "me_addr a \<noteq> me_addr b"
  shows "mm_disjoint a b"
  using assms lo_chain_disjoint [of "mm_blocks p" 0 "mm_entries p"]
    hi_chain_disjoint [of "mm_blocks p" "mm_entries p"]
  by (cases "mm_hi_alloc p") (simp_all add: mm_inv_def)

lemma tee_mm_alloc_new:
  assumes inv: "mm_inv p" and fresh: "a \<notin> me_addr ` set (mm_entries p)"
    and room: "\<exists>g \<in> set (mm_gaps p). unat n \<le> g * 2 ^ mm_sh p"
  shows "\<exists>q x. tee_mm_alloc (Some p) n (Some a) = Ret (Some q, Some x) \<and> mm_inv q \<and>
        set (mm_entries q) = insert x (set (mm_entries p)) \<and> me_addr x = a \<and>
        me_end x \<le> mm_blocks p \<and> unat n \<le> unat (me_size x) * 2 ^ mm_sh p \<and>
        (\<forall>y \<in> set (mm_entries p). mm_disjoint x y)"
proof -
  define x where "x = mm_place p n a"
  define q where "q = update_max_allocated (tee_mm_add p (mm_slot p n) x)"
  have fit: "unat (mm_psize p n) \<le> mm_gaps p ! mm_slot p n" using mm_room_found [OF inv] room by blast
  note place = mm_place_props [OF inv fit x_def refl]
  have inv': "mm_inv q"
    unfolding q_def
    by (rule mm_inv_insert [OF inv mm_slot_props(1) [OF inv]]) (use place fit fresh in auto)
  have xq: "x \<in> set (mm_entries q)" by (simp add: q_def)
  have "me_end x \<le> mm_blocks q" by (rule mm_entry_bounds [OF inv' xq])
  moreover have "mm_blocks q = mm_blocks p" by (rule mm_frame; simp add: q_def)
  moreover have "\<forall>y \<in> set (mm_entries p). mm_disjoint x y"
    using mm_inv_disjoint [OF inv' xq] fresh place(1) by (auto simp: q_def)
  moreover have "unat n \<le> unat (me_size x) * 2 ^ mm_sh p"
    using mm_psize_le [of p n "unat (me_size x)"] place(2) by simp
  ultimately show ?thesis
    using room inv' place(1) by (auto simp: tee_mm_alloc_eq [OF inv] q_def x_def)
qed

section \<open>Properties\<close>

text \<open>
  C17. Allocation on a pool in order. It never panics. It succeeds exactly when some gap is
  large enough for the request, and then the new entry is the only change: it lies in the
  pool, covers at least the requested bytes, is disjoint from every other live entry, and the
  pool invariant still holds. On failure the pool is unchanged.
\<close>

theorem tee_mm_alloc_correct:
  assumes inv: "mm_inv p" and fresh: "a \<notin> me_addr ` set (mm_entries p)"
  shows "if \<exists>g \<in> set (mm_gaps p). unat n \<le> g * 2 ^ mm_sh p
      then \<exists>q x. tee_mm_alloc (Some p) n (Some a) = Ret (Some q, Some x) \<and> mm_inv q \<and>
        set (mm_entries q) = insert x (set (mm_entries p)) \<and> me_addr x = a \<and>
        me_end x \<le> mm_blocks p \<and> unat n \<le> unat (me_size x) * 2 ^ mm_sh p \<and>
        (\<forall>y \<in> set (mm_entries p). mm_disjoint x y)
      else tee_mm_alloc (Some p) n (Some a) = Ret (Some p, None)"
  using tee_mm_alloc_new [OF inv fresh, of n] by (simp add: tee_mm_alloc_eq [OF inv])

text \<open>A pool of four 4 KiB blocks with one entry of two blocks, used in the witnesses.\<close>

definition mm_example :: tee_mm_pool where
  "mm_example = \<lparr>mm_entries = [\<lparr>me_addr = 1, me_offset = 0, me_size = 0\<rparr>,
       \<lparr>me_addr = 2, me_offset = 0, me_size = 2\<rparr>],
     mm_lo = 0x10000, mm_hi = 0x14000, mm_flags = 0, mm_shift = 12, mm_max_allocated = 0\<rparr>"

lemma mm_example_inv: "mm_inv mm_example"
  by (simp add: mm_example_def mm_inv_def mm_geom_def mm_bytes_def mm_blocks_def mm_hi_alloc_def
      TEE_MM_POOL_HI_ALLOC_def)

theorem tee_mm_alloc_correct_witness:
  "\<exists>q x. tee_mm_alloc (Some mm_example) 0x1800 (Some 3) = Ret (Some q, Some x) \<and> mm_inv q \<and>
     (\<forall>y \<in> set (mm_entries mm_example). mm_disjoint x y)"
proof -
  have "3 \<notin> me_addr ` set (mm_entries mm_example)" by (simp add: mm_example_def)
  moreover have "\<exists>g \<in> set (mm_gaps mm_example). unat (0x1800 :: size_t) \<le> g * 2 ^ mm_sh mm_example"
    by (simp add: mm_gaps_def mm_example_def mm_blocks_def mm_bytes_def mm_hi_alloc_def
        TEE_MM_POOL_HI_ALLOC_def)
  ultimately show ?thesis using tee_mm_alloc_correct [OF mm_example_inv, of 3 "0x1800"] by auto
qed

subsection \<open>Allocating a given range\<close>

lemma mm_find_addr_lo_less: "es \<noteq> [] \<Longrightarrow> mm_find_addr_lo a es < length es"
  by (induction a es rule: mm_find_addr_lo.induct) auto

lemma mm_find_addr_hi_less: "es \<noteq> [] \<Longrightarrow> mm_find_addr_hi a es < length es"
  by (induction a es rule: mm_find_addr_hi.induct) auto

text \<open>The blocks a byte range \<open>[b, b + n)\<close> relative to the pool's start touches.\<close>

definition blk_lo :: "tee_mm_pool \<Rightarrow> paddr_t \<Rightarrow> nat" where
  "blk_lo p base = (unat base - unat (mm_lo p)) div 2 ^ mm_sh p"

definition blk_hi :: "tee_mm_pool \<Rightarrow> paddr_t \<Rightarrow> size_t \<Rightarrow> nat" where
  "blk_hi p base n = (unat base - unat (mm_lo p) + unat n - 1) div 2 ^ mm_sh p + 1"

text \<open>The request does not wrap around and the pool does not start in the very first block.\<close>

definition mm_range_ok :: "tee_mm_pool \<Rightarrow> paddr_t \<Rightarrow> size_t \<Rightarrow> bool" where
  "mm_range_ok p base n \<longleftrightarrow> \<not> (base + n < base \<or> base < mm_lo p) \<and> 0 < n \<and> 2 ^ mm_sh p \<le> unat (mm_lo p)"

lemma no_wrap_add: "\<not> a + b < a \<Longrightarrow> unat (a + b) = unat a + unat b" for a b :: "'a::len word"
  using no_olen_add_nat [of a b] by (simp add: unat_add_no_wrap not_less)

lemma mm_range_unat:
  assumes ok: "mm_range_ok p base n"
  shows "unat (drop_bit (mm_sh p) (base - mm_lo p)) = blk_lo p base"
    and "unat (drop_bit (mm_sh p) (base - mm_lo p + n - 1) + 1) = blk_hi p base n"
    and "blk_hi p base n * 2 ^ mm_sh p < 2 ^ 64"
    and "blk_lo p base < blk_hi p base n"
proof -
  let ?b = "unat base - unat (mm_lo p)" and ?m = "2 ^ mm_sh p :: nat"
  have le: "unat (mm_lo p) \<le> unat base" and n: "0 < unat n" and m: "?m \<le> unat (mm_lo p)"
    using ok by (auto simp: mm_range_ok_def word_less_nat_alt)
  have sum: "unat base + unat n < 2 ^ 64"
    using ok no_wrap_add [of base n] unat_lt2p [of "base + n"] by (simp add: mm_range_ok_def)
  have b: "unat (base - mm_lo p) = ?b" using le by (simp add: unat_sub_no_wrap)
  have bn: "unat (base - mm_lo p + n) = ?b + unat n"
    using b sum by (subst unat_add_no_wrap) auto
  then have bn1: "unat (base - mm_lo p + n - 1) = ?b + unat n - 1"
    using n by (subst unat_sub_no_wrap) auto
  show "unat (drop_bit (mm_sh p) (base - mm_lo p)) = blk_lo p base"
    by (simp add: unat_drop_bit_div b blk_lo_def)
  have "(?b + unat n - 1) div ?m * ?m \<le> ?b + unat n - 1" by simp
  then have fit: "blk_hi p base n * ?m \<le> ?b + unat n - 1 + ?m"
    by (simp add: blk_hi_def algebra_simps)
  also have "\<dots> < 2 ^ 64" using sum m le n by linarith
  finally show small: "blk_hi p base n * ?m < 2 ^ 64" .
  have "blk_hi p base n \<le> blk_hi p base n * ?m" by simp
  then have hi64: "blk_hi p base n < 2 ^ 64" using small by linarith
  show "unat (drop_bit (mm_sh p) (base - mm_lo p + n - 1) + 1) = blk_hi p base n"
    using hi64 by (subst unat_add_no_wrap) (simp_all add: unat_drop_bit_div bn1 blk_hi_def)
  show "blk_lo p base < blk_hi p base n"
    using n by (simp add: blk_lo_def blk_hi_def less_Suc_eq_le div_le_mono)
qed

lemma fit_in_gap_sound:
  assumes inv: "mm_inv p" and ok: "mm_range_ok p base n" and i: "i < length (mm_entries p)"
    and fit: "fit_in_gap p (mm_entries p ! i)
      (if Suc i < length (mm_entries p) then Some (mm_entries p ! Suc i) else None) offslo offshi"
    and offs: "unat offslo = blk_lo p base" "unat offshi = blk_hi p base n"
  shows "blk_hi p base n \<le> mm_blocks p"
    and "mm_hi_alloc p \<Longrightarrow> blk_hi p base n \<le> me_off (mm_entries p ! i) \<and>
      me_off (mm_entries p ! i) \<le> blk_lo p base + mm_gaps p ! i"
    and "\<not> mm_hi_alloc p \<Longrightarrow> me_end (mm_entries p ! i) \<le> blk_lo p base \<and>
      blk_hi p base n \<le> me_end (mm_entries p ! i) + mm_gaps p ! i"
proof -
  have g: "mm_geom p" using inv by (simp add: mm_inv_def)
  have end_u: "unat (me_offset e + me_size e) = me_end e" if "e \<in> set (mm_entries p)" for e
    using mm_entry_bounds [OF inv that] blocks_less [OF g] by (intro unat_add_no_wrap) simp
  have sh: "unat (push_bit (mm_sh p) offshi) = blk_hi p base n * 2 ^ mm_sh p"
    using mm_range_unat(3) [OF ok] offs by (simp add: unat_push_bit_no_wrap)
  have hi: "blk_hi p base n \<le> me_off (mm_entries p ! i) \<and>
      me_off (mm_entries p ! i) \<le> blk_lo p base + mm_gaps p ! i" if h: "mm_hi_alloc p"
  proof -
    have c: "hi_chain (mm_blocks p) (mm_entries p)" using h inv by (simp add: mm_inv_def)
    show ?thesis
      using fit h offs end_u [OF nth_mem] hi_gap_next [OF c i]
      by (auto simp: fit_in_gap_def word_less_nat_alt mm_gaps_def split: if_splits)
  qed
  have lo: "me_end (mm_entries p ! i) \<le> blk_lo p base \<and>
      blk_hi p base n \<le> me_end (mm_entries p ! i) + mm_gaps p ! i \<and>
      blk_hi p base n \<le> mm_blocks p" if l: "\<not> mm_hi_alloc p"
  proof -
    have c: "lo_chain (mm_blocks p) 0 (mm_entries p)" using l inv by (simp add: mm_inv_def)
    have "blk_hi p base n * 2 ^ mm_sh p \<le> mm_blocks p * 2 ^ mm_sh p"
      using fit l sh unat_pool_bytes [OF g] g
      by (simp add: fit_in_gap_def word_less_nat_alt not_less mm_geom_def)
    then have "blk_hi p base n \<le> mm_blocks p" by simp
    then show ?thesis
      using fit l offs end_u [OF nth_mem [OF i]] lo_gap_next [OF c i]
      by (auto simp: fit_in_gap_def word_less_nat_alt mm_gaps_def split: if_splits)
  qed
  show "blk_hi p base n \<le> mm_blocks p"
    using hi lo mm_entry_bounds [OF inv nth_mem [OF i]] by (cases "mm_hi_alloc p") auto
  show "mm_hi_alloc p \<Longrightarrow> blk_hi p base n \<le> me_off (mm_entries p ! i) \<and>
      me_off (mm_entries p ! i) \<le> blk_lo p base + mm_gaps p ! i" by (rule hi)
  show "\<not> mm_hi_alloc p \<Longrightarrow> me_end (mm_entries p ! i) \<le> blk_lo p base \<and>
      blk_hi p base n \<le> me_end (mm_entries p ! i) + mm_gaps p ! i" using lo by blast
qed

text \<open>
  Reserving a given byte range (\<^verbatim>\<open>tee_mm_alloc2\<close>), for a request of at least one byte
  that does not wrap: if an entry is returned it covers exactly the blocks the range touches,
  these lie in the pool and were free, and the invariant still holds; otherwise the pool is
  unchanged.
\<close>

theorem tee_mm_alloc2_correct:
  assumes inv: "mm_inv p" and fresh: "a \<notin> me_addr ` set (mm_entries p)"
    and ok: "mm_range_ok p base n"
    and res: "tee_mm_alloc2 (Some p) base n (Some a) = (q, r)"
  shows "case r of
      None \<Rightarrow> q = Some p
    | Some x \<Rightarrow> (\<exists>q'. q = Some q' \<and> mm_inv q' \<and>
        set (mm_entries q') = insert x (set (mm_entries p))) \<and>
        me_addr x = a \<and> me_off x = blk_lo p base \<and> me_end x = blk_hi p base n \<and>
        me_end x \<le> mm_blocks p \<and> (\<forall>y \<in> set (mm_entries p). mm_disjoint x y)"
proof -
  define offslo where "offslo = drop_bit (mm_sh p) (base - mm_lo p)"
  define offshi where "offshi = drop_bit (mm_sh p) (base - mm_lo p + n - 1) + 1"
  define i where "i = (if mm_hi_alloc p then mm_find_addr_hi offshi (mm_entries p)
      else mm_find_addr_lo offslo (mm_entries p))"
  define nx where "nx = (if Suc i < length (mm_entries p) then Some (mm_entries p ! Suc i) else None)"
  define x where "x = \<lparr>me_addr = a, me_offset = ucast offslo, me_size = ucast (offshi - offslo)\<rparr>"
  define q' where "q' = update_max_allocated (tee_mm_add p i x)"
  have ne: "mm_entries p \<noteq> []" and g: "mm_geom p" using inv by (simp_all add: mm_inv_def)
  have i: "i < length (mm_entries p)" using ne by (simp add: i_def mm_find_addr_lo_less mm_find_addr_hi_less)
  have guard: "\<not> (base + n < base \<or> base < mm_lo p)" using ok by (simp add: mm_range_ok_def)
  have eq: "(q, r) = (if \<not> fit_in_gap p (mm_entries p ! i) nx offslo offshi then (Some p, None)
      else (Some q', Some x))"
    unfolding res [symmetric] tee_mm_alloc2_def Let_def q'_def x_def nx_def
    by (simp only: option.case ne guard if_False offslo_def [symmetric] offshi_def [symmetric]
        i_def [symmetric])
  show ?thesis
  proof (cases "fit_in_gap p (mm_entries p ! i) nx offslo offshi")
    case False
    with eq show ?thesis by simp
  next
    case True
    note u = mm_range_unat [OF ok, folded offslo_def offshi_def]
    note fit = fit_in_gap_sound [OF inv ok i True [unfolded nx_def] u(1,2)]
    have B: "mm_blocks p < 2 ^ 32" by (rule blocks_less [OF g])
    have x: "me_addr x = a" "me_off x = blk_lo p base" "me_end x = blk_hi p base n"
      using u fit(1) B by (simp_all add: x_def unat_ucast_no_trunc unat_sub_no_wrap)
    have inv': "mm_inv q'"
      unfolding q'_def by (rule mm_inv_insert [OF inv i]) (use fit x fresh in auto)
    have "x \<in> set (mm_entries q')" by (simp add: q'_def)
    from mm_inv_disjoint [OF inv' this] have "\<forall>y \<in> set (mm_entries p). mm_disjoint x y"
      using x fresh by (auto simp: q'_def)
    with True eq x fit(1) inv' show ?thesis by (auto simp: q'_def)
  qed
qed

theorem tee_mm_alloc2_correct_witness:
  "\<exists>q x. tee_mm_alloc2 (Some mm_example) 0x12800 0x1000 (Some 3) = (q, Some x) \<and>
     me_off x = 2 \<and> me_end x = 4"
proof -
  obtain q r where res: "tee_mm_alloc2 (Some mm_example) 0x12800 0x1000 (Some 3) = (q, r)"
    by fastforce
  have ok: "mm_range_ok mm_example 0x12800 0x1000"
    by (simp add: mm_range_ok_def mm_example_def word_less_nat_alt)
  have "3 \<notin> me_addr ` set (mm_entries mm_example)" by (simp add: mm_example_def)
  note sound = tee_mm_alloc2_correct [OF mm_example_inv this ok res]
  have "r \<noteq> None"
    using res by (auto simp: tee_mm_alloc2_def mm_example_def fit_in_gap_def mm_hi_alloc_def
        TEE_MM_POOL_HI_ALLOC_def word_less_nat_alt Let_def split: if_splits)
  then show ?thesis
    using sound res by (auto simp: blk_lo_def blk_hi_def mm_example_def)
qed

subsection \<open>Freeing\<close>

lemma mm_unlink_None: "es \<noteq> [] \<Longrightarrow> mm_unlink es a = None \<longleftrightarrow> a \<notin> me_addr ` set (tl es)"
  by (induction es a rule: mm_unlink.induct) auto

lemma mm_unlink_Some:
  "mm_unlink es a = Some es' \<Longrightarrow> distinct (map me_addr es) \<Longrightarrow>
   hd es' = hd es \<and> es' \<noteq> [] \<and> es' = filter (\<lambda>e. me_addr e \<noteq> a) es"
proof (induction es a arbitrary: es' rule: mm_unlink.induct)
  case (1 e n es a)
  show ?case
  proof (cases "me_addr n = a")
    case True
    then have "filter (\<lambda>e. me_addr e \<noteq> a) es = es" 
      using "1.prems"(2) by (auto simp: filter_id_conv dest: rev_image_eqI [OF _ sym])
    with True 1 show ?thesis by (auto split: if_splits)
  next
    case False
    with "1.prems"(1) obtain es1 where es1: "mm_unlink (n # es) a = Some es1" "es' = e # es1" by auto
    then have "a \<in> me_addr ` set es" using mm_unlink_None [of "n # es" a] by fastforce
    with "1.IH" [OF False es1(1)] "1.prems"(2) es1 show ?thesis by auto
  qed
qed auto

lemma lo_chain_filter: "lo_chain B lb es \<Longrightarrow> lo_chain B lb (filter P es)"
proof -
  have "lo_chain B lb (filter P es)" if "lo_chain B lb' es" "lb \<le> lb'" for lb lb'
    using that
  proof (induction es arbitrary: lb lb')
    case (Cons e es)
    then show ?case
      by (cases "P e") (auto intro: Cons.IH [of "me_end e"])
  qed simp
  then show "lo_chain B lb es \<Longrightarrow> lo_chain B lb (filter P es)" by blast
qed

lemma hi_chain_filter: "hi_chain ub es \<Longrightarrow> hi_chain ub (filter P es)"
proof -
  have "hi_chain ub (filter P es)" if "hi_chain ub' es" "ub' \<le> ub" for ub ub'
    using that
  proof (induction es arbitrary: ub ub')
    case (Cons e es)
    then show ?case
      by (cases "P e") (auto intro: Cons.IH [of "me_off e"])
  qed simp
  then show "hi_chain ub es \<Longrightarrow> hi_chain ub (filter P es)" by blast
qed

lemma mm_inv_unlink:
  assumes inv: "mm_inv p" and un: "mm_unlink (mm_entries p) a = Some es"
  shows "mm_inv (p\<lparr>mm_entries := es\<rparr>)"
proof -
  have d: "distinct (map me_addr (mm_entries p))" using inv by (simp add: mm_inv_def)
  note es = mm_unlink_Some [OF un d]
  have fr: "mm_geom (p\<lparr>mm_entries := es\<rparr>) = mm_geom p"
      "mm_hi_alloc (p\<lparr>mm_entries := es\<rparr>) = mm_hi_alloc p"
      "mm_blocks (p\<lparr>mm_entries := es\<rparr>) = mm_blocks p" by (rule mm_frame; simp)+
  have "distinct (map me_addr es)" using es d by (simp add: distinct_map_filter)
  then show ?thesis
    using inv es lo_chain_filter [of "mm_blocks p" 0 "mm_entries p"]
      hi_chain_filter [of "mm_blocks p" "mm_entries p"]
    unfolding mm_inv_def fr by (simp split: if_splits)
qed

lemma mm_free_filter:
  assumes inv: "mm_inv p" and a: "a \<in> me_addr ` set (tl (mm_entries p))"
  shows "\<exists>q. tee_mm_free (Some p) (Some a) = Ret (Some q) \<and> mm_inv q \<and>
        mm_entries q = filter (\<lambda>e. me_addr e \<noteq> a) (mm_entries p)"
proof -
  obtain es where es: "mm_unlink (mm_entries p) a = Some es"
    using a inv mm_unlink_None [of "mm_entries p" a] by (cases "mm_unlink (mm_entries p) a") (auto simp: mm_inv_def)
  moreover have "es = filter (\<lambda>e. me_addr e \<noteq> a) (mm_entries p)"
    using mm_unlink_Some [OF es] inv by (simp add: mm_inv_def)
  ultimately show ?thesis using mm_inv_unlink [OF inv es] by (simp add: tee_mm_free_def)
qed

text \<open>
  \<^verbatim>\<open>tee_mm_free\<close> of a live entry (not the sentinel) removes exactly that entry and keeps
  the invariant; freeing anything else panics.
\<close>

theorem tee_mm_free_correct:
  assumes inv: "mm_inv p"
  shows "if a \<in> me_addr ` set (tl (mm_entries p))
      then \<exists>q. tee_mm_free (Some p) (Some a) = Ret (Some q) \<and> mm_inv q \<and>
        mm_entries q = filter (\<lambda>e. me_addr e \<noteq> a) (mm_entries p)
      else tee_mm_free (Some p) (Some a) = Panic"
  using mm_free_filter [OF inv] mm_unlink_None [of "mm_entries p" a] inv
  by (auto simp: tee_mm_free_def mm_inv_def)

theorem tee_mm_free_correct_witness:
  "\<exists>q. tee_mm_free (Some mm_example) (Some 2) = Ret (Some q) \<and> mm_inv q \<and> length (mm_entries q) = 1"
  using tee_mm_free_correct [OF mm_example_inv, of 2] by (auto simp: mm_example_def)

text \<open>
  Allocating and freeing the new entry again gives back the chain as it was, for every
  request that succeeds.
\<close>

theorem tee_mm_alloc_free_roundtrip:
  assumes inv: "mm_inv p" and fresh: "a \<notin> me_addr ` set (mm_entries p)"
    and ok: "tee_mm_alloc (Some p) n (Some a) = Ret (Some q, Some x)"
  shows "\<exists>q'. tee_mm_free (Some q) (Some (me_addr x)) = Ret (Some q') \<and>
    mm_entries q' = mm_entries p"
proof -
  from ok have q: "q = update_max_allocated (tee_mm_add p (mm_slot p n) (mm_place p n a))"
      and x: "x = mm_place p n a" "\<exists>g \<in> set (mm_gaps p). unat n \<le> g * 2 ^ mm_sh p"
    by (auto simp: tee_mm_alloc_eq [OF inv] split: if_splits)
  have es: "mm_entries q = insert_after (mm_slot p n) x (mm_entries p)" by (simp add: q x(1))
  have a: "me_addr x = a" by (simp add: x(1) mm_place_def Let_def)
  have "mm_inv q" using tee_mm_alloc_new [OF inv fresh x(2)] ok by auto
  moreover have "a \<in> me_addr ` set (tl (mm_entries q))"
  proof -
    have "x \<in> set (mm_entries q)" "hd (mm_entries q) = hd (mm_entries p)" "mm_entries q \<noteq> []"
      using inv by (simp_all add: es mm_inv_def)
    moreover have "me_addr (hd (mm_entries p)) \<noteq> a" using fresh inv by (force simp: mm_inv_def)
    ultimately show ?thesis using a by (metis hd_Cons_tl imageI set_ConsD)
  qed
  ultimately obtain q' where "tee_mm_free (Some q) (Some a) = Ret (Some q')"
      "mm_entries q' = filter (\<lambda>e. me_addr e \<noteq> a) (mm_entries q)"
    using mm_free_filter by blast
  moreover have "filter (\<lambda>e. me_addr e \<noteq> a) (mm_entries q) = mm_entries p"
    using fresh a unfolding es by (intro filter_insert_after) (auto dest: rev_image_eqI [OF _ sym])
  ultimately show ?thesis by (simp add: a)
qed

theorem tee_mm_alloc_free_roundtrip_witness:
  "\<exists>q x q'. tee_mm_alloc (Some mm_example) 0x800 (Some 3) = Ret (Some q, Some x) \<and>
     tee_mm_free (Some q) (Some (me_addr x)) = Ret (Some q') \<and> mm_entries q' = mm_entries mm_example"
proof -
  have fresh: "3 \<notin> me_addr ` set (mm_entries mm_example)" by (simp add: mm_example_def)
  have "\<exists>g \<in> set (mm_gaps mm_example). unat (0x800 :: size_t) \<le> g * 2 ^ mm_sh mm_example"
    by (simp add: mm_gaps_def mm_example_def mm_blocks_def mm_bytes_def mm_hi_alloc_def
        TEE_MM_POOL_HI_ALLOC_def)
  then obtain q x where "tee_mm_alloc (Some mm_example) 0x800 (Some 3) = Ret (Some q, Some x)"
    using tee_mm_alloc_new [OF mm_example_inv fresh] by blast
  with tee_mm_alloc_free_roundtrip [OF mm_example_inv fresh this] show ?thesis by blast
qed

subsection \<open>Lookup and initialisation\<close>

lemma mm_find_loop_Some:
  "mm_find_loop off es = Some e \<Longrightarrow>
   e \<in> set es \<and> ucast off \<ge> me_offset e \<and> ucast off < me_offset e + me_size e"
  by (induction off es rule: mm_find_loop.induct) (auto split: if_splits)

lemma mm_find_loop_None:
  "mm_find_loop off es = None \<Longrightarrow> e \<in> set es \<Longrightarrow>
   \<not> (ucast off \<ge> me_offset e \<and> ucast off < me_offset e + me_size e)"
  by (induction off es rule: mm_find_loop.induct) (auto split: if_splits)

text \<open>
  In a pool of at most 65536 blocks \<^verbatim>\<open>tee_mm_find\<close> returns the live entry whose blocks
  contain the address, and NULL exactly when no live entry does.
\<close>

theorem tee_mm_find_correct:
  assumes inv: "mm_inv p" and small: "mm_blocks p \<le> 2 ^ 16"
    and a: "mm_lo p \<le> a" "a < mm_hi p"
  shows "case tee_mm_find p a of
      Some e \<Rightarrow> e \<in> set (tl (mm_entries p)) \<and> me_off e \<le> blk_lo p a \<and> blk_lo p a < me_end e
    | None \<Rightarrow> (\<forall>e \<in> set (tl (mm_entries p)). \<not> (me_off e \<le> blk_lo p a \<and> blk_lo p a < me_end e))"
proof -
  define off where "off = (ucast (drop_bit (mm_sh p) (a - mm_lo p)) :: u16)"
  have g: "mm_geom p" using inv by (simp add: mm_inv_def)
  have "unat a - unat (mm_lo p) < mm_blocks p * 2 ^ mm_sh p"
    using a g by (auto simp: mm_geom_def mm_bytes_def word_le_nat_alt word_less_nat_alt)
  then have b: "blk_lo p a < mm_blocks p"
    by (simp add: blk_lo_def div_less_iff_less_mult)
  have "unat (drop_bit (mm_sh p) (a - mm_lo p)) = blk_lo p a"
    using a by (simp add: unat_drop_bit_div unat_sub_no_wrap word_le_nat_alt blk_lo_def)
  then have off: "unat off = blk_lo p a"
    using b small by (simp add: off_def unat_ucast_no_trunc)
  then have off32: "unat (ucast off :: u32) = blk_lo p a"
    using unat_lt2p [of off] by (simp add: unat_ucast_no_trunc)
  have end_u: "unat (me_offset e + me_size e) = me_end e" if "e \<in> set (tl (mm_entries p))" for e
    using mm_entry_bounds [OF inv list.set_sel(2) [OF _ that]] blocks_less [OF g] inv
    by (intro unat_add_no_wrap) (auto simp: mm_inv_def)
  have find: "tee_mm_find p a = mm_find_loop off (tl (mm_entries p))"
    using a by (auto simp: tee_mm_find_def off_def Let_def)
  show ?thesis
  proof (cases "tee_mm_find p a")
    case (Some e)
    then have "mm_find_loop off (tl (mm_entries p)) = Some e" using find by simp
    from mm_find_loop_Some [OF this] off32 end_u [of e] Some show ?thesis
      by (simp add: word_le_nat_alt word_less_nat_alt)
  next
    case None
    then have "mm_find_loop off (tl (mm_entries p)) = None" using find by simp
    from mm_find_loop_None [OF this] off32 end_u None show ?thesis
      by (auto simp: word_le_nat_alt word_less_nat_alt)
  qed
qed

theorem tee_mm_find_correct_witness: "\<exists>e. tee_mm_find mm_example 0x11234 = Some e \<and> me_addr e = 2"
proof -
  have *: "mm_blocks mm_example \<le> 2 ^ 16" "mm_lo mm_example \<le> 0x11234" "0x11234 < mm_hi mm_example"
    by (simp_all add: mm_example_def mm_blocks_def mm_bytes_def word_le_nat_alt word_less_nat_alt)
  show ?thesis
    using tee_mm_find_correct [OF mm_example_inv *]
    by (auto simp: mm_example_def blk_lo_def split: option.splits)
qed

text \<open>
  The 16-bit block offset of \<^verbatim>\<open>tee_mm_find\<close> is too narrow for larger pools: in a 512 MiB
  pool of 4 KiB blocks (tens of thousands more than 65536 blocks) an address inside a live
  entry is reported as not allocated.
\<close>

theorem tee_mm_find_truncates:
  "\<exists>p a e. mm_inv p \<and> mm_lo p \<le> a \<and> a < mm_hi p \<and> e \<in> set (tl (mm_entries p)) \<and>
     me_off e \<le> blk_lo p a \<and> blk_lo p a < me_end e \<and> tee_mm_find p a = None"
proof -
  let ?e = "\<lparr>me_addr = 2, me_offset = 0x10000, me_size = 1\<rparr> :: tee_mm_entry"
  let ?p = "\<lparr>mm_entries = [\<lparr>me_addr = 1, me_offset = 0, me_size = 0\<rparr>, ?e],
     mm_lo = 0x40000000, mm_hi = 0x60000000, mm_flags = 0, mm_shift = 12, mm_max_allocated = 0\<rparr>
     :: tee_mm_pool"
  have "mm_inv ?p"
    by (simp add: mm_inv_def mm_geom_def mm_bytes_def mm_blocks_def mm_hi_alloc_def TEE_MM_POOL_HI_ALLOC_def)
  moreover have "mm_lo ?p \<le> 0x50000000" "0x50000000 < mm_hi ?p"
    by (simp_all add: word_le_nat_alt word_less_nat_alt)
  moreover have "blk_lo ?p 0x50000000 = 0x10000" by (simp add: blk_lo_def)
  moreover have "tee_mm_find ?p 0x50000000 = None"
    by (simp add: tee_mm_find_def word_less_nat_alt word_le_nat_alt Let_def unat_ucast_mod)
  ultimately show ?thesis
    by (intro exI [of _ ?p] exI [of _ "0x50000000"] exI [of _ ?e]) simp
qed

lemma ROUNDDOWN_div: "unat (ROUNDDOWN v (push_bit k 1)) = unat v div 2 ^ k * 2 ^ k"
proof -
  have "ROUNDDOWN v (push_bit k 1) = v AND NOT (mask k)"
    by (simp add: ROUNDDOWN_def mask_eq_exp_minus_1 push_bit_of_1)
  also have "\<dots> = push_bit k (drop_bit k v)"
    by (rule bit_word_eqI) (auto simp: bit_simps)
  finally have eq: "ROUNDDOWN v (push_bit k 1) = push_bit k (drop_bit k v)" .
  have "unat v div 2 ^ k * 2 ^ k \<le> unat v" by simp
  then have "unat v div 2 ^ k * 2 ^ k < 2 ^ LENGTH(64)" using unat_lt2p [of v] by linarith
  then show ?thesis unfolding eq by (simp add: unat_push_bit_no_wrap unat_drop_bit_div)
qed

lemma ROUNDUP_div:
  assumes "k < 64" and "unat v + 2 ^ k \<le> 2 ^ 64"
  shows "unat (ROUNDUP v (push_bit k 1)) = (unat v + 2 ^ k - 1) div 2 ^ k * 2 ^ k"
proof -
  have p: "unat (push_bit k 1 :: paddr_t) = 2 ^ k"
    using unat_push_bit_no_wrap [of "1 :: paddr_t" k] power_strict_increasing [OF assms(1), of "2 :: nat"]
    by simp
  then have m: "unat (push_bit k 1 - 1 :: paddr_t) = 2 ^ k - 1" by (subst unat_sub_no_wrap) auto
  have one: "(1 :: nat) \<le> 2 ^ k" by simp
  have s: "unat (v + (push_bit k 1 - 1)) = unat v + 2 ^ k - 1"
    using assms(2) m one by (subst unat_add_no_wrap) auto
  have "ROUNDUP v (push_bit k 1) = ROUNDDOWN (v + (push_bit k 1 - 1)) (push_bit k 1)"
    by (simp add: ROUNDUP_def ROUNDDOWN_def)
  then show ?thesis by (simp only: ROUNDDOWN_div s)
qed

text \<open>
  \<^verbatim>\<open>tee_mm_init\<close> with a sentinel, for bounds that leave at least one block and less than
  4 GiB after rounding inwards: the pool satisfies the invariant, is empty, and its bounds
  are whole blocks inside the ones given.
\<close>

theorem tee_mm_init_correct:
  assumes sh: "unat shift < 31" and nowrap: "unat lo + 2 ^ unat shift \<le> 2 ^ 64"
    and l: "l = (unat lo + 2 ^ unat shift - 1) div 2 ^ unat shift * 2 ^ unat shift"
    and h: "h = unat hi div 2 ^ unat shift * 2 ^ unat shift"
    and room: "l < h" "h - l < 2 ^ 32 - 1"
  shows "\<exists>q. tee_mm_init (Some p) lo hi shift flags (Some a) = Ret (Some q, True) \<and> mm_inv q \<and>
    tee_mm_is_empty (Some q) \<and> unat (mm_lo q) = l \<and> unat (mm_hi q) = h \<and>
    unat lo \<le> l \<and> h \<le> unat hi"
proof -
  let ?m = "2 ^ unat shift :: nat"
  define L where "L = ROUNDUP lo (push_bit (unat shift) 1)"
  define H where "H = ROUNDDOWN hi (push_bit (unat shift) 1)"
  have L: "unat L = l" unfolding L_def l by (rule ROUNDUP_div [OF _ nowrap]) (use sh in simp)
  have H: "unat H = h" unfolding H_def h by (rule ROUNDDOWN_div)
  obtain k where k: "h - l = k * ?m"
    using l h by (metis diff_mult_distrib)
  have kpos: "0 < k" using room(1) k by (cases k) auto
  have km: "k * ?m < 2 ^ 32 - 1" and k32: "k < 2 ^ 32 - 1"
    using k room(2) le_less_trans [of k "k * ?m"] by auto
  have HL: "unat (H - L) = k * ?m" using L H room(1) k by (simp add: unat_sub_no_wrap)
  then have dHL: "unat (drop_bit (unat shift) (H - L)) = k" by (simp add: unat_drop_bit_div)
  have HL1: "unat (H - L - 1) = k * ?m - 1" using HL kpos by (subst unat_sub_no_wrap) auto
  have "(k * ?m - 1) div ?m = k - 1"
  proof -
    obtain j where j: "k = Suc j" using kpos by (cases k) auto
    have "k * ?m - 1 = (?m - 1) + j * ?m" by (simp add: j)
    also have "\<dots> div ?m = j" by (subst div_mult_self1) auto
    finally show ?thesis by (simp add: j)
  qed
  then have "unat (drop_bit (unat shift) (H - L - 1) + 1) = k"
    using kpos k32 by (subst unat_add_no_wrap) (simp_all add: unat_drop_bit_div HL1)
  then have off: "unat (ucast (drop_bit (unat shift) (H - L - 1) + 1) :: u32) = k"
    using k32 by (simp add: unat_ucast_no_trunc)
  define off0 where "off0 = (if flags AND TEE_MM_POOL_HI_ALLOC \<noteq> 0
      then ucast (drop_bit (unat shift) (H - L - 1) + 1) else 0 :: u32)"
  define q where "q = p\<lparr>mm_lo := L, mm_hi := H, mm_shift := shift, mm_flags := flags,
      mm_entries := [\<lparr>me_addr = a, me_offset = off0, me_size = 0\<rparr>]\<rparr>"
  have init: "tee_mm_init (Some p) lo hi shift flags (Some a) = Ret (Some q, True)"
    using dHL k32
    by (simp add: tee_mm_init_def Let_def L_def [symmetric] H_def [symmetric] word_less_nat_alt
        q_def off0_def del: push_bit_of_1)
  have q: "mm_lo q = L" "mm_hi q = H" "mm_shift q = shift" "mm_flags q = flags"
      "mm_entries q = [\<lparr>me_addr = a, me_offset = off0, me_size = 0\<rparr>]"
    by (simp_all add: q_def)
  have bl: "mm_bytes q = k * ?m" "mm_blocks q = k"
    using k L H by (simp_all add: mm_blocks_def mm_bytes_def q)
  have "mm_geom q" using sh room bl km L H by (simp add: mm_geom_def q)
  then have "mm_inv q"
    using off by (simp add: mm_inv_def bl q mm_hi_alloc_def off0_def)
  moreover have "unat lo \<le> l"
  proof -
    have "unat lo + ?m - 1 < ((unat lo + ?m - 1) div ?m) * ?m + ?m"
      using dividend_less_div_times [of ?m "unat lo + ?m - 1"] by (simp add: add.commute)
    then show ?thesis by (simp add: l)
  qed
  moreover have "h \<le> unat hi" by (simp add: h)
  ultimately show ?thesis
    using init L H by (intro exI [of _ q]) (simp add: q tee_mm_is_empty_def)
qed

theorem tee_mm_init_correct_witness:
  "\<exists>q. tee_mm_init (Some mm_example) 0x10001 0x20fff 12 1 (Some 9) = Ret (Some q, True) \<and> mm_inv q \<and>
     unat (mm_lo q) = 0x11000 \<and> unat (mm_hi q) = 0x20000"
  using tee_mm_init_correct [of 12 "0x10001" "0x11000" "0x20000" "0x20fff" mm_example 1 9] by auto

lemma mm_final_loop_ok: "mm_inv p \<Longrightarrow> \<exists>q. mm_final_loop p = Ret q"
proof (induction "length (mm_entries p)" arbitrary: p rule: less_induct)
  case less
  show ?case
  proof (cases "\<exists>e n es. mm_entries p = e # n # es")
    case True
    then obtain e n es where es: "mm_entries p = e # n # es" by blast
    then have "me_addr n \<in> me_addr ` set (tl (mm_entries p))" by simp
    from mm_free_filter [OF less.prems this] obtain q where q:
      "tee_mm_free (Some p) (Some (me_addr n)) = Ret (Some q)" "mm_inv q"
      "mm_entries q = filter (\<lambda>e. me_addr e \<noteq> me_addr n) (mm_entries p)" by blast
    have "length (mm_entries q) < length (mm_entries p)"
      unfolding q(3) by (rule length_filter_less [of n]) (use es in auto)
    from less.hyps [OF this q(2)] show ?thesis
      using es q(1) by (simp add: mm_final_loop.simps [of p])
  next
    case False
    then have "mm_final_loop p = Ret p"
      by (subst mm_final_loop.simps) (auto split: list.splits)
    then show ?thesis by blast
  qed
qed

text \<open>
  \<^verbatim>\<open>tee_mm_final\<close> on an initialised pool returns (it neither panics nor loops), having
  unlinked every entry and the sentinel.
\<close>

theorem tee_mm_final_correct:
  assumes "mm_inv p"
  shows "\<exists>q. tee_mm_final (Some p) = Ret (Some q) \<and> mm_entries q = []"
  using mm_final_loop_ok [OF assms] assms by (auto simp: tee_mm_final_def mm_inv_def)

theorem tee_mm_final_correct_witness:
  "\<exists>q. tee_mm_final (Some mm_example) = Ret (Some q) \<and> mm_entries q = []"
  using tee_mm_final_correct [OF mm_example_inv] by blast


end
