(* ===== verification/Wait_Queue.thy ===== *)
theory Wait_Queue
  imports Prelude
begin

text \<open>
  The wait queues of \<^verbatim>\<open>core/arch/arm/kernel/wait_queue.c\<close>. A queue is the list of the
  elements linked in it; a thread has at most one element (it lives on its stack while the
  thread waits), so the element's handle, the thread identifier, also names the element.
  Each function below is one section under \<^verbatim>\<open>wq_spin_lock\<close>; the sleep and wake-up calls to
  the normal world between such sections are the points where threads interleave.
\<close>

type_synonym thread_id = nat

record wait_queue_elem =
  wqe_handle :: thread_id
  wqe_done :: bool
  wqe_wait_read :: bool
  wqe_cv :: "addr option"

type_synonym wait_queue = "wait_queue_elem list"

definition wq_init :: wait_queue where
  "wq_init = []"

text \<open>Walking to the last element before linking behind it.\<close>

fun slist_add_tail :: "wait_queue \<Rightarrow> wait_queue_elem \<Rightarrow> wait_queue" where
  "slist_add_tail [] wqe = [wqe]"
| "slist_add_tail [x] wqe = [x, wqe]"
| "slist_add_tail (x # y # xs) wqe = x # slist_add_tail (y # xs) wqe"

definition wq_wait_init_condvar ::
    "wait_queue \<Rightarrow> thread_id \<Rightarrow> addr option \<Rightarrow> bool \<Rightarrow> wait_queue" where
  "wq_wait_init_condvar wq t cv wait_read =
     slist_add_tail wq \<lparr>wqe_handle = t, wqe_done = False, wqe_wait_read = wait_read, wqe_cv = cv\<rparr>"

definition wq_wait_init :: "wait_queue \<Rightarrow> thread_id \<Rightarrow> bool \<Rightarrow> wait_queue" where
  "wq_wait_init wq t wait_read = wq_wait_init_condvar wq t None wait_read"

text \<open>
  One round of the loop of \<^verbatim>\<open>wq_wait_final\<close> after the sleep call returned: the element is
  unlinked once it is done. The result says whether the loop ends.
\<close>

definition wq_wait_final :: "wait_queue \<Rightarrow> thread_id \<Rightarrow> wait_queue \<times> bool" where
  "wq_wait_final wq t =
     (if \<exists>wqe \<in> set wq. wqe_handle wqe = t \<and> wqe_done wqe
      then (filter (\<lambda>wqe. wqe_handle wqe \<noteq> t) wq, True) else (wq, False))"

text \<open>
  One round of \<^verbatim>\<open>wq_wake_next\<close>: the scan for the first element that waits, is not a condvar
  waiter and has the wake type, which the first such element fixes. The result is the new
  queue, the type (\<open>None\<close> while unassigned) and the handle to wake up.
\<close>

fun wq_wake_scan :: "bool option \<Rightarrow> wait_queue \<Rightarrow> wait_queue \<times> bool option \<times> thread_id option" where
  "wq_wake_scan ty [] = ([], ty, None)"
| "wq_wake_scan ty (wqe # wq) =
     (if wqe_cv wqe \<noteq> None \<or> wqe_done wqe
      then (case wq_wake_scan ty wq of (wq', ty', h) \<Rightarrow> (wqe # wq', ty', h))
      else let wake_read = (case ty of None \<Rightarrow> wqe_wait_read wqe | Some r \<Rightarrow> r) in
        if wqe_wait_read wqe \<noteq> wake_read
        then (case wq_wake_scan (Some wake_read) wq of (wq', ty', h) \<Rightarrow> (wqe # wq', ty', h))
        else (wqe\<lparr>wqe_done := True\<rparr> # wq, Some wake_read, Some (wqe_handle wqe)))"

text \<open>
  The whole loop when no other thread interferes: after waking a writer it stops, after a
  reader it goes on with the next reader. The result lists the threads woken.
\<close>

lemma wq_wake_scan_waiting:
  "wq_wake_scan ty wq = (wq', ty', Some h) \<Longrightarrow>
   length (filter (\<lambda>w. \<not> wqe_done w) wq) = Suc (length (filter (\<lambda>w. \<not> wqe_done w) wq'))"
  by (induction ty wq arbitrary: wq' rule: wq_wake_scan.induct)
    (auto simp: Let_def split: if_splits prod.splits)

function wq_wake_loop :: "bool option \<Rightarrow> wait_queue \<Rightarrow> wait_queue \<times> thread_id list" where
  "wq_wake_loop ty wq =
     (case wq_wake_scan ty wq of
        (wq', ty', None) \<Rightarrow> (wq', [])
      | (wq', ty', Some h) \<Rightarrow>
          if ty' = Some True
          then (case wq_wake_loop ty' wq' of (wq'', hs) \<Rightarrow> (wq'', h # hs))
          else (wq', [h]))"
  by pat_completeness auto
termination
  by (relation "measure (\<lambda>(ty, wq). length (filter (\<lambda>w. \<not> wqe_done w) wq))")
    (auto dest!: wq_wake_scan_waiting [OF sym])

declare wq_wake_loop.simps [simp del]

definition wq_wake_next :: "wait_queue \<Rightarrow> wait_queue \<times> thread_id list" where
  "wq_wake_next wq = wq_wake_loop None wq"

fun wq_promote_loop :: "addr \<Rightarrow> bool \<Rightarrow> wait_queue \<Rightarrow> wait_queue" where
  "wq_promote_loop cv only_one [] = []"
| "wq_promote_loop cv only_one (wqe # wq) =
     (if wqe_cv wqe = Some cv
      then wqe\<lparr>wqe_cv := None\<rparr> # (if only_one then wq else wq_promote_loop cv only_one wq)
      else wqe # wq_promote_loop cv only_one wq)"

definition wq_promote_condvar :: "wait_queue \<Rightarrow> addr option \<Rightarrow> bool \<Rightarrow> wait_queue" where
  "wq_promote_condvar wq cv only_one =
     (case cv of None \<Rightarrow> wq | Some c \<Rightarrow> wq_promote_loop c only_one wq)"

definition wq_have_condvar :: "wait_queue \<Rightarrow> addr option \<Rightarrow> bool" where
  "wq_have_condvar wq cv \<longleftrightarrow> (\<exists>wqe \<in> set wq. wqe_cv wqe = cv)"

definition wq_is_empty :: "wait_queue \<Rightarrow> bool" where
  "wq_is_empty wq \<longleftrightarrow> wq = []"

section \<open>Lemmas\<close>

text \<open>An element that a wake-up may pick.\<close>

definition wq_eligible :: "wait_queue_elem \<Rightarrow> bool" where
  "wq_eligible w \<longleftrightarrow> wqe_cv w = None \<and> \<not> wqe_done w"

lemma slist_add_tail_append [simp]: "slist_add_tail wq w = wq @ [w]"
  by (induction wq w rule: slist_add_tail.induct) auto

lemma wq_wait_init_condvar_append:
  "wq_wait_init_condvar wq t cv r =
   wq @ [\<lparr>wqe_handle = t, wqe_done = False, wqe_wait_read = r, wqe_cv = cv\<rparr>]"
  by (simp add: wq_wait_init_condvar_def)

text \<open>The scan marks the first eligible element of the type, if there is one.\<close>

definition wq_matches :: "bool option \<Rightarrow> wait_queue_elem \<Rightarrow> bool" where
  "wq_matches ty w \<longleftrightarrow> wq_eligible w \<and> (\<forall>r. ty = Some r \<longrightarrow> wqe_wait_read w = r)"

lemma wq_wake_scan_None:
  "wq_wake_scan ty wq = (wq', ty', None) \<Longrightarrow> wq' = wq \<and> (\<forall>w \<in> set wq. \<not> wq_matches ty w)"
proof (induction ty wq arbitrary: wq' ty' rule: wq_wake_scan.induct)
  case (2 ty w wq)
  then show ?case
    by (cases ty) (auto simp: wq_matches_def wq_eligible_def Let_def split: if_splits prod.splits)
qed simp

lemma wq_wake_scan_Some:
  "wq_wake_scan ty wq = (wq', ty', Some h) \<Longrightarrow>
   \<exists>xs w ys. wq = xs @ w # ys \<and> wq' = xs @ w\<lparr>wqe_done := True\<rparr> # ys \<and> wqe_handle w = h \<and>
     wq_matches ty w \<and> ty' = Some (wqe_wait_read w) \<and> (\<forall>x \<in> set xs. \<not> wq_matches ty x)"
proof (induction ty wq arbitrary: wq' ty' rule: wq_wake_scan.induct)
  case (2 ty w wq)
  show ?case
  proof (cases "wq_matches ty w")
    case True
    with "2.prems" have "wq' = w\<lparr>wqe_done := True\<rparr> # wq" "ty' = Some (wqe_wait_read w)" "wqe_handle w = h"
      by (cases ty; auto simp: wq_matches_def wq_eligible_def Let_def split: if_splits)+
    with True show ?thesis by (intro exI [of _ "[]"] exI [of _ w] exI [of _ wq]) simp
  next
    case False
    then obtain wq1 where s: "wq_wake_scan ty wq = (wq1, ty', Some h)" "wq' = w # wq1"
      using "2.prems"
      by (cases ty) (auto simp: wq_matches_def wq_eligible_def Let_def split: if_splits prod.splits)
    have "\<exists>xs v ys. wq = xs @ v # ys \<and> wq1 = xs @ v\<lparr>wqe_done := True\<rparr> # ys \<and> wqe_handle v = h \<and>
       wq_matches ty v \<and> ty' = Some (wqe_wait_read v) \<and> (\<forall>x \<in> set xs. \<not> wq_matches ty x)"
    proof (cases "wqe_cv w \<noteq> None \<or> wqe_done w")
      case True
      show ?thesis by (rule "2.IH"(1) [OF True s(1)])
    next
      case ne: False
      with False obtain r where ty: "ty = Some r" "wqe_wait_read w \<noteq> r"
        by (auto simp: wq_matches_def wq_eligible_def)
      from "2.IH"(2) [OF ne refl] ty s(1) show ?thesis by simp
    qed
    then obtain xs v ys where "wq = xs @ v # ys \<and> wq1 = xs @ v\<lparr>wqe_done := True\<rparr> # ys \<and> wqe_handle v = h \<and>
       wq_matches ty v \<and> ty' = Some (wqe_wait_read v) \<and> (\<forall>x \<in> set xs. \<not> wq_matches ty x)" by blast
    with False s(2) show ?thesis by (intro exI [of _ "w # xs"] exI [of _ v] exI [of _ ys]) auto
  qed
qed simp

text \<open>Waking with the type fixed to readers marks and reports every eligible reader.\<close>

definition wq_mark :: "(wait_queue_elem \<Rightarrow> bool) \<Rightarrow> wait_queue \<Rightarrow> wait_queue" where
  "wq_mark P wq = map (\<lambda>w. if P w then w\<lparr>wqe_done := True\<rparr> else w) wq"

lemma wq_mark_none: "(\<And>w. w \<in> set wq \<Longrightarrow> \<not> P w) \<Longrightarrow> wq_mark P wq = wq"
  by (simp add: wq_mark_def map_idI)

lemma wq_wake_loop_readers:
  "wq_wake_loop (Some True) wq =
   (wq_mark (wq_matches (Some True)) wq, map wqe_handle (filter (wq_matches (Some True)) wq))"
proof (induction "length (filter (\<lambda>w. \<not> wqe_done w) wq)" arbitrary: wq rule: less_induct)
  case less
  obtain wq' ty' h where s: "wq_wake_scan (Some True) wq = (wq', ty', h)" by (metis prod_cases3)
  show ?case
  proof (cases h)
    case None
    with wq_wake_scan_None [of "Some True" wq wq' ty'] s
    have "wq' = wq" and no: "\<forall>w \<in> set wq. \<not> wq_matches (Some True) w" by auto
    with s None show ?thesis
      by (simp add: wq_wake_loop.simps [of "Some True" wq] wq_mark_none filter_empty_conv)
  next
    case (Some t)
    from wq_wake_scan_Some [of "Some True" wq wq' ty' t] s Some obtain xs w ys where
      w: "wq = xs @ w # ys" "wq' = xs @ w\<lparr>wqe_done := True\<rparr> # ys" "wqe_handle w = t"
        "wq_matches (Some True) w" "ty' = Some True" "\<forall>x \<in> set xs. \<not> wq_matches (Some True) x"
      by (auto simp: wq_matches_def)
    have "length (filter (\<lambda>w. \<not> wqe_done w) wq') < length (filter (\<lambda>w. \<not> wqe_done w) wq)"
      using w(4) by (simp add: w(1,2) wq_matches_def wq_eligible_def)
    from less.hyps [OF this] have IH: "wq_wake_loop (Some True) wq' =
      (wq_mark (wq_matches (Some True)) wq', map wqe_handle (filter (wq_matches (Some True)) wq'))" .
    have nd: "\<not> wq_matches (Some True) (w\<lparr>wqe_done := True\<rparr>)" by (simp add: wq_matches_def wq_eligible_def)
    have "wq_mark (wq_matches (Some True)) wq' = wq_mark (wq_matches (Some True)) wq"
      using w(4) nd by (simp add: w(1,2) wq_mark_def)
    moreover have "filter (wq_matches (Some True)) wq = w # filter (wq_matches (Some True)) wq'"
      using w(4,6) nd by (simp add: w(1,2) filter_empty_conv)
    ultimately show ?thesis
      using s Some w(3,5) IH by (simp add: wq_wake_loop.simps [of "Some True" wq])
  qed
qed

section \<open>Properties\<close>

text \<open>
  \<^verbatim>\<open>wq_wake_next\<close> on a queue: the first element that waits and is not a condvar waiter
  decides. If it waits to write it alone is woken; if it waits to read, all waiting readers
  are woken in queue order. The woken elements are marked done and nothing else changes; with
  no such element nobody is woken.
\<close>

theorem wq_wake_next_spec:
  "wq_wake_next wq =
     (case filter wq_eligible wq of
        [] \<Rightarrow> (wq, [])
      | w # _ \<Rightarrow>
          if wqe_wait_read w
          then (wq_mark (\<lambda>x. wq_eligible x \<and> wqe_wait_read x) wq,
                map wqe_handle (filter (\<lambda>x. wq_eligible x \<and> wqe_wait_read x) wq))
          else ((takeWhile (\<lambda>x. \<not> wq_eligible x) wq) @ w\<lparr>wqe_done := True\<rparr> #
                  tl (dropWhile (\<lambda>x. \<not> wq_eligible x) wq), [wqe_handle w]))"
proof -
  obtain wq' ty' h where s: "wq_wake_scan None wq = (wq', ty', h)" by (metis prod_cases3)
  have m: "wq_matches None = wq_eligible" by (auto simp: fun_eq_iff wq_matches_def)
  have mr: "wq_matches (Some True) = (\<lambda>x. wq_eligible x \<and> wqe_wait_read x)"
    by (auto simp: fun_eq_iff wq_matches_def)
  show ?thesis
  proof (cases h)
    case None
    with wq_wake_scan_None [of None wq wq' ty'] s have "wq' = wq" "filter wq_eligible wq = []"
      by (auto simp: m filter_empty_conv)
    with s None show ?thesis
      by (simp add: wq_wake_next_def wq_wake_loop.simps [of None wq])
  next
    case (Some t)
    from wq_wake_scan_Some [of None wq wq' ty' t] s Some obtain xs w ys where
      w: "wq = xs @ w # ys" "wq' = xs @ w\<lparr>wqe_done := True\<rparr> # ys" "wqe_handle w = t"
        "wq_eligible w" "ty' = Some (wqe_wait_read w)" "\<forall>x \<in> set xs. \<not> wq_eligible x"
      by (auto simp: m)
    have f: "filter wq_eligible wq = w # filter wq_eligible ys"
      using w(4,6) by (simp add: w(1) filter_empty_conv)
    have nd: "\<not> wq_eligible (w\<lparr>wqe_done := True\<rparr>)" by (simp add: wq_eligible_def)
    show ?thesis
    proof (cases "wqe_wait_read w")
      case True
      have "wq_mark (wq_matches (Some True)) wq' = wq_mark (wq_matches (Some True)) wq"
        using w(4) nd True by (simp add: w(1,2) wq_mark_def mr)
      moreover have "filter (wq_matches (Some True)) wq = w # filter (wq_matches (Some True)) wq'"
        using w(4,6) nd True by (simp add: w(1,2) mr filter_empty_conv)
      ultimately show ?thesis
        using s Some w(3,5) True f
        by (simp add: wq_wake_next_def wq_wake_loop.simps [of None wq] wq_wake_loop_readers flip: mr)
    next
      case False
      have "takeWhile (\<lambda>x. \<not> wq_eligible x) wq = xs" "dropWhile (\<lambda>x. \<not> wq_eligible x) wq = w # ys"
        using w(4,6) by (simp_all add: w(1) takeWhile_append2 dropWhile_append2)
      moreover have "wq_wake_loop None wq = (wq', [t])"
        using s Some w(5) False by (simp add: wq_wake_loop.simps [of None wq])
      ultimately show ?thesis using w(2,3) False f by (simp add: wq_wake_next_def)
    qed
  qed
qed

end
