(* ===== verification/Mutex.thy ===== *)
theory Mutex
  imports Wait_Queue
begin

text \<open>
  Mutexes, read/write locking and condition variables of \<^verbatim>\<open>core/arch/arm/kernel/mutex.c\<close>. Each
  definition is the part of a function that runs under the mutex's spin lock, with where the
  thread goes next; \<open>mtx_exec\<close> composes them into the steps of threads that share one mutex.
  The theorems are mutual exclusion of writers against all others, absence of panics, and
  that a free mutex with a waiter always has a wake-up under way.
\<close>

section \<open>State\<close>

text \<open>\<^verbatim>\<open>short state\<close>: -1 write locked, 0 unlocked, positive the number of readers.\<close>

type_synonym cshort = "16 word"

record mutex =
  mtx_state :: cshort
  mtx_wq :: wait_queue

text \<open>
  Where a thread is: outside; at the top of the loop of \<^verbatim>\<open>mutex_lock\<close> (\<open>False\<close>) or
  \<^verbatim>\<open>mutex_read_lock\<close> (\<open>True\<close>); in \<^verbatim>\<open>wq_wait_final\<close>, then to retry for writing or reading; holding
  the lock; or in the loop of \<^verbatim>\<open>wq_wake_next\<close> with its wake type and what follows it.
\<close>

datatype mtx_cont = ToIdle | ToSleep bool

datatype mtx_pc = Idle | TryLock bool | Sleep bool | Held bool | Wake "bool option" mtx_cont

section \<open>Operations\<close>

definition mutex_init :: mutex where
  "mutex_init = \<lparr>mtx_state = 0, mtx_wq = wq_init\<rparr>"

definition mutex_lock :: "thread_id \<Rightarrow> mutex \<Rightarrow> mutex \<times> mtx_pc" where
  "mutex_lock t m =
     (let can_lock = (mtx_state m = 0) in
      if \<not> can_lock then (m\<lparr>mtx_wq := wq_wait_init (mtx_wq m) t False\<rparr>, Sleep False)
      else (m\<lparr>mtx_state := -1\<rparr>, Held False))"

definition mutex_unlock :: "mutex \<Rightarrow> (mutex \<times> mtx_pc) outcome" where
  "mutex_unlock m =
     (if mtx_state m = 0 then Panic else Ret (m\<lparr>mtx_state := 0\<rparr>, Wake None ToIdle))"

definition mutex_trylock :: "mutex \<Rightarrow> mutex \<times> bool" where
  "mutex_trylock m =
     (let can_lock_write = (mtx_state m = 0) in
      (if can_lock_write then m\<lparr>mtx_state := -1\<rparr> else m, can_lock_write))"

definition mutex_read_unlock :: "mutex \<Rightarrow> (mutex \<times> mtx_pc) outcome" where
  "mutex_read_unlock m =
     (if sint (mtx_state m) \<le> 0 then Panic
      else let new_state = mtx_state m - 1 in
        Ret (m\<lparr>mtx_state := new_state\<rparr>, if new_state = 0 then Wake None ToIdle else Idle))"

definition mutex_read_lock :: "thread_id \<Rightarrow> mutex \<Rightarrow> mutex \<times> mtx_pc" where
  "mutex_read_lock t m =
     (let can_lock = (mtx_state m \<noteq> -1) in
      if \<not> can_lock then (m\<lparr>mtx_wq := wq_wait_init (mtx_wq m) t True\<rparr>, Sleep True)
      else (m\<lparr>mtx_state := mtx_state m + 1\<rparr>, Held True))"

definition mutex_read_trylock :: "mutex \<Rightarrow> mutex \<times> bool" where
  "mutex_read_trylock m =
     (let can_lock = (mtx_state m \<noteq> -1) in
      (if can_lock then m\<lparr>mtx_state := mtx_state m + 1\<rparr> else m, can_lock))"

definition mutex_destroy :: "mutex \<Rightarrow> unit outcome" where
  "mutex_destroy m =
     (if mtx_state m \<noteq> 0 then Panic else if \<not> wq_is_empty (mtx_wq m) then Panic else Ret ())"

text \<open>A condition variable is the mutex it is linked to, \<^verbatim>\<open>cv->m\<close>; \<open>cv\<close> is its own address.\<close>

definition condvar_init :: "addr option" where
  "condvar_init = None"

definition condvar_destroy :: "mutex \<Rightarrow> addr \<Rightarrow> addr option \<Rightarrow> addr option outcome" where
  "condvar_destroy m cv cv_m =
     (if cv_m \<noteq> None \<and> wq_have_condvar (mtx_wq m) (Some cv) then Panic else Ret condvar_init)"

definition cv_signal :: "addr \<Rightarrow> addr option \<Rightarrow> bool \<Rightarrow> mutex \<Rightarrow> mutex" where
  "cv_signal cv cv_m only_one m =
     (if cv_m \<noteq> None then m\<lparr>mtx_wq := wq_promote_condvar (mtx_wq m) (Some cv) only_one\<rparr> else m)"

definition condvar_signal :: "addr \<Rightarrow> addr option \<Rightarrow> mutex \<Rightarrow> mutex" where
  "condvar_signal cv cv_m m = cv_signal cv cv_m True m"

definition condvar_broadcast :: "addr \<Rightarrow> addr option \<Rightarrow> mutex \<Rightarrow> mutex" where
  "condvar_broadcast cv cv_m m = cv_signal cv cv_m False m"

text \<open>
  \<^verbatim>\<open>condvar_wait\<close> by thread \<open>t\<close> on the mutex at \<open>m_addr\<close>: the variable is linked, the element
  queued, one lock dropped; after an unlock the next waiter is woken before the thread sleeps.
\<close>

definition condvar_wait :: "thread_id \<Rightarrow> addr \<Rightarrow> addr \<Rightarrow> addr option \<Rightarrow> mutex \<Rightarrow>
    (mutex \<times> addr option \<times> mtx_pc) outcome" where
  "condvar_wait t m_addr cv cv_m m =
     (if cv_m \<noteq> None \<and> cv_m \<noteq> Some m_addr then Panic
      else if mtx_state m = 0 then Panic
      else let old_state = mtx_state m;
               wq = wq_wait_init_condvar (mtx_wq m) t (Some cv) (0 < sint old_state);
               new_state = (if 1 < sint old_state then old_state - 1 else 0);
               again = 0 < sint old_state
           in Ret (\<lparr>mtx_state = new_state, mtx_wq = wq\<rparr>, Some m_addr,
                   if new_state = 0 then Wake None (ToSleep again) else Sleep again))"

section \<open>Threads sharing a mutex\<close>

record mtx_sys =
  sys_m :: mutex
  sys_cv :: "addr \<Rightarrow> addr option"
  sys_pc :: "thread_id \<Rightarrow> mtx_pc"

text \<open>The address of the shared mutex.\<close>

definition sys_addr :: addr where "sys_addr = 0"

datatype mtx_call =
    Lock | Trylock | ReadLock | ReadTrylock | Unlock | ReadUnlock
  | CvWait addr | CvSignal addr | CvBroadcast addr | Run

fun cont_pc :: "mtx_cont \<Rightarrow> mtx_pc" where
  "cont_pc ToIdle = Idle"
| "cont_pc (ToSleep r) = Sleep r"

definition sys_set :: "mtx_sys \<Rightarrow> thread_id \<Rightarrow> mutex \<times> mtx_pc \<Rightarrow> mtx_sys" where
  "sys_set s t mp = s\<lparr>sys_m := fst mp, sys_pc := (sys_pc s)(t := snd mp)\<rparr>"

text \<open>One round of \<^verbatim>\<open>wq_wake_next\<close>, of \<^verbatim>\<open>wq_wait_final\<close>, or of a locking loop.\<close>

fun mtx_run :: "thread_id \<Rightarrow> mutex \<Rightarrow> mtx_pc \<Rightarrow> mutex \<times> mtx_pc" where
  "mtx_run t m (TryLock False) = mutex_lock t m"
| "mtx_run t m (TryLock True) = mutex_read_lock t m"
| "mtx_run t m (Sleep r) =
     (case wq_wait_final (mtx_wq m) t of
        (wq, True) \<Rightarrow> (m\<lparr>mtx_wq := wq\<rparr>, TryLock r)
      | (wq, False) \<Rightarrow> (m\<lparr>mtx_wq := wq\<rparr>, Sleep r))"
| "mtx_run t m (Wake ty c) =
     (case wq_wake_scan ty (mtx_wq m) of
        (wq, ty', None) \<Rightarrow> (m\<lparr>mtx_wq := wq\<rparr>, cont_pc c)
      | (wq, ty', Some h) \<Rightarrow>
          (m\<lparr>mtx_wq := wq\<rparr>, if ty' = Some True then Wake ty' c else cont_pc c))"
| "mtx_run t m pc = (m, pc)"

text \<open>
  A step of thread \<open>t\<close>: a call, made where the API allows it (outside the lock to take it,
  with the lock to release it or to wait; signalling anywhere outside a call), or \<open>Run\<close>, one
  more round of the call the thread is in. \<open>None\<close>: the call is not made in this state.
\<close>

fun mtx_exec :: "mtx_call \<Rightarrow> thread_id \<Rightarrow> mtx_sys \<Rightarrow> mtx_sys outcome option" where
  "mtx_exec Lock t s =
     (if sys_pc s t = Idle then Some (Ret (sys_set s t (sys_m s, TryLock False))) else None)"
| "mtx_exec ReadLock t s =
     (if sys_pc s t = Idle then Some (Ret (sys_set s t (sys_m s, TryLock True))) else None)"
| "mtx_exec Trylock t s =
     (if sys_pc s t = Idle
      then Some (case mutex_trylock (sys_m s) of
             (m, ok) \<Rightarrow> Ret (sys_set s t (m, if ok then Held False else Idle)))
      else None)"
| "mtx_exec ReadTrylock t s =
     (if sys_pc s t = Idle
      then Some (case mutex_read_trylock (sys_m s) of
             (m, ok) \<Rightarrow> Ret (sys_set s t (m, if ok then Held True else Idle)))
      else None)"
| "mtx_exec Unlock t s =
     (if sys_pc s t = Held False
      then Some (bind_outcome (mutex_unlock (sys_m s)) (\<lambda>mp. Ret (sys_set s t mp))) else None)"
| "mtx_exec ReadUnlock t s =
     (if sys_pc s t = Held True
      then Some (bind_outcome (mutex_read_unlock (sys_m s)) (\<lambda>mp. Ret (sys_set s t mp))) else None)"
| "mtx_exec (CvWait cv) t s =
     (if sys_pc s t \<in> {Held False, Held True}
      then Some (bind_outcome (condvar_wait t sys_addr cv (sys_cv s cv) (sys_m s))
             (\<lambda>(m, cvm, pc). Ret ((sys_set s t (m, pc))\<lparr>sys_cv := (sys_cv s)(cv := cvm)\<rparr>)))
      else None)"
| "mtx_exec (CvSignal cv) t s =
     (if sys_pc s t \<in> {Idle, Held False, Held True}
      then Some (Ret (s\<lparr>sys_m := condvar_signal cv (sys_cv s cv) (sys_m s)\<rparr>)) else None)"
| "mtx_exec (CvBroadcast cv) t s =
     (if sys_pc s t \<in> {Idle, Held False, Held True}
      then Some (Ret (s\<lparr>sys_m := condvar_broadcast cv (sys_cv s cv) (sys_m s)\<rparr>)) else None)"
| "mtx_exec Run t s = Some (Ret (sys_set s t (mtx_run t (sys_m s) (sys_pc s t))))"

definition mtx_start :: mtx_sys where
  "mtx_start = \<lparr>sys_m = mutex_init, sys_cv = (\<lambda>_. condvar_init), sys_pc = (\<lambda>_. Idle)\<rparr>"

text \<open>
  The states \<open>n\<close> threads can reach. With \<open>disciplined\<close>, condition variables are signalled only
  by threads that hold the mutex, as every caller in the repository does.
\<close>

definition mtx_disciplined :: "mtx_call \<Rightarrow> mtx_pc \<Rightarrow> bool" where
  "mtx_disciplined c pc \<longleftrightarrow>
     (\<forall>cv. c = CvSignal cv \<or> c = CvBroadcast cv \<longrightarrow> pc \<in> {Held False, Held True})"

inductive mtx_reach :: "bool \<Rightarrow> nat \<Rightarrow> mtx_sys \<Rightarrow> bool" for disciplined n where
  start: "mtx_reach disciplined n mtx_start"
| step: "mtx_reach disciplined n s \<Longrightarrow> t < n \<Longrightarrow> mtx_exec c t s = Some (Ret s') \<Longrightarrow>
    (disciplined \<longrightarrow> mtx_disciplined c (sys_pc s t)) \<Longrightarrow> mtx_reach disciplined n s'"


section \<open>Holders of the lock\<close>

definition holders :: "nat \<Rightarrow> (thread_id \<Rightarrow> mtx_pc) \<Rightarrow> bool \<Rightarrow> thread_id set" where
  "holders n pcs r = {t. t < n \<and> pcs t = Held r}"

definition lock_inv :: "nat \<Rightarrow> mtx_sys \<Rightarrow> bool" where
  "lock_inv n s \<longleftrightarrow> (\<forall>t. n \<le> t \<longrightarrow> sys_pc s t = Idle) \<and>
     (mtx_state (sys_m s) = -1 \<and> card (holders n (sys_pc s) False) = 1 \<and>
        holders n (sys_pc s) True = {} \<or>
      mtx_state (sys_m s) = of_nat (card (holders n (sys_pc s) True)) \<and>
        holders n (sys_pc s) False = {})"

lemma finite_holders [simp]: "finite (holders n pcs r)"
  by (simp add: holders_def)

lemma holders_upd:
  "t < n \<Longrightarrow> holders n (pcs(t := p)) r =
     (if p = Held r then insert t (holders n pcs r) else holders n pcs r - {t})"
  by (auto simp: holders_def)

lemma card_holders_le: "card (holders n pcs r) \<le> n"
  using card_mono [of "{..<n}" "holders n pcs r"] by (auto simp: holders_def)

lemma cshort_half: "(k < 2 ^ (LENGTH(16) - Suc 0)) = (k < (32768 :: nat))"
  by simp

lemma of_nat_cshort:
  assumes "k < 32768"
  shows "unat (of_nat k :: cshort) = k" "sint (of_nat k :: cshort) = int k"
    "(of_nat k :: cshort) \<noteq> -1"
proof -
  show u: "unat (of_nat k :: cshort) = k" using assms by (simp add: unat_of_nat)
  then show i: "sint (of_nat k :: cshort) = int k"
    using sint_nonneg_eq [of "of_nat k :: cshort"] assms
    by (metis of_nat_unat sint_nonneg_iff uint_nonnegative cshort_half)
  show "(of_nat k :: cshort) \<noteq> -1"
  proof
    assume "(of_nat k :: cshort) = -1"
    then have "int k = sint (-1 :: cshort)" using i by simp
    then show False by simp
  qed
qed

text \<open>How the state word moves with what one thread does.\<close>

inductive lock_move :: "cshort \<Rightarrow> mtx_pc \<Rightarrow> cshort \<Rightarrow> mtx_pc \<Rightarrow> bool" where
  stay: "(\<And>r. p \<noteq> Held r) \<Longrightarrow> (\<And>r. p' \<noteq> Held r) \<Longrightarrow> lock_move st p st p'"
| same: "lock_move st p st p"
| wlock: "(\<And>r. p \<noteq> Held r) \<Longrightarrow> lock_move 0 p (-1) (Held False)"
| rlock: "(\<And>r. p \<noteq> Held r) \<Longrightarrow> st \<noteq> -1 \<Longrightarrow> lock_move st p (st + 1) (Held True)"
| wunlock: "(\<And>r. p' \<noteq> Held r) \<Longrightarrow> lock_move st (Held False) 0 p'"
| runlock: "(\<And>r. p' \<noteq> Held r) \<Longrightarrow> lock_move st (Held True) (st - 1) p'"

lemma lock_inv_move:
  assumes "lock_move (mtx_state (sys_m s)) (sys_pc s t) (mtx_state m') p'" "lock_inv n s"
    "t < n" "n < 32768"
  shows "lock_inv n (s\<lparr>sys_m := m', sys_pc := (sys_pc s)(t := p')\<rparr>)"
  using assms(1)
proof (cases rule: lock_move.cases)
  case stay
  then have "t \<notin> holders n (sys_pc s) r" for r by (auto simp: holders_def)
  with stay assms(2,3) show ?thesis by (auto simp: lock_inv_def holders_upd)
next
  case same
  then have "(sys_pc s)(t := p') = sys_pc s" by auto
  with same assms(2) show ?thesis by (simp add: lock_inv_def)
next
  case wlock
  then have t: "t \<notin> holders n (sys_pc s) r" for r by (auto simp: holders_def)
  have c: "card (holders n (sys_pc s) True) < 32768"
    using card_holders_le [of n "sys_pc s" True] assms(4) by simp
  from wlock assms(2) have "holders n (sys_pc s) True = {}" "holders n (sys_pc s) False = {}"
    using of_nat_cshort(1) [OF c] by (auto simp: lock_inv_def)
  with wlock assms(2,3) show ?thesis by (auto simp: lock_inv_def holders_upd)
next
  case rlock
  then have t: "t \<notin> holders n (sys_pc s) r" for r by (auto simp: holders_def)
  from rlock assms(2,3) t show ?thesis by (auto simp: lock_inv_def holders_upd add.commute)
next
  case wunlock
  then have "t \<in> holders n (sys_pc s) False" using assms(3) by (simp add: holders_def)
  with assms(2) have "holders n (sys_pc s) True = {}" "holders n (sys_pc s) False - {t} = {}"
    by (auto simp: lock_inv_def card_1_singleton_iff)
  with wunlock assms(2,3) show ?thesis by (auto simp: lock_inv_def holders_upd)
next
  case runlock
  then have t: "t \<in> holders n (sys_pc s) True" using assms(3) by (simp add: holders_def)
  then have c: "card (holders n (sys_pc s) True) = Suc (card (holders n (sys_pc s) True - {t}))"
    by (intro card.remove) simp_all
  from t assms(2) have "mtx_state (sys_m s) = of_nat (card (holders n (sys_pc s) True))"
    and "holders n (sys_pc s) False = {}" by (auto simp: lock_inv_def)
  then have "mtx_state m' = of_nat (card (holders n (sys_pc s) True - {t}))"
    unfolding runlock(2) c by simp
  with \<open>holders n (sys_pc s) False = {}\<close> assms(2,3) runlock(3) show ?thesis
    by (simp add: lock_inv_def holders_upd)
qed


text \<open>What holders know of the state word.\<close>

lemma lock_inv_held:
  assumes "lock_inv n s" "t < n" "n < 32768" "sys_pc s t = Held r"
  shows "mtx_state (sys_m s) = (if r then of_nat (card (holders n (sys_pc s) True)) else -1)"
    and "sint (mtx_state (sys_m s)) = (if r then int (card (holders n (sys_pc s) True)) else -1)"
    and "0 < card (holders n (sys_pc s) r)"
proof -
  have t: "t \<in> holders n (sys_pc s) r" using assms(2,4) by (simp add: holders_def)
  then show "0 < card (holders n (sys_pc s) r)" by (auto simp: card_gt_0_iff)
  from t assms(1) show *: "mtx_state (sys_m s) =
      (if r then of_nat (card (holders n (sys_pc s) True)) else -1)"
    by (cases r) (auto simp: lock_inv_def)
  have "card (holders n (sys_pc s) True) < 32768"
    using card_holders_le [of n "sys_pc s" True] assms(3) by simp
  with of_nat_cshort(2) show "sint (mtx_state (sys_m s)) =
      (if r then int (card (holders n (sys_pc s) True)) else -1)" by (simp add: *)
qed

lemma mtx_run_move: "mtx_run t m p = (m', p') \<Longrightarrow> lock_move (mtx_state m) p (mtx_state m') p'"
proof (induction t m p rule: mtx_run.induct)
  case (1 t m)
  then show ?case
    by (auto simp: mutex_lock_def Let_def split: if_splits intro: lock_move.intros)
next
  case (2 t m)
  then show ?case
    by (auto simp: mutex_read_lock_def Let_def split: if_splits intro: lock_move.intros)
next
  case (3 t m r)
  then show ?case by (auto split: prod.splits bool.splits intro!: lock_move.stay)
next
  case (4 t m ty c)
  then show ?case
    by (cases c) (auto split: prod.splits option.splits if_splits intro!: lock_move.stay)
qed (auto intro: lock_move.same)

lemma condvar_wait_move:
  assumes "lock_inv n s" "t < n" "n < 32768" "sys_pc s t = Held r" "cv_m \<in> {None, Some a}"
  shows "condvar_wait t a cv cv_m (sys_m s) =
      Ret (\<lparr>mtx_state = (if r then mtx_state (sys_m s) - 1 else 0),
            mtx_wq = wq_wait_init_condvar (mtx_wq (sys_m s)) t (Some cv) r\<rparr>, Some a,
           if r \<and> mtx_state (sys_m s) \<noteq> 1 then Sleep True else Wake None (ToSleep r))"
proof -
  note h = lock_inv_held [OF assms(1-4)]
  have "card (holders n (sys_pc s) True) < 32768"
    using card_holders_le [of n "sys_pc s" True] assms(3) by simp
  note o = of_nat_cshort [OF this]
  show ?thesis
  proof (cases r)
    case True
    let ?k = "card (holders n (sys_pc s) True)"
    have k: "0 < ?k" "mtx_state (sys_m s) = of_nat ?k" "sint (mtx_state (sys_m s)) = int ?k"
      using h True by simp_all
    have nz: "mtx_state (sys_m s) \<noteq> 0" using k(1) o(1) by (metis k(2) unat_0 less_irrefl)
    have one: "mtx_state (sys_m s) = 1 \<longleftrightarrow> ?k = 1" using o(1) k(2) by (metis of_nat_1 unat_1)
    have "\<not> 1 < int ?k \<longleftrightarrow> ?k = 1" using k(1) by auto
    then show ?thesis using True k assms(5) nz one by (auto simp: condvar_wait_def Let_def)
  next
    case False
    with h have "mtx_state (sys_m s) = -1" "sint (mtx_state (sys_m s)) = -1" by simp_all
    then show ?thesis using False assms(5) by (auto simp: condvar_wait_def Let_def)
  qed
qed


section \<open>The queue of the mutex\<close>

text \<open>What a thread waits for: its element is linked from queueing until the wait ends.\<close>

fun pc_wait :: "mtx_pc \<Rightarrow> bool option" where
  "pc_wait (Sleep r) = Some r"
| "pc_wait (Wake ty (ToSleep r)) = Some r"
| "pc_wait pc = None"

definition wq_keys :: "wait_queue \<Rightarrow> (thread_id \<times> bool) list" where
  "wq_keys wq = map (\<lambda>w. (wqe_handle w, wqe_wait_read w)) wq"

definition queue_inv :: "wait_queue \<Rightarrow> (thread_id \<Rightarrow> mtx_pc) \<Rightarrow> bool" where
  "queue_inv wq pcs \<longleftrightarrow> distinct (map fst (wq_keys wq)) \<and>
     (\<forall>t r. pc_wait (pcs t) = Some r \<longleftrightarrow> (t, r) \<in> set (wq_keys wq))"

lemma queue_inv_same:
  "queue_inv wq pcs \<Longrightarrow> wq_keys wq' = wq_keys wq \<Longrightarrow> pc_wait p' = pc_wait (pcs t) \<Longrightarrow>
   queue_inv wq' (pcs(t := p'))"
  by (auto simp: queue_inv_def)

lemma queue_inv_add:
  assumes "queue_inv wq pcs" "pc_wait (pcs t) = None" "pc_wait p' = Some r"
  shows "queue_inv (wq_wait_init_condvar wq t cv r) (pcs(t := p'))"
proof -
  have "(t, r') \<notin> set (wq_keys wq)" for r'
    using assms(1,2) unfolding queue_inv_def by (metis option.distinct(1))
  with assms show ?thesis
    by (auto simp: queue_inv_def wq_wait_init_condvar_append wq_keys_def)
qed

lemma queue_inv_remove:
  assumes "queue_inv wq pcs" "pc_wait p' = None"
  shows "queue_inv (filter (\<lambda>w. wqe_handle w \<noteq> t) wq) (pcs(t := p'))"
proof -
  have k: "wq_keys (filter (\<lambda>w. wqe_handle w \<noteq> t) wq) = filter (\<lambda>k. fst k \<noteq> t) (wq_keys wq)"
    by (induction wq) (auto simp: wq_keys_def)
  have "distinct (map fst (filter (\<lambda>k. fst k \<noteq> t) (wq_keys wq)))"
    using assms(1) by (simp add: queue_inv_def distinct_map_filter)
  with assms show ?thesis by (auto simp: queue_inv_def k)
qed

lemma wq_keys_wake_scan: "wq_wake_scan ty wq = (wq', ty', h) \<Longrightarrow> wq_keys wq' = wq_keys wq"
  by (cases h) (auto simp: wq_keys_def dest!: wq_wake_scan_None wq_wake_scan_Some)

lemma wq_keys_promote [simp]: "wq_keys (wq_promote_loop cv o1 wq) = wq_keys wq"
  by (induction cv o1 wq rule: wq_promote_loop.induct) (auto simp: wq_keys_def)

text \<open>A wake-up is under way whenever the mutex is free and somebody waits for it.\<close>

definition wake_pending :: "mutex \<Rightarrow> (thread_id \<Rightarrow> mtx_pc) \<Rightarrow> bool" where
  "wake_pending m pcs \<longleftrightarrow>
     (\<exists>t. (\<exists>r. pcs t = TryLock r) \<or> (\<exists>c. pcs t = Wake None c)) \<or> (\<exists>w \<in> set (mtx_wq m). wqe_done w)"

definition wake_inv :: "mutex \<Rightarrow> (thread_id \<Rightarrow> mtx_pc) \<Rightarrow> bool" where
  "wake_inv m pcs \<longleftrightarrow>
     (mtx_state m = 0 \<and> (\<exists>w \<in> set (mtx_wq m). wq_eligible w) \<longrightarrow> wake_pending m pcs)"

definition mtx_inv :: "bool \<Rightarrow> nat \<Rightarrow> mtx_sys \<Rightarrow> bool" where
  "mtx_inv d n s \<longleftrightarrow> lock_inv n s \<and> queue_inv (mtx_wq (sys_m s)) (sys_pc s) \<and>
     (\<forall>cv. sys_cv s cv \<in> {None, Some sys_addr}) \<and> (d \<longrightarrow> wake_inv (sys_m s) (sys_pc s))"

lemma mtx_inv_start: "mtx_inv d n mtx_start"
  by (auto simp: mtx_inv_def mtx_start_def lock_inv_def mutex_init_def holders_def queue_inv_def
      wq_init_def wq_keys_def condvar_init_def wake_inv_def)

lemma mtx_inv_stepI:
  assumes "mtx_inv d n s" "t < n" "n < 32768"
    "lock_move (mtx_state (sys_m s)) (sys_pc s t) (mtx_state m') p'"
    "queue_inv (mtx_wq m') ((sys_pc s)(t := p'))"
    "d \<Longrightarrow> wake_inv m' ((sys_pc s)(t := p'))"
    "\<And>cv. cvs cv \<in> {None, Some sys_addr}"
  shows "mtx_inv d n (s\<lparr>sys_m := m', sys_pc := (sys_pc s)(t := p'), sys_cv := cvs\<rparr>)"
  using lock_inv_move [of s t m' p' n] assms by (auto simp: mtx_inv_def lock_inv_def)


section \<open>Every step keeps the invariant\<close>

lemma mtx_run_queue:
  assumes "queue_inv (mtx_wq m) pcs" "mtx_run t m (pcs t) = (m', p')"
  shows "queue_inv (mtx_wq m') (pcs(t := p'))"
proof (cases "pcs t")
  case (TryLock r)
  then show ?thesis
    using assms queue_inv_same [OF assms(1), of "mtx_wq m" p' t]
      queue_inv_add [OF assms(1), of t p' r None]
    by (cases r) (auto simp: mutex_lock_def mutex_read_lock_def wq_wait_init_def Let_def
        split: if_splits)
next
  case (Sleep r)
  then show ?thesis
    using assms queue_inv_same [OF assms(1), of "mtx_wq m" p' t]
      queue_inv_remove [OF assms(1), of p' t]
    by (auto simp: wq_wait_final_def split: if_splits)
next
  case (Wake ty c)
  obtain wq' ty' h where s: "wq_wake_scan ty (mtx_wq m) = (wq', ty', h)" by (metis prod_cases3)
  have "mtx_wq m' = wq'" "pc_wait p' = pc_wait (pcs t)"
    using s assms(2) Wake by (cases c; auto split: option.splits if_splits)+
  with queue_inv_same [OF assms(1) wq_keys_wake_scan [OF s]] show ?thesis by simp
qed (use assms in \<open>auto simp: fun_upd_idem\<close>)

lemma wake_inv_pending: "wake_pending m pcs \<Longrightarrow> wake_inv m pcs"
  by (simp add: wake_inv_def)

lemma wake_inv_locked [simp]: "mtx_state m \<noteq> 0 \<Longrightarrow> wake_inv m pcs"
  by (simp add: wake_inv_def)

lemma wake_pending_upd:
  "wake_pending m pcs \<Longrightarrow> (\<And>r. pcs t \<noteq> TryLock r) \<Longrightarrow> (\<And>c. pcs t \<noteq> Wake None c) \<Longrightarrow>
   wake_pending m (pcs(t := p'))"
  unfolding wake_pending_def by (metis fun_upd_other)

lemma mtx_run_wake:
  assumes "wake_inv m pcs" "mtx_run t m (pcs t) = (m', p')"
  shows "wake_inv m' (pcs(t := p'))"
proof (cases "pcs t")
  case (TryLock r)
  have "mtx_state m + 1 = 0 \<Longrightarrow> mtx_state m = -1" by (simp add: eq_neg_iff_add_eq_0)
  with TryLock assms(2) have "mtx_state m' \<noteq> 0"
    by (cases r) (auto simp: mutex_lock_def mutex_read_lock_def Let_def split: if_splits)
  then show ?thesis by (rule wake_inv_locked)
next
  case (Sleep r)
  show ?thesis
  proof (cases "snd (wq_wait_final (mtx_wq m) t)")
    case True
    with Sleep assms(2) have "p' = TryLock r" by (auto split: prod.splits bool.splits)
    then show ?thesis by (intro wake_inv_pending) (auto simp: wake_pending_def)
  next
    case False
    with Sleep assms(2) have "m' = m" "p' = pcs t" by (auto simp: wq_wait_final_def split: if_splits)
    with assms(1) show ?thesis by simp
  qed
next
  case (Wake ty c)
  obtain wq' ty' h where s: "wq_wake_scan ty (mtx_wq m) = (wq', ty', h)" by (metis prod_cases3)
  show ?thesis
  proof (cases h)
    case None
    with wq_wake_scan_None s have n: "wq' = mtx_wq m" "\<forall>w \<in> set (mtx_wq m). \<not> wq_matches ty w" by auto
    with s None Wake assms(2) have m: "m' = m" "p' = cont_pc c" by auto
    show ?thesis
    proof (cases ty)
      case None
      with n(2) m show ?thesis by (auto simp: wake_inv_def wq_matches_def)
    next
      case (Some r)
      then have "wake_pending m pcs \<Longrightarrow> wake_pending m (pcs(t := p'))"
        using Wake by (auto intro: wake_pending_upd)
      with assms(1) show ?thesis by (auto simp: wake_inv_def m(1))
    qed
  next
    case (Some k)
    with wq_wake_scan_Some s have "\<exists>w \<in> set wq'. wqe_done w" by fastforce
    with s Some Wake assms(2) show ?thesis by (intro wake_inv_pending) (auto simp: wake_pending_def)
  qed
qed (use assms in \<open>auto simp: fun_upd_idem\<close>)


lemma wake_inv_goto [simp]:
  "wake_inv m (pcs(t := TryLock r))" "wake_inv m (pcs(t := Wake None c))"
  by (auto intro!: wake_inv_pending simp: wake_pending_def)

lemma mtx_inv_sys_set:
  assumes "mtx_inv d n s" "t < n" "n < 32768"
    "lock_move (mtx_state (sys_m s)) (sys_pc s t) (mtx_state m') p'"
    "queue_inv (mtx_wq m') ((sys_pc s)(t := p'))"
    "d \<Longrightarrow> wake_inv m' ((sys_pc s)(t := p'))"
  shows "mtx_inv d n (sys_set s t (m', p'))"
  using mtx_inv_stepI [OF assms, of "sys_cv s"] assms(1) by (simp add: sys_set_def mtx_inv_def)

lemma mtx_inv_held_nonzero:
  assumes "mtx_inv d n s" "t < n" "n < 32768" "sys_pc s t = Held r"
  shows "mtx_state (sys_m s) \<noteq> 0" and "r \<Longrightarrow> 0 < sint (mtx_state (sys_m s))"
    and "r \<Longrightarrow> mtx_state (sys_m s) \<noteq> -1"
proof -
  have l: "lock_inv n s" using assms(1) by (simp add: mtx_inv_def)
  note h = lock_inv_held [OF l assms(2-4)]
  show "r \<Longrightarrow> 0 < sint (mtx_state (sys_m s))" using h by simp
  then show "mtx_state (sys_m s) \<noteq> 0" using h(1) by (cases r) auto
  show "r \<Longrightarrow> mtx_state (sys_m s) \<noteq> -1" using h(2) by auto
qed

lemma mtx_inv_acquire:
  assumes i: "mtx_inv d n s" "t < n" "n < 32768" and pc: "sys_pc s t = Idle"
    and e: "mtx_exec c t s = Some r" and c: "c \<in> {Lock, ReadLock, Trylock, ReadTrylock}"
  shows "\<exists>s'. r = Ret s' \<and> mtx_inv d n s'"
proof -
  have q: "queue_inv (mtx_wq (sys_m s)) ((sys_pc s)(t := p))" if "pc_wait p = None" for p
    using i(1) that pc by (intro queue_inv_same) (auto simp: mtx_inv_def)
  have w: "wake_inv (sys_m s) ((sys_pc s)(t := Idle))" if d
    using i(1) that pc by (simp add: mtx_inv_def fun_upd_idem)
  have one: "mtx_state (sys_m s) + 1 = 0 \<longleftrightarrow> mtx_state (sys_m s) = -1"
    by (simp add: eq_neg_iff_add_eq_0)
  show ?thesis
    using c e pc
    by (auto simp: one mutex_trylock_def mutex_read_trylock_def Let_def split: if_splits
        intro!: mtx_inv_sys_set [OF i] q w lock_move.intros)
qed

lemma mtx_inv_release:
  assumes i: "mtx_inv d n s" "t < n" "n < 32768" and pc: "sys_pc s t = Held b"
    and e: "mtx_exec c t s = Some r" and c: "c \<in> {Unlock, ReadUnlock}"
  shows "\<exists>s'. r = Ret s' \<and> mtx_inv d n s'"
proof -
  have q: "queue_inv (mtx_wq (sys_m s)) ((sys_pc s)(t := p))" if "pc_wait p = None" for p
    using i(1) that pc by (intro queue_inv_same) (auto simp: mtx_inv_def)
  have "lock_move (mtx_state (sys_m s)) (sys_pc s t)
      (if b then mtx_state (sys_m s) - 1 else 0) p" if "\<And>r. p \<noteq> Held r" for p
    using that pc by (cases b) (auto intro: lock_move.intros)
  note m = this
  show ?thesis
    using c e pc mtx_inv_held_nonzero [OF i pc] m [of Idle] m [of "Wake None ToIdle"]
    by (auto simp: mutex_unlock_def mutex_read_unlock_def Let_def split: if_splits
        intro!: mtx_inv_sys_set [OF i] q)
qed

lemma mtx_inv_cv_wait:
  assumes i: "mtx_inv d n s" "t < n" "n < 32768" and pc: "sys_pc s t = Held b"
    and e: "mtx_exec (CvWait cv) t s = Some r"
  shows "\<exists>s'. r = Ret s' \<and> mtx_inv d n s'"
proof -
  let ?st = "mtx_state (sys_m s)"
  let ?m = "\<lparr>mtx_state = (if b then ?st - 1 else 0),
            mtx_wq = wq_wait_init_condvar (mtx_wq (sys_m s)) t (Some cv) b\<rparr>"
  let ?p = "if b \<and> ?st \<noteq> 1 then Sleep True else Wake None (ToSleep b)"
  let ?s = "s\<lparr>sys_m := ?m, sys_pc := (sys_pc s)(t := ?p), sys_cv := (sys_cv s)(cv := Some sys_addr)\<rparr>"
  have l: "lock_inv n s" and q: "queue_inv (mtx_wq (sys_m s)) (sys_pc s)"
    and cvs: "\<And>cv. sys_cv s cv \<in> {None, Some sys_addr}" using i(1) by (auto simp: mtx_inv_def)
  have "r = Ret ?s"
    using e pc condvar_wait_move [OF l i(2,3) pc cvs [of cv], of cv]
    by (cases b) (auto simp: sys_set_def)
  moreover have "mtx_inv d n ?s"
  proof (rule mtx_inv_stepI [OF i])
    show "lock_move ?st (sys_pc s t) (mtx_state ?m) ?p"
      using pc lock_move.runlock [of ?p ?st] lock_move.wunlock [of ?p ?st]
      by (cases b) (auto split: if_splits)
    show "queue_inv (mtx_wq ?m) ((sys_pc s)(t := ?p))"
      using queue_inv_add [OF q, of t ?p b "Some cv"] pc by simp
    show "wake_inv ?m ((sys_pc s)(t := ?p))"
      by (cases "b \<and> ?st \<noteq> 1") auto
    show "((sys_cv s)(cv := Some sys_addr)) c \<in> {None, Some sys_addr}" for c using cvs by auto
  qed
  ultimately show ?thesis by blast
qed

lemma mtx_inv_cv_signal:
  assumes i: "mtx_inv d n s" "t < n" "n < 32768" and "d \<Longrightarrow> sys_pc s t \<in> {Held False, Held True}"
  shows "mtx_inv d n (s\<lparr>sys_m := cv_signal cv cvm only_one (sys_m s)\<rparr>)"
proof -
  let ?m = "cv_signal cv cvm only_one (sys_m s)"
  have st: "mtx_state ?m = mtx_state (sys_m s)" by (simp add: cv_signal_def)
  have k: "wq_keys (mtx_wq ?m) = wq_keys (mtx_wq (sys_m s))"
    by (simp add: cv_signal_def wq_promote_condvar_def)
  have "mtx_inv d n (s\<lparr>sys_m := ?m, sys_pc := (sys_pc s)(t := sys_pc s t), sys_cv := sys_cv s\<rparr>)"
  proof (rule mtx_inv_stepI [OF i])
    show "lock_move (mtx_state (sys_m s)) (sys_pc s t) (mtx_state ?m) (sys_pc s t)"
      by (simp add: st lock_move.same)
    show "queue_inv (mtx_wq ?m) ((sys_pc s)(t := sys_pc s t))"
      using i(1) k by (intro queue_inv_same) (auto simp: mtx_inv_def)
    show "wake_inv ?m ((sys_pc s)(t := sys_pc s t))" if d
      using assms(4) [OF that] mtx_inv_held_nonzero(1) [OF i]
      by (intro wake_inv_locked) (auto simp: st)
  qed (use i(1) in \<open>auto simp: mtx_inv_def\<close>)
  then show ?thesis by simp
qed

lemma mtx_inv_run:
  assumes i: "mtx_inv d n s" "t < n" "n < 32768"
  shows "mtx_inv d n (sys_set s t (mtx_run t (sys_m s) (sys_pc s t)))"
proof -
  obtain m' p' where r: "mtx_run t (sys_m s) (sys_pc s t) = (m', p')" by fastforce
  have "mtx_inv d n (sys_set s t (m', p'))"
    using i(1) by (intro mtx_inv_sys_set [OF i] mtx_run_move [OF r] 
        mtx_run_queue [where pcs = "sys_pc s", OF _ r] mtx_run_wake [where pcs = "sys_pc s", OF _ r])
      (auto simp: mtx_inv_def)
  with r show ?thesis by simp
qed

lemma mtx_inv_exec:
  assumes i: "mtx_inv d n s" "t < n" "n < 32768" and e: "mtx_exec c t s = Some r"
    and d: "d \<longrightarrow> mtx_disciplined c (sys_pc s t)"
  shows "\<exists>s'. r = Ret s' \<and> mtx_inv d n s'"
proof (cases c)
  case (CvWait cv)
  then obtain b where "sys_pc s t = Held b" using e by (auto split: if_splits)
  from mtx_inv_cv_wait [OF i this] e CvWait show ?thesis by simp
next
  case (CvSignal cv)
  with e d mtx_inv_cv_signal [OF i, of cv "sys_cv s cv" True] show ?thesis
    by (auto simp: condvar_signal_def mtx_disciplined_def split: if_splits)
next
  case (CvBroadcast cv)
  with e d mtx_inv_cv_signal [OF i, of cv "sys_cv s cv" False] show ?thesis
    by (auto simp: condvar_broadcast_def mtx_disciplined_def split: if_splits)
next
  case Run
  with e mtx_inv_run [OF i] show ?thesis by auto
qed (use e mtx_inv_acquire [OF i _ e] mtx_inv_release [OF i _ e] in \<open>auto split: if_splits\<close>)

lemma mtx_reach_inv: "mtx_reach d n s \<Longrightarrow> n < 32768 \<Longrightarrow> mtx_inv d n s"
proof (induction rule: mtx_reach.induct)
  case start
  show ?case by (rule mtx_inv_start)
next
  case (step s t c s')
  with mtx_inv_exec [of d n s t c "Ret s'"] show ?case by auto
qed


section \<open>Properties\<close>

text \<open>
  A run used by the witnesses: thread 0 takes the lock and thread 1, finding it taken, queues
  up; then thread 0 unlocks.
\<close>

fun mtx_runs :: "(mtx_call \<times> thread_id) list \<Rightarrow> mtx_sys \<Rightarrow> mtx_sys option" where
  "mtx_runs [] s = Some s"
| "mtx_runs ((c, t) # cs) s =
     (case mtx_exec c t s of Some (Ret s') \<Rightarrow> mtx_runs cs s' | _ \<Rightarrow> None)"

lemma mtx_reach_runs:
  "mtx_runs cs s = Some s' \<Longrightarrow> mtx_reach d n s \<Longrightarrow>
   list_all (\<lambda>(c, t). t < n \<and> (\<forall>cv. c \<noteq> CvSignal cv \<and> c \<noteq> CvBroadcast cv)) cs \<Longrightarrow> mtx_reach d n s'"
proof (induction cs s arbitrary: s' rule: mtx_runs.induct)
  case (2 c t cs s)
  then obtain s1 where e: "mtx_exec c t s = Some (Ret s1)" "mtx_runs cs s1 = Some s'"
    by (auto split: option.splits outcome.splits)
  have "mtx_reach d n s1"
    using 2(3,4) e(1) by (auto intro!: mtx_reach.step [of d n s t c] simp: mtx_disciplined_def)
  with 2(1) [OF e(1) refl e(2)] 2(4) show ?case by simp
qed simp

definition mtx_demo :: mtx_sys where
  "mtx_demo = \<lparr>sys_m = \<lparr>mtx_state = -1, mtx_wq =
       [\<lparr>wqe_handle = 1, wqe_done = False, wqe_wait_read = False, wqe_cv = None\<rparr>]\<rparr>,
     sys_cv = (\<lambda>_. None), sys_pc = (\<lambda>_. Idle)(0 := Held False, 1 := Sleep False)\<rparr>"

definition mtx_demo' :: mtx_sys where
  "mtx_demo' = sys_set mtx_demo 0 ((sys_m mtx_demo)\<lparr>mtx_state := 0\<rparr>, Wake None ToIdle)"

lemmas mtx_demo_defs = mtx_start_def mtx_demo_def sys_set_def mutex_init_def wq_init_def
  condvar_init_def mutex_lock_def wq_wait_init_def wq_wait_init_condvar_def

lemma mtx_reach_demo: "mtx_reach d 2 mtx_demo" "mtx_reach d 2 mtx_demo'"
proof -
  have "mtx_runs [(Lock, 0), (Run, 0), (Lock, 1), (Run, 1)] mtx_start = Some mtx_demo"
    by (simp add: mtx_demo_defs)
  then show r: "mtx_reach d 2 mtx_demo"
    by (rule mtx_reach_runs) (simp_all add: mtx_reach.start)
  have "mtx_runs [(Unlock, 0)] mtx_demo = Some mtx_demo'"
    by (simp add: mtx_demo'_def mtx_demo_def mutex_unlock_def)
  then show "mtx_reach d 2 mtx_demo'"
    by (rule mtx_reach_runs) (simp_all add: r)
qed

text \<open>
  C4. Mutual exclusion. In every state that fewer than 32768 threads can reach by any
  interleaving of lock, trylock, read lock, unlock and condition variable calls, a thread that
  holds the mutex for writing excludes every other holder, and the state word is -1 exactly
  while there is such a writer, and otherwise the number of readers.
\<close>

theorem mutex_mutual_exclusion:
  assumes "mtx_reach d n s" "n < 32768"
  shows "(t < n \<and> t' < n \<and> sys_pc s t = Held False \<and> sys_pc s t' = Held r \<longrightarrow> t' = t) \<and>
    sint (mtx_state (sys_m s)) =
      (if \<exists>t < n. sys_pc s t = Held False then -1 else int (card {t. t < n \<and> sys_pc s t = Held True}))"
proof
  have l: "lock_inv n s" using mtx_reach_inv [OF assms] by (simp add: mtx_inv_def)
  show "t < n \<and> t' < n \<and> sys_pc s t = Held False \<and> sys_pc s t' = Held r \<longrightarrow> t' = t"
  proof
    assume h: "t < n \<and> t' < n \<and> sys_pc s t = Held False \<and> sys_pc s t' = Held r"
    then have "t \<in> holders n (sys_pc s) False" "t' \<in> holders n (sys_pc s) r" by (auto simp: holders_def)
    with l show "t' = t" by (cases r) (auto simp: lock_inv_def card_1_singleton_iff)
  qed
  have c: "card (holders n (sys_pc s) True) < 32768"
    using card_holders_le [of n "sys_pc s" True] assms(2) by simp
  have ex: "(\<exists>t < n. sys_pc s t = Held False) \<longleftrightarrow> holders n (sys_pc s) False \<noteq> {}"
    by (auto simp: holders_def)
  show "sint (mtx_state (sys_m s)) =
      (if \<exists>t < n. sys_pc s t = Held False then -1 else int (card {t. t < n \<and> sys_pc s t = Held True}))"
    unfolding ex holders_def [symmetric] using l of_nat_cshort(2) [OF c] by (auto simp: lock_inv_def)
qed

theorem mutex_mutual_exclusion_witness:
  "mtx_reach True 2 mtx_demo \<and> sys_pc mtx_demo 0 = Held False \<and>
   sys_pc mtx_demo 1 \<noteq> Held False"
proof (intro conjI)
  show "mtx_reach True 2 mtx_demo" by (rule mtx_reach_demo)
  show "sys_pc mtx_demo 0 = Held False" by (simp add: mtx_demo_def)
  then show "sys_pc mtx_demo 1 \<noteq> Held False"
    using mutex_mutual_exclusion [OF mtx_reach_demo(1) [of True], of 0 1 False] by auto
qed

text \<open>
  C30. No panic. Threads that call the mutex functions where the API allows it never run into
  a panic of \<^verbatim>\<open>mutex_unlock\<close>, \<^verbatim>\<open>mutex_read_unlock\<close> or \<^verbatim>\<open>condvar_wait\<close>, and the queue always
  holds exactly one element per waiting thread, for what that thread waits for.
\<close>

theorem mutex_no_panic:
  assumes "mtx_reach d n s" "n < 32768" "t < n"
  shows "mtx_exec c t s \<noteq> Some Panic \<and> distinct (map wqe_handle (mtx_wq (sys_m s))) \<and>
    (pc_wait (sys_pc s t) = Some r \<longleftrightarrow>
      (\<exists>w \<in> set (mtx_wq (sys_m s)). wqe_handle w = t \<and> wqe_wait_read w = r))"
proof (intro conjI)
  have i: "mtx_inv d n s" by (rule mtx_reach_inv [OF assms(1,2)])
  then have "mtx_inv False n s" by (simp add: mtx_inv_def)
  with mtx_inv_exec [of False n s t c Panic] assms(2,3) show "mtx_exec c t s \<noteq> Some Panic" by blast
  from i show "distinct (map wqe_handle (mtx_wq (sys_m s)))"
    by (simp add: mtx_inv_def queue_inv_def wq_keys_def o_def)
  from i show "pc_wait (sys_pc s t) = Some r \<longleftrightarrow>
      (\<exists>w \<in> set (mtx_wq (sys_m s)). wqe_handle w = t \<and> wqe_wait_read w = r)"
    by (auto simp: mtx_inv_def queue_inv_def wq_keys_def)
qed

theorem mutex_no_panic_witness:
  "mtx_reach True 2 mtx_demo \<and> mtx_exec (CvWait 5) 0 mtx_demo \<noteq> Some Panic"
  using mutex_no_panic [OF mtx_reach_demo(1) [of True], of 0 "CvWait 5"] mtx_reach_demo(1) by simp

text \<open>
  C22. No lost wake-up. While condition variables are signalled only with the mutex held,
  whenever the mutex is free and a thread waits for it, some thread is about to try the lock,
  or about to scan the queue, or is a waiter already marked done that leaves the queue when it
  runs.
\<close>

theorem mutex_no_lost_wakeup:
  assumes "mtx_reach True n s" "n < 32768" "mtx_state (sys_m s) = 0"
    "w \<in> set (mtx_wq (sys_m s))" "wqe_cv w = None" "\<not> wqe_done w"
  shows "\<exists>t < n. (\<exists>r. sys_pc s t = TryLock r) \<or> (\<exists>c. sys_pc s t = Wake None c) \<or>
    (pc_wait (sys_pc s t) \<noteq> None \<and> snd (wq_wait_final (mtx_wq (sys_m s)) t))"
proof -
  have i: "mtx_inv True n s" by (rule mtx_reach_inv [OF assms(1,2)])
  then have idle: "\<And>t. sys_pc s t \<noteq> Idle \<Longrightarrow> t < n" by (auto simp: mtx_inv_def lock_inv_def not_le)
  have "wake_pending (sys_m s) (sys_pc s)"
    using i assms(3-6) by (auto simp: mtx_inv_def wake_inv_def wq_eligible_def)
  then consider (pc) t where "(\<exists>r. sys_pc s t = TryLock r) \<or> (\<exists>c. sys_pc s t = Wake None c)"
    | (done_elem) w where "w \<in> set (mtx_wq (sys_m s))" "wqe_done w" by (auto simp: wake_pending_def)
  then show ?thesis
  proof cases
    case pc
    then show ?thesis using idle [of t] by auto
  next
    case done_elem
    then have "pc_wait (sys_pc s (wqe_handle w)) = Some (wqe_wait_read w)"
      using i by (auto simp: mtx_inv_def queue_inv_def wq_keys_def)
    moreover from this have "wqe_handle w < n" using idle [of "wqe_handle w"] by (cases "sys_pc s (wqe_handle w)") auto
    ultimately show ?thesis using done_elem by (auto simp: wq_wait_final_def)
  qed
qed

theorem mutex_no_lost_wakeup_witness:
  "mtx_reach True 2 mtx_demo' \<and> mtx_state (sys_m mtx_demo') = 0 \<and>
   (\<exists>t < 2. (\<exists>r. sys_pc mtx_demo' t = TryLock r) \<or> (\<exists>c. sys_pc mtx_demo' t = Wake None c) \<or>
      (pc_wait (sys_pc mtx_demo' t) \<noteq> None \<and> snd (wq_wait_final (mtx_wq (sys_m mtx_demo')) t)))"
  using mutex_no_lost_wakeup [OF mtx_reach_demo(2),
      of "\<lparr>wqe_handle = 1, wqe_done = False, wqe_wait_read = False, wqe_cv = None\<rparr>"]
    mtx_reach_demo(2) [of True]
  by (simp add: mtx_demo'_def mtx_demo_def sys_set_def)

end
