(* ===== verification/Lockdep.thy ===== *)
theory Lockdep
  imports Prelude
begin

unbundle bit_operations_syntax

text \<open>
  The lock dependency checker of \<^verbatim>\<open>core/kernel/lockdep.c\<close> and its use for mutexes in
  \<^verbatim>\<open>core/arch/arm/kernel/mutex_lockdep.c\<close>. Nodes live in a store indexed by their address, the
  graph is the list of the addresses linked in it. Allocations are answered by a function
  \<open>mem\<close> from the number of the allocation to an address or nothing. Messages are left out.

  The theorems: the topological sort accepts exactly the acyclic graphs; acquiring a lock
  fails exactly if its new edges close a cycle; the cycle search finds a cycle through the
  lock; and threads whose acquisitions were all accepted never wait for each other in a circle.
\<close>

section \<open>Data\<close>

type_synonym call_stack = "u64 list option"

record lockdep_edge =
  le_to :: addr
  le_thread_id :: nat
  le_call_stack_from :: call_stack
  le_call_stack_to :: call_stack

record lockdep_node =
  ln_lock_id :: u64
  ln_edges :: "lockdep_edge list"
  ln_flags :: u8

record lockdep_graph =
  lg_nodes :: "addr list"
  lg_heap :: "addr \<Rightarrow> lockdep_node"

record lockdep_lock =
  ll_node :: addr
  ll_call_stack :: call_stack

type_synonym mem = "nat \<Rightarrow> addr option"

definition LOCKDEP_NODE_TEMP_MARK :: u8 where "LOCKDEP_NODE_TEMP_MARK = 1"
definition LOCKDEP_NODE_PERM_MARK :: u8 where "LOCKDEP_NODE_PERM_MARK = 2"
definition LOCKDEP_NODE_BFS_VISITED :: u8 where "LOCKDEP_NODE_BFS_VISITED = 4"

definition lg_set :: "addr \<Rightarrow> lockdep_node \<Rightarrow> lockdep_graph \<Rightarrow> lockdep_graph" where
  "lg_set p nd g = g\<lparr>lg_heap := (lg_heap g)(p := nd)\<rparr>"

definition lg_flag :: "u8 \<Rightarrow> addr \<Rightarrow> lockdep_graph \<Rightarrow> lockdep_graph" where
  "lg_flag f p g = lg_set p ((lg_heap g p)\<lparr>ln_flags := ln_flags (lg_heap g p) OR f\<rparr>) g"

section \<open>Building the graph\<close>

fun lg_find :: "lockdep_graph \<Rightarrow> addr list \<Rightarrow> u64 \<Rightarrow> addr option" where
  "lg_find g [] lock_id = None"
| "lg_find g (p # ps) lock_id =
     (if ln_lock_id (lg_heap g p) = lock_id then Some p else lg_find g ps lock_id)"

definition lockdep_add_to_graph ::
    "mem \<Rightarrow> nat \<Rightarrow> lockdep_graph \<Rightarrow> u64 \<Rightarrow> lockdep_graph \<times> nat \<times> addr option" where
  "lockdep_add_to_graph mem k g lock_id =
     (case lg_find g (lg_nodes g) lock_id of
        Some p \<Rightarrow> (g, k, Some p)
      | None \<Rightarrow>
          (case mem k of
             None \<Rightarrow> (g, Suc k, None)
           | Some p \<Rightarrow>
               (g\<lparr>lg_nodes := lg_nodes g @ [p],
                  lg_heap := (lg_heap g)(p := \<lparr>ln_lock_id = lock_id, ln_edges = [], ln_flags = 0\<rparr>)\<rparr>,
                Suc k, Some p)))"

text \<open>A call stack is the list of its entries before the terminating zero.\<close>

definition dup_call_stack :: "mem \<Rightarrow> nat \<Rightarrow> call_stack \<Rightarrow> nat \<times> call_stack" where
  "dup_call_stack mem k stack =
     (case stack of
        None \<Rightarrow> (k, None)
      | Some s \<Rightarrow> (Suc k, if mem k = None then None else Some s))"

definition lockdep_add_edge :: "mem \<Rightarrow> nat \<Rightarrow> lockdep_graph \<Rightarrow> addr \<Rightarrow> addr \<Rightarrow>
    call_stack \<Rightarrow> call_stack \<Rightarrow> nat \<Rightarrow> lockdep_graph \<times> nat \<times> tee_result" where
  "lockdep_add_edge mem k g from to call_stack_from call_stack_to thread_id =
     (if \<exists>edge \<in> set (ln_edges (lg_heap g from)). le_to edge = to then (g, k, TEE_SUCCESS)
      else if mem k = None then (g, Suc k, TEE_ERROR_OUT_OF_MEMORY)
      else case dup_call_stack mem (Suc k) call_stack_from of (k1, sf) \<Rightarrow>
        case dup_call_stack mem k1 call_stack_to of (k2, st) \<Rightarrow>
        (let edge = \<lparr>le_to = to, le_thread_id = thread_id, le_call_stack_from = sf,
                     le_call_stack_to = st\<rparr>;
             nd = lg_heap g from
         in (lg_set from (nd\<lparr>ln_edges := ln_edges nd @ [edge]\<rparr>) g, k2, TEE_SUCCESS)))"

section \<open>Depth-first sort\<close>

text \<open>
  The recursion is bounded by fuel; \<open>None\<close> is running out of it, which
  \<open>lockdep_graph_sort\<close> rules out by giving one more than the number of nodes.
\<close>

fun lockdep_visit :: "nat \<Rightarrow> lockdep_graph \<Rightarrow> addr \<Rightarrow> (lockdep_graph \<times> tee_result) option"
  and lockdep_visit_edges ::
    "nat \<Rightarrow> lockdep_graph \<Rightarrow> lockdep_edge list \<Rightarrow> (lockdep_graph \<times> tee_result) option"
where
  "lockdep_visit 0 g node = None"
| "lockdep_visit (Suc fuel) g node =
     (let flags = ln_flags (lg_heap g node) in
      if flags AND LOCKDEP_NODE_PERM_MARK \<noteq> 0 then Some (g, TEE_SUCCESS)
      else if flags AND LOCKDEP_NODE_TEMP_MARK \<noteq> 0 then Some (g, TEE_ERROR_BAD_STATE)
      else case lockdep_visit_edges fuel (lg_flag LOCKDEP_NODE_TEMP_MARK node g)
                  (ln_edges (lg_heap g node)) of
          None \<Rightarrow> None
        | Some (g', res) \<Rightarrow>
            if res \<noteq> TEE_SUCCESS then Some (g', res)
            else Some (lg_flag LOCKDEP_NODE_PERM_MARK node g', TEE_SUCCESS))"
| "lockdep_visit_edges fuel g [] = Some (g, TEE_SUCCESS)"
| "lockdep_visit_edges fuel g (e # es) =
     (case lockdep_visit fuel g (le_to e) of
        None \<Rightarrow> None
      | Some (g', res) \<Rightarrow>
          if res \<noteq> TEE_SUCCESS then Some (g', res) else lockdep_visit_edges fuel g' es)"

fun lockdep_sort_loop ::
    "nat \<Rightarrow> lockdep_graph \<Rightarrow> addr list \<Rightarrow> (lockdep_graph \<times> tee_result) option" where
  "lockdep_sort_loop fuel g [] = Some (g, TEE_SUCCESS)"
| "lockdep_sort_loop fuel g (node # nodes) =
     (if ln_flags (lg_heap g node) = 0
      then case lockdep_visit fuel g node of
          None \<Rightarrow> None
        | Some (g', res) \<Rightarrow>
            if res \<noteq> TEE_SUCCESS then Some (g', res) else lockdep_sort_loop fuel g' nodes
      else lockdep_sort_loop fuel g nodes)"

definition lg_clear_flags :: "lockdep_graph \<Rightarrow> lockdep_graph" where
  "lg_clear_flags g = g\<lparr>lg_heap := (\<lambda>p.
     if p \<in> set (lg_nodes g) then (lg_heap g p)\<lparr>ln_flags := 0\<rparr> else lg_heap g p)\<rparr>"

definition lockdep_graph_sort :: "lockdep_graph \<Rightarrow> (lockdep_graph \<times> tee_result) option" where
  "lockdep_graph_sort g =
     (case lockdep_sort_loop (Suc (length (lg_nodes g))) g (lg_nodes g) of
        None \<Rightarrow> None
      | Some (g', res) \<Rightarrow>
          if res \<noteq> TEE_SUCCESS then Some (g', res) else Some (lg_clear_flags g', TEE_SUCCESS))"

section \<open>Shortest cycle\<close>

record lockdep_bfs =
  bfs_node :: addr
  bfs_path :: "u64 list"

text \<open>
  The edges of one dequeued element: the cycle found (\<open>Inl (g, Some path)\<close>), an allocation that
  failed (\<open>Inl (g, None)\<close>), or the graph, the allocation number and the queue to go on with.
\<close>

fun bfs_edges :: "mem \<Rightarrow> nat \<Rightarrow> lockdep_graph \<Rightarrow> u64 \<Rightarrow> lockdep_bfs \<Rightarrow> lockdep_bfs list \<Rightarrow>
    lockdep_edge list \<Rightarrow>
    (lockdep_graph \<times> u64 list option) + (lockdep_graph \<times> nat \<times> lockdep_bfs list)" where
  "bfs_edges mem k g start qe queue [] = Inr (g, k, queue)"
| "bfs_edges mem k g start qe queue (e # es) =
     (let to = lg_heap g (le_to e) in
      if ln_lock_id to = start
      then Inl (g, if mem k = None then None else Some (bfs_path qe))
      else if ln_flags to AND LOCKDEP_NODE_BFS_VISITED = 0
      then let g' = lg_flag LOCKDEP_NODE_BFS_VISITED (le_to e) g in
        if mem k = None then Inl (g', None)
        else if mem (Suc k) = None then Inl (g', None)
        else bfs_edges mem (k + 2) g' start qe
               (queue @ [\<lparr>bfs_node = le_to e, bfs_path = bfs_path qe @ [ln_lock_id to]\<rparr>]) es
      else bfs_edges mem k g start qe queue es)"

text \<open>The loop over the queue, with fuel; \<open>None\<close> is running out of it.\<close>

fun bfs_loop :: "nat \<Rightarrow> mem \<Rightarrow> nat \<Rightarrow> lockdep_graph \<Rightarrow> u64 \<Rightarrow> lockdep_bfs list \<Rightarrow>
    (lockdep_graph \<times> u64 list option) option" where
  "bfs_loop fuel mem k g start [] = Some (g, None)"
| "bfs_loop 0 mem k g start (qe # queue) = None"
| "bfs_loop (Suc fuel) mem k g start (qe # queue) =
     (case bfs_edges mem k g start qe queue (ln_edges (lg_heap g (bfs_node qe))) of
        Inl ret \<Rightarrow> Some ret
      | Inr (g', k', queue') \<Rightarrow> bfs_loop fuel mem k' g' start queue')"

text \<open>The path returned is without its terminating zero.\<close>

definition lockdep_graph_get_shortest_cycle ::
    "mem \<Rightarrow> nat \<Rightarrow> lockdep_graph \<Rightarrow> addr \<Rightarrow> (lockdep_graph \<times> u64 list option) option" where
  "lockdep_graph_get_shortest_cycle mem k g node =
     (let g' = lg_flag LOCKDEP_NODE_BFS_VISITED node g;
          lock_id = ln_lock_id (lg_heap g node)
      in if mem k = None then Some (g', None)
         else if mem (Suc k) = None then Some (g', None)
         else bfs_loop (Suc (length (lg_nodes g))) mem (k + 2) g' lock_id
                [\<lparr>bfs_node = node, bfs_path = [lock_id]\<rparr>])"

fun lockdep_find_edge_in :: "lockdep_graph \<Rightarrow> addr list \<Rightarrow> u64 \<Rightarrow> u64 \<Rightarrow> lockdep_edge option" where
  "lockdep_find_edge_in g [] from to = None"
| "lockdep_find_edge_in g (node # nodes) from to =
     (case (if ln_lock_id (lg_heap g node) = from
            then find (\<lambda>edge. ln_lock_id (lg_heap g (le_to edge)) = to) (ln_edges (lg_heap g node))
            else None) of
        Some edge \<Rightarrow> Some edge
      | None \<Rightarrow> lockdep_find_edge_in g nodes from to)"

definition lockdep_find_edge :: "lockdep_graph \<Rightarrow> u64 \<Rightarrow> u64 \<Rightarrow> lockdep_edge option" where
  "lockdep_find_edge g from to = lockdep_find_edge_in g (lg_nodes g) from to"

text \<open>
  The edges that \<^verbatim>\<open>lockdep_print_cycle_info\<close> prints for a cycle that starts at \<open>c0\<close>, from lock
  \<open>to\<close> on: each with the lock it leaves.
\<close>

fun cycle_info_edges ::
    "lockdep_graph \<Rightarrow> u64 \<Rightarrow> u64 \<Rightarrow> u64 list \<Rightarrow> (u64 \<times> lockdep_edge option) list" where
  "cycle_info_edges g c0 to [] = [(to, lockdep_find_edge g to c0)]"
| "cycle_info_edges g c0 to (p # ps) =
     (if p = 0 then [(to, lockdep_find_edge g to c0)]
      else (to, lockdep_find_edge g to p) # cycle_info_edges g c0 p ps)"

definition lockdep_print_cycle_info :: "mem \<Rightarrow> nat \<Rightarrow> lockdep_graph \<Rightarrow> addr \<Rightarrow>
    (lockdep_graph \<times> (u64 \<times> lockdep_edge option) list) outcome option" where
  "lockdep_print_cycle_info mem k g node =
     (case lockdep_graph_get_shortest_cycle mem k g node of
        None \<Rightarrow> None
      | Some (g', Some (c0 # ps)) \<Rightarrow>
          Some (if c0 = 0 then Panic else Ret (g', cycle_info_edges g' c0 c0 ps))
      | Some (g', _) \<Rightarrow> Some Panic)"

section \<open>Acquiring, releasing, destroying\<close>

fun lockdep_add_edges :: "mem \<Rightarrow> nat \<Rightarrow> lockdep_graph \<Rightarrow> lockdep_lock list \<Rightarrow> addr \<Rightarrow>
    call_stack \<Rightarrow> nat \<Rightarrow> lockdep_graph \<times> nat \<times> tee_result" where
  "lockdep_add_edges mem k g [] node acq_stack thread_id = (g, k, TEE_SUCCESS)"
| "lockdep_add_edges mem k g (lock # owned) node acq_stack thread_id =
     (case lockdep_add_edge mem k g (ll_node lock) node (ll_call_stack lock) acq_stack thread_id of
        (g', k', res) \<Rightarrow>
          if res \<noteq> TEE_SUCCESS then (g', k', res)
          else lockdep_add_edges mem k' g' owned node acq_stack thread_id)"

text \<open>
  \<^verbatim>\<open>__lockdep_lock_acquire\<close>; the queue of owned locks stands for the thread, \<open>thread_id\<close> is its
  address. The outer option is the fuel of the sort and of the cycle search.
\<close>

definition lockdep_lock_acquire :: "mem \<Rightarrow> lockdep_graph \<Rightarrow> lockdep_lock list \<Rightarrow> nat \<Rightarrow> call_stack \<Rightarrow>
    u64 \<Rightarrow> (lockdep_graph \<times> lockdep_lock list \<times> tee_result) outcome option" where
  "lockdep_lock_acquire mem g owned thread_id acq_stack lock_id =
     (case lockdep_add_to_graph mem 0 g lock_id of
        (g1, k1, None) \<Rightarrow> Some (Ret (g1, owned, TEE_ERROR_OUT_OF_MEMORY))
      | (g1, k1, Some node) \<Rightarrow>
          (case lockdep_add_edges mem k1 g1 owned node acq_stack thread_id of
             (g2, k2, res) \<Rightarrow>
               if res \<noteq> TEE_SUCCESS then Some (Ret (g2, owned, res))
               else case lockdep_graph_sort g2 of
                   None \<Rightarrow> None
                 | Some (g3, res) \<Rightarrow>
                     if res \<noteq> TEE_SUCCESS
                     then (case lockdep_print_cycle_info mem k2 g3 node of
                             None \<Rightarrow> None
                           | Some Panic \<Rightarrow> Some Panic
                           | Some (Ret (g4, _)) \<Rightarrow> Some (Ret (g4, owned, res)))
                     else if mem k2 = None then Some (Ret (g3, owned, TEE_ERROR_OUT_OF_MEMORY))
                     else Some (Ret (g3, owned @ [\<lparr>ll_node = node, ll_call_stack = acq_stack\<rparr>],
                                     TEE_SUCCESS))))"

definition lockdep_lock_tryacquire :: "mem \<Rightarrow> lockdep_graph \<Rightarrow> lockdep_lock list \<Rightarrow> call_stack \<Rightarrow>
    u64 \<Rightarrow> lockdep_graph \<times> lockdep_lock list \<times> tee_result" where
  "lockdep_lock_tryacquire mem g owned acq_stack lock_id =
     (case lockdep_add_to_graph mem 0 g lock_id of
        (g1, k1, None) \<Rightarrow> (g1, owned, TEE_ERROR_OUT_OF_MEMORY)
      | (g1, k1, Some node) \<Rightarrow>
          if mem k1 = None then (g1, owned, TEE_ERROR_OUT_OF_MEMORY)
          else (g1, owned @ [\<lparr>ll_node = node, ll_call_stack = acq_stack\<rparr>], TEE_SUCCESS))"

text \<open>The queue is searched from its end.\<close>

definition lockdep_lock_release ::
    "lockdep_graph \<Rightarrow> lockdep_lock list \<Rightarrow> u64 \<Rightarrow> lockdep_lock list \<times> tee_result" where
  "lockdep_lock_release g owned lock_id =
     (let is_id = (\<lambda>lock. ln_lock_id (lg_heap g (ll_node lock)) = lock_id) in
      if \<exists>lock \<in> set owned. is_id lock
      then (rev (takeWhile (\<lambda>l. \<not> is_id l) (rev owned) @ tl (dropWhile (\<lambda>l. \<not> is_id l) (rev owned))),
            TEE_SUCCESS)
      else (owned, TEE_ERROR_ITEM_NOT_FOUND))"

definition lockdep_graph_delete :: "lockdep_graph \<Rightarrow> lockdep_graph" where
  "lockdep_graph_delete g = g\<lparr>lg_nodes := []\<rparr>"

definition lockdep_queue_delete :: "lockdep_lock list \<Rightarrow> lockdep_lock list" where
  "lockdep_queue_delete owned = []"

text \<open>Removing the edges to a node: first at the head, then behind a kept edge.\<close>

fun edges_drop_head :: "addr \<Rightarrow> lockdep_edge list \<Rightarrow> lockdep_edge list" where
  "edges_drop_head node [] = []"
| "edges_drop_head node (edge # es) =
     (if le_to edge = node then edges_drop_head node es else edge # es)"

fun edges_drop_after :: "addr \<Rightarrow> lockdep_edge \<Rightarrow> lockdep_edge list \<Rightarrow> lockdep_edge list" where
  "edges_drop_after node edge [] = [edge]"
| "edges_drop_after node edge (next_edge # es) =
     (if le_to next_edge = node then edges_drop_after node edge es
      else edge # edges_drop_after node next_edge es)"

definition edges_drop :: "addr \<Rightarrow> lockdep_edge list \<Rightarrow> lockdep_edge list" where
  "edges_drop node es =
     (case edges_drop_head node es of [] \<Rightarrow> [] | edge # rest \<Rightarrow> edges_drop_after node edge rest)"

definition lockdep_node_destroy :: "lockdep_graph \<Rightarrow> addr \<Rightarrow> lockdep_graph" where
  "lockdep_node_destroy g node =
     (let nodes = remove1 node (lg_nodes g) in
      g\<lparr>lg_nodes := nodes,
        lg_heap := (\<lambda>p. if p \<in> set nodes
          then (lg_heap g p)\<lparr>ln_edges := edges_drop node (ln_edges (lg_heap g p))\<rparr> else lg_heap g p)\<rparr>)"

definition lockdep_lock_destroy :: "lockdep_graph \<Rightarrow> u64 \<Rightarrow> lockdep_graph" where
  "lockdep_lock_destroy g lock_id =
     (case lg_find g (lg_nodes g) lock_id of None \<Rightarrow> g | Some node \<Rightarrow> lockdep_node_destroy g node)"


section \<open>The graph as a relation\<close>

definition lg_edges :: "lockdep_graph \<Rightarrow> (addr \<times> addr) set" where
  "lg_edges g = {(p, q). p \<in> set (lg_nodes g) \<and> (\<exists>e \<in> set (ln_edges (lg_heap g p)). le_to e = q)}"

definition lg_wf :: "lockdep_graph \<Rightarrow> bool" where
  "lg_wf g \<longleftrightarrow> distinct (lg_nodes g) \<and>
     inj_on (\<lambda>p. ln_lock_id (lg_heap g p)) (set (lg_nodes g)) \<and>
     (\<forall>p \<in> set (lg_nodes g). \<forall>e \<in> set (ln_edges (lg_heap g p)). le_to e \<in> set (lg_nodes g))"

definition lg_clean :: "lockdep_graph \<Rightarrow> bool" where
  "lg_clean g \<longleftrightarrow> (\<forall>p \<in> set (lg_nodes g). ln_flags (lg_heap g p) = 0)"

text \<open>Two graphs that differ in their flags only.\<close>

definition lg_same :: "lockdep_graph \<Rightarrow> lockdep_graph \<Rightarrow> bool" where
  "lg_same g g' \<longleftrightarrow> lg_nodes g' = lg_nodes g \<and>
     (\<forall>p. ln_lock_id (lg_heap g' p) = ln_lock_id (lg_heap g p) \<and>
          ln_edges (lg_heap g' p) = ln_edges (lg_heap g p))"

lemma lg_same_refl [simp]: "lg_same g g"
  by (simp add: lg_same_def)

lemma lg_same_trans: "lg_same g g' \<Longrightarrow> lg_same g' g'' \<Longrightarrow> lg_same g g''"
  by (simp add: lg_same_def)

lemma lg_same_flag [simp]: "lg_same g (lg_flag f p g)"
  by (simp add: lg_same_def lg_flag_def lg_set_def)

lemma lg_same_flag_trans: "lg_same (lg_flag f p g) g' \<Longrightarrow> lg_same g g'"
  by (rule lg_same_trans [OF lg_same_flag])

lemma lg_same_clear [simp]: "lg_same g (lg_clear_flags g)"
  by (simp add: lg_same_def lg_clear_flags_def)

lemma lg_sameD:
  assumes "lg_same g g'"
  shows "lg_nodes g' = lg_nodes g" "lg_edges g' = lg_edges g" "lg_wf g' = lg_wf g"
    "ln_edges (lg_heap g' p) = ln_edges (lg_heap g p)"
    "ln_lock_id (lg_heap g' p) = ln_lock_id (lg_heap g p)"
  using assms by (simp_all add: lg_same_def lg_edges_def lg_wf_def)

lemma lg_flag_simps [simp]:
  "lg_nodes (lg_flag f p g) = lg_nodes g" "lg_edges (lg_flag f p g) = lg_edges g"
  "lg_wf (lg_flag f p g) = lg_wf g" "ln_edges (lg_heap (lg_flag f p g) q) = ln_edges (lg_heap g q)"
  "ln_lock_id (lg_heap (lg_flag f p g) q) = ln_lock_id (lg_heap g q)"
  "ln_flags (lg_heap (lg_flag f p g) q) =
     (if q = p then ln_flags (lg_heap g q) OR f else ln_flags (lg_heap g q))"
  using lg_sameD [OF lg_same_flag [of g f p]] by (simp_all add: lg_flag_def lg_set_def)

text \<open>The marks.\<close>

definition marked :: "u8 \<Rightarrow> lockdep_graph \<Rightarrow> addr set" where
  "marked f g = {p \<in> set (lg_nodes g). ln_flags (lg_heap g p) AND f \<noteq> 0}"

abbreviation TEMP where "TEMP \<equiv> marked LOCKDEP_NODE_TEMP_MARK"
abbreviation PERM where "PERM \<equiv> marked LOCKDEP_NODE_PERM_MARK"
abbreviation VISITED where "VISITED \<equiv> marked LOCKDEP_NODE_BFS_VISITED"

lemmas mark_defs = LOCKDEP_NODE_TEMP_MARK_def LOCKDEP_NODE_PERM_MARK_def
  LOCKDEP_NODE_BFS_VISITED_def

lemma or_marks:
  fixes w :: u8
  shows "(w OR 1) AND 1 = 1" "(w OR 1) AND 2 = w AND 2" "(w OR 1) AND 4 = w AND 4"
    "(w OR 2) AND 1 = w AND 1" "(w OR 2) AND 2 = 2" "(w OR 2) AND 4 = w AND 4"
    "(w OR 4) AND 1 = w AND 1" "(w OR 4) AND 2 = w AND 2" "(w OR 4) AND 4 = 4"
  by (simp_all add: bit.conj_disj_distrib2)

lemma marked_flag [simp]:
  "p \<in> set (lg_nodes g) \<Longrightarrow> TEMP (lg_flag LOCKDEP_NODE_TEMP_MARK p g) = insert p (TEMP g)"
  "PERM (lg_flag LOCKDEP_NODE_TEMP_MARK p g) = PERM g"
  "TEMP (lg_flag LOCKDEP_NODE_PERM_MARK p g) = TEMP g"
  "p \<in> set (lg_nodes g) \<Longrightarrow> PERM (lg_flag LOCKDEP_NODE_PERM_MARK p g) = insert p (PERM g)"
  "p \<in> set (lg_nodes g) \<Longrightarrow> VISITED (lg_flag LOCKDEP_NODE_BFS_VISITED p g) = insert p (VISITED g)"
  "VISITED (lg_flag LOCKDEP_NODE_TEMP_MARK p g) = VISITED g"
  "VISITED (lg_flag LOCKDEP_NODE_PERM_MARK p g) = VISITED g"
  by (auto simp: marked_def mark_defs or_marks split: if_splits)

section \<open>Correctness of the sort\<close>

definition dfs_inv :: "lockdep_graph \<Rightarrow> bool" where
  "dfs_inv g \<longleftrightarrow> PERM g \<subseteq> TEMP g \<and> lg_edges g `` PERM g \<subseteq> PERM g \<and>
     acyclic (lg_edges g \<inter> PERM g \<times> PERM g) \<and>
     (\<forall>p \<in> set (lg_nodes g). ln_flags (lg_heap g p) \<noteq> 0 \<longrightarrow> p \<in> TEMP g)"

definition dfs_post :: "lockdep_graph \<Rightarrow> lockdep_graph \<Rightarrow> tee_result \<Rightarrow> addr set \<Rightarrow> bool" where
  "dfs_post g g' res ps \<longleftrightarrow> lg_same g g' \<and>
     (res = TEE_SUCCESS \<and> dfs_inv g' \<and> TEMP g \<subseteq> TEMP g' \<and> PERM g \<subseteq> PERM g' \<and>
        TEMP g' - PERM g' = TEMP g - PERM g \<and> ps \<subseteq> PERM g' \<or>
      res = TEE_ERROR_BAD_STATE \<and> \<not> acyclic (lg_edges g))"

lemma acyclic_insert_closed:
  assumes "acyclic (E \<inter> P \<times> P)" "E `` P \<subseteq> P" "p \<notin> P" "E `` {p} \<subseteq> P"
  shows "acyclic (E \<inter> insert p P \<times> insert p P)"
proof (rule acyclicI, safe)
  fix x assume c: "(x, x) \<in> (E \<inter> insert p P \<times> insert p P)\<^sup>+"
  have stay: "(a, b) \<in> (E \<inter> P \<times> P)\<^sup>+" if "(a, b) \<in> (E \<inter> insert p P \<times> insert p P)\<^sup>+" "a \<in> P" for a b
    using that
  proof (induction rule: trancl_induct)
    case (base y)
    with assms(2) show ?case by blast
  next
    case (step y z)
    then have "(a, y) \<in> (E \<inter> P \<times> P)\<^sup>+" by simp
    moreover from this have "y \<in> P" by (auto elim: trancl.cases)
    ultimately show ?case using step(2) assms(2) by (blast intro: trancl_into_trancl)
  qed
  show False
  proof (cases "x \<in> P")
    case True
    with stay c assms(1) show False by (auto simp: acyclic_def)
  next
    case False
    with c have "x = p" by (auto elim: tranclE)
    with c obtain y where "(p, y) \<in> E" "(y, p) \<in> (E \<inter> insert p P \<times> insert p P)\<^sup>*"
      by (auto dest!: tranclD)
    with assms(4) have y: "y \<in> P" by auto
    with \<open>(y, p) \<in> _\<close> assms(3) have "(y, p) \<in> (E \<inter> P \<times> P)\<^sup>+"
      by (auto simp: rtrancl_eq_or_trancl intro: stay)
    with assms(3) show False by (auto elim: tranclE)
  qed
qed

lemma dfs_inv_temp:
  "dfs_inv g \<Longrightarrow> p \<in> set (lg_nodes g) \<Longrightarrow> dfs_inv (lg_flag LOCKDEP_NODE_TEMP_MARK p g)"
  by (auto simp: dfs_inv_def)

lemma dfs_inv_perm:
  assumes "dfs_inv g" "p \<in> TEMP g" "p \<notin> PERM g" "lg_edges g `` {p} \<subseteq> PERM g"
  shows "dfs_inv (lg_flag LOCKDEP_NODE_PERM_MARK p g)"
proof -
  have "p \<in> set (lg_nodes g)" using assms(2) by (simp add: marked_def)
  have "acyclic (lg_edges g \<inter> insert p (PERM g) \<times> insert p (PERM g))"
    using assms by (intro acyclic_insert_closed) (auto simp: dfs_inv_def)
  moreover have "lg_edges g `` insert p (PERM g) \<subseteq> insert p (PERM g)"
    using assms(1,4) by (auto simp: dfs_inv_def)
  ultimately show ?thesis
    using assms(1,2) \<open>p \<in> set (lg_nodes g)\<close> by (auto simp: dfs_inv_def)
qed


text \<open>
  Visiting: the nodes on the current path (marked temporarily, not permanently) all reach the
  node, so meeting one of them again closes a cycle. The fuel exceeds the unmarked nodes.
\<close>

definition dfs_pre :: "nat \<Rightarrow> lockdep_graph \<Rightarrow> addr set \<Rightarrow> bool" where
  "dfs_pre fuel g ps \<longleftrightarrow> lg_wf g \<and> dfs_inv g \<and> ps \<subseteq> set (lg_nodes g) \<and>
     (\<forall>x \<in> TEMP g - PERM g. \<forall>p \<in> ps. (x, p) \<in> (lg_edges g)\<^sup>+) \<and>
     card (set (lg_nodes g) - TEMP g) < fuel"

lemma dfs_pre_enter:
  assumes "dfs_pre (Suc fuel) g {node}" "node \<notin> PERM g" "node \<notin> TEMP g"
  shows "dfs_pre fuel (lg_flag LOCKDEP_NODE_TEMP_MARK node g)
    (le_to ` set (ln_edges (lg_heap g node)))"
proof -
  have n: "node \<in> set (lg_nodes g)" using assms(1) by (simp add: dfs_pre_def)
  have e: "(node, q) \<in> lg_edges g" if "q \<in> le_to ` set (ln_edges (lg_heap g node))" for q
    using that n by (auto simp: lg_edges_def)
  have "set (lg_nodes g) - insert node (TEMP g) = set (lg_nodes g) - TEMP g - {node}" by auto
  moreover have "node \<in> set (lg_nodes g) - TEMP g" using n assms(3) by simp
  ultimately have "card (set (lg_nodes g) - insert node (TEMP g)) < card (set (lg_nodes g) - TEMP g)"
    by (metis card_Diff1_less finite_Diff finite_set)
  moreover have "le_to ` set (ln_edges (lg_heap g node)) \<subseteq> set (lg_nodes g)"
    using assms(1) n by (auto simp: dfs_pre_def lg_wf_def)
  moreover have "(x, q) \<in> (lg_edges g)\<^sup>+"
    if "x \<in> insert node (TEMP g) - PERM g" "q \<in> le_to ` set (ln_edges (lg_heap g node))" for x q
    using that(1) e [OF that(2)] assms(1)
    by (auto simp: dfs_pre_def intro: trancl_into_trancl)
  ultimately show ?thesis using assms(1) n by (auto simp: dfs_pre_def dfs_inv_temp)
qed

lemma dfs_pre_next:
  assumes "dfs_pre fuel g (insert p ps)" "dfs_post g g' TEE_SUCCESS {p}"
  shows "dfs_pre fuel g' ps"
proof -
  have s: "lg_same g g'" and t: "TEMP g \<subseteq> TEMP g'" "TEMP g' - PERM g' = TEMP g - PERM g" "dfs_inv g'"
    using assms(2) by (auto simp: dfs_post_def)
  note sd = lg_sameD [OF s]
  have "card (set (lg_nodes g') - TEMP g') \<le> card (set (lg_nodes g) - TEMP g)"
    using t(1) sd(1) by (intro card_mono) auto
  with assms(1) s t sd show ?thesis by (auto simp: dfs_pre_def)
qed

lemma dfs_post_trans:
  "dfs_post g g' TEE_SUCCESS ps \<Longrightarrow> dfs_post g' g'' res qs \<Longrightarrow> dfs_post g g'' res (ps \<union> qs)"
  unfolding dfs_post_def using lg_sameD [of g g'] by (auto intro: lg_same_trans)

lemma dfs_post_leave:
  assumes "dfs_pre (Suc fuel) g {node}" "node \<notin> PERM g" "node \<notin> TEMP g"
    "dfs_post (lg_flag LOCKDEP_NODE_TEMP_MARK node g) g' TEE_SUCCESS
       (le_to ` set (ln_edges (lg_heap g node)))"
  shows "dfs_post g (lg_flag LOCKDEP_NODE_PERM_MARK node g') TEE_SUCCESS {node}"
proof -
  let ?g = "lg_flag LOCKDEP_NODE_TEMP_MARK node g"
  have n: "node \<in> set (lg_nodes g)" using assms(1) by (simp add: dfs_pre_def)
  then have s: "lg_same ?g g'" and t: "TEMP ?g \<subseteq> TEMP g'" "PERM g \<subseteq> PERM g'" "dfs_inv g'"
    "TEMP g' - PERM g' = insert node (TEMP g) - PERM g"
    "le_to ` set (ln_edges (lg_heap g node)) \<subseteq> PERM g'"
    using assms(4) by (auto simp: dfs_post_def)
  have sg: "lg_same g g'" using s lg_same_trans [OF lg_same_flag] by blast
  have "node \<in> TEMP g'" "node \<notin> PERM g'" using t n assms(2) by auto
  moreover have "lg_edges g' `` {node} \<subseteq> PERM g'"
    using t(5) lg_sameD(4) [OF sg] by (auto simp: lg_edges_def)
  ultimately have "dfs_inv (lg_flag LOCKDEP_NODE_PERM_MARK node g')"
    by (intro dfs_inv_perm t(3))
  moreover have "TEMP g' - insert node (PERM g') = TEMP g - PERM g" using t(4) assms(3) by auto
  moreover have "lg_same g (lg_flag LOCKDEP_NODE_PERM_MARK node g')"
    using sg lg_same_flag by (rule lg_same_trans)
  ultimately show ?thesis using t n lg_sameD(1) [OF sg] by (auto simp: dfs_post_def)
qed

lemma lockdep_visit_correct:
  "dfs_pre fuel g {node} \<Longrightarrow>
     \<exists>g' res. lockdep_visit fuel g node = Some (g', res) \<and> dfs_post g g' res {node}"
  "dfs_pre fuel g (le_to ` set es) \<Longrightarrow>
     \<exists>g' res. lockdep_visit_edges fuel g es = Some (g', res) \<and> dfs_post g g' res (le_to ` set es)"
proof (induction fuel g node and fuel g es rule: lockdep_visit_lockdep_visit_edges.induct)
  case (1 g node)
  then show ?case by (simp add: dfs_pre_def)
next
  case (2 fuel g node)
  consider (perm) "node \<in> PERM g" | (temp) "node \<notin> PERM g" "node \<in> TEMP g"
    | (new) "node \<notin> PERM g" "node \<notin> TEMP g" by blast
  then show ?case
  proof cases
    case perm
    with 2(2) show ?thesis by (auto simp: marked_def Let_def dfs_post_def dfs_pre_def)
  next
    case temp
    with 2(2) have "(node, node) \<in> (lg_edges g)\<^sup>+" by (auto simp: dfs_pre_def)
    then have "\<not> acyclic (lg_edges g)" by (auto simp: acyclic_def)
    with temp show ?thesis by (auto simp: marked_def Let_def dfs_post_def)
  next
    case new
    let ?g = "lg_flag LOCKDEP_NODE_TEMP_MARK node g"
    have f: "ln_flags (lg_heap g node) AND LOCKDEP_NODE_PERM_MARK = 0"
      "ln_flags (lg_heap g node) AND LOCKDEP_NODE_TEMP_MARK = 0" using new 2(2) by (auto simp: marked_def dfs_pre_def)
    from 2(1) [OF refl _ _ dfs_pre_enter [OF 2(2) new]] f obtain g' res where
      r: "lockdep_visit_edges fuel ?g (ln_edges (lg_heap g node)) = Some (g', res)"
        "dfs_post ?g g' res (le_to ` set (ln_edges (lg_heap g node)))" by auto
    show ?thesis
    proof (cases "res = TEE_SUCCESS")
      case True
      with r f dfs_post_leave [OF 2(2) new, of g'] show ?thesis by (auto simp: Let_def)
    next
      case False
      with r(2) have "dfs_post g g' res {node}"
        using lg_same_trans [OF lg_same_flag] by (auto simp: dfs_post_def)
      with r f False show ?thesis by (auto simp: Let_def)
    qed
  qed
next
  case (3 fuel g)
  then show ?case by (auto simp: dfs_post_def dfs_pre_def)
next
  case (4 fuel g e es)
  have "dfs_pre fuel g {le_to e}" using 4(3) by (auto simp: dfs_pre_def)
  from 4(1) [OF this] obtain g' res where
    r: "lockdep_visit fuel g (le_to e) = Some (g', res)" "dfs_post g g' res {le_to e}" by auto
  show ?case
  proof (cases "res = TEE_SUCCESS")
    case True
    with dfs_pre_next [of fuel g "le_to e" "le_to ` set es" g'] 4(3) r(2)
    have "dfs_pre fuel g' (le_to ` set es)" by simp
    from 4(2) [OF r(1) refl _ this] True obtain g'' res' where
      "lockdep_visit_edges fuel g' es = Some (g'', res')" "dfs_post g' g'' res' (le_to ` set es)"
      by auto
    with r True dfs_post_trans [of g g' "{le_to e}" g'' res' "le_to ` set es"] show ?thesis by auto
  next
    case False
    with r show ?thesis by (auto simp: dfs_post_def)
  qed
qed


lemma lockdep_sort_loop_correct:
  assumes "lg_wf g" "dfs_inv g" "TEMP g = PERM g" "set nodes \<subseteq> set (lg_nodes g)"
    "length (lg_nodes g) < fuel"
  shows "\<exists>g' res. lockdep_sort_loop fuel g nodes = Some (g', res) \<and> dfs_post g g' res (set nodes)"
  using assms
proof (induction nodes arbitrary: g)
  case Nil
  then show ?case by (auto simp: dfs_post_def)
next
  case (Cons node nodes)
  have c: "card (set (lg_nodes g) - TEMP g) \<le> length (lg_nodes g)"
    by (rule order_trans [OF card_mono card_length]) auto
  show ?case
  proof (cases "ln_flags (lg_heap g node) = 0")
    case True
    have "dfs_pre fuel g {node}" using Cons.prems c by (simp add: dfs_pre_def)
    with lockdep_visit_correct(1) obtain g' res where
      r: "lockdep_visit fuel g node = Some (g', res)" "dfs_post g g' res {node}" by blast
    show ?thesis
    proof (cases "res = TEE_SUCCESS")
      case T: True
      with r(2) have s: "lg_same g g'" and i: "dfs_inv g'" "TEMP g' - PERM g' = {}"
        using Cons.prems(3) by (auto simp: dfs_post_def)
      have "TEMP g' = PERM g'" using i by (auto simp: dfs_inv_def)
      with Cons.IH [of g'] Cons.prems s i(1) obtain g'' res' where
        "lockdep_sort_loop fuel g' nodes = Some (g'', res')" "dfs_post g' g'' res' (set nodes)"
        by (auto simp: lg_sameD)
      with r T True dfs_post_trans [of g g' "{node}" g'' res' "set nodes"] show ?thesis by auto
    next
      case False
      with r True show ?thesis by (auto simp: dfs_post_def)
    qed
  next
    case False
    with Cons.prems have "node \<in> PERM g" by (auto simp: dfs_inv_def)
    moreover from Cons.IH [of g] Cons.prems obtain g' res where
      "lockdep_sort_loop fuel g nodes = Some (g', res)" "dfs_post g g' res (set nodes)" by auto
    ultimately show ?thesis using False by (auto simp: dfs_post_def)
  qed
qed

text \<open>
  The sort on a well formed graph without marks returns, keeps nodes and edges, and succeeds
  exactly on acyclic graphs, then leaving no marks.
\<close>

lemma lockdep_graph_sort_correct:
  assumes "lg_wf g" "lg_clean g"
  shows "\<exists>g' res. lockdep_graph_sort g = Some (g', res) \<and> lg_same g g' \<and>
    (if acyclic (lg_edges g) then res = TEE_SUCCESS \<and> lg_clean g' else res = TEE_ERROR_BAD_STATE)"
proof -
  have m: "TEMP g = {}" "PERM g = {}" using assms(2) by (auto simp: marked_def lg_clean_def)
  then have "dfs_inv g" using assms(2) by (auto simp: dfs_inv_def acyclic_def lg_clean_def)
  with lockdep_sort_loop_correct [OF assms(1) this] m obtain g' res where
    r: "lockdep_sort_loop (Suc (length (lg_nodes g))) g (lg_nodes g) = Some (g', res)"
      "dfs_post g g' res (set (lg_nodes g))" by blast
  have s: "lg_same g g'" using r(2) by (simp add: dfs_post_def)
  show ?thesis
  proof (cases "res = TEE_SUCCESS")
    case True
    with r(2) have "set (lg_nodes g) \<subseteq> PERM g'" "dfs_inv g'" by (auto simp: dfs_post_def)
    moreover have "lg_edges g \<subseteq> set (lg_nodes g) \<times> set (lg_nodes g)"
      using assms(1) by (auto simp: lg_edges_def lg_wf_def)
    ultimately have "lg_edges g = lg_edges g' \<inter> PERM g' \<times> PERM g'"
      using lg_sameD(2) [OF s] by auto
    with \<open>dfs_inv g'\<close> have "acyclic (lg_edges g)" by (simp add: dfs_inv_def)
    moreover have "lg_clean (lg_clear_flags g')" by (simp add: lg_clean_def lg_clear_flags_def)
    ultimately show ?thesis
      using r True lg_same_trans [OF s lg_same_clear] by (simp add: lockdep_graph_sort_def)
  next
    case False
    with r s show ?thesis by (auto simp: lockdep_graph_sort_def dfs_post_def)
  qed
qed


section \<open>Correctness of the cycle search\<close>

abbreviation lid :: "lockdep_graph \<Rightarrow> addr \<Rightarrow> u64" where
  "lid g p \<equiv> ln_lock_id (lg_heap g p)"

abbreviation bfs_len :: "lockdep_bfs \<Rightarrow> nat" where
  "bfs_len q \<equiv> length (bfs_path q)"

text \<open>The elements that the edges of an element with a given path put into the queue.\<close>

definition bfs_new :: "lockdep_graph \<Rightarrow> u64 list \<Rightarrow> addr list \<Rightarrow> lockdep_bfs list" where
  "bfs_new g path ps = map (\<lambda>p. \<lparr>bfs_node = p, bfs_path = path @ [lid g p]\<rparr>) ps"

lemma bfs_new_flag [simp]: "bfs_new (lg_flag f p g) path ps = bfs_new g path ps"
  by (simp add: bfs_new_def)

lemma sorted_bfs_new: "sorted (map bfs_len (bfs_new g path ps))"
  by (induction ps) (auto simp: bfs_new_def)

lemma bfs_edges_Inr:
  assumes "bfs_edges mem k g start qe queue es = Inr (g', k', queue')"
    "le_to ` set es \<subseteq> set (lg_nodes g)"
  shows "lg_same g g' \<and> VISITED g' = VISITED g \<union> le_to ` set es \<and> k \<le> k' \<and>
    (\<forall>e \<in> set es. lid g (le_to e) \<noteq> start) \<and>
    (\<exists>ps. queue' = queue @ bfs_new g (bfs_path qe) ps \<and> distinct ps \<and>
       set ps = le_to ` set es - VISITED g)"
  using assms
proof (induction mem k g start qe queue es rule: bfs_edges.induct)
  case (1 mem k g start qe queue)
  then show ?case by (auto simp: bfs_new_def)
next
  case (2 mem k g start qe queue e es)
  let ?p = "le_to e"
  have p: "?p \<in> set (lg_nodes g)" "le_to ` set es \<subseteq> set (lg_nodes g)" using "2.prems"(2) by auto
  have ns: "lid g ?p \<noteq> start" using "2.prems"(1) by (auto simp: Let_def split: if_splits)
  show ?case
  proof (cases "?p \<in> VISITED g")
    case True
    then have f: "ln_flags (lg_heap g ?p) AND LOCKDEP_NODE_BFS_VISITED \<noteq> 0" by (simp add: marked_def)
    have "bfs_edges mem k g start qe queue es = Inr (g', k', queue')"
      using "2.prems"(1) ns f by (simp add: Let_def)
    from "2.IH"(2) [OF refl ns _ this p(2)] f True ns show ?thesis by (auto simp: insert_absorb)
  next
    case False
    then have f: "ln_flags (lg_heap g ?p) AND LOCKDEP_NODE_BFS_VISITED = 0" using p(1) by (simp add: marked_def)
    let ?g = "lg_flag LOCKDEP_NODE_BFS_VISITED ?p g"
    let ?q = "queue @ [\<lparr>bfs_node = ?p, bfs_path = bfs_path qe @ [lid g ?p]\<rparr>]"
    have r: "mem k \<noteq> None" "mem (Suc k) \<noteq> None"
      "bfs_edges mem (k + 2) ?g start qe ?q es = Inr (g', k', queue')"
      using "2.prems"(1) ns f by (auto simp: Let_def split: if_splits)
    have IH: "lg_same ?g g' \<and> VISITED g' = VISITED ?g \<union> le_to ` set es \<and> k + 2 \<le> k' \<and>
      (\<forall>e \<in> set es. lid ?g (le_to e) \<noteq> start) \<and>
      (\<exists>ps. queue' = ?q @ bfs_new ?g (bfs_path qe) ps \<and> distinct ps \<and>
         set ps = le_to ` set es - VISITED ?g)"
      using "2.IH"(1) [OF refl ns f refl r(1,2,3)] p(2) by simp
    then obtain ps where ps: "queue' = ?q @ bfs_new g (bfs_path qe) ps" "distinct ps"
      "set ps = le_to ` set es - insert ?p (VISITED g)" using p(1) by auto
    have "queue' = queue @ bfs_new g (bfs_path qe) (?p # ps)" using ps(1) by (simp add: bfs_new_def)
    moreover have "distinct (?p # ps)" "set (?p # ps) = le_to ` set (e # es) - VISITED g"
      using ps False by auto
    ultimately show ?thesis
      using IH p(1) ns by (auto dest: lg_same_flag_trans)
  qed
qed

lemma bfs_edges_Inl:
  "bfs_edges mem k g start qe queue es = Inl (g', ret) \<Longrightarrow>
   lg_same g g' \<and> (case ret of Some path \<Rightarrow> path = bfs_path qe \<and> (\<exists>e \<in> set es. lid g (le_to e) = start)
                   | None \<Rightarrow> \<exists>i \<ge> k. mem i = None)"
proof (induction mem k g start qe queue es rule: bfs_edges.induct)
  case (2 mem k g start qe queue e es)
  let ?p = "le_to e" and ?g = "lg_flag LOCKDEP_NODE_BFS_VISITED (le_to e) g"
  let ?q = "queue @ [\<lparr>bfs_node = ?p, bfs_path = bfs_path qe @ [lid g ?p]\<rparr>]"
  consider (cycle) "lid g ?p = start"
    | (seen) "lid g ?p \<noteq> start" "ln_flags (lg_heap g ?p) AND LOCKDEP_NODE_BFS_VISITED \<noteq> 0"
    | (fail) "lid g ?p \<noteq> start" "ln_flags (lg_heap g ?p) AND LOCKDEP_NODE_BFS_VISITED = 0"
        "mem k = None \<or> mem (Suc k) = None"
    | (new) "lid g ?p \<noteq> start" "ln_flags (lg_heap g ?p) AND LOCKDEP_NODE_BFS_VISITED = 0"
        "mem k \<noteq> None" "mem (Suc k) \<noteq> None" by blast
  then show ?case
  proof cases
    case cycle
    with "2.prems" show ?thesis by (auto simp: Let_def)
  next
    case seen
    with "2.prems" have "bfs_edges mem k g start qe queue es = Inl (g', ret)" by (simp add: Let_def)
    from "2.IH"(2) [OF refl seen this] show ?thesis by (auto split: option.splits)
  next
    case fail
    with "2.prems" show ?thesis by (auto simp: Let_def split: if_splits intro: Suc_leD)
  next
    case new
    with "2.prems" have "bfs_edges mem (k + 2) ?g start qe ?q es = Inl (g', ret)" by (simp add: Let_def)
    from "2.IH"(1) [OF refl new(1,2) refl new(3,4) this] show ?thesis
      by (auto split: option.splits dest: lg_same_flag_trans Suc_leD)
  qed
qed simp


text \<open>
  The state of the search from \<open>s\<close>, in terms of the graph's relation: every queued node has a
  path of the recorded length and no shorter one, lengths in the queue differ by at most one,
  nodes that left the queue have all successors visited and no edge to \<open>s\<close>, and all nodes
  nearer than the head have left.
\<close>

definition bfs_elem :: "lockdep_graph \<Rightarrow> addr \<Rightarrow> lockdep_bfs \<Rightarrow> bool" where
  "bfs_elem g s q \<longleftrightarrow> bfs_node q \<in> VISITED g \<and>
     (\<exists>ps. bfs_path q = map (lid g) ps \<and> ps \<noteq> [] \<and> hd ps = s \<and> last ps = bfs_node q \<and>
        successively (\<lambda>a b. (a, b) \<in> lg_edges g) ps) \<and>
     (\<forall>n. Suc n < bfs_len q \<longrightarrow> (s, bfs_node q) \<notin> lg_edges g ^^ n)"

definition bfs_left :: "lockdep_graph \<Rightarrow> lockdep_bfs list \<Rightarrow> addr set" where
  "bfs_left g queue = VISITED g - bfs_node ` set queue"

definition bfs_inv :: "lockdep_graph \<Rightarrow> addr \<Rightarrow> lockdep_bfs list \<Rightarrow> bool" where
  "bfs_inv g s queue \<longleftrightarrow> lg_wf g \<and> s \<in> VISITED g \<and> (\<forall>q \<in> set queue. bfs_elem g s q) \<and>
     sorted (map bfs_len queue) \<and>
     (queue \<noteq> [] \<longrightarrow> (\<forall>q \<in> set queue. bfs_len q \<le> Suc (bfs_len (hd queue)))) \<and>
     (\<forall>v \<in> bfs_left g queue. lg_edges g `` {v} \<subseteq> VISITED g \<and> (v, s) \<notin> lg_edges g) \<and>
     (queue \<noteq> [] \<longrightarrow> (\<forall>n v. (s, v) \<in> lg_edges g ^^ n \<longrightarrow>
        (n < bfs_len (hd queue) \<longrightarrow> v \<in> VISITED g) \<and>
        (Suc n < bfs_len (hd queue) \<longrightarrow> v \<in> bfs_left g queue)))"

lemma lg_edges_nodes:
  "lg_wf g \<Longrightarrow> (p, q) \<in> lg_edges g \<Longrightarrow> p \<in> set (lg_nodes g) \<and> q \<in> set (lg_nodes g)"
  by (auto simp: lg_edges_def lg_wf_def)

lemma lg_edges_Image:
  "p \<in> set (lg_nodes g) \<Longrightarrow> lg_edges g `` {p} = le_to ` set (ln_edges (lg_heap g p))"
  by (auto simp: lg_edges_def)

text \<open>One round of the loop that does not find the start node: a new element's path is shortest.\<close>

lemma bfs_elem_new:
  assumes el: "bfs_elem g s qe" and near: "\<And>n v. (s, v) \<in> lg_edges g ^^ n \<Longrightarrow> n < bfs_len qe \<Longrightarrow> v \<in> VISITED g"
    and p: "(bfs_node qe, p) \<in> lg_edges g" "p \<notin> VISITED g" "p \<in> VISITED g'" and same: "lg_same g g'"
  shows "bfs_elem g' s \<lparr>bfs_node = p, bfs_path = bfs_path qe @ [lid g p]\<rparr>"
proof -
  note sd = lg_sameD [OF same]
  from el obtain rs where rs: "bfs_path qe = map (lid g) rs" "rs \<noteq> []" "hd rs = s"
    "last rs = bfs_node qe" "successively (\<lambda>a b. (a, b) \<in> lg_edges g) rs" by (auto simp: bfs_elem_def)
  have "successively (\<lambda>a b. (a, b) \<in> lg_edges g) (rs @ [p])"
    using rs p(1) by (simp add: successively_append_iff)
  moreover have "(s, p) \<notin> lg_edges g ^^ n" if "n < bfs_len qe" for n using near that p(2) by blast
  ultimately show ?thesis
    using rs p(3) by (auto simp: bfs_elem_def sd intro!: exI [of _ "rs @ [p]"])
qed

text \<open>
  The distances: \<open>L\<close> is the length of the dequeued element, the new head \<open>H\<close> is as long or one
  longer, and every node in the queue has no path shorter than its own.
\<close>

lemma bfs_distances:
  fixes E :: "(addr \<times> addr) set"
  assumes near: "\<And>n v. (s, v) \<in> E ^^ n \<Longrightarrow> n < L \<Longrightarrow> v \<in> Vis"
    and nearl: "\<And>n v. (s, v) \<in> E ^^ n \<Longrightarrow> Suc n < L \<Longrightarrow> v \<in> Vis - Q"
    and q: "\<And>n v. v \<in> Q \<Longrightarrow> (s, v) \<in> E ^^ n \<Longrightarrow> H \<le> Suc n"
    and left: "\<And>v. v \<in> Vis - Q \<Longrightarrow> E `` {v} \<subseteq> Vis"
    and L: "L \<noteq> 0" "L \<le> H" "H \<le> Suc L" and p: "(s, v) \<in> E ^^ n"
  shows "(n < H \<longrightarrow> v \<in> Vis) \<and> (Suc n < H \<longrightarrow> v \<in> Vis - Q)"
proof -
  have lefts: "v \<in> Vis - Q" if "(s, v) \<in> E ^^ n" "Suc n < H" for n v
    using near [OF that(1)] nearl [OF that(1)] q [OF _ that(1)] that(2) L(3) by force
  have "v \<in> Vis" if n: "n = L" "n < H"
  proof -
    from n L(1) obtain m where m: "n = Suc m" by (metis not0_implies_Suc)
    with p obtain w where w: "(s, w) \<in> E ^^ m" "(w, v) \<in> E" by auto
    with lefts [OF w(1)] m n left show ?thesis by auto
  qed
  with near [OF p] lefts [OF p] L show ?thesis by (cases "n < L") auto
qed

lemma bfs_inv_step:
  assumes i: "bfs_inv g s (qe # queue)" and same: "lg_same g g'"
    and vis: "VISITED g' = VISITED g \<union> lg_edges g `` {bfs_node qe}"
    and ns: "(bfs_node qe, s) \<notin> lg_edges g"
    and q: "queue' = queue @ bfs_new g (bfs_path qe) ps"
    and ps: "set ps = lg_edges g `` {bfs_node qe} - VISITED g"
  shows "bfs_inv g' s queue'"
proof -
  let ?E = "lg_edges g" and ?L = "bfs_len qe" and ?u = "bfs_node qe" and ?H = "bfs_len (hd queue')"
  note sd = lg_sameD [OF same]
  from i have wf: "lg_wf g" and sv: "s \<in> VISITED g" and el: "\<And>q. q \<in> set (qe # queue) \<Longrightarrow> bfs_elem g s q"
    and so: "sorted (map bfs_len (qe # queue))" "\<And>q. q \<in> set queue \<Longrightarrow> bfs_len q \<le> Suc ?L"
    and le: "\<And>v. v \<in> bfs_left g (qe # queue) \<Longrightarrow> ?E `` {v} \<subseteq> VISITED g \<and> (v, s) \<notin> ?E"
    and near: "\<And>n v. (s, v) \<in> ?E ^^ n \<Longrightarrow> n < ?L \<Longrightarrow> v \<in> VISITED g"
    and nearl: "\<And>n v. (s, v) \<in> ?E ^^ n \<Longrightarrow> Suc n < ?L \<Longrightarrow> v \<in> bfs_left g (qe # queue)"
    by (auto simp: bfs_inv_def)
  have nodes: "bfs_node ` set queue' = bfs_node ` set queue \<union> set ps"
    by (simp add: q bfs_new_def image_Un image_image)
  have left: "bfs_left g' queue' \<subseteq> insert ?u (bfs_left g (qe # queue))"
    "bfs_left g (qe # queue) \<subseteq> bfs_left g' queue'"
    unfolding bfs_left_def nodes vis using ps by auto
  have el': "bfs_elem g' s x" if "x \<in> set queue'" for x
    using that el [of x] bfs_elem_new [OF el [of qe] near _ _ _ same] ps vis
    by (auto simp: q bfs_new_def) (auto simp: bfs_elem_def sd vis)
  have so': "sorted (map bfs_len queue')" and mx: "\<And>x. x \<in> set queue' \<Longrightarrow> ?L \<le> bfs_len x \<and> bfs_len x \<le> Suc ?L"
    using so sorted_bfs_new [of g "bfs_path qe" ps] by (auto simp: q sorted_append bfs_new_def)
  have le': "?E `` {v} \<subseteq> VISITED g' \<and> (v, s) \<notin> ?E" if "v \<in> bfs_left g' queue'" for v
    using that left le [of v] ns vis by auto
  have dist: "(n < ?H \<longrightarrow> v \<in> VISITED g') \<and> (Suc n < ?H \<longrightarrow> v \<in> VISITED g' - bfs_node ` set queue')"
    if "queue' \<noteq> []" "(s, v) \<in> ?E ^^ n" for n v
  proof (rule bfs_distances [where s = s and E = ?E and L = ?L, OF _ _ _ _ _ _ _ that(2)])
    show "v \<in> VISITED g'" if "(s, v) \<in> ?E ^^ n" "n < ?L" for n v using near that vis by blast
    show "v \<in> VISITED g' - bfs_node ` set queue'" if "(s, v) \<in> ?E ^^ n" "Suc n < ?L" for n v
      using nearl [OF that] left(2) by (auto simp: bfs_left_def)
    show "?E `` {v} \<subseteq> VISITED g'" if "v \<in> VISITED g' - bfs_node ` set queue'" for v
      using le' [of v] that by (simp add: bfs_left_def)
    show "?L \<noteq> 0" using el [of qe] by (auto simp: bfs_elem_def)
    show "?L \<le> ?H" "?H \<le> Suc ?L" using mx hd_in_set [OF that(1)] by auto
    show "?H \<le> Suc n" if w: "w \<in> bfs_node ` set queue'" "(s, w) \<in> ?E ^^ n" for n w
    proof -
      from w(1) obtain x where x: "x \<in> set queue'" "bfs_node x = w" by auto
      have "?H \<le> bfs_len x" using so' x(1) by (cases queue') auto
      moreover have "\<not> Suc n < bfs_len x" using el' [OF x(1)] x(2) w(2) by (auto simp: bfs_elem_def sd)
      ultimately show ?thesis by simp
    qed
  qed
  have "bfs_len x \<le> Suc ?H" if "x \<in> set queue'" for x
    using mx [OF that] mx [of "hd queue'"] that by (cases queue') force+
  with wf sv el' so' le' dist show ?thesis
    unfolding bfs_inv_def sd by (auto simp: vis bfs_left_def)
qed

text \<open>The loop ends within its fuel, with a shortest cycle through \<open>s\<close> if it returns one.\<close>

definition bfs_result :: "mem \<Rightarrow> nat \<Rightarrow> lockdep_graph \<Rightarrow> addr \<Rightarrow> lockdep_graph \<Rightarrow> u64 list option \<Rightarrow> bool"
where
  "bfs_result mem k g s g' ret \<longleftrightarrow> lg_same g g' \<and>
     (case ret of
        Some path \<Rightarrow> (\<exists>ps. path = map (lid g) ps \<and> ps \<noteq> [] \<and> hd ps = s \<and> (last ps, s) \<in> lg_edges g \<and>
            successively (\<lambda>a b. (a, b) \<in> lg_edges g) ps) \<and>
          (\<forall>n. 0 < n \<and> n < length path \<longrightarrow> (s, s) \<notin> lg_edges g ^^ n)
      | None \<Rightarrow> (s, s) \<notin> (lg_edges g)\<^sup>+ \<or> (\<exists>i \<ge> k. mem i = None))"

lemma bfs_inv_empty:
  assumes "bfs_inv g s []" shows "(s, s) \<notin> (lg_edges g)\<^sup>+"
proof
  have st: "v \<in> VISITED g \<and> v \<noteq> s" if "(s, v) \<in> (lg_edges g)\<^sup>+" for v
    using that
  proof (induction rule: trancl_induct)
    case (base y)
    with assms show ?case by (auto simp: bfs_inv_def bfs_left_def)
  next
    case (step y z)
    with assms show ?case by (auto simp: bfs_inv_def bfs_left_def)
  qed
  assume "(s, s) \<in> (lg_edges g)\<^sup>+"
  with st show False by blast
qed

lemma bfs_inv_found:
  assumes i: "bfs_inv g s (qe # queue)" and e: "(bfs_node qe, s) \<in> lg_edges g" "lg_same g g'"
  shows "bfs_result mem k g s g' (Some (bfs_path qe))"
proof -
  from i obtain ps where ps: "bfs_path qe = map (lid g) ps" "ps \<noteq> []" "hd ps = s"
    "last ps = bfs_node qe" "successively (\<lambda>a b. (a, b) \<in> lg_edges g) ps"
    by (auto simp: bfs_inv_def bfs_elem_def)
  have "(s, s) \<notin> lg_edges g ^^ n" if pos: "0 < n" "n < bfs_len qe" for n
  proof
    assume "(s, s) \<in> lg_edges g ^^ n"
    then obtain m v where v: "n = Suc m" "(s, v) \<in> lg_edges g ^^ m" "(v, s) \<in> lg_edges g"
      using pos(1) by (cases n) auto
    with i pos(2) have "v \<in> bfs_left g (qe # queue)" by (auto simp: bfs_inv_def)
    with i v(3) show False by (auto simp: bfs_inv_def)
  qed
  with ps e show ?thesis by (auto simp: bfs_result_def)
qed

lemma bfs_result_mono:
  "lg_same g g1 \<Longrightarrow> k \<le> k1 \<Longrightarrow> bfs_result mem k1 g1 s g' ret \<Longrightarrow> bfs_result mem k g s g' ret"
  using lg_sameD [of g g1] by (auto simp: bfs_result_def split: option.splits intro: lg_same_trans order_trans)

lemma bfs_loop_correct:
  "bfs_inv g s queue \<Longrightarrow> length queue + card (set (lg_nodes g) - VISITED g) \<le> fuel \<Longrightarrow>
   \<exists>g' ret. bfs_loop fuel mem k g (lid g s) queue = Some (g', ret) \<and> bfs_result mem k g s g' ret"
proof (induction fuel arbitrary: k g queue)
  case (0 k g queue)
  then have "queue = []" by simp
  with bfs_inv_empty 0(1) show ?case by (auto simp: bfs_result_def)
next
  case (Suc fuel k g queue)
  show ?case
  proof (cases queue)
    case Nil
    with bfs_inv_empty Suc.prems(1) show ?thesis by (auto simp: bfs_result_def)
  next
    case (Cons qe rest)
    let ?es = "ln_edges (lg_heap g (bfs_node qe))"
    have wf: "lg_wf g" and u: "bfs_node qe \<in> set (lg_nodes g)" and s: "s \<in> set (lg_nodes g)"
      using Suc.prems(1) Cons by (auto simp: bfs_inv_def bfs_elem_def marked_def)
    have im: "le_to ` set ?es = lg_edges g `` {bfs_node qe}" using lg_edges_Image [OF u] by simp
    have sub: "le_to ` set ?es \<subseteq> set (lg_nodes g)" using wf u by (auto simp: lg_wf_def)
    have start: "lid g p = lid g s \<longleftrightarrow> p = s" if "p \<in> le_to ` set ?es" for p
      using wf s that sub by (auto simp: lg_wf_def inj_on_def)
    show ?thesis
    proof (cases "bfs_edges mem k g (lid g s) qe rest ?es")
      case (Inl x)
      obtain g' ret where x: "x = (g', ret)" by fastforce
      with bfs_edges_Inl Inl have b: "lg_same g g' \<and> (case ret of
        Some path \<Rightarrow> path = bfs_path qe \<and> (\<exists>e \<in> set ?es. lid g (le_to e) = lid g s) | None \<Rightarrow> \<exists>i \<ge> k. mem i = None)"
        by blast
      have "bfs_result mem k g s g' ret"
      proof (cases ret)
        case None
        with b show ?thesis by (simp add: bfs_result_def)
      next
        case (Some path)
        with b start have "s \<in> lg_edges g `` {bfs_node qe}" unfolding im [symmetric] by force
        with bfs_inv_found [of g s qe rest g'] Suc.prems(1) Cons b Some show ?thesis by auto
      qed
      with Inl x Cons show ?thesis by auto
    next
      case (Inr x)
      obtain g' k' queue' where x: "x = (g', k', queue')" by (metis prod_cases3)
      from bfs_edges_Inr [OF Inr [unfolded x] sub] obtain ps where
        b: "lg_same g g'" "VISITED g' = VISITED g \<union> le_to ` set ?es" "k \<le> k'"
          "\<forall>e \<in> set ?es. lid g (le_to e) \<noteq> lid g s" "queue' = rest @ bfs_new g (bfs_path qe) ps"
          "distinct ps" "set ps = le_to ` set ?es - VISITED g" by auto
      have "s \<notin> le_to ` set ?es" using b(4) by auto
      then have ns: "(bfs_node qe, s) \<notin> lg_edges g" by (simp add: im)
      have "bfs_inv g' s queue'"
        using bfs_inv_step [OF _ b(1) _ ns b(5)] Suc.prems(1) Cons b(2,7) im by simp
      moreover have "length queue' + card (set (lg_nodes g') - VISITED g') \<le> fuel"
      proof -
        have d: "set (lg_nodes g) - VISITED g = set ps \<union> (set (lg_nodes g') - VISITED g')"
          "set ps \<inter> (set (lg_nodes g') - VISITED g') = {}"
          using b(2,7) sub lg_sameD(1) [OF b(1)] by auto
        have "card (set (lg_nodes g) - VISITED g) = length ps + card (set (lg_nodes g') - VISITED g')"
          unfolding d(1) using b(6) d(2) by (simp add: card_Un_disjoint distinct_card)
        with Suc.prems(2) Cons b(5) show ?thesis by (simp add: bfs_new_def)
      qed
      ultimately obtain g'' ret where
        r: "bfs_loop fuel mem k' g' (lid g' s) queue' = Some (g'', ret)" "bfs_result mem k' g' s g'' ret"
        using Suc.IH by blast
      with bfs_result_mono [OF b(1,3)] Inr x Cons lg_sameD(5) [OF b(1), of s] show ?thesis by auto
    qed
  qed
qed

lemma lockdep_shortest_cycle_result:
  assumes "lg_wf g" "node \<in> set (lg_nodes g)" "VISITED g = {}"
  shows "\<exists>g' ret. lockdep_graph_get_shortest_cycle mem k g node = Some (g', ret) \<and>
    bfs_result mem k g node g' ret"
proof -
  let ?g = "lg_flag LOCKDEP_NODE_BFS_VISITED node g"
  let ?q = "[\<lparr>bfs_node = node, bfs_path = [lid g node]\<rparr>]"
  have v: "VISITED ?g = {node}" using assms(2,3) by simp
  have "bfs_inv ?g node ?q"
    using assms v by (auto simp: bfs_inv_def bfs_elem_def bfs_left_def intro!: exI [of _ "[node]"])
  moreover have "length ?q + card (set (lg_nodes ?g) - VISITED ?g) \<le> Suc (length (lg_nodes g))"
    using v card_length [of "lg_nodes g"]
      card_mono [of "set (lg_nodes g)" "set (lg_nodes g) - {node}"] by simp
  ultimately obtain g' ret where
    "bfs_loop (Suc (length (lg_nodes g))) mem (k + 2) ?g (lid g node) ?q = Some (g', ret)"
    "bfs_result mem (k + 2) ?g node g' ret"
    using bfs_loop_correct [of ?g node ?q "Suc (length (lg_nodes g))" mem "k + 2"] by auto
  moreover from this(2) have "bfs_result mem k g node g' ret"
    by (rule bfs_result_mono [OF lg_same_flag, rotated]) simp
  moreover have "bfs_result mem k g node ?g None" if "mem k = None \<or> mem (Suc k) = None"
    using that by (auto simp: bfs_result_def intro: Suc_leD)
  ultimately have "\<exists>g' ret. lockdep_graph_get_shortest_cycle mem k g node = Some (g', ret) \<and>
      bfs_result mem k g node g' ret"
    by (cases "mem k = None \<or> mem (Suc k) = None")
      (auto simp: lockdep_graph_get_shortest_cycle_def Let_def)
  then show ?thesis .
qed

section \<open>Correctness of acquiring a lock\<close>

text \<open>The lock order that the graph records, as a relation on lock identifiers.\<close>

definition lg_order :: "lockdep_graph \<Rightarrow> (u64 \<times> u64) set" where
  "lg_order g = map_prod (lid g) (lid g) ` lg_edges g"

definition owned_ids :: "lockdep_graph \<Rightarrow> lockdep_lock list \<Rightarrow> u64 list" where
  "owned_ids g owned = map (\<lambda>l. lid g (ll_node l)) owned"

definition lg_ok :: "lockdep_graph \<Rightarrow> bool" where
  "lg_ok g \<longleftrightarrow> lg_wf g \<and> lg_clean g \<and> acyclic (lg_edges g)"

lemma trancl_map_prod:
  assumes "E \<subseteq> V \<times> V" "inj_on f V" "(a, b) \<in> (map_prod f f ` E)\<^sup>+"
  shows "\<exists>x y. a = f x \<and> b = f y \<and> (x, y) \<in> E\<^sup>+"
  using assms(3)
proof (induction rule: trancl_induct)
  case (base y)
  then show ?case by auto
next
  case (step y z)
  then obtain x u v w where "a = f x" "y = f u" "(x, u) \<in> E\<^sup>+" "y = f v" "z = f w" "(v, w) \<in> E" by auto
  moreover have "u \<in> V" "v \<in> V" using calculation assms(1) by (auto elim: tranclE)
  ultimately have "u = v" using assms(2) by (auto dest: inj_onD)
  with \<open>(x, u) \<in> E\<^sup>+\<close> \<open>(v, w) \<in> E\<close> have "(x, w) \<in> E\<^sup>+" by (auto intro: trancl_into_trancl)
  with \<open>a = f x\<close> \<open>z = f w\<close> show ?case by blast
qed

lemma acyclic_map_prod:
  assumes "E \<subseteq> V \<times> V" "inj_on f V"
  shows "acyclic (map_prod f f ` E) \<longleftrightarrow> acyclic E"
proof
  assume a: "acyclic (map_prod f f ` E)"
  have "(f x, f y) \<in> (map_prod f f ` E)\<^sup>+" if "(x, y) \<in> E\<^sup>+" for x y
    using that
  proof (induction rule: trancl_induct)
    case (base y)
    then show ?case by (auto intro!: r_into_trancl)
  next
    case (step y z)
    have "(f y, f z) \<in> map_prod f f ` E" using step(2) by force
    with step(3) show ?case by (rule trancl_into_trancl)
  qed
  with a show "acyclic E" by (force simp: acyclic_def)
next
  assume a: "acyclic E"
  show "acyclic (map_prod f f ` E)"
  proof (rule acyclicI, safe)
    fix z assume "(z, z) \<in> (map_prod f f ` E)\<^sup>+"
    from trancl_map_prod [OF assms this] obtain x y where
      xy: "f x = f y" "(x, y) \<in> E\<^sup>+" by metis
    moreover have "x \<in> V" "y \<in> V" using xy(2) assms(1) by (auto elim: tranclE converse_tranclE)
    ultimately show False using assms(2) a by (auto simp: acyclic_def dest: inj_onD)
  qed
qed

lemma lg_edges_sub: "lg_wf g \<Longrightarrow> lg_edges g \<subseteq> set (lg_nodes g) \<times> set (lg_nodes g)"
  by (auto simp: lg_edges_def lg_wf_def)

lemma acyclic_lg_order: "lg_wf g \<Longrightarrow> acyclic (lg_order g) \<longleftrightarrow> acyclic (lg_edges g)"
  unfolding lg_order_def by (rule acyclic_map_prod [OF lg_edges_sub]) (simp_all add: lg_wf_def)

lemma lg_same_order: "lg_same g g' \<Longrightarrow> lg_order g' = lg_order g" "lg_same g g' \<Longrightarrow> owned_ids g' owned = owned_ids g owned"
  using lg_sameD [of g g'] by (auto simp: lg_order_def owned_ids_def)

lemma lg_find_Some: "lg_find g ps i = Some p \<Longrightarrow> p \<in> set ps \<and> lid g p = i"
  by (induction ps) (auto split: if_splits)

lemma lg_find_None: "lg_find g ps i = None \<longleftrightarrow> (\<forall>p \<in> set ps. lid g p \<noteq> i)"
  by (induction ps) auto

text \<open>Finding or adding the node: the recorded order stays.\<close>

lemma lockdep_add_to_graph_correct:
  assumes g: "lg_wf g" "lg_clean g" and fresh: "\<And>p. mem k = Some p \<Longrightarrow> p \<notin> set (lg_nodes g)"
    and r: "lockdep_add_to_graph mem k g i = (g', k', Some node)"
  shows "lg_wf g' \<and> lg_clean g' \<and> node \<in> set (lg_nodes g') \<and> lid g' node = i \<and>
    set (lg_nodes g) \<subseteq> set (lg_nodes g') \<and> lg_edges g' = lg_edges g \<and>
    (\<forall>p \<in> set (lg_nodes g). lid g' p = lid g p)"
proof (cases "lg_find g (lg_nodes g) i")
  case (Some p)
  with r g lg_find_Some [OF Some] show ?thesis by (auto simp: lockdep_add_to_graph_def)
next
  case None
  with r obtain p where p: "mem k = Some p" "node = p"
    "g' = g\<lparr>lg_nodes := lg_nodes g @ [p],
        lg_heap := (lg_heap g)(p := \<lparr>ln_lock_id = i, ln_edges = [], ln_flags = 0\<rparr>)\<rparr>"
    by (auto simp: lockdep_add_to_graph_def split: option.splits)
  have f: "p \<notin> set (lg_nodes g)" by (rule fresh [OF p(1)])
  have e: "\<And>q. q \<in> set (lg_nodes g) \<Longrightarrow> \<forall>e \<in> set (ln_edges (lg_heap g q)). le_to e \<in> set (lg_nodes g)"
    using g(1) by (auto simp: lg_wf_def)
  have "lg_edges g' = lg_edges g" using f by (auto simp: p(3) lg_edges_def split: if_splits)
  moreover have "lg_wf g'"
    using g(1) f None [unfolded lg_find_None] by (auto simp: p(3) lg_wf_def inj_on_def)
  moreover have "lg_clean g'" using g(2) by (auto simp: p(3) lg_clean_def)
  ultimately show ?thesis using f p(2) by (auto simp: p(3))
qed

lemma lockdep_add_edge_correct:
  assumes g: "lg_wf g" "lg_clean g" "from \<in> set (lg_nodes g)" "node \<in> set (lg_nodes g)"
    and r: "lockdep_add_edge mem k g from node sf st tid = (g', k', res)"
  shows "lg_wf g' \<and> lg_clean g' \<and> lg_nodes g' = lg_nodes g \<and> (\<forall>p. lid g' p = lid g p) \<and> k \<le> k' \<and>
    (if res = TEE_SUCCESS then lg_edges g' = insert (from, node) (lg_edges g)
     else res = TEE_ERROR_OUT_OF_MEMORY \<and> mem k = None)"
proof -
  let ?old = "\<exists>e \<in> set (ln_edges (lg_heap g from)). le_to e = node"
  obtain k1 sf' k2 st' where d: "dup_call_stack mem (Suc k) sf = (k1, sf')" "dup_call_stack mem k1 st = (k2, st')"
    by fastforce
  have k: "Suc k \<le> k1" "k1 \<le> k2" using d by (auto simp: dup_call_stack_def split: option.splits)
  consider (old) ?old | (oom) "\<not> ?old" "mem k = None" | (new) "\<not> ?old" "mem k \<noteq> None" by blast
  then show ?thesis
  proof cases
    case old
    then have "(from, node) \<in> lg_edges g" using g(3) by (auto simp: lg_edges_def)
    with old g r show ?thesis by (auto simp: lockdep_add_edge_def insert_absorb)
  next
    case oom
    with g r show ?thesis by (auto simp: lockdep_add_edge_def)
  next
    case new
    let ?e = "\<lparr>le_to = node, le_thread_id = tid, le_call_stack_from = sf', le_call_stack_to = st'\<rparr>"
    have "lockdep_add_edge mem k g from node sf st tid =
      (lg_set from ((lg_heap g from)\<lparr>ln_edges := ln_edges (lg_heap g from) @ [?e]\<rparr>) g, k2, TEE_SUCCESS)"
      unfolding lockdep_add_edge_def d Let_def prod.case using new by (simp only: if_False d prod.case)
    then have n: "g' = lg_set from ((lg_heap g from)\<lparr>ln_edges := ln_edges (lg_heap g from) @ [?e]\<rparr>) g"
      "res = TEE_SUCCESS" "k' = k2" using r by (simp_all only: prod.inject)
    have "lg_edges g' = insert (from, node) (lg_edges g)"
      using g(3) by (auto simp: n(1) lg_edges_def lg_set_def split: if_splits)
    moreover have li: "lid g' p = lid g p" "lg_nodes g' = lg_nodes g"
      "set (ln_edges (lg_heap g' p)) \<subseteq> insert ?e (set (ln_edges (lg_heap g p)))" for p
      by (auto simp: n(1) lg_set_def)
    moreover have "lg_wf g'"
      using g(1,4) li(3) unfolding lg_wf_def li(1,2) by fastforce
    moreover have "lg_clean g'" using g(2,3) by (auto simp: n(1) lg_clean_def lg_set_def)
    ultimately show ?thesis using n(2,3) k by simp
  qed
qed

lemma lockdep_add_edges_correct:
  assumes "lg_wf g" "lg_clean g" "ll_node ` set owned \<subseteq> set (lg_nodes g)" "node \<in> set (lg_nodes g)"
    "lockdep_add_edges mem k g owned node st tid = (g', k', res)"
  shows "lg_wf g' \<and> lg_clean g' \<and> lg_nodes g' = lg_nodes g \<and> (\<forall>p. lid g' p = lid g p) \<and> k \<le> k' \<and>
    (if res = TEE_SUCCESS then lg_edges g' = lg_edges g \<union> ll_node ` set owned \<times> {node}
     else res = TEE_ERROR_OUT_OF_MEMORY \<and> (\<exists>i \<ge> k. mem i = None))"
  using assms
proof (induction mem k g owned node st tid rule: lockdep_add_edges.induct)
  case (2 mem k g lock owned node st tid)
  obtain g1 k1 r1 where e: "lockdep_add_edge mem k g (ll_node lock) node (ll_call_stack lock) st tid = (g1, k1, r1)"
    by (metis prod_cases3)
  note c = lockdep_add_edge_correct [OF "2.prems"(1,2) _ "2.prems"(4) e]
  show ?case
  proof (cases "r1 = TEE_SUCCESS")
    case True
    then have r: "lockdep_add_edges mem k1 g1 owned node st tid = (g', k', res)"
      and n: "\<not> r1 \<noteq> TEE_SUCCESS" using "2.prems"(5) e by simp_all
    from "2.IH" [OF e [symmetric] refl n _ _ _ _ r] c True "2.prems"(3,4) show ?thesis
      by (auto split: if_splits intro: order_trans)
  next
    case False
    with c "2.prems" e show ?thesis by (auto split: if_splits)
  qed
qed auto


lemma lockdep_visit_VISITED:
  "lockdep_visit fuel g node = Some (g', res) \<Longrightarrow> VISITED g' = VISITED g"
  "lockdep_visit_edges fuel g es = Some (g', res) \<Longrightarrow> VISITED g' = VISITED g"
  by (induction fuel g node and fuel g es arbitrary: g' res and g' res
      rule: lockdep_visit_lockdep_visit_edges.induct)
    (auto simp: Let_def split: if_splits option.splits)

lemma lockdep_sort_loop_VISITED:
  "lockdep_sort_loop fuel g nodes = Some (g', res) \<Longrightarrow> VISITED g' = VISITED g"
  by (induction fuel g nodes rule: lockdep_sort_loop.induct)
    (auto split: if_splits option.splits dest: lockdep_visit_VISITED)

lemma lockdep_graph_sort_VISITED:
  "lockdep_graph_sort g = Some (g', res) \<Longrightarrow> res \<noteq> TEE_SUCCESS \<Longrightarrow> VISITED g' = VISITED g"
  by (auto simp: lockdep_graph_sort_def split: option.splits if_splits dest: lockdep_sort_loop_VISITED)

lemma trancl_Un_target:
  assumes "(x, y) \<in> (E \<union> S \<times> {n})\<^sup>+"
  shows "(x, y) \<in> E\<^sup>+ \<or> (x, n) \<in> (E \<union> S \<times> {n})\<^sup>+ \<and> (n, y) \<in> (E \<union> S \<times> {n})\<^sup>*"
  using assms
proof (induction rule: trancl_induct)
  case (base y)
  then show ?case by auto
next
  case (step y z)
  show ?case
  proof (cases "(y, z) \<in> E")
    case True
    with step show ?thesis by (auto intro: trancl_into_trancl rtrancl_into_rtrancl)
  next
    case False
    with step(2) have "z = n" by auto
    with step(1,2) show ?thesis by (auto intro: trancl_into_trancl)
  qed
qed

lemma cycle_through_target:
  assumes "acyclic E" "\<not> acyclic (E \<union> S \<times> {n})"
  shows "(n, n) \<in> (E \<union> S \<times> {n})\<^sup>+"
proof -
  from assms(2) obtain x where x: "(x, x) \<in> (E \<union> S \<times> {n})\<^sup>+" by (auto simp: acyclic_def)
  with trancl_Un_target [OF x] assms(1) show ?thesis
    by (auto simp: acyclic_def intro: rtrancl_trancl_trancl)
qed

text \<open>The steps of an acquisition up to the sort, in one statement.\<close>

lemma lockdep_acquire_graph:
  assumes g: "lg_ok g" "ll_node ` set owned \<subseteq> set (lg_nodes g)"
    and fresh: "\<And>p. mem 0 = Some p \<Longrightarrow> p \<notin> set (lg_nodes g)"
    and a: "lockdep_add_to_graph mem 0 g i = (g1, k1, Some node)"
    and e: "lockdep_add_edges mem k1 g1 owned node st tid = (g2, k2, TEE_SUCCESS)"
  shows "lg_wf g2" "lg_clean g2" "lg_edges g2 = lg_edges g \<union> ll_node ` set owned \<times> {node}"
    "node \<in> set (lg_nodes g2)" "lid g2 node = i" "set (lg_nodes g) \<subseteq> set (lg_nodes g2)"
    "\<And>p. p \<in> set (lg_nodes g) \<Longrightarrow> lid g2 p = lid g p"
    "lg_order g2 = lg_order g \<union> set (owned_ids g owned) \<times> {i}"
proof -
  have wf: "lg_wf g" "lg_clean g" using g(1) by (simp_all add: lg_ok_def)
  note c1 = lockdep_add_to_graph_correct [OF wf fresh a]
  have o: "ll_node ` set owned \<subseteq> set (lg_nodes g1)" using g(2) c1 by auto
  note c2 = lockdep_add_edges_correct [OF _ _ o _ e]
  show r: "lg_wf g2" "lg_clean g2" "lg_edges g2 = lg_edges g \<union> ll_node ` set owned \<times> {node}"
    "node \<in> set (lg_nodes g2)" "lid g2 node = i" "set (lg_nodes g) \<subseteq> set (lg_nodes g2)"
    and lg: "\<And>p. p \<in> set (lg_nodes g) \<Longrightarrow> lid g2 p = lid g p"
    using c1 c2 by auto
  have "map_prod (lid g2) (lid g2) ` lg_edges g = map_prod (lid g) (lid g) ` lg_edges g"
    using lg lg_edges_nodes [OF wf(1)] by (intro image_cong) auto
  moreover have "map_prod (lid g2) (lid g2) ` (ll_node ` set owned \<times> {node}) = set (owned_ids g owned) \<times> {i}"
    using lg g(2) r(5) by (force simp: owned_ids_def)
  ultimately show "lg_order g2 = lg_order g \<union> set (owned_ids g owned) \<times> {i}"
    unfolding lg_order_def r(3) image_Un by simp
qed

lemma lockdep_acquire_success:
  assumes g: "lg_ok g" "ll_node ` set owned \<subseteq> set (lg_nodes g)"
    and fresh: "\<And>p. mem 0 = Some p \<Longrightarrow> p \<notin> set (lg_nodes g)"
    and r: "lockdep_lock_acquire mem g owned tid st i = Some (Ret (g', owned', TEE_SUCCESS))"
  shows "lg_ok g' \<and> lg_order g' = lg_order g \<union> set (owned_ids g owned) \<times> {i} \<and>
    owned_ids g' owned' = owned_ids g owned @ [i] \<and> ll_node ` set owned' \<subseteq> set (lg_nodes g') \<and>
    set (lg_nodes g) \<subseteq> set (lg_nodes g') \<and> (\<forall>p \<in> set (lg_nodes g). lid g' p = lid g p)"
proof -
  from r obtain g1 k1 node g2 k2 where a: "lockdep_add_to_graph mem 0 g i = (g1, k1, Some node)"
    and e: "lockdep_add_edges mem k1 g1 owned node st tid = (g2, k2, TEE_SUCCESS)"
    and so: "lockdep_graph_sort g2 = Some (g', TEE_SUCCESS)"
    and o: "owned' = owned @ [\<lparr>ll_node = node, ll_call_stack = st\<rparr>]"
    by (auto simp: lockdep_lock_acquire_def split: prod.splits option.splits if_splits outcome.splits)
  note c = lockdep_acquire_graph [OF g fresh a e]
  from lockdep_graph_sort_correct [OF c(1,2)] so have s: "lg_same g2 g'" "acyclic (lg_edges g2)" "lg_clean g'"
    by (auto split: if_splits)
  note sd = lg_sameD [OF s(1)]
  have "lg_ok g'" using s sd c(1) by (simp add: lg_ok_def)
  moreover have "owned_ids g' owned' = owned_ids g owned @ [i]"
    using g(2) c(5,7) by (auto simp: o owned_ids_def sd)
  moreover have "ll_node ` set owned' \<subseteq> set (lg_nodes g')" using g(2) c(4,6) by (auto simp: o sd)
  ultimately show ?thesis using lg_same_order(1) [OF s(1)] c(6,7,8) sd by auto
qed

lemma lockdep_acquire_total:
  assumes g: "lg_ok g" "ll_node ` set owned \<subseteq> set (lg_nodes g)"
    and fresh: "\<And>p. mem 0 = Some p \<Longrightarrow> p \<notin> set (lg_nodes g)" and m: "\<And>k. mem k \<noteq> None"
    and i: "i \<noteq> 0"
  shows "\<exists>g' owned'. lockdep_lock_acquire mem g owned tid st i = Some (Ret (g', owned',
     if acyclic (lg_order g \<union> set (owned_ids g owned) \<times> {i}) then TEE_SUCCESS else TEE_ERROR_BAD_STATE)) \<and>
     (\<not> acyclic (lg_order g \<union> set (owned_ids g owned) \<times> {i}) \<longrightarrow> owned' = owned)"
proof -
  obtain g1 k1 node where a: "lockdep_add_to_graph mem 0 g i = (g1, k1, Some node)"
    using m [of 0] that by (cases "lg_find g (lg_nodes g) i") (auto simp: lockdep_add_to_graph_def)
  obtain g2 k2 res where e: "lockdep_add_edges mem k1 g1 owned node st tid = (g2, k2, res)" by (metis prod_cases3)
  have wf: "lg_wf g" "lg_clean g" "acyclic (lg_edges g)" using g(1) by (simp_all add: lg_ok_def)
  note c1 = lockdep_add_to_graph_correct [OF wf(1,2) fresh a]
  have "ll_node ` set owned \<subseteq> set (lg_nodes g1)" using g(2) c1 by auto
  from lockdep_add_edges_correct [OF _ _ this _ e] c1 have res: "res = TEE_SUCCESS"
    by (auto simp: m split: if_splits)
  note e = e [unfolded res]
  note c = lockdep_acquire_graph [OF g fresh a e]
  have ac: "acyclic (lg_order g \<union> set (owned_ids g owned) \<times> {i}) \<longleftrightarrow> acyclic (lg_edges g2)"
    using acyclic_lg_order [OF c(1)] c(8) by simp
  from lockdep_graph_sort_correct [OF c(1,2)] obtain g3 r3 where
    s: "lockdep_graph_sort g2 = Some (g3, r3)" "lg_same g2 g3"
      "r3 = (if acyclic (lg_edges g2) then TEE_SUCCESS else TEE_ERROR_BAD_STATE)" by (auto split: if_splits)
  show ?thesis
  proof (cases "acyclic (lg_edges g2)")
    case True
    with s m a e show ?thesis by (auto simp: ac lockdep_lock_acquire_def)
  next
    case False
    note sd = lg_sameD [OF s(2)]
    have v: "VISITED g3 = {}"
      using lockdep_graph_sort_VISITED [OF s(1)] False s(3) c(2) by (auto simp: marked_def lg_clean_def)
    have "(node, node) \<in> (lg_edges g3)\<^sup>+"
      using cycle_through_target [OF wf(3), of "ll_node ` set owned" node] False
      by (simp add: sd(2) c(3))
    with lockdep_shortest_cycle_result [of g3 node mem k2] v c(1,4) m obtain g4 ps where
      "lockdep_graph_get_shortest_cycle mem k2 g3 node = Some (g4, Some (map (lid g3) ps))" "ps \<noteq> []" "hd ps = node"
      by (auto simp: sd bfs_result_def split: option.splits)
    moreover have "lid g3 node \<noteq> 0" using c(5) i sd by simp
    ultimately have "\<exists>x. lockdep_print_cycle_info mem k2 g3 node = Some (Ret x)"
      by (cases ps) (auto simp: lockdep_print_cycle_info_def)
    with s False a e show ?thesis by (auto simp: ac lockdep_lock_acquire_def)
  qed
qed


section \<open>Destroying a lock\<close>

lemma edges_drop_filter: "edges_drop node es = filter (\<lambda>e. le_to e \<noteq> node) es"
proof -
  have after: "edges_drop_after node e es = e # filter (\<lambda>e. le_to e \<noteq> node) es" for node e es
    by (induction node e es rule: edges_drop_after.induct) auto
  show ?thesis
    by (induction node es rule: edges_drop_head.induct) (auto simp: edges_drop_def after)
qed

lemma lockdep_node_destroy_correct:
  assumes "lg_ok g" "node \<in> set (lg_nodes g)" "g' = lockdep_node_destroy g node"
  shows "lg_ok g' \<and> set (lg_nodes g') = set (lg_nodes g) - {node} \<and> (\<forall>p. lid g' p = lid g p) \<and>
    lg_edges g' = {(p, q) \<in> lg_edges g. p \<noteq> node \<and> q \<noteq> node}"
proof -
  have wf: "lg_wf g" "lg_clean g" "acyclic (lg_edges g)" using assms(1) by (simp_all add: lg_ok_def)
  then have n: "set (lg_nodes g') = set (lg_nodes g) - {node}" "distinct (lg_nodes g')"
    by (simp_all add: assms(3) lockdep_node_destroy_def Let_def lg_wf_def)
  have h: "lg_heap g' p = (if p \<in> set (lg_nodes g') then
      (lg_heap g p)\<lparr>ln_edges := filter (\<lambda>e. le_to e \<noteq> node) (ln_edges (lg_heap g p))\<rparr> else lg_heap g p)" for p
    by (simp add: assms(3) lockdep_node_destroy_def Let_def edges_drop_filter)
  have l: "lid g' p = lid g p" for p by (simp add: h)
  have e: "lg_edges g' = {(p, q) \<in> lg_edges g. p \<noteq> node \<and> q \<noteq> node}"
    by (auto simp: lg_edges_def h n(1))
  have "acyclic (lg_edges g')" by (rule acyclic_subset [OF wf(3)]) (auto simp: e)
  moreover have "lg_clean g'" using wf(2) by (auto simp: lg_clean_def h n(1))
  moreover have "lg_wf g'"
    using wf(1) n(2) unfolding lg_wf_def l n(1) by (auto simp: h n(1) intro: inj_on_subset)
  ultimately show ?thesis using n(1) l e by (simp add: lg_ok_def)
qed

section \<open>Lock checking for mutexes\<close>

text \<open>\<^verbatim>\<open>core/arch/arm/kernel/mutex_lockdep.c\<close>: one graph, one queue per thread.\<close>

record mutex_lockdep =
  ml_graph :: lockdep_graph
  ml_owned :: "nat \<Rightarrow> lockdep_lock list"

definition mutex_lockdep_init :: "(addr \<Rightarrow> lockdep_node) \<Rightarrow> mutex_lockdep" where
  "mutex_lockdep_init h = \<lparr>ml_graph = \<lparr>lg_nodes = [], lg_heap = h\<rparr>, ml_owned = (\<lambda>_. [])\<rparr>"

definition mutex_lock_check ::
    "mem \<Rightarrow> call_stack \<Rightarrow> nat \<Rightarrow> u64 \<Rightarrow> mutex_lockdep \<Rightarrow> mutex_lockdep outcome option" where
  "mutex_lock_check mem st thread m s =
     (case lockdep_lock_acquire mem (ml_graph s) (ml_owned s thread) thread st m of
        None \<Rightarrow> None
      | Some (Ret (g, owned, TEE_SUCCESS)) \<Rightarrow>
          Some (Ret (s\<lparr>ml_graph := g, ml_owned := (ml_owned s)(thread := owned)\<rparr>))
      | Some _ \<Rightarrow> Some Panic)"

definition mutex_trylock_check ::
    "mem \<Rightarrow> call_stack \<Rightarrow> nat \<Rightarrow> u64 \<Rightarrow> mutex_lockdep \<Rightarrow> mutex_lockdep outcome" where
  "mutex_trylock_check mem st thread m s =
     (case lockdep_lock_tryacquire mem (ml_graph s) (ml_owned s thread) st m of
        (g, owned, TEE_SUCCESS) \<Rightarrow> Ret (s\<lparr>ml_graph := g, ml_owned := (ml_owned s)(thread := owned)\<rparr>)
      | _ \<Rightarrow> Panic)"

definition mutex_unlock_check :: "nat \<Rightarrow> u64 \<Rightarrow> mutex_lockdep \<Rightarrow> mutex_lockdep outcome" where
  "mutex_unlock_check thread m s =
     (case lockdep_lock_release (ml_graph s) (ml_owned s thread) m of
        (owned, TEE_SUCCESS) \<Rightarrow> Ret (s\<lparr>ml_owned := (ml_owned s)(thread := owned)\<rparr>)
      | _ \<Rightarrow> Panic)"

definition mutex_destroy_check :: "u64 \<Rightarrow> mutex_lockdep \<Rightarrow> mutex_lockdep" where
  "mutex_destroy_check m s = s\<lparr>ml_graph := lockdep_lock_destroy (ml_graph s) m\<rparr>"

text \<open>
  The states reachable by checks that do not panic. A thread counts as waiting from the
  blocking check until it goes on. An allocated node is not one in use; a mutex is destroyed
  only while nobody holds it or waits for it.
\<close>

inductive lockdep_reach :: "mutex_lockdep \<Rightarrow> (nat \<Rightarrow> bool) \<Rightarrow> bool" where
  init: "lockdep_reach (mutex_lockdep_init h) (\<lambda>_. False)"
| lock: "lockdep_reach s w \<Longrightarrow> (\<forall>p. mem 0 = Some p \<longrightarrow> p \<notin> set (lg_nodes (ml_graph s))) \<Longrightarrow>
    mutex_lock_check mem st t m s = Some (Ret s') \<Longrightarrow> lockdep_reach s' (w(t := True))"
| trylock: "lockdep_reach s w \<Longrightarrow> (\<forall>p. mem 0 = Some p \<longrightarrow> p \<notin> set (lg_nodes (ml_graph s))) \<Longrightarrow>
    mutex_trylock_check mem st t m s = Ret s' \<Longrightarrow> lockdep_reach s' (w(t := False))"
| unlock: "lockdep_reach s w \<Longrightarrow> mutex_unlock_check t m s = Ret s' \<Longrightarrow> lockdep_reach s' (w(t := False))"
| resume: "lockdep_reach s w \<Longrightarrow> lockdep_reach s (w(t := False))"
| destroy: "lockdep_reach s w \<Longrightarrow> (\<forall>t. m \<notin> set (owned_ids (ml_graph s) (ml_owned s t))) \<Longrightarrow>
    lockdep_reach (mutex_destroy_check m s) w"

definition ml_ids :: "mutex_lockdep \<Rightarrow> nat \<Rightarrow> u64 list" where
  "ml_ids s t = owned_ids (ml_graph s) (ml_owned s t)"

definition ml_inv :: "mutex_lockdep \<Rightarrow> (nat \<Rightarrow> bool) \<Rightarrow> bool" where
  "ml_inv s w \<longleftrightarrow> lg_ok (ml_graph s) \<and>
     (\<forall>t. ll_node ` set (ml_owned s t) \<subseteq> set (lg_nodes (ml_graph s))) \<and>
     (\<forall>t. w t \<longrightarrow> ml_ids s t \<noteq> [] \<and>
        (\<forall>h \<in> set (butlast (ml_ids s t)). (h, last (ml_ids s t)) \<in> lg_order (ml_graph s)))"

text \<open>Steps that keep the node identifiers of the locks owned keep what threads own.\<close>

lemma owned_ids_cong:
  "ll_node ` set owned \<subseteq> V \<Longrightarrow> (\<And>p. p \<in> V \<Longrightarrow> lid g' p = lid g p) \<Longrightarrow> owned_ids g' owned = owned_ids g owned"
  by (auto simp: owned_ids_def)

lemma ml_inv_lock:
  assumes i: "ml_inv s w" and fresh: "\<forall>p. mem 0 = Some p \<longrightarrow> p \<notin> set (lg_nodes (ml_graph s))"
    and e: "mutex_lock_check mem st t m s = Some (Ret s')"
  shows "ml_inv s' (w(t := True))"
proof -
  from e obtain g' owned' where r: "lockdep_lock_acquire mem (ml_graph s) (ml_owned s t) t st m =
      Some (Ret (g', owned', TEE_SUCCESS))" and s': "s' = s\<lparr>ml_graph := g', ml_owned := (ml_owned s)(t := owned')\<rparr>"
    by (auto simp: mutex_lock_check_def split: option.splits outcome.splits tee_result.splits)
  have sub: "ll_node ` set (ml_owned s u) \<subseteq> set (lg_nodes (ml_graph s))" for u using i by (simp add: ml_inv_def)
  have c: "lg_ok g'" "lg_order g' = lg_order (ml_graph s) \<union> set (ml_ids s t) \<times> {m}"
    "owned_ids g' owned' = ml_ids s t @ [m]" "ll_node ` set owned' \<subseteq> set (lg_nodes g')"
    "set (lg_nodes (ml_graph s)) \<subseteq> set (lg_nodes g')" "\<And>p. p \<in> set (lg_nodes (ml_graph s)) \<Longrightarrow> lid g' p = lid (ml_graph s) p"
    using lockdep_acquire_success [OF _ sub _ r] i fresh by (auto simp: ml_inv_def ml_ids_def)
  have ids: "ml_ids s' u = (if u = t then ml_ids s t @ [m] else ml_ids s u)" for u
    using c(3) owned_ids_cong [OF sub c(6)] by (simp add: ml_ids_def s')
  have ow: "ll_node ` set (ml_owned s' u) \<subseteq> set (lg_nodes g')" for u using sub [of u] c(4,5) by (auto simp: s')
  show ?thesis using i c(1,2) ids ow by (auto simp: ml_inv_def s')
qed

lemma ml_inv_trylock:
  assumes i: "ml_inv s w" and fresh: "\<forall>p. mem 0 = Some p \<longrightarrow> p \<notin> set (lg_nodes (ml_graph s))"
    and e: "mutex_trylock_check mem st t m s = Ret s'"
  shows "ml_inv s' (w(t := False))"
proof -
  from e obtain g' k node where r: "lockdep_add_to_graph mem 0 (ml_graph s) m = (g', k, Some node)"
    and s': "s' = s\<lparr>ml_graph := g', ml_owned := (ml_owned s)(t := ml_owned s t @ [\<lparr>ll_node = node, ll_call_stack = st\<rparr>])\<rparr>"
    by (auto simp: mutex_trylock_check_def lockdep_lock_tryacquire_def split: option.splits prod.splits if_splits)
  have sub: "ll_node ` set (ml_owned s u) \<subseteq> set (lg_nodes (ml_graph s))" for u using i by (simp add: ml_inv_def)
  have ok: "lg_wf (ml_graph s)" "lg_clean (ml_graph s)" using i by (simp_all add: ml_inv_def lg_ok_def)
  have c: "lg_wf g'" "lg_clean g'" "node \<in> set (lg_nodes g')" "lg_edges g' = lg_edges (ml_graph s)"
    "set (lg_nodes (ml_graph s)) \<subseteq> set (lg_nodes g')" "\<And>p. p \<in> set (lg_nodes (ml_graph s)) \<Longrightarrow> lid g' p = lid (ml_graph s) p"
    using lockdep_add_to_graph_correct [OF ok _ r] fresh by auto
  have ord: "lg_order g' = lg_order (ml_graph s)"
    unfolding lg_order_def c(4) using c(6) lg_edges_nodes [OF ok(1)] by (intro image_cong) auto
  have ids: "ml_ids s' u = ml_ids s u" if "u \<noteq> t" for u
    using owned_ids_cong [OF sub c(6)] that by (simp add: ml_ids_def s')
  have ow: "ll_node ` set (ml_owned s' u) \<subseteq> set (lg_nodes g')" for u using sub [of u] c(3,5) by (auto simp: s')
  have "lg_ok g'" using c(1,2,4) i by (simp add: lg_ok_def ml_inv_def)
  then show ?thesis using i ids ow ord by (auto simp: ml_inv_def s')
qed

text \<open>Releasing removes the lock acquired last under the identifier.\<close>

lemma lockdep_lock_release_correct:
  assumes "lockdep_lock_release g owned i = (owned', res)"
  shows "if i \<in> set (owned_ids g owned)
    then res = TEE_SUCCESS \<and> (\<exists>xs l ys. owned = xs @ l # ys \<and> lid g (ll_node l) = i \<and>
           i \<notin> set (owned_ids g ys) \<and> owned' = xs @ ys)
    else res = TEE_ERROR_ITEM_NOT_FOUND \<and> owned' = owned"
proof (cases "i \<in> set (owned_ids g owned)")
  case True
  then obtain l where "l \<in> set owned" "lid g (ll_node l) = i" by (auto simp: owned_ids_def)
  with split_list_last_prop [of owned "\<lambda>l. lid g (ll_node l) = i"] obtain xs l ys where
    s: "owned = xs @ l # ys" "lid g (ll_node l) = i" "\<forall>y \<in> set ys. lid g (ll_node y) \<noteq> i" by auto
  let ?P = "\<lambda>l. \<not> lid g (ll_node l) = i"
  have t: "takeWhile ?P (rev owned) = rev ys" "dropWhile ?P (rev owned) = l # rev xs"
    using s(2,3) takeWhile_append2 [of "rev ys" ?P "l # rev xs"] dropWhile_append2 [of "rev ys" ?P "l # rev xs"]
    by (simp_all add: s(1))
  have "owned' = xs @ ys" "res = TEE_SUCCESS"
    using assms True s(1,2) unfolding lockdep_lock_release_def Let_def t by auto
  moreover have "i \<notin> set (owned_ids g ys)" using s(3) by (auto simp: owned_ids_def)
  ultimately have "\<exists>xs l ys. owned = xs @ l # ys \<and> lid g (ll_node l) = i \<and>
      i \<notin> set (owned_ids g ys) \<and> owned' = xs @ ys" using s(1,2) by blast
  with True \<open>res = TEE_SUCCESS\<close> show ?thesis by simp
next
  case False
  then have "\<not> (\<exists>l \<in> set owned. lid g (ll_node l) = i)" by (auto simp: owned_ids_def)
  with assms have "res = TEE_ERROR_ITEM_NOT_FOUND" "owned' = owned"
    unfolding lockdep_lock_release_def Let_def by simp_all
  with False show ?thesis by simp
qed

lemma ml_inv_unlock:
  assumes i: "ml_inv s w" and e: "mutex_unlock_check t m s = Ret s'"
  shows "ml_inv s' (w(t := False))"
proof -
  from e obtain owned' where r: "lockdep_lock_release (ml_graph s) (ml_owned s t) m = (owned', TEE_SUCCESS)"
    and s': "s' = s\<lparr>ml_owned := (ml_owned s)(t := owned')\<rparr>"
    by (auto simp: mutex_unlock_check_def split: prod.splits tee_result.splits)
  have "set owned' \<subseteq> set (ml_owned s t)"
    using lockdep_lock_release_correct [OF r] by (auto split: if_splits)
  with i show ?thesis by (auto simp: ml_inv_def s' ml_ids_def)
qed

lemma ml_inv_destroy:
  assumes i: "ml_inv s w" and n: "\<forall>t. m \<notin> set (owned_ids (ml_graph s) (ml_owned s t))"
  shows "ml_inv (mutex_destroy_check m s) w"
proof (cases "lg_find (ml_graph s) (lg_nodes (ml_graph s)) m")
  case None
  with i show ?thesis by (simp add: mutex_destroy_check_def lockdep_lock_destroy_def)
next
  case (Some node)
  let ?g = "ml_graph s" and ?g' = "lockdep_node_destroy (ml_graph s) node"
  have f: "node \<in> set (lg_nodes ?g)" "lid ?g node = m" using lg_find_Some [OF Some] by auto
  have ok: "lg_ok ?g" using i by (simp add: ml_inv_def)
  have sub: "ll_node ` set (ml_owned s u) \<subseteq> set (lg_nodes (ml_graph s))" for u using i by (simp add: ml_inv_def)
  have d: "lg_ok ?g'" "set (lg_nodes ?g') = set (lg_nodes ?g) - {node}" "\<And>p. lid ?g' p = lid ?g p"
    "lg_edges ?g' = {(p, q) \<in> lg_edges ?g. p \<noteq> node \<and> q \<noteq> node}"
    using lockdep_node_destroy_correct [OF ok f(1) refl] by auto
  have ids: "ml_ids (mutex_destroy_check m s) t = ml_ids s t" for t
    by (simp add: ml_ids_def owned_ids_def mutex_destroy_check_def lockdep_lock_destroy_def Some d(3))
  have ow: "node \<notin> ll_node ` set (ml_owned s t)" for t using n f(2) by (force simp: owned_ids_def)
  have ord: "(a, b) \<in> lg_order ?g'" if "(a, b) \<in> lg_order ?g" "a \<noteq> m" "b \<noteq> m" for a b
    using that f(2) unfolding lg_order_def d(4) by (force simp: d(3))
  have inb: "x \<noteq> m" if "x \<in> set (ml_ids s t)" for x t using n that by (auto simp: ml_ids_def)
  show ?thesis unfolding ml_inv_def ids
  proof (intro conjI allI impI ballI)
    show "lg_ok (ml_graph (mutex_destroy_check m s))" 
      using d(1) by (simp add: mutex_destroy_check_def lockdep_lock_destroy_def Some)
    show "ll_node ` set (ml_owned (mutex_destroy_check m s) t) \<subseteq> set (lg_nodes (ml_graph (mutex_destroy_check m s)))" for t
      using sub [of t] ow [of t] d(2) by (auto simp: mutex_destroy_check_def lockdep_lock_destroy_def Some)
    fix t assume w: "w t"
    with i show ne: "ml_ids s t \<noteq> []" by (simp add: ml_inv_def)
    fix h assume h: "h \<in> set (butlast (ml_ids s t))"
    with i w have "(h, last (ml_ids s t)) \<in> lg_order ?g" by (simp add: ml_inv_def)
    with ord inb [of h t] inb [of "last (ml_ids s t)" t] h ne
    show "(h, last (ml_ids s t)) \<in> lg_order (ml_graph (mutex_destroy_check m s))"
      by (auto simp: mutex_destroy_check_def lockdep_lock_destroy_def Some dest: in_set_butlastD)
  qed
qed

lemma lockdep_reach_inv: "lockdep_reach s w \<Longrightarrow> ml_inv s w"
proof (induction rule: lockdep_reach.induct)
  case (init h)
  then show ?case
    by (simp add: ml_inv_def mutex_lockdep_init_def lg_ok_def lg_wf_def lg_clean_def lg_edges_def acyclic_def)
next
  case (resume s w t)
  then show ?case by (auto simp: ml_inv_def)
qed (blast intro: ml_inv_lock ml_inv_trylock ml_inv_unlock ml_inv_destroy)+

section \<open>Properties\<close>

text \<open>For the witnesses: a lock acquired while it is already held, and the first lock of a thread.\<close>

definition lockdep_demo_graph :: lockdep_graph where
  "lockdep_demo_graph = \<lparr>lg_nodes = [5], lg_heap = (\<lambda>_. \<lparr>ln_lock_id = 7,
     ln_edges = [\<lparr>le_to = 5, le_thread_id = 0, le_call_stack_from = None, le_call_stack_to = None\<rparr>],
     ln_flags = 0\<rparr>)\<rparr>"

definition lockdep_demo_start :: lockdep_graph where
  "lockdep_demo_start = \<lparr>lg_nodes = [5], lg_heap = (\<lambda>_. \<lparr>ln_lock_id = 7, ln_edges = [], ln_flags = 0\<rparr>)\<rparr>"

definition lockdep_demo :: mutex_lockdep where
  "lockdep_demo = \<lparr>ml_graph = \<lparr>lg_nodes = [5], lg_heap = (\<lambda>_. \<lparr>ln_lock_id = 7, ln_edges = [], ln_flags = 0\<rparr>)\<rparr>,
     ml_owned = (\<lambda>_. [])(0 := [\<lparr>ll_node = 5, ll_call_stack = None\<rparr>])\<rparr>"

lemma lockdep_demo_edges: "lg_edges lockdep_demo_graph = {(5, 5)}" "lg_edges lockdep_demo_start = {}"
  by (auto simp: lockdep_demo_graph_def lockdep_demo_start_def lg_edges_def)

lemma lockdep_demo_wf: "lg_wf lockdep_demo_graph" "lg_clean lockdep_demo_graph" "VISITED lockdep_demo_graph = {}"
  "lg_ok lockdep_demo_start"
  using lockdep_demo_edges(2)
  by (auto simp: lockdep_demo_graph_def lockdep_demo_start_def lg_wf_def lg_clean_def lg_ok_def marked_def acyclic_def)

lemma lockdep_reach_demo: "lockdep_reach lockdep_demo ((\<lambda>_. False)(0 := True))"
proof (rule lockdep_reach.lock [OF lockdep_reach.init])
  let ?s = "mutex_lockdep_init (\<lambda>_. \<lparr>ln_lock_id = 7, ln_edges = [], ln_flags = 0\<rparr>)"
  show "mutex_lock_check (\<lambda>_. Some 5) None 0 7 ?s = Some (Ret lockdep_demo)"
    by (simp add: mutex_lock_check_def mutex_lockdep_init_def lockdep_lock_acquire_def lockdep_add_to_graph_def
        lockdep_graph_sort_def lg_flag_def lg_set_def lg_clear_flags_def lockdep_demo_def mark_defs fun_eq_iff)
  show "\<forall>p. Some 5 = Some p \<longrightarrow> p \<notin> set (lg_nodes (ml_graph ?s))" by (simp add: mutex_lockdep_init_def)
qed

text \<open>
  C32. The search for the shortest cycle. On a well formed graph without search marks it
  returns within its fuel, and only changes flags. A path it returns is a cycle through the
  given node, following edges and closed by an edge back, and no cycle through the node is
  shorter; if it returns none, then no cycle through the node exists or an allocation failed.
\<close>

theorem lockdep_shortest_cycle:
  assumes "lg_wf g" "node \<in> set (lg_nodes g)" "VISITED g = {}"
  shows "\<exists>g' ret. lockdep_graph_get_shortest_cycle mem k g node = Some (g', ret) \<and> lg_same g g' \<and>
     (case ret of
        Some path \<Rightarrow> (\<exists>ps. path = map (lid g) ps \<and> ps \<noteq> [] \<and> hd ps = node \<and> (last ps, node) \<in> lg_edges g \<and>
            successively (\<lambda>a b. (a, b) \<in> lg_edges g) ps) \<and>
          (\<forall>n. 0 < n \<and> n < length path \<longrightarrow> (node, node) \<notin> lg_edges g ^^ n)
      | None \<Rightarrow> (node, node) \<notin> (lg_edges g)\<^sup>+ \<or> (\<exists>i \<ge> k. mem i = None))"
  using lockdep_shortest_cycle_result [OF assms, of mem k] by (simp add: bfs_result_def)

text \<open>
  C5. No circular wait. Threads whose blocking lock checks are all accepted (and whose trylocks,
  unlocks and destructions are checked too) never wait for each other in a circle, where a
  thread waits for another if it is in a blocking lock call on a mutex that the other
  acquired, or was about to acquire, before it started to wait itself.
\<close>

theorem lockdep_no_circular_wait:
  assumes "lockdep_reach s w"
  shows "acyclic {(t, t'). w t \<and> w t' \<and> last (ml_ids s t) \<in> set (butlast (ml_ids s t'))}"
proof (rule acyclicI, safe)
  let ?W = "{(t, t'). w t \<and> w t' \<and> last (ml_ids s t) \<in> set (butlast (ml_ids s t'))}"
  have i: "ml_inv s w" by (rule lockdep_reach_inv [OF assms])
  have e: "(last (ml_ids s t), last (ml_ids s t')) \<in> (lg_order (ml_graph s))\<^sup>+" if "(t, t') \<in> ?W\<^sup>+" for t t'
    using that
  proof (induction rule: trancl_induct)
    case (base t')
    with i show ?case by (auto simp: ml_inv_def intro!: r_into_trancl)
  next
    case (step t' t'')
    with i have "(last (ml_ids s t'), last (ml_ids s t'')) \<in> lg_order (ml_graph s)" by (auto simp: ml_inv_def)
    with step(3) show ?case by (rule trancl_into_trancl)
  qed
  fix t assume "(t, t) \<in> ?W\<^sup>+"
  from e [OF this] i show False
    using acyclic_lg_order [of "ml_graph s"] by (auto simp: ml_inv_def lg_ok_def acyclic_def)
qed

text \<open>
  C27. Acquiring a lock while allocations succeed: the call returns; it succeeds exactly if the
  recorded lock order stays acyclic with an edge from every owned lock to the new one, then
  records exactly these edges and appends the lock to those owned; otherwise it reports
  \<^verbatim>\<open>TEE_ERROR_BAD_STATE\<close> and the lock is not owned.
\<close>

theorem lockdep_acquire_correct:
  assumes "lg_ok g" "ll_node ` set owned \<subseteq> set (lg_nodes g)" "\<forall>k. mem k \<noteq> None"
    "\<forall>p. mem 0 = Some p \<longrightarrow> p \<notin> set (lg_nodes g)" "lock_id \<noteq> 0"
  shows "\<exists>g' owned' res. lockdep_lock_acquire mem g owned tid st lock_id = Some (Ret (g', owned', res)) \<and>
    (if acyclic (lg_order g \<union> set (owned_ids g owned) \<times> {lock_id})
     then res = TEE_SUCCESS \<and> lg_ok g' \<and> lg_order g' = lg_order g \<union> set (owned_ids g owned) \<times> {lock_id} \<and>
       owned_ids g' owned' = owned_ids g owned @ [lock_id]
     else res = TEE_ERROR_BAD_STATE \<and> owned' = owned)"
proof -
  from lockdep_acquire_total [OF assms(1,2) _ _ assms(5), of mem tid st] assms(3,4) obtain g' owned' where
    r: "lockdep_lock_acquire mem g owned tid st lock_id = Some (Ret (g', owned',
     if acyclic (lg_order g \<union> set (owned_ids g owned) \<times> {lock_id}) then TEE_SUCCESS else TEE_ERROR_BAD_STATE))"
    "\<not> acyclic (lg_order g \<union> set (owned_ids g owned) \<times> {lock_id}) \<longrightarrow> owned' = owned" by auto
  with lockdep_acquire_success [OF assms(1,2), of mem tid st lock_id g' owned'] assms(4) show ?thesis
    by (cases "acyclic (lg_order g \<union> set (owned_ids g owned) \<times> {lock_id})") auto
qed

text \<open>
  C31. The depth-first sort: on a well formed graph without marks it returns, changes nothing but
  flags, and reports success exactly if the graph has no cycle, with all flags cleared.
\<close>

theorem lockdep_sort_acyclic:
  assumes "lg_wf g" "lg_clean g"
  shows "\<exists>g' res. lockdep_graph_sort g = Some (g', res) \<and> lg_same g g' \<and>
    (if acyclic (lg_edges g) then res = TEE_SUCCESS \<and> lg_clean g' else res = TEE_ERROR_BAD_STATE)"
  by (rule lockdep_graph_sort_correct [OF assms])


theorem lockdep_shortest_cycle_witness:
  "\<exists>g' path. lockdep_graph_get_shortest_cycle (\<lambda>_. Some 0) 0 lockdep_demo_graph 5 = Some (g', Some path)"
proof -
  have n: "5 \<in> set (lg_nodes lockdep_demo_graph)" by (simp add: lockdep_demo_graph_def)
  have "(5, 5) \<in> (lg_edges lockdep_demo_graph)\<^sup>+" by (simp add: lockdep_demo_edges)
  with lockdep_shortest_cycle [OF lockdep_demo_wf(1) n lockdep_demo_wf(3), of "\<lambda>_. Some 0" 0] show ?thesis
    by (auto split: option.splits)
qed

theorem lockdep_no_circular_wait_witness:
  "lockdep_reach lockdep_demo ((\<lambda>_. False)(0 := True)) \<and>
   acyclic {(t, t'). ((\<lambda>_. False)(0 := True)) t \<and> ((\<lambda>_. False)(0 := True)) t' \<and>
     last (ml_ids lockdep_demo t) \<in> set (butlast (ml_ids lockdep_demo t'))}"
  using lockdep_no_circular_wait [OF lockdep_reach_demo] lockdep_reach_demo by (rule conjI [rotated])

theorem lockdep_acquire_correct_witness:
  "\<exists>g'. lockdep_lock_acquire (\<lambda>_. Some 6) lockdep_demo_start [\<lparr>ll_node = 5, ll_call_stack = None\<rparr>] 0 None 7 =
     Some (Ret (g', [\<lparr>ll_node = 5, ll_call_stack = None\<rparr>], TEE_ERROR_BAD_STATE))"
proof -
  let ?o = "[\<lparr>ll_node = 5, ll_call_stack = None\<rparr>]"
  have "(7, 7) \<in> lg_order lockdep_demo_start \<union> set (owned_ids lockdep_demo_start ?o) \<times> {7}"
    by (simp add: owned_ids_def lockdep_demo_start_def)
  then have "\<not> acyclic (lg_order lockdep_demo_start \<union> set (owned_ids lockdep_demo_start ?o) \<times> {7})"
    unfolding acyclic_def by (blast intro: r_into_trancl)
  with lockdep_acquire_correct [OF lockdep_demo_wf(4), of ?o "\<lambda>_. Some 6" 7 0 None] show ?thesis
    by (auto simp: lockdep_demo_start_def)
qed

theorem lockdep_sort_acyclic_witness:
  "\<exists>g'. lockdep_graph_sort lockdep_demo_graph = Some (g', TEE_ERROR_BAD_STATE)"
  using lockdep_sort_acyclic [OF lockdep_demo_wf(1,2)]
  by (auto simp: lockdep_demo_edges acyclic_def split: if_splits)

end
