(* ===== verification/Spec2Isabelle.thy ===== *)
theory Spec2Isabelle
  imports Pkcs11_Safe Entry_Std Storage_Top Handle_Db Tee_Mm Mutex Lockdep
begin

text \<open>
  \<^bold>\<open>OP-TEE OS: the services of the core and the PKCS\#11 trusted application.\<close>

  OP-TEE is the operating system of the secure world of an Arm processor. The normal world sends it
  messages (\<^verbatim>\<open>core/arch/arm/tee/entry_std.c\<close>): open and close sessions of trusted applications, invoke and
  cancel commands, register and unregister shared memory. The TA manager
  (\<^verbatim>\<open>core/kernel/tee_ta_manager.c\<close>) keeps sessions and the contexts of applications, on top of mutexes,
  condition variables, reference counters and memory pools. Applications keep persistent objects through system calls
  (\<^verbatim>\<open>core/tee/tee_svc_storage.c\<close>). The PKCS\#11 application (\<^verbatim>\<open>ta/pkcs11\<close>) is the
  largest application of the tree; it keeps clients, sessions and tokens with PINs.

  \<^bold>\<open>Theories and sources.\<close>

  \<^item> \<open>Prelude\<close>: machine types, results (\<open>tee_result\<close>), the ways in which a call ends (\<open>outcome\<close>: returns or
    panics; \<open>call\<close>: or waits for ever), lemmas on words and lists.
  \<^item> \<open>Refcount\<close>: \<^verbatim>\<open>core/kernel/refcount.c\<close>. The compare-and-swap loops under any interleaving refine the
    atomic contract \<open>rc_atomic\<close>, which the theories above use.
  \<^item> \<open>Wait_Queue\<close>, \<open>Mutex\<close>: \<^verbatim>\<open>core/arch/arm/kernel/wait_queue.c\<close> and \<^verbatim>\<open>mutex.c\<close>. Steps of any number of threads;
    mutual exclusion, no panic, no lost wake-up.
  \<^item> \<open>Lockdep\<close>: \<^verbatim>\<open>core/kernel/lockdep.c\<close>, \<^verbatim>\<open>core/arch/arm/kernel/mutex_lockdep.c\<close>. The checks accept exactly
    acyclic lock orders; accepted threads never wait in a circle.
  \<^item> \<open>Tee_Mm\<close>: \<^verbatim>\<open>core/arch/arm/mm/tee_mm.c\<close>. Allocated ranges are disjoint and inside the pool, allocation
    succeeds exactly if a gap is large enough, within the sizes for which the arithmetic does not wrap.
  \<^item> \<open>Handle_Db\<close>: \<^verbatim>\<open>core/kernel/handle.c\<close> and \<^verbatim>\<open>ta/pkcs11/src/handle.c\<close>, both interpretations of the locale
    \<open>handle_table\<close>, which gives the refinement of an abstract map.
  \<^item> \<open>Ta_Busy\<close>, \<open>Ta_Session\<close>: the busy flag, the single-instance lock and sessions of the TA manager, with
    threads that interleave at each \<^verbatim>\<open>condvar_wait\<close>.
  \<^item> \<open>Ta_Manager\<close>: contexts and sessions together, with \<^verbatim>\<open>user_ta.c\<close>, \<^verbatim>\<open>pseudo_ta.c\<close>, the system calls of
    \<^verbatim>\<open>core/tee/tee_svc.c\<close> and the entry points. \<open>Ta_Manager_Inv\<close>, \<open>Ta_Manager_Close\<close>, \<open>Ta_Manager_Invoke\<close> and
    \<open>Ta_Manager_Open\<close> hold the invariant and its preservation, \<open>Ta_Manager_Safe\<close> the state machine of requests.
  \<^item> \<open>Reg_Shm\<close>: \<^verbatim>\<open>core/arch/arm/mm/mobj_dyn_shm.c\<close>, \<^verbatim>\<open>mobj_get\<close> and \<^verbatim>\<open>mobj_put\<close>: registered shared memory, its
    references, release by cookie and mapping on demand.
  \<^item> \<open>Msg_Param\<close>: \<^verbatim>\<open>core/kernel/msg_param.c\<close>: lists of pages, equivalent to a definition by index.
  \<^item> \<open>Entry_Params\<close>: copying parameters in and out, \<^verbatim>\<open>entry_std.c\<close>: accepted memory parameters lie in memory of
    the normal world, byte by byte; types are those of the message.
  \<^item> \<open>Entry_Refs\<close>: references taken by a message are those given back. The locale \<open>params_client\<close> states what the
    clean-up relies on; \<open>Entry_Std\<close> interprets it for opening and for invoking.
  \<^item> \<open>Entry_Std\<close>: \<^verbatim>\<open>tee_entry_std\<close> as a whole, over the TA manager and the shared memory: the invariant of both
    after any sequence of messages, and that each message is answered.
  \<^item> \<open>Storage_Obj\<close>: \<^verbatim>\<open>core/tee/tee_pobj.c\<close>, \<^verbatim>\<open>tee_obj.c\<close> and the system calls of \<^verbatim>\<open>tee_svc_storage.c\<close>: persistent
    objects that applications open, create, rename, delete, read and write through handles, and enumerators; the
    calls of the file systems are logged. \<open>Storage_Safe\<close> and \<open>Storage_Calls\<close> hold the invariant and that every call keeps it,
    \<open>Storage_Top\<close> what follows for any sequence of requests of any applications: exact reference counts, compatible
    handles, files of an application used by that application only, and the one request that stops the core.
  \<^item> \<open>Pkcs11_Args\<close>, \<open>Pkcs11_Pin\<close>, \<open>Pkcs11_Ta\<close>: argument parsing, tokens and PINs (the locale \<open>retry_lock\<close> is the
    contract of both PIN checks), and all commands of \<^verbatim>\<open>ta/pkcs11/src\<close>. \<open>Pkcs11_Inv\<close>, \<open>Pkcs11_Cmd\<close> and
    \<open>Pkcs11_Safe\<close> hold the invariant, what each command keeps, and the state machine with restarts: logins need the
    right PIN, guesses are limited, clients are isolated, commands return.

  \<^bold>\<open>How state and effects correspond.\<close> A structure is a record, a list of structures is a list of
  addresses with a heap from addresses to records, and integers are words of their width; reference counts of
  sessions and contexts, which are bounded by the few threads and sessions, are natural numbers. A function is a
  definition on the state that returns the new one. Sections under a spin lock or between two waits under a mutex
  take effect at once; where threads interleave, their steps are an inductive relation or a function of the
  scheduled thread, and the properties are proved by induction on runs. Panics and failing assertions are results, and so
  are reads past an array in \<open>Entry_Params\<close> (\<open>None\<close>).

  \<^bold>\<open>Bounds.\<close> Recursions of the code that are not structural have fuel where a graph or a chain of contexts is
  followed: one more than the nodes for the sort of \<open>Lockdep\<close>, one more than the sessions for new identifiers and for closing
  contexts that close sessions of others. The theorems state that the result is not the one for exhausted fuel, so the bounds
  are enough. Counters of references to shared memory are 32-bit words; \<open>refs_room\<close> asks for room for four more.

  \<^bold>\<open>Parameters of the model.\<close> The heap (whether an allocation succeeds and an address not in use), the
  memory map, page tables, the memory of the normal world, time, the behaviour of applications (their results, whether
  they panic, what they leave in their parameters), the file systems of secure storage, digests and the random generator are fields of
  environments. The hypotheses on them are named: \<open>shm_env_ok\<close>, \<open>st_env_ok\<close>, \<open>env_ok\<close>, \<open>req_ok\<close>, \<open>msg_ok\<close> and those of the PKCS\#11
  theories. The configuration is a 64-bit build with \<^verbatim>\<open>CFG_CORE_DYN_SHM\<close>, \<^verbatim>\<open>CFG_CORE_RESERVED_SHM\<close>, \<^verbatim>\<open>CFG_REE_FS\<close> and \<^verbatim>\<open>CFG_RPMB_FS\<close>, without
  \<^verbatim>\<open>CFG_SECURE_DATA_PATH\<close> and \<^verbatim>\<open>CFG_CONCURRENT_SINGLE_INSTANCE_TA\<close>.

  \<^bold>\<open>What does not hold.\<close> Some properties state where the code fails: mappings of shared memory leak
  and can be removed under another thread (\<open>mobj_dec_map\<close>), messages with too many parameters make the clean-up read past an array,
  temporary lists of pages leak, opening a session of a panicked context never returns, the single-instance lock can
  deadlock with a context that is being initialized, timeouts lose the carry, pools of 4 GiB are overrun, an enumerator whose start failed stops the core, objects cannot be opened
  beside the handle from their creation, data positions wrap, and a login as
  security officer to a fresh token stops the PKCS\#11 application. The other properties are proved around these cases: their
  hypotheses exclude exactly them.

  \<^bold>\<open>Not modelled.\<close> The file systems of secure storage, cryptography and the vendored libraries (their contracts are
  parameters); page tables, the pager, threads, interrupts, boot, drivers and platforms (assembly and device
  registers); the loader of application images; system calls other than those to the TA manager and for persistent objects; the SCMI server, the pseudo
  applications, the other applications and the library for applications. In \<^verbatim>\<open>entry_std.c\<close> the additions
  \<^verbatim>\<open>enigma_entry\<close> and its replay of device accesses are left out.
\<close>

end
